(* ===== verification/Prelude.thy ===== *)
theory Prelude
  imports Main "HOL-Library.Word" "HOL-Library.Sublist"
begin

text \<open>
  Shared vocabulary of the development: the Go integer widths as words, Go strings as byte
  lists (\<open>char\<close> is a byte), the ASCII case folding of \<open>trigram_index.go\<close>, and the generic
  lemmas on lists, strictly sorted lists and contiguous sublists used by several components.
\<close>

unbundle bit_operations_syntax

type_synonym u8 = "8 word"
type_synonym u16 = "16 word"
type_synonym u32 = "32 word"
type_synonym u64 = "64 word"
type_synonym bytes = "8 word list"

type_synonym i64 = int

text \<open>Signed 64-bit wrap-around of Go's \<open>int\<close>.\<close>

definition wrap64 :: "int \<Rightarrow> i64" where
  "wrap64 x = (x + 2 ^ 63) mod 2 ^ 64 - 2 ^ 63"

named_theorems go_simps \<open>unfolding rules for the Go standard-library operations of the model\<close>

section \<open>ASCII folding\<close>

definition foldASCII :: "char \<Rightarrow> char" where
  "foldASCII b =
     (if 65 \<le> (of_char b :: nat) \<and> of_char b \<le> (90 :: nat)
      then char_of (of_char b + 32 :: nat) else b)"

text \<open>\<open>strings.ToLower\<close> on a string of ASCII bytes folds every byte.\<close>

definition lowerASCII :: "string \<Rightarrow> string" where
  "lowerASCII s = map foldASCII s"

definition isASCII :: "string \<Rightarrow> bool" where
  "isASCII s \<longleftrightarrow> list_all (\<lambda>c. of_char c < (128 :: nat)) s"

lemma foldASCII_idem [simp]: "foldASCII (foldASCII b) = foldASCII b"
proof (cases "65 \<le> (of_char b :: nat) \<and> of_char b \<le> (90 :: nat)")
  case True
  then have "of_char (foldASCII b) = (of_char b + 32 :: nat)"
    by (simp add: foldASCII_def)
  with True show ?thesis
    by (simp add: foldASCII_def [of "foldASCII b"])
next
  case False
  then have "foldASCII b = b" by (auto simp: foldASCII_def)
  then show ?thesis by simp
qed

lemma lowerASCII_idem [simp]: "lowerASCII (lowerASCII s) = lowerASCII s"
  by (simp add: lowerASCII_def)

lemma length_lowerASCII [simp]: "length (lowerASCII s) = length s"
  by (simp add: lowerASCII_def)

lemma lowerASCII_Nil [simp]: "lowerASCII [] = []"
  by (simp add: lowerASCII_def)

lemma lowerASCII_append: "lowerASCII (u @ v) = lowerASCII u @ lowerASCII v"
  by (simp add: lowerASCII_def)

section \<open>Contiguous sublists\<close>

lemma sublist_map: "sublist xs ys \<Longrightarrow> sublist (map f xs) (map f ys)"
  unfolding sublist_def by (metis map_append)

lemma sublist_lowerASCII: "sublist xs ys \<Longrightarrow> sublist (lowerASCII xs) (lowerASCII ys)"
  by (simp add: lowerASCII_def sublist_map)

lemma sublist_append_left: "sublist xs ys \<Longrightarrow> sublist xs (ys @ vs)"
  by (metis append_Nil sublist_appendI sublist_order.order.trans)

lemma sublist_mid [intro]: "sublist xs ys \<Longrightarrow> sublist xs (us @ ys @ vs)"
  by (metis sublist_appendI sublist_order.order.trans)

section \<open>\<open>sort.Search\<close>\<close>

text \<open>The binary search of Go's \<open>sort\<close> package: the smallest index in \<open>[i, j)\<close> where the
  monotone predicate \<open>f\<close> holds, or \<open>j\<close>.\<close>

function searchFrom :: "(nat \<Rightarrow> bool) \<Rightarrow> nat \<Rightarrow> nat \<Rightarrow> nat" where
  "searchFrom f i j =
     (if i < j
      then (let h = (i + j) div 2 in if \<not> f h then searchFrom f (h + 1) j else searchFrom f i h)
      else i)"
  by pat_completeness auto
termination
  by (relation "measure (\<lambda>(f, i, j). j - i)") auto

declare searchFrom.simps [simp del]

definition sortSearch :: "nat \<Rightarrow> (nat \<Rightarrow> bool) \<Rightarrow> nat" where
  "sortSearch n f = searchFrom f 0 n"

definition monoUpTo :: "(nat \<Rightarrow> bool) \<Rightarrow> nat \<Rightarrow> bool" where
  "monoUpTo f n \<longleftrightarrow> (\<forall>a b. a \<le> b \<and> b < n \<and> f a \<longrightarrow> f b)"

lemma monoUpToD: "monoUpTo f n \<Longrightarrow> a \<le> b \<Longrightarrow> b < n \<Longrightarrow> f a \<Longrightarrow> f b"
  by (auto simp: monoUpTo_def)

lemma searchFrom_correct:
  assumes "i \<le> j" "monoUpTo f j"
  shows "i \<le> searchFrom f i j \<and> searchFrom f i j \<le> j \<and>
    (\<forall>k. i \<le> k \<and> k < searchFrom f i j \<longrightarrow> \<not> f k) \<and>
    (\<forall>k. searchFrom f i j \<le> k \<and> k < j \<longrightarrow> f k)"
  using assms
proof (induction f i j rule: searchFrom.induct)
  case (1 f i j)
  define h where "h = (i + j) div 2"
  show ?case
  proof (cases "i < j")
    case True
    then have h: "i \<le> h" "h < j" by (auto simp: h_def)
    have eq: "searchFrom f i j = (if \<not> f h then searchFrom f (h + 1) j else searchFrom f i h)"
      using True by (subst searchFrom.simps) (simp add: h_def Let_def)
    show ?thesis
    proof (cases "f h")
      case False
      have "h + 1 \<le> j" using h by simp
      with 1(1) [OF True h_def False _ 1(4)]
      have IH: "h + 1 \<le> searchFrom f (h + 1) j" "searchFrom f (h + 1) j \<le> j"
        "\<forall>k. h + 1 \<le> k \<and> k < searchFrom f (h + 1) j \<longrightarrow> \<not> f k"
        "\<forall>k. searchFrom f (h + 1) j \<le> k \<and> k < j \<longrightarrow> f k" by blast+
      have low: "\<not> f k" if "k < h + 1" for k
        using monoUpToD [OF 1(4), of k h] h False that by auto
      have "\<not> f k" if "k < searchFrom f (h + 1) j" for k
        using IH(3) low that by (meson not_le)
      moreover have "i \<le> searchFrom f (h + 1) j" using IH(1) h(1) by linarith
      ultimately show ?thesis using IH(2,4) eq False by simp
    next
      case fh: True
      have "monoUpTo f h" using 1(4) h by (auto simp: monoUpTo_def)
      with 1(2) [OF True h_def _ h(1)] fh 
      have IH: "i \<le> searchFrom f i h" "searchFrom f i h \<le> h"
        "\<forall>k. i \<le> k \<and> k < searchFrom f i h \<longrightarrow> \<not> f k"
        "\<forall>k. searchFrom f i h \<le> k \<and> k < h \<longrightarrow> f k" by auto
      have up: "f k" if "h \<le> k" "k < j" for k
        using monoUpToD [OF 1(4), of h k] fh that by auto
      have "f k" if "searchFrom f i h \<le> k" "k < j" for k
        using IH(4) up that by (cases "k < h") auto
      with IH h eq fh show ?thesis by simp
    qed
  next
    case False
    then show ?thesis using 1(3) by (subst (1 2 3 4) searchFrom.simps) auto
  qed
qed

lemma sortSearch_iff: "monoUpTo f n \<Longrightarrow> k < n \<Longrightarrow> f k \<longleftrightarrow> sortSearch n f \<le> k"
  using searchFrom_correct [of 0 n f] unfolding sortSearch_def by (metis le0 linorder_not_le)

lemma sortSearch_le: "monoUpTo f n \<Longrightarrow> sortSearch n f \<le> n"
  using searchFrom_correct [of 0 n f] unfolding sortSearch_def by auto

lemma searchFrom_cong: "(\<And>k. k < j \<Longrightarrow> f k = g k) \<Longrightarrow> searchFrom f i j = searchFrom g i j"
proof (induction f i j rule: searchFrom.induct)
  case (1 f i j)
  show ?case
  proof (cases "i < j")
    case True
    then have "(i + j) div 2 < j" by simp
    then show ?thesis using True 1
      by (subst (1 2) searchFrom.simps) (simp add: Let_def)
  qed (simp add: searchFrom.simps)
qed

lemma sortSearch_cong: "(\<And>k. k < n \<Longrightarrow> f k = g k) \<Longrightarrow> sortSearch n f = sortSearch n g"
  unfolding sortSearch_def by (rule searchFrom_cong)

text \<open>Search in a strictly increasing list for the first element \<open>\<ge> x\<close>.\<close>

lemma monoUpTo_ge:
  fixes xs :: "'a :: linorder list"
  shows "sorted xs \<Longrightarrow> monoUpTo (\<lambda>i. xs ! i \<ge> x) (length xs)"
  unfolding monoUpTo_def by (meson order_trans sorted_nth_mono)

lemma sortSearch_at:
  fixes xs :: "'a :: linorder list"
  assumes "sorted_wrt (<) xs" "i < length xs"
  shows "sortSearch (length xs) (\<lambda>k. xs ! k \<ge> xs ! i) = i"
proof -
  have mono: "monoUpTo (\<lambda>k. xs ! k \<ge> xs ! i) (length xs)"
    using assms(1) by (intro monoUpTo_ge) (simp add: strict_sorted_imp_sorted)
  have "k < i \<Longrightarrow> \<not> xs ! i \<le> xs ! k" for k
    using assms by (simp add: sorted_wrt_iff_nth_less not_le)
  moreover have "sortSearch (length xs) (\<lambda>k. xs ! k \<ge> xs ! i) \<le> i"
    using sortSearch_iff [OF mono assms(2)] by simp
  ultimately show ?thesis
    using sortSearch_iff [OF mono, of "sortSearch (length xs) (\<lambda>k. xs ! k \<ge> xs ! i)"] assms(2)
    by (metis (no_types, lifting) le_less le_refl less_le_trans)
qed

lemma sortSearch_mem:
  fixes xs :: "'a :: linorder list"
  assumes "sorted_wrt (<) xs"
  shows "(sortSearch (length xs) (\<lambda>i. xs ! i \<ge> x) < length xs \<and>
          xs ! sortSearch (length xs) (\<lambda>i. xs ! i \<ge> x) = x) \<longleftrightarrow> x \<in> set xs"
  using sortSearch_at [OF assms] by (auto simp: in_set_conv_nth)

section \<open>Bitsets\<close>

text \<open>\<open>[]uint64\<close> bitsets: \<open>bits[i/64] & (1 << (i%64))\<close>, \<open>|=\<close> and \<open>&^=\<close>.\<close>

definition bitMask :: "nat \<Rightarrow> u64" where
  "bitMask i = push_bit (i mod 64) 1"

definition bitsetTest :: "u64 list \<Rightarrow> nat \<Rightarrow> bool" where
  "bitsetTest bits i \<longleftrightarrow> i div 64 < length bits \<and> bits ! (i div 64) AND bitMask i \<noteq> 0"

definition bitsetSet :: "u64 list \<Rightarrow> nat \<Rightarrow> u64 list" where
  "bitsetSet bits i = bits[i div 64 := bits ! (i div 64) OR bitMask i]"

definition bitsetClear :: "u64 list \<Rightarrow> nat \<Rightarrow> u64 list" where
  "bitsetClear bits i = bits[i div 64 := bits ! (i div 64) AND NOT (bitMask i)]"

lemma bitMask_and: "w AND bitMask i \<noteq> 0 \<longleftrightarrow> bit w (i mod 64)"
  by (simp add: bitMask_def push_bit_of_1 and_exp_eq_0_iff_not_bit)

lemma bit_bitMask: "bit (bitMask i) k \<longleftrightarrow> k = i mod 64"
  by (auto simp: bitMask_def push_bit_of_1 bit_exp_iff)

lemma div_mod_64_eq: "i div 64 = j div 64 \<Longrightarrow> i mod 64 = j mod 64 \<Longrightarrow> i = (j :: nat)"
  by (metis div_mult_mod_eq)

lemma bitsetTest_iff: "bitsetTest bits i \<longleftrightarrow> i div 64 < length bits \<and> bit (bits ! (i div 64)) (i mod 64)"
  by (simp add: bitsetTest_def bitMask_and)

lemma length_bitset [simp]:
  "length (bitsetSet bits i) = length bits" "length (bitsetClear bits i) = length bits"
  by (simp_all add: bitsetSet_def bitsetClear_def)

lemma bitsetTest_set:
  "i div 64 < length bits \<Longrightarrow> bitsetTest (bitsetSet bits i) j \<longleftrightarrow> j = i \<or> bitsetTest bits j"
  by (auto simp: bitsetTest_iff bitsetSet_def nth_list_update bit_or_iff bit_bitMask dest: div_mod_64_eq)

lemma bitsetTest_clear:
  "i div 64 < length bits \<Longrightarrow> bitsetTest (bitsetClear bits i) j \<longleftrightarrow> j \<noteq> i \<and> bitsetTest bits j"
  by (auto simp: bitsetTest_iff bitsetClear_def nth_list_update bit_and_iff bit_not_iff bit_bitMask
        dest: div_mod_64_eq)

lemma bitsetTest_zero [simp]: "\<not> bitsetTest (replicate n 0) i"
  by (simp add: bitsetTest_iff)

section \<open>Words\<close>

lemma uint_less_int: "uint (w :: 'a :: len word) < int n \<longleftrightarrow> unat w < n"
  by (metis of_nat_less_iff uint_nat)

lemma unat_of_nat_u32: "n < 2 ^ 32 \<Longrightarrow> unat (of_nat n :: u32) = n"
  by (simp add: unat_of_nat)

end
