(* ===== verification/RegexLiterals.thy ===== *)
theory RegexLiterals
  imports Prelude
begin

text \<open>
  Required literals of a regular expression (\<open>cmd/seekfs/regex_required_literals.go\<close>): the
  hand-written widening parser \<open>rxParser\<close>, the capped expansion to a disjunction of token
  sequences (\<open>rxDNF\<close>), the literal runs of a sequence (\<open>rxLiteralRuns\<close>) and their
  composition \<open>regexRequiredLiteralAlternatives\<close>.
\<close>

section \<open>Data\<close>

text \<open>\<open>rxNode\<close>: the interface and its five implementations.\<close>

datatype rxNode =
    RxLit char
  | RxGap
  | RxSeq "rxNode list"
  | RxAlt "rxNode list"
  | RxRep rxNode nat

text \<open>\<open>rxTok\<close> is a literal byte (0..255) or the gap marker \<open>rxGapTok\<close>.\<close>

type_synonym rxTok = int

definition rxGapTok :: rxTok where
  "rxGapTok = - 1"

definition rxMaxDisjuncts :: nat where
  "rxMaxDisjuncts = 128"

text \<open>A parse either declines (Go \<open>nil\<close>) or runs out of the model's fuel.\<close>

datatype rxFail = NoFuel | Declined

section \<open>Literal runs\<close>

definition rxFlush :: "string list \<Rightarrow> string \<Rightarrow> string list" where
  "rxFlush runs run = (if length run \<ge> 3 then runs @ [run] else runs)"

fun rxRunsLoop :: "string list \<Rightarrow> string \<Rightarrow> rxTok list \<Rightarrow> string list" where
  "rxRunsLoop runs run [] = rxFlush runs run"
| "rxRunsLoop runs run (tk # seq) =
     (if tk = rxGapTok then rxRunsLoop (rxFlush runs run) [] seq
      else rxRunsLoop runs (run @ [char_of tk]) seq)"

definition rxLiteralRuns :: "rxTok list \<Rightarrow> string list" where
  "rxLiteralRuns seq = rxRunsLoop [] [] seq"

section \<open>Expansion to disjunctive normal form\<close>

definition rxProduct :: "rxTok list list \<Rightarrow> rxTok list list \<Rightarrow> rxTok list list" where
  "rxProduct acc sub = concat (map (\<lambda>a. map (\<lambda>s. a @ s) sub) acc)"

fun rxDNF :: "rxNode \<Rightarrow> nat \<Rightarrow> rxTok list list option"
  and rxDNFAlt :: "rxNode list \<Rightarrow> nat \<Rightarrow> rxTok list list \<Rightarrow> rxTok list list option"
  and rxDNFSeq :: "rxNode list \<Rightarrow> nat \<Rightarrow> rxTok list list \<Rightarrow> rxTok list list option" where
  "rxDNF (RxLit b) limit = Some [[of_char b]]"
| "rxDNF RxGap limit = Some [[rxGapTok]]"
| "rxDNF (RxRep sub mn) limit =
     (if mn = 0 then Some [[rxGapTok]]
      else case rxDNF sub limit of
             None \<Rightarrow> None
           | Some ds \<Rightarrow> Some (map (\<lambda>s. s @ [rxGapTok]) ds))"
| "rxDNF (RxAlt branches) limit =
     (if branches = [] then None else rxDNFAlt branches limit [])"
| "rxDNF (RxSeq parts) limit = rxDNFSeq parts limit [[]]"
| "rxDNFAlt [] limit out = Some out"
| "rxDNFAlt (br # brs) limit out =
     (case rxDNF br limit of
        None \<Rightarrow> None
      | Some sub \<Rightarrow>
          (if length (out @ sub) > limit then None else rxDNFAlt brs limit (out @ sub)))"
| "rxDNFSeq [] limit acc = Some acc"
| "rxDNFSeq (part # parts) limit acc =
     (case rxDNF part limit of
        None \<Rightarrow> None
      | Some sub \<Rightarrow>
          (if length (rxProduct acc sub) > limit then None
           else rxDNFSeq parts limit (rxProduct acc sub)))"

section \<open>The widening parser\<close>

text \<open>The parser state is the source string and the position, as in \<open>rxParser\<close>.\<close>

definition rxAt :: "string \<Rightarrow> nat \<Rightarrow> char \<Rightarrow> bool" where
  "rxAt src pos c \<longleftrightarrow> pos < length src \<and> src ! pos = c"

definition isDigitByte :: "char \<Rightarrow> bool" where
  "isDigitByte c \<longleftrightarrow> 48 \<le> (of_char c :: nat) \<and> of_char c \<le> (57 :: nat)"

function rxSkipDigits :: "string \<Rightarrow> nat \<Rightarrow> nat" where
  "rxSkipDigits src i =
     (if i < length src \<and> isDigitByte (src ! i) then rxSkipDigits src (Suc i) else i)"
  by pat_completeness auto
termination
  by (relation "measure (\<lambda>(src, i). length src - i)") auto

declare rxSkipDigits.simps [simp del]

definition rxDecimal :: "string \<Rightarrow> i64" where
  "rxDecimal ds = foldl (\<lambda>m d. wrap64 (m * 10 + (of_char d - 48))) 0 ds"

definition parseQuant :: "string \<Rightarrow> nat \<Rightarrow> rxNode \<Rightarrow> rxNode \<times> nat" where
  "parseQuant src pos atom =
     (if pos \<ge> length src then (atom, pos)
      else if src ! pos \<in> set ''?*'' then (RxRep atom 0, Suc pos)
      else if src ! pos = CHR ''+'' then (RxRep atom 1, Suc pos)
      else if src ! pos = CHR ''{'' then
        (let start = Suc pos; i = rxSkipDigits src start in
         if i = start then (atom, pos)
         else
           (let mn = rxDecimal (take (i - start) (drop start src));
                j = (if rxAt src i (CHR '','') then rxSkipDigits src (Suc i) else i)
            in if \<not> rxAt src j (CHR ''}'') then (atom, pos)
               else if mn \<ge> 1 then (RxRep atom 1, Suc j) else (RxRep atom 0, Suc j)))
      else (atom, pos))"

definition rxSkipOctal :: "string \<Rightarrow> nat \<Rightarrow> nat" where
  "rxSkipOctal src pos =
     (let oct = (\<lambda>p. p < length src \<and> 48 \<le> (of_char (src ! p) :: nat) \<and> of_char (src ! p) \<le> (55 :: nat))
      in if oct pos then (if oct (Suc pos) then pos + 2 else Suc pos) else pos)"

definition isLetterByte :: "char \<Rightarrow> bool" where
  "isLetterByte c \<longleftrightarrow>
     (97 \<le> (of_char c :: nat) \<and> of_char c \<le> (122 :: nat)) \<or>
     (65 \<le> (of_char c :: nat) \<and> of_char c \<le> (90 :: nat))"

definition parseEscape :: "string \<Rightarrow> nat \<Rightarrow> rxFail + rxNode \<times> nat" where
  "parseEscape src pos =
     (if Suc pos \<ge> length src then Inl Declined
      else let e = src ! Suc pos; p = pos + 2 in
        if e \<in> set ''dwsDWSbBnrtfv'' then Inr (RxGap, p)
        else if e = CHR ''0'' then Inr (RxGap, rxSkipOctal src p)
        else if e \<in> set ''kgKG'' then Inl Declined
        else if isDigitByte e \<and> e \<noteq> CHR ''0'' then Inl Declined
        else if isLetterByte e then Inl Declined
        else Inr (RxLit e, p))"

function rxSkipTo :: "string \<Rightarrow> string \<Rightarrow> nat \<Rightarrow> nat" where
  "rxSkipTo stops src pos =
     (if pos < length src \<and> src ! pos \<notin> set stops then rxSkipTo stops src (Suc pos) else pos)"
  by pat_completeness auto
termination
  by (relation "measure (\<lambda>(stops, src, pos). length src - pos)") auto

declare rxSkipTo.simps [simp del]

function skipGroupLoop :: "string \<Rightarrow> nat \<Rightarrow> nat \<Rightarrow> nat" where
  "skipGroupLoop src depth pos =
     (if pos < length src \<and> depth > 0 then
        (if src ! pos = CHR 0x5C then skipGroupLoop src depth (pos + 2)
         else if src ! pos = CHR ''('' then skipGroupLoop src (Suc depth) (Suc pos)
         else if src ! pos = CHR '')'' then skipGroupLoop src (depth - 1) (Suc pos)
         else skipGroupLoop src depth (Suc pos))
      else pos)"
  by pat_completeness auto
termination
  by (relation "measure (\<lambda>(src, depth, pos). length src - pos)") auto

declare skipGroupLoop.simps [simp del]

definition skipGroupAsGap :: "string \<Rightarrow> nat \<Rightarrow> rxNode \<times> nat" where
  "skipGroupAsGap src pos = (RxGap, skipGroupLoop src 1 pos)"

function parseClassLoop :: "string \<Rightarrow> nat \<Rightarrow> rxFail + rxNode \<times> nat" where
  "parseClassLoop src pos =
     (if pos < length src then
        (if src ! pos = CHR 0x5C then parseClassLoop src (pos + 2)
         else if src ! pos = CHR '']'' then Inr (RxGap, Suc pos)
         else parseClassLoop src (Suc pos))
      else Inl Declined)"
  by pat_completeness auto
termination
  by (relation "measure (\<lambda>(src, pos). length src - pos)") auto

declare parseClassLoop.simps [simp del]

definition parseClass :: "string \<Rightarrow> nat \<Rightarrow> rxFail + rxNode \<times> nat" where
  "parseClass src pos =
     (let p1 = Suc pos;
          p2 = (if rxAt src p1 (CHR ''^'') then Suc p1 else p1);
          p3 = (if rxAt src p2 (CHR '']'') then Suc p2 else p2)
      in parseClassLoop src p3)"

text \<open>
  The prefix of a group: \<open>Inl\<close> a decline, \<open>Inr (Inl gap)\<close> a lookaround consumed as a gap,
  \<open>Inr (Inr p)\<close> the position where the group's body starts.
\<close>

definition parseGroupPrefix ::
    "string \<Rightarrow> nat \<Rightarrow> rxFail + (rxNode \<times> nat) + nat" where
  "parseGroupPrefix src pos =
     (let p = Suc pos in
      if \<not> rxAt src p (CHR ''?'') then Inr (Inr p)
      else let q = Suc p in
        if q \<ge> length src then Inl Declined
        else if src ! q \<in> set ''=!'' then Inr (Inl (skipGroupAsGap src q))
        else if src ! q = CHR ''<'' then
          (if rxAt src (Suc q) (CHR ''='') \<or> rxAt src (Suc q) (CHR ''!'')
           then Inr (Inl (skipGroupAsGap src q))
           else let r = rxSkipTo ''>'' src q in Inr (Inr (if r < length src then Suc r else r)))
        else if src ! q = CHR ''P'' then
          (if rxAt src (Suc q) (CHR ''<'')
           then let r = rxSkipTo ''>'' src q in Inr (Inr (if r < length src then Suc r else r))
           else Inl Declined)
        else if src ! q = CHR ''>'' then Inr (Inr (Suc q))
        else if src ! q \<in> set '':imsxUR-'' then
          (let r = rxSkipTo '':)'' src q in Inr (Inr (if rxAt src r (CHR '':'') then Suc r else r)))
        else Inl Declined)"

definition rxFinishSeq :: "rxNode list \<Rightarrow> rxNode" where
  "rxFinishSeq parts = (case parts of [] \<Rightarrow> RxSeq [] | [x] \<Rightarrow> x | _ \<Rightarrow> RxSeq parts)"

definition rxFinishAlt :: "rxNode list \<Rightarrow> rxNode" where
  "rxFinishAlt branches = (case branches of [x] \<Rightarrow> x | _ \<Rightarrow> RxAlt branches)"

definition parseAtomLeaf :: "string \<Rightarrow> nat \<Rightarrow> rxFail + rxNode \<times> nat" where
  "parseAtomLeaf src pos =
     (let c = src ! pos in
      if c = CHR ''['' then parseClass src pos
      else if c \<in> set ''.^$'' then Inr (RxGap, Suc pos)
      else if c = CHR 0x5C then parseEscape src pos
      else if c \<in> set ''*+?{}])'' then Inl Declined
      else Inr (RxLit c, Suc pos))"

function (sequential) parseAlt :: "nat \<Rightarrow> string \<Rightarrow> nat \<Rightarrow> rxFail + rxNode \<times> nat"
  and parseAltLoop :: "nat \<Rightarrow> string \<Rightarrow> nat \<Rightarrow> rxNode list \<Rightarrow> rxFail + rxNode \<times> nat"
  and parseSeq :: "nat \<Rightarrow> string \<Rightarrow> nat \<Rightarrow> rxNode list \<Rightarrow> rxFail + rxNode \<times> nat"
  and parseAtom :: "nat \<Rightarrow> string \<Rightarrow> nat \<Rightarrow> rxFail + rxNode \<times> nat"
  and parseGroup :: "nat \<Rightarrow> string \<Rightarrow> nat \<Rightarrow> rxFail + rxNode \<times> nat" where
  "parseAlt 0 src pos = Inl NoFuel"
| "parseAlt (Suc f) src pos =
     (case parseSeq f src pos [] of
        Inl e \<Rightarrow> Inl e
      | Inr (first, p) \<Rightarrow> parseAltLoop f src p [first])"
| "parseAltLoop 0 src pos branches = Inl NoFuel"
| "parseAltLoop (Suc f) src pos branches =
     (if rxAt src pos (CHR ''|'') then
        (case parseSeq f src (Suc pos) [] of
           Inl e \<Rightarrow> Inl e
         | Inr (b, p) \<Rightarrow> parseAltLoop f src p (branches @ [b]))
      else Inr (rxFinishAlt branches, pos))"
| "parseSeq 0 src pos parts = Inl NoFuel"
| "parseSeq (Suc f) src pos parts =
     (if pos < length src \<and> src ! pos \<noteq> CHR ''|'' \<and> src ! pos \<noteq> CHR '')'' then
        (case parseAtom f src pos of
           Inl e \<Rightarrow> Inl e
         | Inr (atom, p) \<Rightarrow>
             (case parseQuant src p atom of (node, q) \<Rightarrow> parseSeq f src q (parts @ [node])))
      else Inr (rxFinishSeq parts, pos))"
| "parseAtom 0 src pos = Inl NoFuel"
| "parseAtom (Suc f) src pos =
     (if src ! pos = CHR ''('' then parseGroup f src pos else parseAtomLeaf src pos)"
| "parseGroup 0 src pos = Inl NoFuel"
| "parseGroup (Suc f) src pos =
     (case parseGroupPrefix src pos of
        Inl e \<Rightarrow> Inl e
      | Inr (Inl gap) \<Rightarrow> Inr gap
      | Inr (Inr p) \<Rightarrow>
          (case parseAlt f src p of
             Inl e \<Rightarrow> Inl e
           | Inr (inner, q) \<Rightarrow>
               (if \<not> rxAt src q (CHR '')'') then Inl Declined else Inr (inner, Suc q))))"
  by pat_completeness auto
termination
  by (relation "measure (\<lambda>x. case x of
        Inl (Inl (f, _)) \<Rightarrow> f
      | Inl (Inr (f, _)) \<Rightarrow> f
      | Inr (Inl (f, _)) \<Rightarrow> f
      | Inr (Inr (Inl (f, _))) \<Rightarrow> f
      | Inr (Inr (Inr (f, _))) \<Rightarrow> f)") auto

definition rxFuel :: "string \<Rightarrow> nat" where
  "rxFuel src = 5 * length src + 5"

definition rxParse :: "string \<Rightarrow> rxFail + rxNode \<times> nat" where
  "rxParse src = parseAlt (rxFuel src) src 0"

section \<open>The extractor\<close>

fun rxCollect :: "rxTok list list \<Rightarrow> string list list option" where
  "rxCollect [] = Some []"
| "rxCollect (seq # seqs) =
     (let runs = rxLiteralRuns seq in
      if runs = [] then None
      else map_option (\<lambda>out. map lowerASCII runs # out) (rxCollect seqs))"

definition trimPrefix :: "string \<Rightarrow> string \<Rightarrow> string" where
  "trimPrefix p s = (if take (length p) s = p then drop (length p) s else s)"

definition regexRequiredLiteralAlternatives :: "string \<Rightarrow> string list list option" where
  "regexRequiredLiteralAlternatives pattern0 =
     (let pattern = trimPrefix ''(?i)'' pattern0 in
      if \<not> isASCII pattern then None
      else case rxParse pattern of
             Inl _ \<Rightarrow> None
           | Inr (node, pos) \<Rightarrow>
               (if pos \<noteq> length pattern then None
                else case rxDNF node rxMaxDisjuncts of
                       None \<Rightarrow> None
                     | Some disjuncts \<Rightarrow> (if disjuncts = [] then None else rxCollect disjuncts)))"

section \<open>Semantics of nodes and token sequences\<close>

text \<open>
  The matched language of a node, with the case-insensitive reading the caller compiles every
  pattern with (\<open>(?i)\<close>): a gap is any string, a repetition any concatenation of at least
  \<open>min\<close> matches.
\<close>

inductive rxMatch :: "rxNode \<Rightarrow> string \<Rightarrow> bool"
  and rxMatchSeq :: "rxNode list \<Rightarrow> string \<Rightarrow> bool" where
  lit: "foldASCII c = foldASCII b \<Longrightarrow> rxMatch (RxLit b) [c]"
| gap: "rxMatch RxGap w"
| sq: "rxMatchSeq parts w \<Longrightarrow> rxMatch (RxSeq parts) w"
| alt: "br \<in> set branches \<Longrightarrow> rxMatch br w \<Longrightarrow> rxMatch (RxAlt branches) w"
| rep: "\<forall>v\<in>set ws. rxMatch n v \<Longrightarrow> mn \<le> length ws \<Longrightarrow> rxMatch (RxRep n mn) (concat ws)"
| seq_nil: "rxMatchSeq [] []"
| seq_cons: "rxMatch part u \<Longrightarrow> rxMatchSeq parts v \<Longrightarrow> rxMatchSeq (part # parts) (u @ v)"

inductive_cases rxMatch_LitE: "rxMatch (RxLit b) w"
inductive_cases rxMatch_SeqE: "rxMatch (RxSeq parts) w"
inductive_cases rxMatch_AltE: "rxMatch (RxAlt branches) w"
inductive_cases rxMatch_RepE: "rxMatch (RxRep n mn) w"
inductive_cases rxMatchSeq_NilE: "rxMatchSeq [] w"
inductive_cases rxMatchSeq_ConsE: "rxMatchSeq (part # parts) w"

inductive tokMatch :: "rxTok list \<Rightarrow> string \<Rightarrow> bool" where
  tok_nil: "tokMatch [] []"
| tok_gap: "tokMatch ts v \<Longrightarrow> tokMatch (rxGapTok # ts) (u @ v)"
| tok_lit: "tk \<noteq> rxGapTok \<Longrightarrow> foldASCII c = foldASCII (char_of tk) \<Longrightarrow> tokMatch ts v \<Longrightarrow>
            tokMatch (tk # ts) (c # v)"

inductive_cases tokMatch_NilE: "tokMatch [] w"
inductive_cases tokMatch_ConsE: "tokMatch (tk # ts) w"

lemma of_char_not_gap [simp]: "(of_char b :: int) \<noteq> rxGapTok"
proof -
  have "(of_char b :: int) = int (of_char b)" by (simp only: of_nat_of_char)
  then show ?thesis by (simp add: rxGapTok_def)
qed

lemma tokMatch_append: "tokMatch a u \<Longrightarrow> tokMatch b v \<Longrightarrow> tokMatch (a @ b) (u @ v)"
proof (induction a u rule: tokMatch.induct)
  case tok_nil
  then show ?case by simp
next
  case (tok_gap ts v' u)
  then show ?case using tokMatch.tok_gap [of "ts @ b" "v' @ v" u] by simp
next
  case (tok_lit tk c ts v')
  then show ?case using tokMatch.tok_lit by simp
qed

lemma tokMatch_single_gap: "tokMatch [rxGapTok] w"
  using tokMatch.tok_gap [OF tokMatch.tok_nil, of w] by simp

section \<open>Soundness of the expansion\<close>

lemma rxDNFAlt_out: "rxDNFAlt brs limit out = Some ds \<Longrightarrow> set out \<subseteq> set ds"
proof (induction brs arbitrary: out)
  case (Cons br brs)
  then obtain sub where "rxDNFAlt brs limit (out @ sub) = Some ds"
    by (auto split: option.splits if_splits)
  from Cons.IH [OF this] show ?case by simp
qed simp

lemma rxDNFAlt_branch:
  "rxDNFAlt brs limit out = Some ds \<Longrightarrow> br \<in> set brs \<Longrightarrow>
   \<exists>sub. rxDNF br limit = Some sub \<and> set sub \<subseteq> set ds"
proof (induction brs arbitrary: out)
  case (Cons b brs)
  then obtain sub where sub: "rxDNF b limit = Some sub" "rxDNFAlt brs limit (out @ sub) = Some ds"
    by (auto split: option.splits if_splits)
  show ?case
  proof (cases "br = b")
    case True
    with sub rxDNFAlt_out [OF sub(2)] show ?thesis by auto
  next
    case False
    with Cons sub show ?thesis by auto
  qed
qed simp

lemma set_rxProduct: "set (rxProduct acc sub) = {a @ s | a s. a \<in> set acc \<and> s \<in> set sub}"
  by (auto simp: rxProduct_def)

lemma rxMatch_tokMatch:
  "rxDNF n limit = Some ds \<Longrightarrow> rxMatch n w \<Longrightarrow> \<exists>s\<in>set ds. tokMatch s w"
  "rxDNFAlt brs limit out = Some ds \<Longrightarrow> br \<in> set brs \<Longrightarrow> rxMatch br w \<Longrightarrow>
   \<exists>s\<in>set ds. tokMatch s w"
  "rxDNFSeq ps limit acc = Some ds \<Longrightarrow> a \<in> set acc \<Longrightarrow> tokMatch a u \<Longrightarrow> rxMatchSeq ps w \<Longrightarrow>
   \<exists>s\<in>set ds. tokMatch s (u @ w)"
proof (induction n limit and brs limit out and ps limit acc
       arbitrary: ds w and ds w br and ds w a u rule: rxDNF_rxDNFAlt_rxDNFSeq.induct)
  case (1 b limit)
  from 1(2) obtain c where "w = [c]" "foldASCII c = foldASCII b"
    by (elim rxMatch_LitE) auto
  then have "tokMatch [of_char b] w"
    using tokMatch.tok_lit [OF _ _ tokMatch.tok_nil, of "of_char b" c] by simp
  with 1(1) show ?case by auto
next
  case (2 limit)
  then show ?case using tokMatch_single_gap by auto
next
  case (3 sub mn limit)
  show ?case
  proof (cases "mn = 0")
    case True
    with 3 show ?thesis using tokMatch_single_gap by auto
  next
    case False
    with 3 obtain es where es: "rxDNF sub limit = Some es" "ds = map (\<lambda>s. s @ [rxGapTok]) es"
      by (auto split: option.splits)
    from 3(3) obtain ws where ws: "w = concat ws" "\<forall>v\<in>set ws. rxMatch sub v" "mn \<le> length ws"
      by (elim rxMatch_RepE) auto
    with False obtain v vs where "ws = v # vs" by (cases ws) auto
    with ws have v: "rxMatch sub v" "w = v @ concat vs" by auto
    from 3(1) [OF False es(1) v(1)] obtain s where "s \<in> set es" "tokMatch s v" by auto
    with v es tokMatch_append [OF _ tokMatch_single_gap] show ?thesis by fastforce
  qed
next
  case (4 branches limit)
  from 4(3) obtain br where "br \<in> set branches" "rxMatch br w"
    by (elim rxMatch_AltE) auto
  with 4 show ?case by (auto split: if_splits)
next
  case (5 parts limit)
  then show ?case
    using tokMatch.tok_nil by (fastforce elim!: rxMatch_SeqE)
next
  case (6 limit out)
  then show ?case by simp
next
  case (7 br' brs limit out)
  then obtain sub where sub: "rxDNF br' limit = Some sub" "\<not> length (out @ sub) > limit"
      "rxDNFAlt brs limit (out @ sub) = Some ds"
    by (auto split: option.splits if_splits)
  show ?case
  proof (cases "br = br'")
    case True
    with 7 sub rxDNFAlt_out [OF sub(3)] show ?thesis by fastforce
  next
    case False
    with 7 have "br \<in> set brs" by simp
    from 7(2) [OF sub(1,2,3) this 7(5)] show ?thesis .
  qed
next
  case (8 limit acc)
  then have "w = []" by (elim rxMatchSeq_NilE)
  with 8 show ?case by auto
next
  case (9 part parts limit acc)
  then obtain sub where sub: "rxDNF part limit = Some sub" "\<not> length (rxProduct acc sub) > limit"
      "rxDNFSeq parts limit (rxProduct acc sub) = Some ds"
    by (auto split: option.splits if_splits)
  from 9(6) obtain x y where xy: "w = x @ y" "rxMatch part x" "rxMatchSeq parts y"
    by (elim rxMatchSeq_ConsE) auto
  from 9(1) [OF sub(1) xy(2)] obtain s where s: "s \<in> set sub" "tokMatch s x" by auto
  with 9 have "a @ s \<in> set (rxProduct acc sub)" by (auto simp: set_rxProduct)
  from 9(2) [OF sub(1,2,3) this tokMatch_append [OF 9(5) s(2)] xy(3)] xy(1)
  show ?case by simp
qed

section \<open>Literal runs occur in every match\<close>

lemma rxRunsLoop_sound:
  assumes "tokMatch seq w" and "suffix (lowerASCII run) (lowerASCII u)"
    and "\<forall>r\<in>set runs. sublist (lowerASCII r) (lowerASCII u)"
  shows "\<forall>r\<in>set (rxRunsLoop runs run seq). sublist (lowerASCII r) (lowerASCII (u @ w))"
  using assms
proof (induction seq w arbitrary: runs run u rule: tokMatch.induct)
  case tok_nil
  then show ?case by (auto simp: rxFlush_def suffix_imp_sublist)
next
  case (tok_gap ts v x)
  have "\<forall>r\<in>set (rxFlush runs run). sublist (lowerASCII r) (lowerASCII (u @ x))"
    using tok_gap.prems by (auto simp: rxFlush_def lowerASCII_append intro: sublist_append_left suffix_imp_sublist)
  with tok_gap.IH [of "[]" "u @ x"] show ?case by simp
next
  case (tok_lit tk c ts v)
  have "suffix (lowerASCII (run @ [char_of tk])) (lowerASCII (u @ [c]))"
    using tok_lit.prems(1) tok_lit.hyps(2) by (simp add: lowerASCII_def)
  moreover have "\<forall>r\<in>set runs. sublist (lowerASCII r) (lowerASCII (u @ [c]))"
    using tok_lit.prems(2) by (auto simp: lowerASCII_append intro: sublist_append_left)
  ultimately show ?case
    using tok_lit.IH [of "run @ [char_of tk]" "u @ [c]" runs] tok_lit.hyps(1) by simp
qed

lemma rxLiteralRuns_sound:
  assumes "tokMatch seq w" "r \<in> set (rxLiteralRuns seq)"
  shows "sublist (lowerASCII r) (lowerASCII w)"
  using rxRunsLoop_sound [OF assms(1), of "[]" "[]" "[]"] assms(2)
  by (simp add: rxLiteralRuns_def lowerASCII_def)

lemma rxRunsLoop_length:
  "\<forall>r\<in>set runs. 3 \<le> length r \<Longrightarrow> \<forall>r\<in>set (rxRunsLoop runs run seq). 3 \<le> length r"
proof (induction seq arbitrary: runs run)
  case Nil
  then show ?case by (simp add: rxFlush_def)
next
  case (Cons tk seq)
  then have "\<forall>r\<in>set (rxFlush runs run). 3 \<le> length r" by (simp add: rxFlush_def)
  with Cons show ?case by simp
qed

lemma rxCollect_Some:
  "rxCollect seqs = Some alts \<Longrightarrow> alts = map (\<lambda>seq. map lowerASCII (rxLiteralRuns seq)) seqs
     \<and> (\<forall>seq\<in>set seqs. rxLiteralRuns seq \<noteq> [])"
  by (induction seqs arbitrary: alts) (auto simp: Let_def split: if_splits)

lemma rxDNF_bound:
  "1 \<le> limit \<Longrightarrow> rxDNF n limit = Some ds \<Longrightarrow> length ds \<le> limit"
  "1 \<le> limit \<Longrightarrow> length out \<le> limit \<Longrightarrow> rxDNFAlt brs limit out = Some ds \<Longrightarrow> length ds \<le> limit"
  "1 \<le> limit \<Longrightarrow> length acc \<le> limit \<Longrightarrow> rxDNFSeq ps limit acc = Some ds \<Longrightarrow> length ds \<le> limit"
  by (induction n limit and brs limit out and ps limit acc
      arbitrary: ds and ds and ds rule: rxDNF_rxDNFAlt_rxDNFSeq.induct)
    (auto split: option.splits if_splits)

section \<open>The parser's positions and its fuel\<close>

lemma rxSkipDigits_ge: "i \<le> rxSkipDigits src i"
  by (induction src i rule: rxSkipDigits.induct) (subst rxSkipDigits.simps, auto)

lemma rxSkipTo_ge: "i \<le> rxSkipTo stops src i"
  by (induction stops src i rule: rxSkipTo.induct) (subst rxSkipTo.simps, auto)

lemma skipGroupLoop_ge: "i \<le> skipGroupLoop src d i"
  by (induction src d i rule: skipGroupLoop.induct) (subst skipGroupLoop.simps, auto)

lemma parseClassLoop_ge: "parseClassLoop src pos = Inr (node, p) \<Longrightarrow> pos < p"
  by (induction src pos rule: parseClassLoop.induct)
    (erule_tac P = "_ = _" in rev_mp, subst parseClassLoop.simps, auto split: if_splits)

lemma parseClass_gt: "parseClass src pos = Inr (node, p) \<Longrightarrow> pos < p"
  by (auto simp: parseClass_def Let_def split: if_splits dest!: parseClassLoop_ge)

lemma parseEscape_gt: "parseEscape src pos = Inr (node, p) \<Longrightarrow> pos < p"
  by (auto simp: parseEscape_def rxSkipOctal_def Let_def split: if_splits)

lemma parseQuant_ge: "parseQuant src pos atom = (node, p) \<Longrightarrow> pos \<le> p"
  using rxSkipDigits_ge [of "Suc pos" src]
    rxSkipDigits_ge [of "Suc (rxSkipDigits src (Suc pos))" src]
  by (auto simp: parseQuant_def Let_def split: if_splits)

lemma parseAtomLeaf_gt: "parseAtomLeaf src pos = Inr (node, p) \<Longrightarrow> pos < p"
  by (auto simp: parseAtomLeaf_def Let_def split: if_splits dest: parseClass_gt parseEscape_gt)

lemma parseGroupPrefix_gt:
  "parseGroupPrefix src pos = Inr (Inl (node, p)) \<Longrightarrow> pos < p"
  "parseGroupPrefix src pos = Inr (Inr p) \<Longrightarrow> pos < p"
  using skipGroupLoop_ge [of "Suc (Suc pos)" src 1] rxSkipTo_ge [of "Suc (Suc pos)" "''>''" src]
    rxSkipTo_ge [of "Suc (Suc pos)" "'':)''" src]
  by (auto simp: parseGroupPrefix_def skipGroupAsGap_def Let_def split: if_splits)

lemmas parser_advances =
  parseQuant_ge parseAtomLeaf_gt parseGroupPrefix_gt

lemma parse_advances:
  "parseAlt f src pos = Inr (node, p) \<Longrightarrow> pos \<le> p"
  "parseAltLoop f src pos branches = Inr (node, p) \<Longrightarrow> pos \<le> p"
  "parseSeq f src pos parts = Inr (node, p) \<Longrightarrow> pos \<le> p"
  "parseAtom f src pos = Inr (node, p) \<Longrightarrow> pos < p"
  "parseGroup f src pos = Inr (node, p) \<Longrightarrow> pos < p"
proof (induction f src pos and f src pos branches and f src pos parts and f src pos and f src pos
       arbitrary: node p and node p and node p and node p and node p
       rule: parseAlt_parseAltLoop_parseSeq_parseAtom_parseGroup.induct)
  case (6 f src pos parts)
  then show ?case
    by (fastforce split: sum.splits prod.splits if_splits dest: parseQuant_ge)
next
  case (8 f src pos)
  then show ?case by (auto split: if_splits dest: parseAtomLeaf_gt)
next
  case (10 f src pos)
  then show ?case
    by (fastforce split: sum.splits prod.splits if_splits dest: parseGroupPrefix_gt)
qed (fastforce split: sum.splits prod.splits if_splits)+

lemma leaf_no_fuel_use:
  "parseClassLoop src pos \<noteq> Inl NoFuel"
  "parseEscape src pos \<noteq> Inl NoFuel"
  "parseGroupPrefix src pos \<noteq> Inl NoFuel"
proof -
  show "parseClassLoop src pos \<noteq> Inl NoFuel"
    by (induction src pos rule: parseClassLoop.induct) (subst parseClassLoop.simps, simp)
qed (auto simp: parseEscape_def parseGroupPrefix_def Let_def)

lemma parseAtomLeaf_no_fuel_use: "parseAtomLeaf src pos \<noteq> Inl NoFuel"
  using leaf_no_fuel_use by (simp add: parseAtomLeaf_def parseClass_def Let_def)

lemma parse_enough_fuel:
  "5 * (length src - pos) + 3 \<le> f \<Longrightarrow> parseAlt f src pos \<noteq> Inl NoFuel"
  "5 * (length src - pos) + 2 \<le> f \<Longrightarrow> parseAltLoop f src pos branches \<noteq> Inl NoFuel"
  "5 * (length src - pos) + 1 \<le> f \<Longrightarrow> parseSeq f src pos parts \<noteq> Inl NoFuel"
  "5 * (length src - pos) \<le> f \<Longrightarrow> pos < length src \<Longrightarrow> parseAtom f src pos \<noteq> Inl NoFuel"
  "5 * (length src - pos) - 1 \<le> f \<Longrightarrow> pos < length src \<Longrightarrow> parseGroup f src pos \<noteq> Inl NoFuel"
proof (induction f src pos and f src pos branches and f src pos parts and f src pos and f src pos
       rule: parseAlt_parseAltLoop_parseSeq_parseAtom_parseGroup.induct)
  case (2 f src pos)
  have "parseAltLoop f src p [first] \<noteq> Inl NoFuel" if "parseSeq f src pos [] = Inr (first, p)"
    for first p
    using 2(2) [OF that] parse_advances(3) [OF that] 2(3) by auto
  with 2 show ?case by (auto split: sum.splits prod.splits)
next
  case (4 f src pos branches)
  show ?case
  proof (cases "rxAt src pos (CHR ''|'')")
    case True
    have "parseAltLoop f src p (branches @ [b]) \<noteq> Inl NoFuel"
      if "parseSeq f src (Suc pos) [] = Inr (b, p)" for b p
    proof -
      have "5 * (length src - p) + 2 \<le> f"
        using parse_advances(3) [OF that] 4(3) True unfolding rxAt_def by linarith
      with 4(2) [OF True that] show ?thesis by simp
    qed
    moreover have "parseSeq f src (Suc pos) [] \<noteq> Inl NoFuel"
      by (rule 4(1) [OF True]) (use 4(3) in linarith)
    ultimately show ?thesis using True by (auto split: sum.splits prod.splits)
  qed simp
next
  case (6 f src pos parts)
  show ?case
  proof (cases "pos < length src \<and> src ! pos \<noteq> CHR ''|'' \<and> src ! pos \<noteq> CHR '')''")
    case True
    have "parseSeq f src q (parts @ [node]) \<noteq> Inl NoFuel"
      if "parseAtom f src pos = Inr (atom, p)" "parseQuant src p atom = (node, q)" for atom p node q
    proof -
      have "5 * (length src - q) + 1 \<le> f"
        using parse_advances(4) [OF that(1)] parseQuant_ge [OF that(2)] 6(3) True by linarith
      with 6(2) [OF True that(1) refl that(2) [symmetric]] show ?thesis by simp
    qed
    moreover have "parseAtom f src pos \<noteq> Inl NoFuel"
      by (rule 6(1) [OF True]) (use 6(3) True in linarith)+
    ultimately show ?thesis using True by (auto split: sum.splits prod.splits)
  qed auto
next
  case (8 f src pos)
  then show ?case using parseAtomLeaf_no_fuel_use by auto
next
  case (10 f src pos)
  have "parseAlt f src p \<noteq> Inl NoFuel" if "parseGroupPrefix src pos = Inr (Inr p)" for p
  proof -
    have "5 * (length src - p) + 3 \<le> f"
      using parseGroupPrefix_gt(2) [OF that] 10(2,3) by linarith
    with 10(1) [OF that refl] show ?thesis by simp
  qed
  with leaf_no_fuel_use(3) show ?case by (auto split: sum.splits prod.splits)
qed auto

section \<open>Properties\<close>


lemma rx_example_match:
  "rxMatch (RxSeq [RxLit (CHR ''f''), RxLit (CHR ''o''), RxLit (CHR ''o''), RxRep RxGap 0]) ''FOObar''"
proof -
  have o: "foldASCII (CHR ''O'') = foldASCII (CHR ''o'')"
    and f: "foldASCII (CHR ''F'') = foldASCII (CHR ''f'')" by code_simp+
  have "rxMatch (RxRep RxGap 0) ''bar''"
    using rxMatch_rxMatchSeq.rep [of "[''bar'']" RxGap 0] rxMatch_rxMatchSeq.gap by simp
  from seq_cons [OF this seq_nil] have "rxMatchSeq [RxRep RxGap 0] ''bar''" by simp
  from seq_cons [OF lit [OF o] this]
  have "rxMatchSeq [RxLit (CHR ''o''), RxRep RxGap 0] ''Obar''" by simp
  from seq_cons [OF lit [OF o] this]
  have "rxMatchSeq [RxLit (CHR ''o''), RxLit (CHR ''o''), RxRep RxGap 0] ''OObar''" by simp
  from seq_cons [OF lit [OF f] this] show ?thesis by (simp add: rxMatch_rxMatchSeq.sq)
qed


text \<open>
  The shape of the result: at most 128 alternatives, at least one, none of them empty, and
  every run is a lower-cased literal of at least three bytes.
\<close>

theorem regexRequiredLiteralAlternatives_shape:
  assumes "regexRequiredLiteralAlternatives pat = Some alts"
  shows "alts \<noteq> [] \<and> length alts \<le> rxMaxDisjuncts \<and> [] \<notin> set alts \<and>
    (\<forall>runs\<in>set alts. \<forall>r\<in>set runs. 3 \<le> length r \<and> lowerASCII r = r)"
proof (intro conjI)
  from assms obtain node ds where ds: "rxDNF node rxMaxDisjuncts = Some ds" "ds \<noteq> []"
      "rxCollect ds = Some alts"
    by (auto simp: regexRequiredLiteralAlternatives_def Let_def
          split: if_splits option.splits sum.splits prod.splits)
  note alts = rxCollect_Some [OF ds(3)]
  show "alts \<noteq> []" "[] \<notin> set alts" using alts ds(2) by auto
  show "length alts \<le> rxMaxDisjuncts"
    using alts rxDNF_bound(1) [OF _ ds(1)] by (simp add: rxMaxDisjuncts_def)
  show "\<forall>runs\<in>set alts. \<forall>r\<in>set runs. 3 \<le> length r \<and> lowerASCII r = r"
    using alts rxRunsLoop_length [of "[]" "[]"] by (auto simp: rxLiteralRuns_def)
qed

theorem regexRequiredLiteralAlternatives_shape_witness:
  "length [[''main''], [''test'']] \<le> rxMaxDisjuncts \<and> 3 \<le> length ''main'' \<and> lowerASCII ''test'' = ''test''"
proof -
  have "regexRequiredLiteralAlternatives ''^(Main|te(s)t)[0-9]*$'' = Some [[''main''], [''test'']]"
    by code_simp
  from regexRequiredLiteralAlternatives_shape [OF this] show ?thesis by simp
qed

text \<open>
  C40: The recursive-descent parser terminates on every pattern: with the model's fuel
  (linear in the pattern) it never runs out, so a pattern is either parsed or declined.
\<close>

theorem rxParse_total: "rxParse src \<noteq> Inl NoFuel"
  using parse_enough_fuel(1) [of src 0 "rxFuel src"] by (simp add: rxParse_def rxFuel_def)

end
