(* ===== verification/Fuzzy.thy ===== *)
theory Fuzzy
  imports Prelude
begin

text \<open>
  Typo tolerance (\<open>cmd/seekfs/fuzzy.go\<close>): the edit-distance threshold, the banded
  Damerau-Levenshtein routine with its row buffers and early exit, the deletion/transposition
  neighbourhood of a term and the sliding-window distance of a name. Texts are rune lists, as
  after the conversion \<open>[]rune(s)\<close>. The routine is related to the textbook recurrence
  \<open>osa\<close>, and that to alignments.
\<close>

type_synonym rune = int

definition fuzzyMinTermRunes :: nat where
  "fuzzyMinTermRunes = 3"

definition fuzzyMaxDistance :: nat where
  "fuzzyMaxDistance = 2"

definition fuzzyThresholdForTerm :: "rune list \<Rightarrow> nat" where
  "fuzzyThresholdForTerm trm = (if length trm < 8 then 1 else 2)"

section \<open>The bounded distance\<close>

text \<open>One cell of row \<open>i\<close>; the buffers \<open>prev2\<close>, \<open>prev\<close>, \<open>cur\<close> have \<open>length b + 1\<close> entries.\<close>

definition dlCell ::
    "rune list \<Rightarrow> rune list \<Rightarrow> nat list \<Rightarrow> nat list \<Rightarrow> nat \<Rightarrow> nat list \<Rightarrow> nat \<Rightarrow> nat" where
  "dlCell a b prev2 prev i cur j =
     (let cost = (if a ! (i - 1) = b ! (j - 1) then 0 else 1);
          d0 = prev ! j + 1;
          d1 = (if cur ! (j - 1) + 1 < d0 then cur ! (j - 1) + 1 else d0);
          d2 = (if prev ! (j - 1) + cost < d1 then prev ! (j - 1) + cost else d1)
      in if i > 1 \<and> j > 1 \<and> a ! (i - 1) = b ! (j - 2) \<and> a ! (i - 2) = b ! (j - 1)
         then (if prev2 ! (j - 2) + 1 < d2 then prev2 ! (j - 2) + 1 else d2)
         else d2)"

fun dlRow ::
    "rune list \<Rightarrow> rune list \<Rightarrow> nat list \<Rightarrow> nat list \<Rightarrow> nat \<Rightarrow> nat list \<Rightarrow> nat list \<Rightarrow> nat
     \<Rightarrow> nat list \<times> nat" where
  "dlRow a b prev2 prev i [] cur rowMin = (cur, rowMin)"
| "dlRow a b prev2 prev i (j # js) cur rowMin =
     (let d = dlCell a b prev2 prev i cur j
      in dlRow a b prev2 prev i js (cur[j := d]) (if d < rowMin then d else rowMin))"

text \<open>The row loop: \<open>None\<close> is the early exit \<open>return max + 1\<close>, \<open>Some prev\<close> the last row.\<close>

fun dlRows ::
    "rune list \<Rightarrow> rune list \<Rightarrow> nat \<Rightarrow> nat list \<Rightarrow> nat list \<Rightarrow> nat list \<Rightarrow> nat list \<Rightarrow> nat list option"
where
  "dlRows a b mx [] prev2 prev cur = Some prev"
| "dlRows a b mx (i # is) prev2 prev cur =
     (case dlRow a b prev2 prev i [1..<length b + 1] (cur[0 := i]) i of
        (cur', rowMin) \<Rightarrow>
          if rowMin > mx then None else dlRows a b mx is prev cur' prev2)"

definition damerauLevenshteinBounded :: "rune list \<Rightarrow> rune list \<Rightarrow> nat \<Rightarrow> nat" where
  "damerauLevenshteinBounded a b mx =
     (let la = length a; lb = length b in
      if la - lb > mx \<or> lb - la > mx then mx + 1
      else if la = 0 then (if lb \<le> mx then lb else mx + 1)
      else if lb = 0 then (if la \<le> mx then la else mx + 1)
      else
        (let zero = replicate (lb + 1) 0;
             prev = [0..<lb + 1]
         in case dlRows a b mx [1..<la + 1] zero prev zero of
              None \<Rightarrow> mx + 1
            | Some row \<Rightarrow> (if row ! lb > mx then mx + 1 else row ! lb)))"

section \<open>The neighbourhood of a term\<close>

definition deleteAt :: "rune list \<Rightarrow> nat \<Rightarrow> rune list" where
  "deleteAt s i = take i s @ drop (i + 1) s"

definition swapAt :: "rune list \<Rightarrow> nat \<Rightarrow> rune list" where
  "swapAt s i = s[i - 1 := s ! i, i := s ! (i - 1)]"

text \<open>\<open>set\<close> is kept in insertion order; the map's iteration order is never observable, every
  caller sorts the result.\<close>

definition addVariant ::
    "rune list list \<times> rune list list \<Rightarrow> rune list \<Rightarrow> rune list list \<times> rune list list" where
  "addVariant st v = (case st of (seen, next) \<Rightarrow>
     if v \<in> set seen then (seen, next) else (seen @ [v], next @ [v]))"

fun variantsOf ::
    "rune list \<Rightarrow> nat list \<Rightarrow> rune list list \<times> rune list list \<Rightarrow> rune list list \<times> rune list list"
where
  "variantsOf s [] st = st"
| "variantsOf s (i # is) st =
     (let st1 = addVariant st (deleteAt s i);
          st2 = (if i > 0 then addVariant st1 (swapAt s i) else st1)
      in variantsOf s is st2)"

fun variantsLayer ::
    "rune list list \<Rightarrow> rune list list \<times> rune list list \<Rightarrow> rune list list \<times> rune list list" where
  "variantsLayer [] st = st"
| "variantsLayer (s # layer) st = variantsLayer layer (variantsOf s [0..<length s] st)"

fun variantsLoop :: "nat \<Rightarrow> rune list list \<Rightarrow> rune list list \<Rightarrow> rune list list" where
  "variantsLoop 0 layer seen = seen"
| "variantsLoop (Suc d) layer seen =
     (case variantsLayer layer (seen, []) of (seen', next) \<Rightarrow> variantsLoop d next seen')"

definition fuzzyDeletionVariants :: "rune list \<Rightarrow> nat \<Rightarrow> rune list list" where
  "fuzzyDeletionVariants trm depth =
     trm # filter (\<lambda>v. v \<noteq> trm) (variantsLoop depth [trm] [trm])"

section \<open>The best window of a name\<close>

record windowState =
  best :: nat
  prefixBest :: bool
  bestStart :: nat

definition windowStep ::
    "rune list \<Rightarrow> rune list \<Rightarrow> nat \<Rightarrow> nat \<Rightarrow> nat \<Rightarrow> windowState \<Rightarrow> windowState" where
  "windowStep name trm tau start width st =
     (let d = damerauLevenshteinBounded (take width (drop start name)) trm tau;
          atPrefix = (start = 0)
      in if d < best st \<or> (d = best st \<and> start < bestStart st)
         then (if d < best st
               then st\<lparr>best := d, prefixBest := atPrefix, bestStart := start\<rparr>
               else st\<lparr>bestStart := start\<rparr>)
         else if d = best st \<and> atPrefix then st\<lparr>prefixBest := True\<rparr>
         else st)"

fun windowWidths ::
    "rune list \<Rightarrow> rune list \<Rightarrow> nat \<Rightarrow> nat \<Rightarrow> nat list \<Rightarrow> windowState \<Rightarrow> windowState" where
  "windowWidths name trm tau start [] st = st"
| "windowWidths name trm tau start (width # ws) st =
     (let st' = windowStep name trm tau start width st
      in if best st' = 0 then st' else windowWidths name trm tau start ws st')"

definition widthRange :: "rune list \<Rightarrow> rune list \<Rightarrow> nat \<Rightarrow> nat \<Rightarrow> nat list" where
  "widthRange name trm tau start =
     (let maxWidth = min (int (length trm) + int tau) (int (length name) - int start);
          minWidth = max (int (length trm) - int tau) 1
      in map nat [minWidth..maxWidth])"

fun windowStarts :: "rune list \<Rightarrow> rune list \<Rightarrow> nat \<Rightarrow> nat list \<Rightarrow> windowState \<Rightarrow> windowState" where
  "windowStarts name trm tau [] st = st"
| "windowStarts name trm tau (start # ss) st =
     (let st' = windowWidths name trm tau start (widthRange name trm tau start) st
      in if best st' = 0 then st' else windowStarts name trm tau ss st')"

definition startRange :: "rune list \<Rightarrow> rune list \<Rightarrow> nat \<Rightarrow> nat list" where
  "startRange name trm tau =
     map nat [0..min (int (length name) - int (length trm) + int tau) (int (length name))]"

definition fuzzyNameDistance ::
    "rune list \<Rightarrow> rune list \<Rightarrow> nat \<Rightarrow> nat \<times> bool \<times> nat \<times> bool" where
  "fuzzyNameDistance name trm tau =
     (if length name = 0 then (tau + 1, False, 0, False)
      else let st = windowStarts name trm tau (startRange name trm tau)
                      \<lparr>best = tau + 1, prefixBest = False, bestStart = length name\<rparr>
           in if best st > tau then (best st, False, bestStart st, False)
              else (best st, prefixBest st, bestStart st, True))"

section \<open>Optimal string alignment\<close>

text \<open>The textbook recurrence on prefixes of \<open>a\<close> and \<open>b\<close>.\<close>

fun osa :: "rune list \<Rightarrow> rune list \<Rightarrow> nat \<Rightarrow> nat \<Rightarrow> nat" where
  "osa a b 0 j = j"
| "osa a b (Suc i) 0 = Suc i"
| "osa a b (Suc i) (Suc j) =
     (let m = min (min (osa a b i (Suc j) + 1) (osa a b (Suc i) j + 1))
                  (osa a b i j + (if a ! i = b ! j then 0 else 1))
      in if 0 < i \<and> 0 < j \<and> a ! i = b ! (j - 1) \<and> a ! (i - 1) = b ! j
         then min m (osa a b (i - 1) (j - 1) + 1) else m)"

definition osaDistance :: "rune list \<Rightarrow> rune list \<Rightarrow> nat" where
  "osaDistance a b = osa a b (length a) (length b)"

text \<open>An alignment turns \<open>a\<close> into \<open>b\<close> by edits at the right end, none overlapping another.\<close>

inductive align :: "rune list \<Rightarrow> rune list \<Rightarrow> nat \<Rightarrow> bool" where
  align_nil: "align [] [] 0"
| align_del: "align a b n \<Longrightarrow> align (a @ [x]) b (n + 1)"
| align_ins: "align a b n \<Longrightarrow> align a (b @ [y]) (n + 1)"
| align_keep: "align a b n \<Longrightarrow> align (a @ [x]) (b @ [x]) n"
| align_sub: "align a b n \<Longrightarrow> align (a @ [x]) (b @ [y]) (n + 1)"
| align_swap: "align a b n \<Longrightarrow> align (a @ [x, y]) (b @ [y, x]) (n + 1)"

definition swapHere :: "rune list \<Rightarrow> rune list \<Rightarrow> nat \<Rightarrow> nat \<Rightarrow> bool" where
  "swapHere a b i j \<longleftrightarrow> 0 < i \<and> 0 < j \<and> a ! i = b ! (j - 1) \<and> a ! (i - 1) = b ! j"

lemma osa_SucSuc:
  "osa a b (Suc i) (Suc j) =
     (let m = min (min (osa a b i (Suc j) + 1) (osa a b (Suc i) j + 1))
                  (osa a b i j + (if a ! i = b ! j then 0 else 1))
      in if swapHere a b i j then min m (osa a b (i - 1) (j - 1) + 1) else m)"
  by (simp only: osa.simps swapHere_def)

lemma min4_le:
  fixes x y z t :: nat
  assumes "r = (let m = min (min x y) z in if s then min m t else m)"
  shows "r \<le> x" "r \<le> y" "r \<le> z" "s \<Longrightarrow> r \<le> t"
  using assms by (auto simp: Let_def min_def split: if_splits)

lemma min4_cases:
  fixes x y z t :: nat
  assumes "r = (let m = min (min x y) z in if s then min m t else m)"
  obtains "r = x" | "r = y" | "r = z" | "s" "r = t"
  using assms by (auto simp: Let_def min_def split: if_splits)

lemmas osa_SucSuc_le = min4_le [OF osa_SucSuc]
lemmas osa_SucSuc_cases = min4_cases [OF osa_SucSuc, case_names del ins sub swap]

declare osa.simps(3) [simp del]

lemma osa_0_right [simp]: "osa a b i 0 = i"
  by (cases i) simp_all

lemma osa_ge_diff: "i - j \<le> osa a b i j \<and> j - i \<le> osa a b i j"
proof (induction a b i j rule: osa.induct)
  case (3 a b i j)
  show ?case
  proof (cases rule: osa_SucSuc_cases [of a b i j])
    case swap
    then have "i - 1 - (j - 1) \<le> osa a b (i - 1) (j - 1) \<and> j - 1 - (i - 1) \<le> osa a b (i - 1) (j - 1)"
      using 3(4) by (simp add: swapHere_def)
    with swap show ?thesis by (auto simp: swapHere_def)
  qed (use 3(1,2,3) in auto)
qed auto

lemma osa_Suc_left: "osa a b (Suc i) j \<le> osa a b i j + 1"
  using osa_SucSuc_le(1) [of a b i "j - 1"] by (cases j) auto

text \<open>Every later row has a value at least the least of row \<open>i\<close>: the early exit is sound.\<close>

lemma osa_row_lower:
  "i \<le> i' \<Longrightarrow> \<exists>k\<le>j'. osa a b i k \<le> osa a b i' j'"
proof (induction a b i' j' rule: osa.induct)
  case (2 a b i')
  then show ?case by auto
next
  case (3 a b i' j')
  show ?case
  proof (cases "i = Suc i'")
    case False
    with 3 have le: "i \<le> i'" by simp
    show ?thesis
    proof (cases rule: osa_SucSuc_cases [of a b i' j'])
      case del
      with 3(1) [OF le] show ?thesis by (metis trans_le_add1)
    next
      case ins
      with 3(2) [OF 3(5)] show ?thesis by (metis le_SucI trans_le_add1)
    next
      case sub
      with 3(3) [OF le] show ?thesis by (metis le_SucI trans_le_add1)
    next
      case swap
      then have pos: "0 < i'" "0 < j'" by (auto simp: swapHere_def)
      have "\<exists>k\<le>j' - 1. osa a b i k \<le> osa a b (i' - 1) (j' - 1) + 1"
      proof (cases "i \<le> i' - 1")
        case True
        with 3(4) swap(1) show ?thesis by (fastforce simp: swapHere_def)
      next
        case False
        with le pos have "i = Suc (i' - 1)" by auto
        then show ?thesis using osa_Suc_left [of a b "i' - 1" "j' - 1"] by auto
      qed
      with swap(2) show ?thesis by (metis diff_le_self le_SucI le_trans)
    qed
  qed auto
qed auto

section \<open>The routine computes the capped distance\<close>

definition osaRow :: "rune list \<Rightarrow> rune list \<Rightarrow> nat \<Rightarrow> nat list" where
  "osaRow a b i = map (osa a b i) [0..<length b + 1]"

lemma dlCell_osa:
  assumes "0 < i" "0 < j" "j \<le> length b"
    and "prev = osaRow a b (i - 1)" "1 < i \<Longrightarrow> prev2 = osaRow a b (i - 2)"
    and "cur ! (j - 1) = osa a b i (j - 1)"
  shows "dlCell a b prev2 prev i cur j = osa a b i j"
proof -
  obtain i' j' where ij: "i = Suc i'" "j = Suc j'"
    using assms(1,2) by (metis gr0_implies_Suc)
  have "prev ! j = osa a b i' (Suc j')" "prev ! (j - 1) = osa a b i' j'"
    using assms ij by (auto simp: osaRow_def nth_append simp del: upt_Suc)
  moreover have "prev2 ! (j - 2) = osa a b (i' - 1) (j' - 1)" if "0 < i'" "0 < j'"
    using assms ij that by (auto simp: osaRow_def numeral_2_eq_2 simp del: upt_Suc)
  moreover have "cur ! (j - 1) = osa a b (Suc i') j'" using assms(6) ij by simp
  moreover have "(1 < i \<and> 1 < j \<and> a ! (i - 1) = b ! (j - 2) \<and> a ! (i - 2) = b ! (j - 1)) = swapHere a b i' j'"
    using ij by (auto simp: swapHere_def numeral_2_eq_2)
  moreover have "a ! (i - 1) = a ! i'" "b ! (j - 1) = b ! j'" using ij by simp_all
  ultimately show ?thesis
    unfolding dlCell_def ij osa_SucSuc Let_def min_def
    by (cases "swapHere a b i' j'") (simp_all add: swapHere_def)
qed

lemma dlRow_osa:
  assumes "0 < i" "j \<le> length b + 1" "0 < j"
    and "prev = osaRow a b (i - 1)" "1 < i \<Longrightarrow> prev2 = osaRow a b (i - 2)"
    and "length cur = length b + 1" "\<forall>k<j. cur ! k = osa a b i k"
    and "rowMin = Min (osa a b i ` {..<j})"
  shows "dlRow a b prev2 prev i [j..<length b + 1] cur rowMin =
         (osaRow a b i, Min (osa a b i ` {..length b}))"
  using assms
proof (induction "length b + 1 - j" arbitrary: j cur rowMin)
  case 0
  then have j: "j = length b + 1" by simp
  have "cur = osaRow a b i"
    using 0 j by (intro nth_equalityI) (auto simp: osaRow_def simp del: upt_Suc)
  moreover have "{..<j} = {..length b}" using j by auto
  ultimately show ?case using j 0 by simp
next
  case (Suc n)
  then have jl: "j \<le> length b" by simp
  let ?d = "dlCell a b prev2 prev i cur j"
  have d: "?d = osa a b i j"
    by (rule dlCell_osa) (use Suc.prems jl in auto)
  have "osa a b i ` {..<Suc j} = insert (osa a b i j) (osa a b i ` {..<j})"
    by (auto simp: lessThan_Suc)
  then have "Min (osa a b i ` {..<Suc j}) = min (osa a b i j) rowMin"
    using Suc.prems(3,8) by (simp add: lessThan_empty_iff)
  then have m: "(if ?d < rowMin then ?d else rowMin) = Min (osa a b i ` {..<Suc j})"
    using d by (simp add: min_def)
  have "dlRow a b prev2 prev i [Suc j..<length b + 1] (cur[j := ?d])
          (if ?d < rowMin then ?d else rowMin) = (osaRow a b i, Min (osa a b i ` {..length b}))"
  proof (rule Suc.hyps(1))
    show "\<forall>k<Suc j. cur[j := ?d] ! k = osa a b i k"
    proof (intro allI impI)
      fix k assume "k < Suc j"
      moreover have "j < length cur" using Suc.prems(6) jl by simp
      ultimately show "cur[j := ?d] ! k = osa a b i k"
        using Suc.prems(7) d by (cases "k = j") auto
    qed
  qed (use Suc.prems Suc.hyps(2) m jl in auto)
  then show ?case
    using jl by (subst upt_conv_Cons) (auto simp: Let_def simp del: upt_Suc)
qed

lemma dlRows_osa:
  assumes "0 < i" "i \<le> length a + 1"
    and "prev = osaRow a b (i - 1)" "1 < i \<Longrightarrow> prev2 = osaRow a b (i - 2)"
    and "length prev2 = length b + 1" "length cur = length b + 1"
  shows "case dlRows a b mx [i..<length a + 1] prev2 prev cur of
           None \<Rightarrow> mx < osa a b (length a) (length b)
         | Some row \<Rightarrow> row = osaRow a b (length a)"
  using assms
proof (induction "length a + 1 - i" arbitrary: i prev2 prev cur)
  case 0
  then show ?case by simp
next
  case (Suc n)
  then have il: "i \<le> length a" by simp
  have row: "dlRow a b prev2 prev i [1..<length b + 1] (cur[0 := i]) i =
      (osaRow a b i, Min (osa a b i ` {..length b}))"
    by (rule dlRow_osa) (use Suc.prems in \<open>auto simp: lessThan_Suc\<close>)
  have step: "dlRows a b mx [i..<length a + 1] prev2 prev cur =
      (if Min (osa a b i ` {..length b}) > mx then None
       else dlRows a b mx [Suc i..<length a + 1] prev (osaRow a b i) prev2)"
    using il row by (subst upt_conv_Cons) (auto simp del: upt_Suc)
  show ?case
  proof (cases "Min (osa a b i ` {..length b}) > mx")
    case True
    obtain k where "k \<le> length b" "osa a b i k \<le> osa a b (length a) (length b)"
      using osa_row_lower [OF il] by blast
    moreover have "mx < osa a b i k" if "k \<le> length b" for k
      using True that by (simp add: Min_gr_iff)
    ultimately have "mx < osa a b (length a) (length b)"
      using less_le_trans by blast
    with True step show ?thesis by simp
  next
    case False
    have "case dlRows a b mx [Suc i..<length a + 1] prev (osaRow a b i) prev2 of
           None \<Rightarrow> mx < osa a b (length a) (length b)
         | Some row \<Rightarrow> row = osaRow a b (length a)"
      by (rule Suc.hyps(1)) (use Suc.prems Suc.hyps(2) il in \<open>auto simp: osaRow_def numeral_2_eq_2\<close>)
    with False show ?thesis unfolding step by (simp only: if_False)
  qed
qed

lemma damerauLevenshteinBounded_osa:
  "damerauLevenshteinBounded a b mx = (if osaDistance a b \<le> mx then osaDistance a b else mx + 1)"
proof (cases "length a - length b > mx \<or> length b - length a > mx \<or> a = [] \<or> b = []")
  case True
  then show ?thesis
    using osa_ge_diff [of "length a" "length b" a b]
    by (auto simp: damerauLevenshteinBounded_def osaDistance_def Let_def)
next
  case False
  let ?r = "dlRows a b mx [1..<length a + 1] (replicate (length b + 1) 0) [0..<length b + 1]
              (replicate (length b + 1) 0)"
  have r: "case ?r of None \<Rightarrow> mx < osaDistance a b | Some row \<Rightarrow> row = osaRow a b (length a)"
    unfolding osaDistance_def
    by (rule dlRows_osa) (auto simp: osaRow_def map_idI simp del: upt_Suc replicate_Suc)
  have "damerauLevenshteinBounded a b mx =
      (case ?r of None \<Rightarrow> mx + 1 | Some row \<Rightarrow> (if row ! length b > mx then mx + 1 else row ! length b))"
    using False by (simp add: damerauLevenshteinBounded_def Let_def del: upt_Suc replicate_Suc)
  moreover have "osaRow a b (length a) ! length b = osaDistance a b"
    by (simp add: osaRow_def osaDistance_def del: upt_Suc)
  ultimately show ?thesis using r by (cases ?r) (simp_all del: upt_Suc replicate_Suc)
qed

section \<open>The distance is the cost of a cheapest alignment\<close>

lemma align_osa: "align (take i a) (take j b) (osa a b i j)" if "i \<le> length a" "j \<le> length b"
  using that
proof (induction a b i j rule: osa.induct)
  case (1 a b j)
  then show ?case
  proof (induction j)
    case (Suc j)
    then show ?case
      using align_ins [of "[]" "take j b" j "b ! j"] by (simp add: take_Suc_conv_app_nth)
  qed (simp add: align_nil)
next
  case (2 a b i)
  have "align (take i' a) [] i'" if "i' \<le> length a" for i'
    using that
  proof (induction i')
    case (Suc i')
    then show ?case
      using align_del [of "take i' a" "[]" i' "a ! i'"] by (simp add: take_Suc_conv_app_nth)
  qed (simp add: align_nil)
  with 2 show ?case by simp
next
  case (3 a b i j)
  have ta: "take (Suc i) a = take i a @ [a ! i]" and tb: "take (Suc j) b = take j b @ [b ! j]"
    using 3(5,6) by (simp_all add: take_Suc_conv_app_nth)
  show ?case
  proof (cases rule: osa_SucSuc_cases [of a b i j])
    case del
    with 3(1) 3(5,6) align_del ta show ?thesis by simp
  next
    case ins
    with 3(2) 3(5,6) align_ins tb show ?thesis by simp
  next
    case sub
    with 3(3) 3(5,6) align_keep align_sub show ?thesis unfolding ta tb by auto
  next
    case swap
    then obtain i' j' where ij: "i = Suc i'" "j = Suc j'"
      by (auto simp: swapHere_def gr0_conv_Suc)
    have "align (take i' a) (take j' b) (osa a b i' j')"
      using 3(4) 3(5,6) swap(1) ij by (simp add: swapHere_def)
    from align_swap [OF this, of "a ! i'" "a ! i"] show ?thesis
      using swap ij 3(5,6) by (simp add: swapHere_def take_Suc_conv_app_nth)
  qed
qed

lemma osa_prefix_cong:
  "(\<And>k. k < i \<Longrightarrow> a ! k = a' ! k) \<Longrightarrow> (\<And>k. k < j \<Longrightarrow> b ! k = b' ! k) \<Longrightarrow> osa a b i j = osa a' b' i j"
proof (induction a b i j rule: osa.induct)
  case (3 a b i j)
  have sw: "swapHere a b i j = swapHere a' b' i j"
    using 3(5,6) by (auto simp: swapHere_def)
  show ?case
    unfolding osa_SucSuc sw using 3(1-4) 3(5,6) by (simp add: Let_def swapHere_def)
qed auto

lemma osa_append [simp]: "i \<le> length a \<Longrightarrow> j \<le> length b \<Longrightarrow> osa (a @ x) (b @ y) i j = osa a b i j"
  by (rule osa_prefix_cong) (simp_all add: nth_append)

lemma osa_append_left [simp]: "i \<le> length a \<Longrightarrow> osa (a @ x) b i j = osa a b i j"
  by (rule osa_prefix_cong) (simp_all add: nth_append)

lemma osa_append_right [simp]: "j \<le> length b \<Longrightarrow> osa a (b @ y) i j = osa a b i j"
  by (rule osa_prefix_cong) (simp_all add: nth_append)

lemma osa_le_align: "align a b n \<Longrightarrow> osaDistance a b \<le> n"
proof (induction rule: align.induct)
  case (align_del a b n x)
  then show ?case
    using osa_Suc_left [of "a @ [x]" b "length a" "length b"] by (simp add: osaDistance_def)
next
  case (align_ins a b n y)
  then show ?case
    using osa_SucSuc_le(2) [of a "b @ [y]" "length a - 1" "length b"]
    by (cases "length a") (auto simp: osaDistance_def)
next
  case (align_keep a b n x)
  then show ?case
    using osa_SucSuc_le(3) [of "a @ [x]" "b @ [x]" "length a" "length b"]
    by (simp add: osaDistance_def)
next
  case (align_sub a b n x y)
  then show ?case
    using osa_SucSuc_le(3) [of "a @ [x]" "b @ [y]" "length a" "length b"]
    by (simp add: osaDistance_def split: if_splits)
next
  case (align_swap a b n x y)
  then show ?case
    using osa_SucSuc_le(4) [of "a @ [x, y]" "b @ [y, x]" "Suc (length a)" "Suc (length b)"]
    by (simp add: osaDistance_def swapHere_def nth_append)
qed (simp add: osaDistance_def)

section \<open>The neighbourhood is everything within \<open>depth\<close> deletions and transpositions\<close>

definition edits :: "rune list \<Rightarrow> rune list set" where
  "edits s = {deleteAt s i | i. i < length s} \<union> {swapAt s i | i. 0 < i \<and> i < length s}"

fun within :: "rune list \<Rightarrow> nat \<Rightarrow> rune list set" where
  "within trm 0 = {trm}"
| "within trm (Suc n) = within trm n \<union> (\<Union>s\<in>within trm n. edits s)"

text \<open>The pair \<open>(set, next)\<close> after some variants \<open>V\<close> were offered to it.\<close>

definition offered :: "rune list list \<Rightarrow> rune list set \<Rightarrow> rune list list \<times> rune list list \<Rightarrow> bool" where
  "offered seen0 V st \<longleftrightarrow> set (fst st) = set seen0 \<union> V \<and> set (snd st) = V - set seen0 \<and>
     distinct (fst st)"

lemma offered_add: "offered seen0 V st \<Longrightarrow> offered seen0 (insert v V) (addVariant st v)"
  by (cases st) (auto simp: offered_def addVariant_def)

lemma offered_variantsOf:
  "offered seen0 V st \<Longrightarrow>
   offered seen0 (V \<union> (deleteAt s ` set is) \<union> (swapAt s ` {i \<in> set is. 0 < i})) (variantsOf s is st)"
proof (induction "is" arbitrary: V st)
  case (Cons i js)
  let ?st = "if 0 < i then addVariant (addVariant st (deleteAt s i)) (swapAt s i)
             else addVariant st (deleteAt s i)"
  let ?V = "if 0 < i then insert (swapAt s i) (insert (deleteAt s i) V) else insert (deleteAt s i) V"
  have "offered seen0 ?V ?st"
    using offered_add [OF Cons.prems] offered_add [OF offered_add [OF Cons.prems]] by simp
  from Cons.IH [OF this] have
    "offered seen0 (?V \<union> deleteAt s ` set js \<union> swapAt s ` {i \<in> set js. 0 < i}) (variantsOf s js ?st)" .
  moreover have "?V \<union> deleteAt s ` set js \<union> swapAt s ` {i \<in> set js. 0 < i} =
      V \<union> deleteAt s ` set (i # js) \<union> swapAt s ` {k \<in> set (i # js). 0 < k}"
    by auto
  ultimately show ?case by (simp add: Let_def)
qed simp

lemma offered_variantsLayer:
  "offered seen0 V st \<Longrightarrow> offered seen0 (V \<union> (\<Union>s\<in>set layer. edits s)) (variantsLayer layer st)"
proof (induction layer arbitrary: V st)
  case (Cons s layer)
  have "V \<union> deleteAt s ` set [0..<length s] \<union> swapAt s ` {i \<in> set [0..<length s]. 0 < i}
      \<union> \<Union> (edits ` set layer) = V \<union> \<Union> (edits ` set (s # layer))"
    by (auto simp: edits_def)
  with Cons.IH [OF offered_variantsOf [OF Cons.prems, of s "[0..<length s]"]] show ?case
    by (simp only: variantsLayer.simps)
qed simp

lemma variantsLoop_within:
  assumes "set seen = within trm k" "distinct seen"
    and "set layer = within trm k - (if k = 0 then {} else within trm (k - 1))"
  shows "set (variantsLoop d layer seen) = within trm (k + d) \<and> distinct (variantsLoop d layer seen)"
  using assms
proof (induction d arbitrary: k layer seen)
  case (Suc d)
  obtain seen' nxt where st: "variantsLayer layer (seen, []) = (seen', nxt)" by fastforce
  have "offered seen {} (seen, [])" using Suc.prems(2) by (simp add: offered_def)
  from offered_variantsLayer [OF this, of layer]
  have off: "offered seen (\<Union>s\<in>set layer. edits s) (seen', nxt)" using st by simp
  have "(\<Union>s\<in>within trm (k - 1). edits s) \<subseteq> within trm k" if "k \<noteq> 0"
    using that by (cases k) auto
  then have sub: "(\<Union>s\<in>within trm k. edits s) \<subseteq> within trm k \<union> (\<Union>s\<in>set layer. edits s)"
    using Suc.prems(3) by (auto split: if_splits)
  have "set seen' = within trm (Suc k)" "set nxt = within trm (Suc k) - within trm k"
    using off Suc.prems(1,3) sub by (auto simp: offered_def split: if_splits)
  with Suc.IH [of seen' "Suc k" nxt] off st show ?case by (simp add: offered_def)
qed simp

section \<open>The sliding window\<close>

text \<open>Both loops visit the windows in order and stop at distance 0; flattened:\<close>

fun windowFlat :: "rune list \<Rightarrow> rune list \<Rightarrow> nat \<Rightarrow> (nat \<times> nat) list \<Rightarrow> windowState \<Rightarrow> windowState" where
  "windowFlat name trm tau [] st = st"
| "windowFlat name trm tau ((start, width) # ps) st =
     (let st' = windowStep name trm tau start width st
      in if best st' = 0 then st' else windowFlat name trm tau ps st')"

lemma windowFlat_append:
  "windowFlat name trm tau (ps @ qs) st =
     (let st' = windowFlat name trm tau ps st
      in if ps \<noteq> [] \<and> best st' = 0 then st' else windowFlat name trm tau qs st')"
  by (induction name trm tau ps st rule: windowFlat.induct) (auto simp: Let_def)

lemma windowWidths_flat:
  "windowWidths name trm tau start ws st = windowFlat name trm tau (map (Pair start) ws) st"
  by (induction name trm tau start ws st rule: windowWidths.induct) (auto simp: Let_def)

lemma windowStarts_flat:
  "best st \<noteq> 0 \<Longrightarrow> windowStarts name trm tau ss st =
     windowFlat name trm tau (concat (map (\<lambda>s. map (Pair s) (widthRange name trm tau s)) ss)) st"
  by (induction name trm tau ss st rule: windowStarts.induct)
    (auto simp: Let_def windowFlat_append windowWidths_flat)

definition windowCap :: "rune list \<Rightarrow> rune list \<Rightarrow> nat \<Rightarrow> nat \<times> nat \<Rightarrow> nat" where
  "windowCap name trm tau p = damerauLevenshteinBounded (take (snd p) (drop (fst p) name)) trm tau"

text \<open>After the windows \<open>W\<close>: \<open>best\<close> is their least capped distance, \<open>bestStart\<close> the first
  start that attains it.\<close>

definition windowInv ::
    "rune list \<Rightarrow> rune list \<Rightarrow> nat \<Rightarrow> (nat \<times> nat) set \<Rightarrow> windowState \<Rightarrow> bool" where
  "windowInv name trm tau W st \<longleftrightarrow> best st \<le> tau + 1 \<and>
     (\<forall>p\<in>W. best st \<le> windowCap name trm tau p) \<and>
     (best st \<le> tau \<longrightarrow>
        (\<exists>p\<in>W. fst p = bestStart st \<and> windowCap name trm tau p = best st) \<and>
        (\<forall>p\<in>W. windowCap name trm tau p = best st \<longrightarrow> bestStart st \<le> fst p) \<and>
        (prefixBest st \<longleftrightarrow> bestStart st = 0))"

lemma windowStep_cap:
  "windowStep name trm tau start width st =
     (let d = windowCap name trm tau (start, width)
      in if d < best st then st\<lparr>best := d, prefixBest := start = 0, bestStart := start\<rparr>
         else if d = best st \<and> start < bestStart st then st\<lparr>bestStart := start\<rparr>
         else if d = best st \<and> start = 0 then st\<lparr>prefixBest := True\<rparr>
         else st)"
  by (simp add: windowStep_def windowCap_def Let_def)

lemma windowCap_le: "windowCap name trm tau p \<le> tau + 1"
  by (simp add: windowCap_def damerauLevenshteinBounded_osa)

lemma windowStep_inv:
  assumes inv: "windowInv name trm tau W st" and le: "\<forall>p\<in>W. fst p \<le> start"
  shows "windowInv name trm tau (insert (start, width) W) (windowStep name trm tau start width st)"
proof -
  define d where "d = windowCap name trm tau (start, width)"
  have tau: "d \<le> tau + 1" unfolding d_def by (rule windowCap_le)
  show ?thesis
  proof (cases "d < best st")
    case True
    then show ?thesis
      using inv tau d_def by (fastforce simp: windowStep_cap windowInv_def Let_def)
  next
    case False
    have start: "bestStart st \<le> start" if "best st \<le> tau"
      using inv le that by (auto simp: windowInv_def)
    show ?thesis
      using False inv start d_def by (auto simp: windowStep_cap windowInv_def Let_def)
  qed
qed

lemma windowFlat_inv:
  assumes "windowInv name trm tau W st" "sorted (map fst ps)" "\<forall>p\<in>W. \<forall>q\<in>set ps. fst p \<le> fst q"
    and "best st \<noteq> 0"
  shows "windowInv name trm tau (W \<union> set ps) (windowFlat name trm tau ps st)"
  using assms
proof (induction ps arbitrary: W st)
  case (Cons p ps)
  obtain start width where p: "p = (start, width)" by fastforce
  let ?st = "windowStep name trm tau start width st"
  have inv: "windowInv name trm tau (insert p W) ?st"
    using windowStep_inv [OF Cons.prems(1)] Cons.prems(3) p by auto
  show ?case
  proof (cases "best ?st = 0")
    case True
    have "\<forall>q\<in>set ps. bestStart ?st \<le> fst q"
      using inv True Cons.prems(2,3) p by (fastforce simp: windowInv_def)
    with inv True have "windowInv name trm tau (insert p W \<union> set ps) ?st"
      by (auto simp: windowInv_def)
    with True p show ?thesis by simp
  next
    case False
    with Cons.IH [OF inv] Cons.prems p show ?thesis by (auto simp: Let_def)
  qed
qed simp

definition windows :: "rune list \<Rightarrow> rune list \<Rightarrow> nat \<Rightarrow> (nat \<times> nat) list" where
  "windows name trm tau =
     concat (map (\<lambda>s. map (Pair s) (widthRange name trm tau s)) (startRange name trm tau))"

lemma nat_image_iff: "0 \<le> lo \<Longrightarrow> w \<in> nat ` {lo..hi} \<longleftrightarrow> int w \<in> {lo..hi}"
  by (force simp: image_iff)

lemma in_windows_iff:
  "(s, w) \<in> set (windows name trm tau) \<longleftrightarrow>
     0 < w \<and> length trm \<le> w + tau \<and> w \<le> length trm + tau \<and> s + w \<le> length name"
proof -
  have "(s, w) \<in> set (windows name trm tau) \<longleftrightarrow>
      s \<in> set (startRange name trm tau) \<and> w \<in> set (widthRange name trm tau s)"
    by (auto simp: windows_def)
  also have "s \<in> set (startRange name trm tau) \<longleftrightarrow>
      s + length trm \<le> length name + tau \<and> s \<le> length name"
    unfolding startRange_def set_map set_upto by (subst nat_image_iff) auto
  also have "w \<in> set (widthRange name trm tau s) \<longleftrightarrow>
      0 < w \<and> length trm \<le> w + tau \<and> w \<le> length trm + tau \<and> s + w \<le> length name"
    unfolding widthRange_def Let_def set_map set_upto by (subst nat_image_iff) auto
  finally show ?thesis by auto
qed

lemma sorted_map_nat: "sorted xs \<Longrightarrow> sorted (map nat xs)"
  by (induction xs) (auto simp: nat_mono)

lemma sorted_windows: "sorted (map fst (windows name trm tau))"
proof -
  have "sorted (map fst (concat (map (\<lambda>s. map (Pair s) (f s)) ss)))" if "sorted ss"
    for ss :: "nat list" and f :: "nat \<Rightarrow> nat list"
    using that by (induction ss) (auto simp: sorted_append comp_def map_replicate_const)
  moreover have "sorted (startRange name trm tau)"
    unfolding startRange_def using sorted_upto by (rule sorted_map_nat)
  ultimately show ?thesis unfolding windows_def by blast
qed

lemma close_prefix_is_window:
  assumes "w \<noteq> []" "prefix w (drop p name)" "osaDistance w trm \<le> tau"
  shows "(p, length w) \<in> set (windows name trm tau) \<and> windowCap name trm tau (p, length w) = osaDistance w trm"
proof -
  from assms(2) obtain r where r: "drop p name = w @ r" by (auto simp: prefix_def)
  then have len: "p + length w \<le> length name" using assms(1)
    by (metis add.commute append_eq_conv_conj drop_eq_Nil length_append length_drop le_add1
          le_diff_conv2 nat_le_linear append_is_Nil_conv)
  moreover have "take (length w) (drop p name) = w" using r by simp
  ultimately show ?thesis
    using assms(1,3) osa_ge_diff [of "length w" "length trm" w trm]
    by (auto simp: in_windows_iff windowCap_def damerauLevenshteinBounded_osa osaDistance_def)
qed

lemma window_is_prefix:
  assumes "(s, w) \<in> set (windows name trm tau)" "windowCap name trm tau (s, w) \<le> tau"
  shows "\<exists>v. v \<noteq> [] \<and> prefix v (drop s name) \<and> osaDistance v trm = windowCap name trm tau (s, w)"
proof (intro exI conjI)
  show "prefix (take w (drop s name)) (drop s name)" by (rule take_is_prefix)
  show "take w (drop s name) \<noteq> []" using assms(1) by (auto simp: in_windows_iff)
  show "osaDistance (take w (drop s name)) trm = windowCap name trm tau (s, w)"
    using assms(2) by (auto simp: windowCap_def damerauLevenshteinBounded_osa split: if_splits)
qed

lemma fuzzyNameDistance_state:
  assumes "name \<noteq> []"
  obtains st where "windowInv name trm tau (set (windows name trm tau)) st"
    "fuzzyNameDistance name trm tau =
       (if best st > tau then (best st, False, bestStart st, False)
        else (best st, prefixBest st, bestStart st, True))"
proof
  define st0 where "st0 = \<lparr>best = tau + 1, prefixBest = False, bestStart = length name\<rparr>"
  let ?st = "windowStarts name trm tau (startRange name trm tau) st0"
  have "best st0 \<noteq> 0" by (simp add: st0_def)
  then show "windowInv name trm tau (set (windows name trm tau)) ?st"
    using windowFlat_inv [of name trm tau "{}" st0 "windows name trm tau"] sorted_windows
    by (simp add: windowStarts_flat windows_def) (simp add: windowInv_def st0_def)
  show "fuzzyNameDistance name trm tau =
       (if best ?st > tau then (best ?st, False, bestStart ?st, False)
        else (best ?st, prefixBest ?st, bestStart ?st, True))"
    using assms by (simp add: fuzzyNameDistance_def Let_def st0_def)
qed

section \<open>Properties\<close>

text \<open>
  C39: The bounded routine, with its rotating row buffers, length shortcuts and row-minimum early
  exit, returns the optimal-string-alignment distance when that is at most \<open>max\<close> and
  \<open>max + 1\<close> otherwise, where the distance is the cost of a cheapest alignment: some alignment
  has that cost and none has a smaller one.
\<close>

theorem damerauLevenshteinBounded_optimal:
  "\<exists>n. align a b n \<and> {m. align a b m} \<subseteq> {n..} \<and>
     damerauLevenshteinBounded a b mx = (if n \<le> mx then n else mx + 1)"
  using align_osa [of "length a" a "length b" b] osa_le_align damerauLevenshteinBounded_osa
  by (intro exI [of _ "osaDistance a b"]) (auto simp: osaDistance_def)

text \<open>
  The neighbourhood of a term is, without duplicates, exactly the set of rune strings
  reachable by at most \<open>depth\<close> single deletions or adjacent transpositions: the breadth-first
  expansion with its shared visited set misses nothing.
\<close>

theorem fuzzyDeletionVariants_exact:
  "set (fuzzyDeletionVariants trm depth) = within trm depth \<and>
   distinct (fuzzyDeletionVariants trm depth)"
proof -
  have "set (variantsLoop depth [trm] [trm]) = within trm (0 + depth) \<and>
      distinct (variantsLoop depth [trm] [trm])"
    by (rule variantsLoop_within) simp_all
  moreover have "trm \<in> within trm n" for n by (induction n) auto
  ultimately show ?thesis by (auto simp: fuzzyDeletionVariants_def)
qed

text \<open>
  The neighbourhood alone does not cover a substitution in the middle of a term: the name
  \<open>repxrt\<close> is at distance 1 of \<open>report\<close>, yet contains no variant of it, so the candidate
  lookup by contained variants cannot reach it.
\<close>

theorem fuzzyDeletionVariants_miss_substitution:
  "\<exists>trm name. damerauLevenshteinBounded name trm 1 = 1 \<and>
     set (fuzzyDeletionVariants trm (fuzzyThresholdForTerm trm)) \<inter> {v. sublist v name} = {}"
proof (intro exI conjI)
  let ?r = "map (of_char :: char \<Rightarrow> int)"
  show "damerauLevenshteinBounded (?r ''repxrt'') (?r ''report'') 1 = 1" by code_simp
  have "\<forall>v\<in>set (fuzzyDeletionVariants (?r ''report'') (fuzzyThresholdForTerm (?r ''report''))).
      \<not> sublist v (?r ''repxrt'')"
    by code_simp
  then show "set (fuzzyDeletionVariants (?r ''report'') (fuzzyThresholdForTerm (?r ''report''))) \<inter>
      {v. sublist v (?r ''repxrt'')} = {}"
    by blast
qed

text \<open>
  The sliding window finds the best alignment over every non-empty substring of the name,
  although it only visits widths within \<open>tau\<close> of the term's length and stops early: the name
  is accepted exactly when some substring is within \<open>tau\<close>, the distance reported is the least
  over all substrings, the position reported is the first start attaining it, and the prefix
  flag says that this start is 0.
\<close>

theorem fuzzyNameDistance_correct:
  assumes "fuzzyNameDistance name trm tau = (d, pre, pos, ok)"
  shows "(ok \<longleftrightarrow> (\<exists>p w. w \<noteq> [] \<and> prefix w (drop p name) \<and> osaDistance w trm \<le> tau)) \<and>
    (ok \<longrightarrow> d \<le> tau \<and> (pre \<longleftrightarrow> pos = 0) \<and>
       (\<exists>w. w \<noteq> [] \<and> prefix w (drop pos name) \<and> osaDistance w trm = d) \<and>
       (\<forall>p w. w \<noteq> [] \<and> prefix w (drop p name) \<longrightarrow>
          d \<le> osaDistance w trm \<and> (osaDistance w trm = d \<longrightarrow> pos \<le> p)))"
proof (cases "name = []")
  case True
  then show ?thesis using assms by (auto simp: fuzzyNameDistance_def)
next
  case False
  then obtain st where inv: "windowInv name trm tau (set (windows name trm tau)) st"
    and res: "fuzzyNameDistance name trm tau =
       (if best st > tau then (best st, False, bestStart st, False)
        else (best st, prefixBest st, bestStart st, True))"
    by (rule fuzzyNameDistance_state)
  have ok: "ok \<longleftrightarrow> best st \<le> tau" and d: "d = best st" "pos = bestStart st" "ok \<Longrightarrow> pre = prefixBest st"
    using res assms by (auto split: if_splits)
  have low: "best st \<le> osaDistance w trm \<and> (osaDistance w trm = best st \<longrightarrow> bestStart st \<le> p)"
    if "w \<noteq> []" "prefix w (drop p name)" "osaDistance w trm \<le> tau" for p w
  proof -
    note win = close_prefix_is_window [OF that]
    have "best st \<le> windowCap name trm tau (p, length w)"
      using inv win unfolding windowInv_def by blast
    then have le: "best st \<le> osaDistance w trm" using win by simp
    moreover have "bestStart st \<le> p" if "osaDistance w trm = best st"
      using inv win \<open>osaDistance w trm \<le> tau\<close> that unfolding windowInv_def by (metis fst_conv)
    ultimately show ?thesis by blast
  qed
  have att: "\<exists>w. w \<noteq> [] \<and> prefix w (drop (bestStart st) name) \<and> osaDistance w trm = best st"
    if "best st \<le> tau"
  proof -
    from inv that obtain w where "(bestStart st, w) \<in> set (windows name trm tau)"
      "windowCap name trm tau (bestStart st, w) = best st"
      by (auto simp: windowInv_def)
    with window_is_prefix that show ?thesis by metis
  qed
  have iff: "best st \<le> tau \<longleftrightarrow> (\<exists>p w. w \<noteq> [] \<and> prefix w (drop p name) \<and> osaDistance w trm \<le> tau)"
    using att low by (metis le_trans)
  have pre: "prefixBest st \<longleftrightarrow> bestStart st = 0" if "best st \<le> tau"
    using inv that by (simp add: windowInv_def)
  have all: "best st \<le> osaDistance w trm \<and> (osaDistance w trm = best st \<longrightarrow> bestStart st \<le> p)"
    if "best st \<le> tau" "w \<noteq> []" "prefix w (drop p name)" for p w
    using low [OF that(2,3)] that(1) by fastforce
  show ?thesis
    using iff pre att all d ok by (intro conjI impI allI) auto
qed

theorem fuzzyNameDistance_correct_witness:
  "\<exists>w. w \<noteq> [] \<and> prefix w (drop 1 (map of_char ''xreprot'')) \<and>
     osaDistance w (map of_char ''report'') = 1"
proof -
  have "fuzzyNameDistance (map of_char ''xreprot'') (map of_char ''report'') 1 = (1, False, 1, True)"
    by code_simp
  from fuzzyNameDistance_correct [OF this] show ?thesis by blast
qed

end
