(* ===== verification/GramCodec.thy ===== *)
theory GramCodec
  imports Prelude
begin

text \<open>
  Gram keys and posting compression (\<open>cmd/seekfs/trigram_index.go\<close>, from
  \<open>uniqueTrigramKeys\<close> to the end of the file): packing three or four bytes into a
  \<open>uint32\<close>, the distinct grams of a text in order of first occurrence, and the delta plus
  unsigned-varint encoding of id lists over \<open>encoding/binary\<close>.
\<close>

section \<open>Gram keys\<close>

definition byteAt :: "string \<Rightarrow> nat \<Rightarrow> u32" where
  "byteAt s i = of_char (s ! i)"

definition fixedGramKey :: "string \<Rightarrow> nat \<Rightarrow> nat \<Rightarrow> u32" where
  "fixedGramKey s i n =
     (if n = 4
      then push_bit 24 (byteAt s i) OR push_bit 16 (byteAt s (i + 1)) OR
           push_bit 8 (byteAt s (i + 2)) OR byteAt s (i + 3)
      else push_bit 16 (byteAt s i) OR push_bit 8 (byteAt s (i + 1)) OR byteAt s (i + 2))"

definition foldByteAt :: "string \<Rightarrow> nat \<Rightarrow> u32" where
  "foldByteAt s i = of_char (foldASCII (s ! i))"

definition fixedGramKeyFoldASCII :: "string \<Rightarrow> nat \<Rightarrow> nat \<Rightarrow> u32" where
  "fixedGramKeyFoldASCII s i n =
     (if n = 4
      then push_bit 24 (foldByteAt s i) OR push_bit 16 (foldByteAt s (i + 1)) OR
           push_bit 8 (foldByteAt s (i + 2)) OR foldByteAt s (i + 3)
      else push_bit 16 (foldByteAt s i) OR push_bit 8 (foldByteAt s (i + 1)) OR foldByteAt s (i + 2))"

text \<open>The loop with a \<open>seen\<close> set: a key is appended at its first occurrence.\<close>

fun uniqueKeysLoop :: "(nat \<Rightarrow> u32) \<Rightarrow> nat list \<Rightarrow> u32 set \<Rightarrow> u32 list \<Rightarrow> u32 list" where
  "uniqueKeysLoop key [] seen out = out"
| "uniqueKeysLoop key (i # is) seen out =
     (if key i \<in> seen then uniqueKeysLoop key is seen out
      else uniqueKeysLoop key is (insert (key i) seen) (out @ [key i]))"

definition uniqueFixedGramKeys :: "string \<Rightarrow> nat \<Rightarrow> u32 list" where
  "uniqueFixedGramKeys s n =
     (if length s < 3 then []
      else if n \<noteq> 3 \<and> n \<noteq> 4 then []
      else if length s < n then []
      else uniqueKeysLoop (\<lambda>i. fixedGramKey s i n) [0..<length s - n + 1] {} [])"

definition uniqueFixedGramKeysFoldASCII :: "string \<Rightarrow> nat \<Rightarrow> u32 list" where
  "uniqueFixedGramKeysFoldASCII s n =
     (if n \<noteq> 3 \<and> n \<noteq> 4 then []
      else if length s < n then []
      else uniqueKeysLoop (\<lambda>i. fixedGramKeyFoldASCII s i n) [0..<length s - n + 1] {} [])"

definition uniqueTrigramKeys :: "string \<Rightarrow> u32 list" where
  "uniqueTrigramKeys s = uniqueFixedGramKeys s 3"

definition uniqueTrigramKeysFoldASCII :: "string \<Rightarrow> u32 list" where
  "uniqueTrigramKeysFoldASCII s = uniqueFixedGramKeysFoldASCII s 3"

text \<open>The allocation-free variants scan the output built so far; the scratch slice \<open>dst\<close> is
  truncated first, so its old contents do not matter.\<close>

fun appendKeysLoop :: "(nat \<Rightarrow> u32) \<Rightarrow> nat list \<Rightarrow> u32 list \<Rightarrow> u32 list" where
  "appendKeysLoop key [] dst = dst"
| "appendKeysLoop key (i # is) dst =
     (if list_ex (\<lambda>k. k = key i) dst then appendKeysLoop key is dst
      else appendKeysLoop key is (dst @ [key i]))"

definition appendUniqueFixedGramKeys :: "u32 list \<Rightarrow> string \<Rightarrow> nat \<Rightarrow> u32 list" where
  "appendUniqueFixedGramKeys dst s n =
     (let dst = [] in
      if (n \<noteq> 3 \<and> n \<noteq> 4) \<or> length s < n then dst
      else appendKeysLoop (\<lambda>i. fixedGramKey s i n) [0..<length s - n + 1] dst)"

definition appendUniqueFixedGramKeysFoldASCII :: "u32 list \<Rightarrow> string \<Rightarrow> nat \<Rightarrow> u32 list" where
  "appendUniqueFixedGramKeysFoldASCII dst s n =
     (let dst = [] in
      if (n \<noteq> 3 \<and> n \<noteq> 4) \<or> length s < n then dst
      else appendKeysLoop (\<lambda>i. fixedGramKeyFoldASCII s i n) [0..<length s - n + 1] dst)"

definition appendUniqueTrigramKeys :: "u32 list \<Rightarrow> string \<Rightarrow> u32 list" where
  "appendUniqueTrigramKeys dst s = appendUniqueFixedGramKeys dst s 3"

definition trigramKey :: "string \<Rightarrow> u32" where
  "trigramKey s =
     (if length s \<noteq> 3 then 0
      else push_bit 16 (byteAt s 0) OR push_bit 8 (byteAt s 1) OR byteAt s 2)"

definition trigramStringFromKey :: "u32 \<Rightarrow> string" where
  "trigramStringFromKey key =
     [char_of (unat (drop_bit 16 key)), char_of (unat (drop_bit 8 key)), char_of (unat key)]"

section \<open>Delta varints\<close>

text \<open>\<open>binary.PutUvarint\<close>: seven bits per byte, low group first.\<close>

function putUvarint :: "u64 \<Rightarrow> bytes" where
  "putUvarint x =
     (if x \<ge> 0x80 then ucast (x OR 0x80) # putUvarint (drop_bit 7 x) else [ucast x])"
  by pat_completeness auto
termination
  by (relation "measure unat") (simp_all add: word_le_nat_alt drop_bit_eq_div unat_div)

declare putUvarint.simps [simp del]

text \<open>\<open>binary.Uvarint\<close>: the value and the number of bytes read, which is 0 when the buffer is
  too small and negative on overflow.\<close>

fun uvarintLoop :: "bytes \<Rightarrow> nat \<Rightarrow> u64 \<Rightarrow> nat \<Rightarrow> u64 \<times> int" where
  "uvarintLoop [] i x s = (0, 0)"
| "uvarintLoop (b # buf) i x s =
     (if i = 10 then (0, - int (i + 1))
      else if b < 0x80
      then (if i = 9 \<and> b > 1 then (0, - int (i + 1))
            else (x OR push_bit s (ucast b), int (i + 1)))
      else uvarintLoop buf (i + 1) (x OR push_bit s (ucast (b AND 0x7F))) (s + 7))"

definition uvarint :: "bytes \<Rightarrow> u64 \<times> int" where
  "uvarint buf = uvarintLoop buf 0 0 0"

fun encodeDeltaLoop :: "u32 \<Rightarrow> u32 list \<Rightarrow> bytes" where
  "encodeDeltaLoop prev [] = []"
| "encodeDeltaLoop prev (i # ids) = putUvarint (ucast (i - prev)) @ encodeDeltaLoop i ids"

definition encodeDeltaUvarint32 :: "u32 list \<Rightarrow> bytes" where
  "encodeDeltaUvarint32 ids = (if ids = [] then [] else encodeDeltaLoop 0 ids)"

function decodeDeltaLoop :: "u32 \<Rightarrow> bytes \<Rightarrow> u32 list" where
  "decodeDeltaLoop prev encoded =
     (if encoded = [] then []
      else case uvarint encoded of (value, n) \<Rightarrow>
        if n \<le> 0 then []
        else (let i = prev + ucast value in i # decodeDeltaLoop i (drop (nat n) encoded)))"
  by pat_completeness auto
termination
  by (relation "measure (\<lambda>(prev, encoded). length encoded)") auto

declare decodeDeltaLoop.simps [simp del]

text \<open>\<open>count\<close> is only the capacity of the result.\<close>

definition decodeDeltaUvarint32 :: "bytes \<Rightarrow> nat \<Rightarrow> u32 list" where
  "decodeDeltaUvarint32 encoded count = decodeDeltaLoop 0 encoded"

section \<open>Lemmas on gram keys\<close>

lemma uniqueKeysLoop_append:
  "uniqueKeysLoop key is (set out) out = appendKeysLoop key is out"
proof (induction "is" arbitrary: out)
  case (Cons i js)
  then show ?case using Cons.IH [of "out @ [key i]"] by (auto simp: list_ex_iff)
qed simp

lemma uniqueKeysLoop_empty [simp]: "uniqueKeysLoop key is {} [] = appendKeysLoop key is []"
  using uniqueKeysLoop_append [of key "is" "[]"] by simp

lemma appendKeysLoop_set: "set (appendKeysLoop key is dst) = set dst \<union> key ` set is"
  by (induction "is" arbitrary: dst) (auto simp: list_ex_iff)

lemma appendKeysLoop_distinct: "distinct dst \<Longrightarrow> distinct (appendKeysLoop key is dst)"
  by (induction "is" arbitrary: dst) (auto simp: list_ex_iff)

lemma fixedGramKey_append:
  "i + n \<le> length s \<Longrightarrow> n = 3 \<or> n = 4 \<Longrightarrow> fixedGramKey (p @ s @ q) (length p + i) n = fixedGramKey s i n"
  by (auto simp: fixedGramKey_def byteAt_def nth_append)

lemma fixedGramKeyFoldASCII_lower:
  assumes "lowerASCII s = s" "i + n \<le> length s" "n = 3 \<or> n = 4"
  shows "fixedGramKeyFoldASCII s i n = fixedGramKey s i n"
proof -
  have "foldASCII (s ! k) = s ! k" if "k < length s" for k
    using assms(1) that by (metis length_lowerASCII lowerASCII_def nth_map)
  then show ?thesis
    using assms(2,3) by (auto simp: fixedGramKeyFoldASCII_def fixedGramKey_def foldByteAt_def byteAt_def)
qed

text \<open>The grams of a text as a set: the keys of its windows of length \<open>n\<close>.\<close>

definition gramsOf :: "nat \<Rightarrow> string \<Rightarrow> u32 set" where
  "gramsOf n s = (\<lambda>i. fixedGramKey s i n) ` {i. i + n \<le> length s}"

lemma window_range: "n \<le> length s \<Longrightarrow> set [0..<length s - n + 1] = {i. i + n \<le> length s}"
  by auto

lemma set_uniqueFixedGramKeys:
  "n = 3 \<or> n = 4 \<Longrightarrow> set (uniqueFixedGramKeys s n) = gramsOf n s"
  by (auto simp: uniqueFixedGramKeys_def gramsOf_def appendKeysLoop_set simp del: upt_Suc)

lemma distinct_uniqueFixedGramKeys: "distinct (uniqueFixedGramKeys s n)"
  by (simp add: uniqueFixedGramKeys_def appendKeysLoop_distinct del: upt_Suc)

lemma appendUniqueFixedGramKeys_eq:
  "n = 3 \<or> n = 4 \<Longrightarrow> appendUniqueFixedGramKeys dst s n = uniqueFixedGramKeys s n"
  by (auto simp: appendUniqueFixedGramKeys_def uniqueFixedGramKeys_def simp del: upt_Suc)

lemma appendKeysLoop_cong:
  "(\<And>i. i \<in> set is \<Longrightarrow> key i = key' i) \<Longrightarrow> appendKeysLoop key is dst = appendKeysLoop key' is dst"
  by (induction "is" arbitrary: dst) auto

lemma appendUniqueFixedGramKeysFoldASCII_eq:
  assumes "n = 3 \<or> n = 4" "lowerASCII s = s"
  shows "appendUniqueFixedGramKeysFoldASCII dst s n = uniqueFixedGramKeys s n"
proof -
  have "appendUniqueFixedGramKeysFoldASCII dst s n = appendUniqueFixedGramKeys dst s n"
    unfolding appendUniqueFixedGramKeysFoldASCII_def appendUniqueFixedGramKeys_def
    using fixedGramKeyFoldASCII_lower [OF assms(2) _ assms(1)]
    by (auto simp: Let_def window_range simp del: upt_Suc intro!: appendKeysLoop_cong)
  with appendUniqueFixedGramKeys_eq [OF assms(1)] show ?thesis by simp
qed

lemma gramsOf_sublist:
  assumes "sublist t s" "n = 3 \<or> n = 4"
  shows "gramsOf n t \<subseteq> gramsOf n s"
proof
  fix g assume "g \<in> gramsOf n t"
  then obtain i where i: "i + n \<le> length t" "g = fixedGramKey t i n" by (auto simp: gramsOf_def)
  from assms(1) obtain p q where s: "s = p @ t @ q" by (auto simp: sublist_def)
  have "g = fixedGramKey s (length p + i) n" using fixedGramKey_append [OF i(1) assms(2)] i s by simp
  moreover have "length p + i + n \<le> length s" using i s by simp
  ultimately show "g \<in> gramsOf n s" by (auto simp: gramsOf_def)
qed

section \<open>The varint round trip\<close>

lemma u8_less_128: "(w :: u8) < 0x80 \<longleftrightarrow> \<not> bit w 7"
proof -
  have "bit (unat w) 7 \<longleftrightarrow> odd (unat w div 2 ^ 7)" by (rule bit_iff_odd)
  moreover have "bit (unat w) 7 \<longleftrightarrow> bit w 7" by (simp add: bit_unsigned_iff)
  moreover have "unat w < 256" using unsigned_less [of w] by simp
  moreover have "unat w div 128 = (if unat w < 128 then 0 else 1)"
    using calculation(3) by (auto intro: div_nat_eqI)
  ultimately show ?thesis by (auto simp: word_less_nat_alt split: if_splits)
qed

lemma bit_0x80: "bit (0x80 :: u64) m \<longleftrightarrow> m = 7" "bit (0x80 :: u8) m \<longleftrightarrow> m = 7"
proof -
  have "(0x80 :: u64) = 2 ^ 7" "(0x80 :: u8) = 2 ^ 7" by simp_all
  then show "bit (0x80 :: u64) m \<longleftrightarrow> m = 7" "bit (0x80 :: u8) m \<longleftrightarrow> m = 7"
    by (simp_all only: bit_exp_iff) auto
qed

lemma varint_low: "ucast ((ucast (y OR 0x80) :: u8) AND 0x7F) = take_bit 7 (y :: u64)"
proof -
  have "(0x7F :: u8) = mask 7" by (simp add: mask_eq_exp_minus_1)
  then have "(ucast (y OR 0x80) :: u8) AND 0x7F = take_bit 7 (ucast (y OR 0x80))"
    by (simp only: take_bit_eq_mask)
  moreover have "ucast (take_bit 7 (ucast (y OR 0x80) :: u8)) = take_bit 7 y"
    by (rule bit_eqI) (simp only: bit_ucast_iff bit_take_bit_iff bit_or_iff bit_0x80, auto)
  ultimately show ?thesis by (simp only:)
qed

lemma varint_group:
  fixes y :: u64
  shows "push_bit s (ucast ((ucast (y OR 0x80) :: u8) AND 0x7F)) OR push_bit (s + 7) (drop_bit 7 y) =
    push_bit s y"
  unfolding varint_low
proof (rule bit_eqI)
  fix k
  show "bit (push_bit s (take_bit 7 y) OR push_bit (s + 7) (drop_bit 7 y)) k = bit (push_bit s y) k"
  proof (cases "s + 7 \<le> k")
    case True
    then have "7 + (k - (s + 7)) = k - s" "\<not> k - s < 7" by simp_all
    with True show ?thesis by (simp add: bit_or_iff bit_push_bit_iff bit_take_bit_iff bit_drop_bit_eq)
  next
    case False
    then have "k - s < 7" by simp
    with False show ?thesis by (simp add: bit_or_iff bit_push_bit_iff bit_take_bit_iff bit_drop_bit_eq)
  qed
qed

lemma putUvarint_round:
  assumes "s = 7 * i" "i \<le> 9" "unat y < 2 ^ (64 - s)"
  shows "uvarintLoop (putUvarint y @ rest) i x s = (x OR push_bit s y, int (i + length (putUvarint y)))"
  using assms
proof (induction y arbitrary: i x s rule: putUvarint.induct)
  case (1 y)
  show ?case
  proof (cases "y \<ge> 0x80")
    case True
    have "i \<noteq> 9" using 1(2-4) True by (auto simp: word_le_nat_alt)
    then have i: "i + 1 \<le> 9" using 1(3) by simp
    have "unat (drop_bit 7 y) < 2 ^ (64 - (s + 7))"
    proof -
      have "(2 :: nat) ^ (64 - s) = 2 ^ (64 - (s + 7)) * 2 ^ 7"
      proof -
        have "64 - s = (64 - (s + 7)) + 7" using 1(2) i by linarith
        then show ?thesis by (metis power_add)
      qed
      then show ?thesis
        using 1(4) by (simp add: drop_bit_eq_div unat_div less_mult_imp_div_less)
    qed
    note IH = 1(1) [OF True _ i this]
    have "\<not> (ucast (y OR 0x80) :: u8) < 0x80"
      unfolding u8_less_128 by (simp add: bit_simps)
    moreover have "putUvarint y = ucast (y OR 0x80) # putUvarint (drop_bit 7 y)"
      using True by (subst putUvarint.simps) simp
    ultimately show ?thesis
      using IH [of "x OR push_bit s (ucast ((ucast (y OR 0x80) :: u8) AND 0x7F))"] 1(2,3) varint_group [of s y]
      by (simp add: or.assoc)
  next
    case False
    then have y: "unat y < 128" by (simp add: word_le_nat_alt)
    then have "unat (ucast y :: u8) = unat y" by (simp add: unsigned_ucast_eq take_bit_eq_mod)
    with y 1(2-4) have "(ucast y :: u8) < 0x80" "\<not> (i = 9 \<and> (ucast y :: u8) > 1)" "unat (ucast (ucast y :: u8) :: u64) = unat y"
      by (auto simp: word_less_nat_alt unsigned_ucast_eq take_bit_eq_mod unat_mod)
    then have "(ucast y :: u8) < 0x80" "\<not> (i = 9 \<and> (ucast y :: u8) > 1)" "ucast (ucast y :: u8) = y"
      by (auto simp: word_unat_eq_iff)
    moreover have "putUvarint y = [ucast y]" using False by (subst putUvarint.simps) simp
    ultimately show ?thesis using 1(3) by simp
  qed
qed

lemma uvarint_putUvarint: "uvarint (putUvarint y @ rest) = (y, int (length (putUvarint y)))"
  using putUvarint_round [of 0 0 y rest 0] unsigned_less [of y] by (simp add: uvarint_def)

lemma putUvarint_nonempty [simp]: "putUvarint y \<noteq> []"
  by (subst putUvarint.simps) simp

lemma decode_encode_loop: "decodeDeltaLoop prev (encodeDeltaLoop prev ids) = ids"
proof (induction ids arbitrary: prev)
  case Nil
  then show ?case by (simp add: decodeDeltaLoop.simps)
next
  case (Cons i ids)
  have "ucast (ucast w :: u64) = w" for w :: u32
    by (rule bit_eqI) (simp add: bit_simps)
  then have "prev + ucast (ucast (i - prev) :: u64) = i" by simp
  then show ?case
    using Cons.IH [of i] uvarint_putUvarint [of "ucast (i - prev)" "encodeDeltaLoop i ids"]
    by (subst decodeDeltaLoop.simps) (simp add: Let_def)
qed

section \<open>The codec as an interface\<close>

text \<open>What an index relies on: a posting decodes to the ids it was made from.\<close>

locale posting_codec =
  fixes enc :: "'i list \<Rightarrow> 'b list" and dec :: "'b list \<Rightarrow> nat \<Rightarrow> 'i list"
  assumes dec_enc: "dec (enc ids) count = ids"
begin

lemma enc_inj: "enc a = enc b \<Longrightarrow> a = b"
  by (metis dec_enc)

end

interpretation delta: posting_codec encodeDeltaUvarint32 decodeDeltaUvarint32
proof
  fix ids :: "u32 list" and count :: nat
  show "decodeDeltaUvarint32 (encodeDeltaUvarint32 ids) count = ids"
    using decode_encode_loop [of 0 ids] decode_encode_loop [of 0 "[]"]
    by (auto simp: decodeDeltaUvarint32_def encodeDeltaUvarint32_def)
qed

section \<open>Properties\<close>

text \<open>
  Posting compression loses nothing: decoding the delta varints of any \<open>uint32\<close> list,
  sorted or not (the deltas wrap around), returns that list.
\<close>

theorem decodeDelta_encodeDelta:
  "decodeDeltaUvarint32 (encodeDeltaUvarint32 ids) count = ids"
  by (rule delta.dec_enc)

text \<open>
  The allocation-free gram extractors return the same list as the map-based ones, whatever
  the scratch slice held; on a lower-cased text the folding variant agrees as well.
\<close>

theorem appendUnique_equivalent:
  assumes "n = 3 \<or> n = 4"
  shows "appendUniqueFixedGramKeys dst s n = uniqueFixedGramKeys s n \<and>
    appendUniqueFixedGramKeysFoldASCII dst s n = uniqueFixedGramKeysFoldASCII s n \<and>
    (lowerASCII s = s \<longrightarrow> uniqueFixedGramKeysFoldASCII s n = uniqueFixedGramKeys s n)"
proof -
  have fold: "appendUniqueFixedGramKeysFoldASCII dst s n = uniqueFixedGramKeysFoldASCII s n"
    using assms by (auto simp: appendUniqueFixedGramKeysFoldASCII_def uniqueFixedGramKeysFoldASCII_def
          simp del: upt_Suc)
  with appendUniqueFixedGramKeys_eq [OF assms] appendUniqueFixedGramKeysFoldASCII_eq [OF assms]
  show ?thesis by metis
qed

theorem appendUnique_equivalent_witness:
  "appendUniqueFixedGramKeysFoldASCII [7] ''MainMain.go'' 3 = uniqueFixedGramKeysFoldASCII ''MainMain.go'' 3"
  using appendUnique_equivalent [of 3 "[7]" "''MainMain.go''"] by simp

text \<open>
  Gram filtering cannot reject a true match: every gram of a text that occurs inside another
  text is a gram of that other text.
\<close>

theorem grams_of_substring:
  assumes "sublist t s" "n = 3 \<or> n = 4"
  shows "set (uniqueFixedGramKeys t n) \<subseteq> set (uniqueFixedGramKeys s n)"
  using gramsOf_sublist [OF assms] set_uniqueFixedGramKeys [OF assms(2)] by simp

theorem grams_of_substring_witness:
  "set (uniqueFixedGramKeys ''port'' 3) \<subseteq> set (uniqueFixedGramKeys ''report.txt'' 3)"
proof (rule grams_of_substring)
  have "''report.txt'' = ''re'' @ ''port'' @ ''.txt''" by simp
  then show "sublist ''port'' ''report.txt''" unfolding sublist_def by blast
qed simp

end
