(* ===== verification/Records.thy ===== *)
theory Records
  imports Prelude
begin

text \<open>
  The compact record of one file (\<open>CompactRecord\<close> in \<open>cmd/seekfs/types.go\<close>), shared by the
  components. Go's \<open>int32\<close> and \<open>int64\<close> fields are integers of that range.
\<close>

record CompactRecord =
  FRN :: u64
  ParentFRN :: u64
  Parent :: int
  Name :: string
  NameOff :: u32
  NameLen :: u16
  Mode :: u32
  Size :: int
  ModUnix :: int
  Deleted :: bool

text \<open>The zero value \<open>CompactRecord{}\<close>.\<close>

definition zeroRecord :: CompactRecord where
  "zeroRecord = \<lparr>FRN = 0, ParentFRN = 0, Parent = 0, Name = [], NameOff = 0, NameLen = 0,
     Mode = 0, Size = 0, ModUnix = 0, Deleted = False\<rparr>"

text \<open>\<open>uint32(os.ModeDir)\<close>.\<close>

definition modeDir :: u32 where
  "modeDir = 0x80000000"

definition isDirMode :: "u32 \<Rightarrow> bool" where
  "isDirMode m \<longleftrightarrow> m AND modeDir \<noteq> 0"

end
