(* ===== verification/Postings.thy ===== *)
theory Postings
  imports Records
begin

text \<open>
  Sorted id lists and interval lists (\<open>cmd/seekfs/postings.go\<close>, \<open>candidate_source.go\<close>,
  \<open>candidate_extpath.go\<close>): the in-place merge intersections, duplicate removal, the interval
  algebra of component coverage and the coverage value itself with its membership bitset.
\<close>

section \<open>Intersections\<close>

text \<open>
  \<open>out := a[:0]\<close> shares the array of \<open>a\<close>: the loop overwrites \<open>buf[k]\<close> while it still reads
  \<open>buf[i]\<close>. The model keeps the one array \<open>buf\<close> and the output length \<open>k\<close>.
\<close>

function intersectLoop ::
    "('a :: linorder) list \<Rightarrow> 'a list \<Rightarrow> nat \<Rightarrow> nat \<Rightarrow> nat \<Rightarrow> 'a list" where
  "intersectLoop buf b k i j =
     (if i < length buf \<and> j < length b
      then (if buf ! i = b ! j then intersectLoop (buf[k := buf ! i]) b (k + 1) (i + 1) (j + 1)
            else if buf ! i < b ! j then intersectLoop buf b k (i + 1) j
            else intersectLoop buf b k i (j + 1))
      else take k buf)"
  by pat_completeness auto
termination
  by (relation "measure (\<lambda>(buf, b, k, i, j). (length buf - i) + (length b - j))") auto

declare intersectLoop.simps [simp del]

definition intersectSortedInts :: "int list \<Rightarrow> int list \<Rightarrow> int list" where
  "intersectSortedInts a b = intersectLoop a b 0 0 0"

definition intersectSortedUint32s :: "u32 list \<Rightarrow> u32 list \<Rightarrow> u32 list" where
  "intersectSortedUint32s a b = intersectLoop a b 0 0 0"

definition uint32sToInts :: "u32 list \<Rightarrow> int list" where
  "uint32sToInts ids = map uint ids"

text \<open>The mixed variant converts each \<open>b[j]\<close> as it reads it.\<close>

definition intersectSortedIntsWithUint32s :: "int list \<Rightarrow> u32 list \<Rightarrow> int list" where
  "intersectSortedIntsWithUint32s a b = intersectLoop a (map uint b) 0 0 0"

fun mergeIntersect :: "('a :: linorder) list \<Rightarrow> 'a list \<Rightarrow> 'a list" where
  "mergeIntersect [] b = []"
| "mergeIntersect (x # a) [] = []"
| "mergeIntersect (x # a) (y # b) =
     (if x = y then x # mergeIntersect a b
      else if x < y then mergeIntersect a (y # b)
      else mergeIntersect (x # a) b)"

section \<open>Duplicate removal\<close>

fun uniqueLoop :: "'a \<Rightarrow> 'a list \<Rightarrow> 'a list" where
  "uniqueLoop lst [] = []"
| "uniqueLoop lst (v # vs) = (if v = lst then uniqueLoop lst vs else v # uniqueLoop v vs)"

definition uniqueSorted :: "'a list \<Rightarrow> 'a list" where
  "uniqueSorted xs = (if length xs < 2 then xs else hd xs # uniqueLoop (hd xs) (tl xs))"

definition uniqueSortedInts :: "int list \<Rightarrow> int list" where
  "uniqueSortedInts xs = uniqueSorted xs"

definition uniqueSortedUint32s :: "u32 list \<Rightarrow> u32 list" where
  "uniqueSortedUint32s xs = uniqueSorted xs"

section \<open>Intervals\<close>

record 'a interval =
  start :: 'a
  endp :: 'a

type_synonym componentCoverageInterval = "u32 interval"

text \<open>The comparator of \<open>sort.Slice\<close>: by start, the longer interval first.\<close>

definition coverageLess :: "('a :: linorder) interval \<Rightarrow> 'a interval \<Rightarrow> bool" where
  "coverageLess x y \<longleftrightarrow> (if start x = start y then endp x > endp y else start x < start y)"

fun insertBy :: "('a \<Rightarrow> 'a \<Rightarrow> bool) \<Rightarrow> 'a \<Rightarrow> 'a list \<Rightarrow> 'a list" where
  "insertBy lt x [] = [x]"
| "insertBy lt x (y # ys) = (if lt y x then y # insertBy lt x ys else x # y # ys)"

definition sortSlice :: "('a \<Rightarrow> 'a \<Rightarrow> bool) \<Rightarrow> 'a list \<Rightarrow> 'a list" where
  "sortSlice lt xs = foldr (insertBy lt) xs []"

definition mergeStep :: "('a :: linorder) interval list \<Rightarrow> 'a interval \<Rightarrow> 'a interval list" where
  "mergeStep merged current =
     (if merged = [] \<or> start current > endp (last merged) then merged @ [current]
      else if endp current > endp (last merged)
      then butlast merged @ [(last merged)\<lparr>endp := endp current\<rparr>]
      else merged)"

definition mergeComponentCoverageIntervals ::
    "('a :: linorder) interval list \<Rightarrow> 'a interval list" where
  "mergeComponentCoverageIntervals intervals =
     (if length intervals < 2 then intervals
      else foldl mergeStep [] (sortSlice coverageLess intervals))"

text \<open>\<open>mergeIntervals\<close> of \<open>candidate_extpath.go\<close> orders equal starts the other way round and
  starts the output with the first interval.\<close>

definition intervalLess :: "('a :: linorder) interval \<Rightarrow> 'a interval \<Rightarrow> bool" where
  "intervalLess x y \<longleftrightarrow> (if start x = start y then endp x < endp y else start x < start y)"

definition extendStep :: "('a :: linorder) interval list \<Rightarrow> 'a interval \<Rightarrow> 'a interval list" where
  "extendStep out iv =
     (if start iv \<le> endp (last out)
      then (if endp iv > endp (last out)
            then butlast out @ [(last out)\<lparr>endp := endp iv\<rparr>] else out)
      else out @ [iv])"

definition mergeIntervals :: "('a :: linorder) interval list \<Rightarrow> 'a interval list" where
  "mergeIntervals intervals =
     (if length intervals \<le> 1 then intervals
      else let s = sortSlice intervalLess intervals in foldl extendStep [hd s] (tl s))"

definition intervalContainsPosition :: "int interval list \<Rightarrow> int \<Rightarrow> bool" where
  "intervalContainsPosition intervals pos =
     (if pos < 0 then False
      else let i = sortSearch (length intervals) (\<lambda>i. endp (intervals ! i) > pos)
           in i < length intervals \<and> start (intervals ! i) \<le> pos \<and> pos < endp (intervals ! i))"

fun subtractOne :: "('a :: linorder) interval \<Rightarrow> 'a interval list \<Rightarrow> 'a \<Rightarrow> 'a interval list" where
  "subtractOne current [] s =
     (if s < endp current then [\<lparr>start = s, endp = endp current\<rparr>] else [])"
| "subtractOne current (existing # rest) s =
     (if endp existing \<le> s then subtractOne current rest s
      else if start existing \<ge> endp current
      then (if s < endp current then [\<lparr>start = s, endp = endp current\<rparr>] else [])
      else let pre = (if start existing > s
                      then [\<lparr>start = s, endp = min (start existing) (endp current)\<rparr>] else []);
               s' = (if endp existing > s then endp existing else s)
           in pre @ (if s' \<ge> endp current then [] else subtractOne current rest s'))"

definition subtractComponentCoverageIntervals ::
    "('a :: linorder) interval list \<Rightarrow> 'a interval list \<Rightarrow> 'a interval list" where
  "subtractComponentCoverageIntervals incoming covered =
     (if incoming = [] then []
      else if covered = [] then incoming
      else concat (map (\<lambda>current. subtractOne current covered (start current)) incoming))"

section \<open>Component coverage\<close>

text \<open>What the coverage code reads of a \<open>serviceVolumeIndex\<close>: the compact records and the
  persisted subtree order with each record's interval.\<close>

record coverageVolume =
  recs :: "CompactRecord list"
  subtreeOrder :: "u32 list"
  subtreeStart :: "u32 list"
  subtreeEnd :: "u32 list"

record mappedComponentCoverage =
  rootCount :: nat
  intervals :: "componentCoverageInterval list"
  selfIDs :: "int list"
  selfIDsComplete :: bool
  cardinality :: nat
  membership :: "u64 list"

definition emptyCoverage :: mappedComponentCoverage where
  "emptyCoverage = \<lparr>rootCount = 0, intervals = [], selfIDs = [], selfIDsComplete = False,
     cardinality = 0, membership = []\<rparr>"

text \<open>The record scan of \<open>baseHasDeletedRecords\<close> (its cached verdict is the same value).\<close>

definition baseHasDeletedRecords :: "coverageVolume \<Rightarrow> bool" where
  "baseHasDeletedRecords vol = list_ex Deleted (recs vol)"

definition containsInterval :: "mappedComponentCoverage \<Rightarrow> coverageVolume \<Rightarrow> int \<Rightarrow> bool" where
  "containsInterval coverage vol rid =
     (if rid < 0 \<or> rid \<ge> int (length (recs vol)) then False
      else if nat rid \<ge> length (subtreeStart vol) then False
      else let position = subtreeStart vol ! nat rid in
        if position = - 1 then False
        else let k = sortSearch (length (intervals coverage))
                       (\<lambda>i. start (intervals coverage ! i) > position)
             in 0 < k \<and> position < endp (intervals coverage ! (k - 1)))"

definition coverageContains :: "mappedComponentCoverage \<Rightarrow> coverageVolume \<Rightarrow> int \<Rightarrow> bool" where
  "coverageContains coverage vol rid =
     (if rid \<ge> 0 \<and> nat rid div 64 < length (membership coverage)
      then bitsetTest (membership coverage) (nat rid)
      else if containsInterval coverage vol rid then True
      else let pos = sortSearch (length (selfIDs coverage)) (\<lambda>i. selfIDs coverage ! i \<ge> rid)
           in pos < length (selfIDs coverage) \<and> selfIDs coverage ! pos = rid)"

text \<open>The positions \<open>pos := start; pos < end\<close> of an interval, and the ids found there.\<close>

definition intervalPositions :: "componentCoverageInterval \<Rightarrow> nat list" where
  "intervalPositions iv = [unat (start iv)..<unat (endp iv)]"

definition markPosition :: "coverageVolume \<Rightarrow> u64 list \<Rightarrow> nat \<Rightarrow> u64 list" where
  "markPosition vol bits pos =
     (let rid = unat (subtreeOrder vol ! pos)
      in if rid < length (recs vol) then bitsetSet bits rid else bits)"

definition buildMembership ::
    "mappedComponentCoverage \<Rightarrow> coverageVolume \<Rightarrow> mappedComponentCoverage" where
  "buildMembership coverage vol =
     (let recordCount = length (recs vol) in
      if cardinality coverage = 0 \<or> recordCount = 0 then coverage
      else
        (let zero = replicate ((recordCount + 63) div 64) 0;
             positions = filter (\<lambda>pos. pos < length (subtreeOrder vol))
                           (concat (map intervalPositions (intervals coverage)));
             marked = foldl (markPosition vol) zero positions;
             all = foldl (\<lambda>bits rid. if rid \<ge> 0 \<and> rid < int recordCount
                                     then bitsetSet bits (nat rid) else bits)
                     marked (selfIDs coverage)
         in coverage\<lparr>membership := all\<rparr>))"

fun rootIntervals :: "coverageVolume \<Rightarrow> u32 list \<Rightarrow> componentCoverageInterval list option" where
  "rootIntervals vol [] = Some []"
| "rootIntervals vol (root32 # roots) =
     (let root = unat root32 in
      if root \<ge> length (subtreeStart vol) \<or> root \<ge> length (subtreeEnd vol) then None
      else let s = subtreeStart vol ! root; e = subtreeEnd vol ! root in
        if s = - 1 \<or> s > e \<or> unat e > length (subtreeOrder vol) then None
        else map_option (Cons \<lparr>start = s, endp = e\<rparr>) (rootIntervals vol roots))"

definition liveAt :: "coverageVolume \<Rightarrow> nat \<Rightarrow> bool" where
  "liveAt vol pos =
     (let rid = unat (subtreeOrder vol ! pos) in rid < length (recs vol) \<and> \<not> Deleted (recs vol ! rid))"

text \<open>The self-hits that count: live files outside the intervals.\<close>

definition selfHitCounts :: "mappedComponentCoverage \<Rightarrow> coverageVolume \<Rightarrow> int \<Rightarrow> bool" where
  "selfHitCounts coverage vol rid \<longleftrightarrow>
     \<not> (rid < 0 \<or> rid \<ge> int (length (recs vol)) \<or> Deleted (recs vol ! nat rid) \<or>
        isDirMode (Mode (recs vol ! nat rid)) \<or> containsInterval coverage vol rid)"

text \<open>The roots go through a Go map, so their order is unspecified; merging sorts them again.\<close>

definition buildMappedComponentCoverageFromRoots ::
    "coverageVolume \<Rightarrow> u32 list \<Rightarrow> int list \<Rightarrow> mappedComponentCoverage \<times> bool" where
  "buildMappedComponentCoverageFromRoots vol roots0 ids =
     (let coverage = emptyCoverage\<lparr>selfIDs := uniqueSortedInts ids, selfIDsComplete := True\<rparr> in
      if subtreeOrder vol = [] \<or> subtreeStart vol = [] \<or> subtreeEnd vol = [] then (coverage, False)
      else let roots = remdups roots0 in
        case rootIntervals vol roots of
          None \<Rightarrow> (emptyCoverage, False)
        | Some ivs \<Rightarrow>
            (let merged = mergeComponentCoverageIntervals ivs;
                 cov1 = coverage\<lparr>rootCount := length roots, intervals := merged\<rparr>;
                 base = (if \<not> baseHasDeletedRecords vol
                         then sum_list (map (\<lambda>iv. unat (endp iv - start iv)) merged)
                         else length (filter (liveAt vol) (concat (map intervalPositions merged))));
                 self = length (filter (selfHitCounts cov1 vol) (selfIDs cov1))
             in (cov1\<lparr>cardinality := base + self\<rparr>, True)))"

definition countLive ::
    "mappedComponentCoverage \<Rightarrow> coverageVolume \<Rightarrow> (int \<Rightarrow> bool) option \<Rightarrow> nat \<times> nat" where
  "countLive coverage vol hidden =
     (if hidden = None \<and> \<not> baseHasDeletedRecords vol then (cardinality coverage, 0)
      else
        (let vis = (\<lambda>rid. case hidden of None \<Rightarrow> True | Some h \<Rightarrow> \<not> h rid);
             ps = filter (\<lambda>pos. unat (subtreeOrder vol ! pos) < length (recs vol))
                    (concat (map intervalPositions (intervals coverage)));
             live = filter (\<lambda>pos. liveAt vol pos \<and> vis (uint (subtreeOrder vol ! pos))) ps;
             self = filter (selfHitCounts coverage vol) (selfIDs coverage)
         in (length live + length (filter vis self), length ps + length self)))"

section \<open>Intersection lemmas\<close>

lemma intersectLoop_merge:
  "k \<le> i \<Longrightarrow> intersectLoop buf b k i j = take k buf @ mergeIntersect (drop i buf) (drop j b)"
proof (induction buf b k i j rule: intersectLoop.induct)
  case (1 buf b k i j)
  show ?case
  proof (cases "i < length buf \<and> j < length b")
    case True
    then have d: "drop i buf = buf ! i # drop (Suc i) buf" "drop j b = b ! j # drop (Suc j) b"
      by (simp_all add: Cons_nth_drop_Suc)
    have k: "k < length buf" using 1(4) True by simp
    show ?thesis
    proof (cases "buf ! i = b ! j")
      case eq: True
      have "drop (Suc i) (buf[k := buf ! i]) = drop (Suc i) buf" using 1(4) by simp
      moreover have "take (k + 1) (buf[k := buf ! i]) = take k buf @ [buf ! i]"
        using k by (simp add: take_Suc_conv_app_nth)
      ultimately show ?thesis
        using 1(1) [OF True eq] 1(4) True eq by (subst intersectLoop.simps) (simp add: d)
    next
      case False
      then show ?thesis
        using 1(2) [OF True False] 1(3) [OF True False] 1(4) True
        by (subst intersectLoop.simps) (auto simp: d)
    qed
  next
    case False
    then have "mergeIntersect (drop i buf) (drop j b) = []"
      by (cases "drop i buf"; cases "drop j b") auto
    with False show ?thesis by (subst intersectLoop.simps) auto
  qed
qed

lemma mergeIntersect_set:
  "sorted_wrt (<) a \<Longrightarrow> sorted_wrt (<) b \<Longrightarrow> set (mergeIntersect a b) = set a \<inter> set b"
  by (induction a b rule: mergeIntersect.induct) auto

lemma mergeIntersect_sub: "set (mergeIntersect a b) \<subseteq> set a"
  by (induction a b rule: mergeIntersect.induct) auto

lemma mergeIntersect_sorted: "sorted_wrt (<) a \<Longrightarrow> sorted_wrt (<) (mergeIntersect a b)"
proof (induction a b rule: mergeIntersect.induct)
  case (3 x a y b)
  then show ?case using mergeIntersect_sub [of a b] by (auto simp: subset_iff)
qed auto

text \<open>The contract shared by all the intersections of the package, and its consequence for a
  multi-way intersection: the order of the operands does not matter.\<close>

locale sorted_intersection =
  fixes inter :: "('a :: linorder) list \<Rightarrow> 'b list \<Rightarrow> 'a list" and val :: "'b \<Rightarrow> 'a"
  assumes inter_set: "sorted_wrt (<) a \<Longrightarrow> sorted_wrt (<) (map val b) \<Longrightarrow>
      set (inter a b) = set a \<inter> val ` set b"
    and inter_sorted: "sorted_wrt (<) a \<Longrightarrow> sorted_wrt (<) (map val b) \<Longrightarrow>
      sorted_wrt (<) (inter a b)"
begin

lemma fold_inter:
  assumes "sorted_wrt (<) a" "\<forall>b\<in>set bs. sorted_wrt (<) (map val b)"
  shows "sorted_wrt (<) (foldl inter a bs) \<and>
    set (foldl inter a bs) = set a \<inter> (\<Inter>b\<in>set bs. val ` set b)"
  using assms by (induction bs arbitrary: a) (auto simp: inter_sorted inter_set)

lemma fold_inter_perm:
  assumes "sorted_wrt (<) a" "\<forall>b\<in>set bs. sorted_wrt (<) (map val b)" "set cs = set bs"
  shows "foldl inter a bs = foldl inter a cs"
proof -
  have "sorted_wrt (<) (foldl inter a bs)" "sorted_wrt (<) (foldl inter a cs)"
    "set (foldl inter a bs) = set (foldl inter a cs)"
    using fold_inter [OF assms(1,2)] fold_inter [of a cs] assms by auto
  then show ?thesis by (simp add: strict_sorted_equal)
qed

end

interpretation ints: sorted_intersection intersectSortedInts id
  by unfold_locales
    (simp_all add: intersectSortedInts_def intersectLoop_merge mergeIntersect_set mergeIntersect_sorted)

interpretation u32s: sorted_intersection intersectSortedUint32s id
  by unfold_locales
    (simp_all add: intersectSortedUint32s_def intersectLoop_merge mergeIntersect_set mergeIntersect_sorted)

interpretation mixed: sorted_intersection intersectSortedIntsWithUint32s uint
  by unfold_locales
    (simp_all add: intersectSortedIntsWithUint32s_def intersectLoop_merge mergeIntersect_set
       mergeIntersect_sorted)

lemma uniqueLoop_set: "set (uniqueLoop x xs) \<union> {x} = set xs \<union> {x}"
  by (induction x xs rule: uniqueLoop.induct) auto

lemma uniqueLoop_sorted:
  "sorted (x # xs) \<Longrightarrow> sorted_wrt (<) (x # uniqueLoop x xs)"
proof (induction x xs rule: uniqueLoop.induct)
  case (2 x v vs)
  then show ?case by (auto intro: le_less_trans)
qed simp

lemma uniqueSorted_correct:
  "set (uniqueSorted xs) = set xs"
  "sorted xs \<Longrightarrow> sorted_wrt (<) (uniqueSorted xs)"
proof -
  show "set (uniqueSorted xs) = set xs"
    using uniqueLoop_set [of "hd xs" "tl xs"]
    by (cases xs) (auto simp: uniqueSorted_def)
  show "sorted xs \<Longrightarrow> sorted_wrt (<) (uniqueSorted xs)" for xs :: "'b :: linorder list"
    using uniqueLoop_sorted [of "hd xs" "tl xs"]
    by (cases xs) (auto simp: uniqueSorted_def less_Suc_eq split: if_splits)
qed

section \<open>Interval lemmas\<close>

definition covers :: "('a :: linorder) interval list \<Rightarrow> 'a set" where
  "covers ivs = {p. \<exists>iv\<in>set ivs. start iv \<le> p \<and> p < endp iv}"

definition separated :: "('a :: linorder) interval list \<Rightarrow> bool" where
  "separated ivs \<longleftrightarrow> sorted_wrt (\<lambda>x y. endp x < start y) ivs"

definition validIvs :: "('a :: linorder) interval list \<Rightarrow> bool" where
  "validIvs ivs \<longleftrightarrow> (\<forall>iv\<in>set ivs. start iv \<le> endp iv)"

lemma covers_simps [simp]:
  "covers [] = {}"
  "covers (iv # ivs) = {start iv..<endp iv} \<union> covers ivs"
  "covers (xs @ ys) = covers xs \<union> covers ys"
  by (auto simp: covers_def)

lemma insertBy_set [simp]: "set (insertBy lt x ys) = insert x (set ys)"
  by (induction ys) auto

lemma sortSlice_set [simp]: "set (sortSlice lt xs) = set xs"
  unfolding sortSlice_def by (induction xs) auto

lemma insertBy_length [simp]: "length (insertBy lt x ys) = Suc (length ys)"
  by (induction ys) auto

lemma sortSlice_length [simp]: "length (sortSlice lt xs) = length xs"
  unfolding sortSlice_def by (induction xs) auto

text \<open>A comparator that refines the order of a key leaves the list sorted by that key.\<close>

lemma sortSlice_sorted_key:
  assumes "\<And>a b. lt a b \<Longrightarrow> key a \<le> key b" "\<And>a b. \<not> lt a b \<Longrightarrow> key b \<le> (key a :: 'k :: linorder)"
  shows "sorted (map key (sortSlice lt xs))"
proof -
  have "sorted (map key ys) \<Longrightarrow> sorted (map key (insertBy lt x ys))" for x ys
    using assms by (induction ys) (fastforce intro: order_trans)+
  then show ?thesis unfolding sortSlice_def by (induction xs) auto
qed

lemma sortSlice_coverage: "sorted (map start (sortSlice coverageLess ivs))"
  by (rule sortSlice_sorted_key) (auto simp: coverageLess_def split: if_splits)

lemma sortSlice_interval: "sorted (map start (sortSlice intervalLess ivs))"
  by (rule sortSlice_sorted_key) (auto simp: intervalLess_def split: if_splits)

lemma extendStep_mergeStep: "out \<noteq> [] \<Longrightarrow> extendStep out iv = mergeStep out iv"
  by (auto simp: extendStep_def mergeStep_def)

lemma mergeStep_nonempty [simp]: "mergeStep out iv \<noteq> []"
  by (auto simp: mergeStep_def)

lemma foldl_extendStep: "out \<noteq> [] \<Longrightarrow> foldl extendStep out ivs = foldl mergeStep out ivs"
  by (induction ivs arbitrary: out) (auto simp: extendStep_mergeStep)

lemma mergeStep_inv:
  assumes "separated merged" "merged \<noteq> [] \<Longrightarrow> start (last merged) \<le> start iv"
  shows "separated (mergeStep merged iv) \<and> covers (mergeStep merged iv) = covers merged \<union> {start iv..<endp iv} \<and>
    start (last (mergeStep merged iv)) \<le> start iv"
proof (cases "merged = []")
  case True
  then show ?thesis by (simp add: mergeStep_def separated_def)
next
  case False
  then obtain ms m where m: "merged = ms @ [m]" by (metis rev_exhaust)
  show ?thesis
  proof (cases "start iv > endp m")
    case True
    have "endp x < start iv" if "x \<in> set ms" for x
      using assms m that by (fastforce simp: separated_def sorted_wrt_append)
    with True assms m show ?thesis
      by (auto simp: mergeStep_def separated_def sorted_wrt_append)
  next
    case le: False
    have "start m \<le> start iv" using assms(2) m by simp
    then show ?thesis
      using le assms(1) m by (auto simp: mergeStep_def separated_def sorted_wrt_append not_less)
  qed
qed

lemma foldl_mergeStep_inv:
  assumes "separated merged" "sorted (map start ivs)"
    "merged \<noteq> [] \<Longrightarrow> \<forall>iv\<in>set ivs. start (last merged) \<le> start iv"
  shows "separated (foldl mergeStep merged ivs) \<and> covers (foldl mergeStep merged ivs) = covers merged \<union> covers ivs"
  using assms
proof (induction ivs arbitrary: merged)
  case (Cons iv ivs)
  note step = mergeStep_inv [OF Cons.prems(1), of iv]
  have "separated (mergeStep merged iv)" "start (last (mergeStep merged iv)) \<le> start iv"
    "covers (mergeStep merged iv) = covers merged \<union> {start iv..<endp iv}"
    using step Cons.prems(3) by auto
  moreover have "\<forall>x\<in>set ivs. start (last (mergeStep merged iv)) \<le> start x"
    using calculation(2) Cons.prems(2) by (auto intro: order_trans)
  ultimately show ?case using Cons.IH [of "mergeStep merged iv"] Cons.prems(2) by auto
qed auto

lemma covers_set: "set xs = set ys \<Longrightarrow> covers xs = covers ys"
  by (simp add: covers_def)

lemma mergeStep_valid: "validIvs merged \<Longrightarrow> start iv \<le> endp iv \<Longrightarrow> validIvs (mergeStep merged iv)"
  unfolding mergeStep_def validIvs_def
  by (cases merged rule: rev_cases) (simp_all, meson order.strict_implies_order order_trans)

lemma foldl_mergeStep_valid:
  "validIvs merged \<Longrightarrow> validIvs ivs \<Longrightarrow> validIvs (foldl mergeStep merged ivs)"
proof (induction ivs arbitrary: merged)
  case (Cons iv ivs)
  have "start iv \<le> endp iv" using Cons.prems(2) by (simp add: validIvs_def)
  with Cons.prems(1) have "validIvs (mergeStep merged iv)" by (rule mergeStep_valid)
  moreover have "validIvs ivs" using Cons.prems(2) by (simp add: validIvs_def)
  ultimately show ?case using Cons.IH by simp
qed simp

text \<open>What both merge routines promise: the same positions, in separated intervals.\<close>

locale interval_merge =
  fixes merge :: "('a :: linorder) interval list \<Rightarrow> 'a interval list"
  assumes merge_covers: "covers (merge ivs) = covers ivs"
    and merge_separated: "separated (merge ivs)"
    and merge_valid: "validIvs ivs \<Longrightarrow> validIvs (merge ivs)"
begin

lemma merge_starts: "validIvs ivs \<Longrightarrow> i < j \<Longrightarrow> j < length (merge ivs) \<Longrightarrow>
    start (merge ivs ! i) \<le> endp (merge ivs ! i) \<and> endp (merge ivs ! i) < start (merge ivs ! j) \<and>
    start (merge ivs ! j) \<le> endp (merge ivs ! j)"
  using merge_separated [of ivs] merge_valid [of ivs]
  by (auto simp: separated_def validIvs_def sorted_wrt_iff_nth_less)

text \<open>Membership by binary search on the merged intervals' ends.\<close>

lemma search_end:
  fixes p :: 'a
  assumes "validIvs ivs"
  defines "m \<equiv> merge ivs"
  defines "k \<equiv> sortSearch (length m) (\<lambda>i. endp (m ! i) > p)"
  shows "(k < length m \<and> start (m ! k) \<le> p \<and> p < endp (m ! k)) \<longleftrightarrow> p \<in> covers ivs"
proof -
  have mono: "monoUpTo (\<lambda>i. endp (m ! i) > p) (length m)"
    unfolding monoUpTo_def m_def
  proof (intro allI impI, elim conjE)
    fix a b assume ab: "a \<le> b" "b < length (merge ivs)" "p < endp (merge ivs ! a)"
    show "p < endp (merge ivs ! b)"
      using merge_starts [OF assms(1), of a b] ab by (cases "a = b") auto
  qed
  have "p \<in> covers m \<longleftrightarrow> (\<exists>i<length m. start (m ! i) \<le> p \<and> p < endp (m ! i))"
    by (auto simp: covers_def in_set_conv_nth Bex_def)
  moreover have "i = k" if "i < length m" "start (m ! i) \<le> p" "p < endp (m ! i)" for i
  proof -
    have "k \<le> i" using sortSearch_iff [OF mono that(1)] that(3) by (simp add: k_def)
    moreover have "\<not> k < i"
    proof
      assume "k < i"
      then have "p < endp (m ! k)"
        using sortSearch_iff [OF mono, of k] that(1) by (simp add: k_def)
      with merge_starts [OF assms(1), of k i] \<open>k < i\<close> that show False by (auto simp: m_def)
    qed
    ultimately show ?thesis by simp
  qed
  ultimately show ?thesis using merge_covers [of ivs] by (auto simp: m_def)
qed

text \<open>Membership by binary search on the starts, one step back.\<close>

lemma search_start:
  fixes p :: 'a
  assumes "validIvs ivs"
  defines "m \<equiv> merge ivs"
  defines "k \<equiv> sortSearch (length m) (\<lambda>i. start (m ! i) > p)"
  shows "(0 < k \<and> p < endp (m ! (k - 1))) \<longleftrightarrow> p \<in> covers ivs"
proof -
  have mono: "monoUpTo (\<lambda>i. start (m ! i) > p) (length m)"
    unfolding monoUpTo_def m_def
  proof (intro allI impI, elim conjE)
    fix a b assume ab: "a \<le> b" "b < length (merge ivs)" "p < start (merge ivs ! a)"
    show "p < start (merge ivs ! b)"
      using merge_starts [OF assms(1), of a b] ab by (cases "a = b") auto
  qed
  note le = sortSearch_le [OF mono, folded k_def]
  note iff = sortSearch_iff [OF mono, folded k_def]
  have cov: "p \<in> covers m \<longleftrightarrow> (\<exists>i<length m. start (m ! i) \<le> p \<and> p < endp (m ! i))"
    by (auto simp: covers_def in_set_conv_nth Bex_def)
  have "start (m ! (k - 1)) \<le> p" if "0 < k"
    using iff [of "k - 1"] le that by (cases k) (auto simp: not_less)
  moreover have "i = k - 1 \<and> 0 < k" if "i < length m" "start (m ! i) \<le> p" "p < endp (m ! i)" for i
  proof -
    have "i < k" using iff [OF that(1)] that(2) by (simp add: not_less [symmetric] not_le)
    moreover have "\<not> i < k - 1"
    proof
      assume "i < k - 1"
      with merge_starts [OF assms(1), of i "k - 1"] le iff [of "k - 1"] that
      show False by (cases k) (auto simp: m_def)
    qed
    ultimately show ?thesis by auto
  qed
  ultimately have "(0 < k \<and> p < endp (m ! (k - 1))) \<longleftrightarrow> p \<in> covers m"
    using cov le by (metis diff_less le_less_trans less_le_trans nat_less_le zero_less_one)
  then show ?thesis using merge_covers [of ivs] by (simp add: m_def)
qed

end

interpretation componentMerge: interval_merge mergeComponentCoverageIntervals
proof
  fix ivs :: "'a interval list"
  show "covers (mergeComponentCoverageIntervals ivs) = covers ivs"
    using foldl_mergeStep_inv [of "[]" "sortSlice coverageLess ivs"]
      covers_set [of "sortSlice coverageLess ivs" ivs]
    by (simp add: mergeComponentCoverageIntervals_def separated_def sortSlice_coverage)
  show "separated (mergeComponentCoverageIntervals ivs)"
    using foldl_mergeStep_inv [of "[]" "sortSlice coverageLess ivs"]
    by (cases ivs; cases "tl ivs") (simp_all add: mergeComponentCoverageIntervals_def separated_def sortSlice_coverage)
  show "validIvs ivs \<Longrightarrow> validIvs (mergeComponentCoverageIntervals ivs)"
    using foldl_mergeStep_valid [of "[]" "sortSlice coverageLess ivs"]
    by (simp add: mergeComponentCoverageIntervals_def validIvs_def)
qed

lemma mergeIntervals_foldl:
  "2 \<le> length ivs \<Longrightarrow> mergeIntervals ivs = foldl mergeStep [] (sortSlice intervalLess ivs)"
proof -
  assume len: "2 \<le> length ivs"
  then obtain x xs where "sortSlice intervalLess ivs = x # xs"
    by (metis Suc_le_length_iff numeral_2_eq_2 sortSlice_length)
  moreover have "mergeStep [] x = [x]" by (simp add: mergeStep_def)
  ultimately show ?thesis using len by (simp add: mergeIntervals_def Let_def foldl_extendStep)
qed

interpretation pathMerge: interval_merge mergeIntervals
proof
  fix ivs :: "'a interval list"
  consider "ivs = []" | x where "ivs = [x]" | "2 \<le> length ivs"
    by (cases ivs; cases "tl ivs") auto
  note cs = this
  show "covers (mergeIntervals ivs) = covers ivs"
    using cs foldl_mergeStep_inv [of "[]" "sortSlice intervalLess ivs"]
      covers_set [of "sortSlice intervalLess ivs" ivs] mergeIntervals_foldl [of ivs]
    by cases (simp_all add: mergeIntervals_def separated_def sortSlice_interval)
  show "separated (mergeIntervals ivs)"
    using cs foldl_mergeStep_inv [of "[]" "sortSlice intervalLess ivs"] mergeIntervals_foldl [of ivs]
    by cases (simp_all add: mergeIntervals_def separated_def sortSlice_interval)
  show "validIvs ivs \<Longrightarrow> validIvs (mergeIntervals ivs)"
    using cs foldl_mergeStep_valid [of "[]" "sortSlice intervalLess ivs"] mergeIntervals_foldl [of ivs]
    by cases (simp_all add: mergeIntervals_def validIvs_def)
qed

lemma subtractOne_covers:
  assumes "separated cov" "validIvs cov"
  shows "covers (subtractOne cur cov s) = {s..<endp cur} - covers cov"
  using assms
proof (induction cur cov s rule: subtractOne.induct)
  case (2 cur ex rest s)
  have sep: "separated rest" "validIvs rest" and later: "\<forall>x\<in>set rest. endp ex < start x"
    and ex: "start ex \<le> endp ex"
    using 2(3,4) by (auto simp: separated_def validIvs_def)
  have out: "p \<notin> covers rest" if "p \<le> endp ex" for p
    using later that by (fastforce simp: covers_def)
  consider "endp ex \<le> s" | "\<not> endp ex \<le> s" "endp cur \<le> start ex"
    | "\<not> endp ex \<le> s" "\<not> endp cur \<le> start ex" by blast
  then show ?case
  proof cases
    case 1
    then show ?thesis using 2(1) [OF 1 sep] by auto
  next
    case c2: 2
    have "p \<notin> covers rest" if "p < endp cur" for p
      using out that c2 ex by (meson less_le_trans less_imp_le order_trans)
    with c2 show ?thesis by auto
  next
    case 3
    then have s': "(if s < endp ex then endp ex else s) = endp ex" by auto
    have "\<not> endp cur \<le> endp ex \<Longrightarrow>
        covers (subtractOne cur rest (endp ex)) = {endp ex..<endp cur} - covers rest"
      using 2(2) [OF 3 refl refl] sep s' by simp
    then have rest: "covers (if endp ex \<ge> endp cur then [] else subtractOne cur rest (endp ex)) =
        {endp ex..<endp cur} - covers rest"
      by auto
    have "{s..<endp cur} - covers (ex # rest) =
        {s..<start ex} \<union> ({endp ex..<endp cur} - covers rest)"
    proof (rule set_eqI)
      fix p
      show "p \<in> {s..<endp cur} - covers (ex # rest) \<longleftrightarrow>
          p \<in> {s..<start ex} \<union> ({endp ex..<endp cur} - covers rest)"
        using 3 ex out [of p] le_less_linear [of p "endp ex"] by fastforce
    qed
    moreover have "subtractOne cur (ex # rest) s =
        (if start ex > s then [\<lparr>start = s, endp = start ex\<rparr>] else []) @
        (if endp ex \<ge> endp cur then [] else subtractOne cur rest (endp ex))"
      using 3 s' linear [of "start ex" "endp cur"] by (auto simp: Let_def min_def)
    ultimately show ?thesis using rest by simp
  qed
qed auto

section \<open>Coverage lemmas\<close>

text \<open>The persisted subtree order and the start positions are inverse to each other, and there
  are fewer positions than the sentinel \<open>^uint32(0)\<close>.\<close>

definition wfVolume :: "coverageVolume \<Rightarrow> bool" where
  "wfVolume vol \<longleftrightarrow>
     length (subtreeStart vol) = length (recs vol) \<and> length (subtreeOrder vol) < 2 ^ 32 - 1 \<and>
     (\<forall>pos<length (subtreeOrder vol). unat (subtreeOrder vol ! pos) < length (recs vol) \<and>
        unat (subtreeStart vol ! unat (subtreeOrder vol ! pos)) = pos) \<and>
     (\<forall>rid<length (recs vol). subtreeStart vol ! rid \<noteq> - 1 \<longrightarrow>
        unat (subtreeStart vol ! rid) < length (subtreeOrder vol) \<and>
        unat (subtreeOrder vol ! unat (subtreeStart vol ! rid)) = rid)"

lemma rootIntervals_valid: "rootIntervals vol roots = Some ivs \<Longrightarrow> validIvs ivs"
  by (induction roots arbitrary: ivs) (auto simp: validIvs_def Let_def split: if_splits)

lemma rootIntervals_bound:
  "rootIntervals vol roots = Some ivs \<Longrightarrow> p \<in> covers ivs \<Longrightarrow> unat p < length (subtreeOrder vol)"
proof (induction roots arbitrary: ivs)
  case (Cons root roots)
  then show ?case
    by (auto simp: Let_def word_less_nat_alt split: if_splits)
qed auto

lemma minus_one_u32: "unat (- 1 :: u32) = 2 ^ 32 - 1"
  by (simp add: unsigned_minus_1_eq_mask mask_eq_exp_minus_1)

lemma positions_iff:
  "pos \<in> set (concat (map intervalPositions ivs)) \<longleftrightarrow>
     pos < 2 ^ 32 \<and> (of_nat pos :: u32) \<in> covers ivs"
proof -
  have "unat (start iv) \<le> pos \<and> pos < unat (endp iv) \<longleftrightarrow>
      pos < 2 ^ 32 \<and> start iv \<le> of_nat pos \<and> of_nat pos < endp iv" for iv :: componentCoverageInterval
  proof (cases "pos < 2 ^ 32")
    case True
    then have "unat (of_nat pos :: u32) = pos" by (simp add: unat_of_nat)
    with True show ?thesis by (simp add: word_le_nat_alt word_less_nat_alt)
  next
    case False
    moreover have "unat (endp iv) < 2 ^ 32" using unsigned_less [of "endp iv"] by simp
    ultimately show ?thesis by linarith
  qed
  then show ?thesis by (auto simp: intervalPositions_def covers_def)
qed

lemma distinct_positions:
  "separated ivs \<Longrightarrow> validIvs ivs \<Longrightarrow> distinct (concat (map intervalPositions ivs))"
proof (induction ivs)
  case (Cons iv ivs)
  have "separated ivs" "validIvs ivs" using Cons.prems by (auto simp: separated_def validIvs_def)
  moreover have "q \<notin> set (intervalPositions x)"
    if "q \<in> set (intervalPositions iv)" "x \<in> set ivs" for q x
  proof -
    have "unat (endp iv) < unat (start x)"
      using Cons.prems(1) that(2) by (simp add: separated_def word_less_nat_alt)
    then show ?thesis using that(1) by (simp add: intervalPositions_def)
  qed
  ultimately show ?case using Cons.IH by (auto simp: intervalPositions_def)
qed simp

text \<open>A coverage built from roots: its intervals are merged, valid and inside the order.\<close>

definition builtCoverage :: "coverageVolume \<Rightarrow> mappedComponentCoverage \<Rightarrow> bool" where
  "builtCoverage vol cov \<longleftrightarrow>
     (\<exists>ivs. intervals cov = mergeComponentCoverageIntervals ivs \<and> validIvs ivs \<and>
        (\<forall>p\<in>covers ivs. unat p < length (subtreeOrder vol)))"

lemma containsInterval_iff:
  assumes "builtCoverage vol cov" "wfVolume vol" "0 \<le> rid" "rid < int (length (recs vol))"
  shows "containsInterval cov vol rid \<longleftrightarrow>
    subtreeStart vol ! nat rid \<noteq> - 1 \<and> subtreeStart vol ! nat rid \<in> covers (intervals cov)"
proof -
  from assms(1) obtain ivs where ivs: "intervals cov = mergeComponentCoverageIntervals ivs" "validIvs ivs"
    by (auto simp: builtCoverage_def)
  have len: "length (subtreeStart vol) = length (recs vol)" using assms(2) by (simp add: wfVolume_def)
  have "nat rid < length (recs vol)" using assms(3,4) by (simp add: nat_less_iff)
  then show ?thesis
    using assms(3,4) len componentMerge.search_start [OF ivs(2), of "subtreeStart vol ! nat rid"]
    by (simp add: containsInterval_def Let_def ivs(1) componentMerge.merge_covers)
qed

text \<open>The ids found by walking the intervals are the ids the search accepts.\<close>

lemma walked_iff:
  assumes "builtCoverage vol cov" "wfVolume vol" "0 \<le> rid" "rid < int (length (recs vol))"
  shows "(\<exists>pos\<in>set (concat (map intervalPositions (intervals cov))).
            pos < length (subtreeOrder vol) \<and> uint (subtreeOrder vol ! pos) = rid) \<longleftrightarrow>
         containsInterval cov vol rid"
proof -
  from assms(1) have bound: "unat p < length (subtreeOrder vol)" if "p \<in> covers (intervals cov)" for p
    using that by (auto simp: builtCoverage_def componentMerge.merge_covers)
  have L: "length (subtreeOrder vol) < 2 ^ 32 - 1" using assms(2) by (simp add: wfVolume_def)
  have id_eq: "uint w = rid \<longleftrightarrow> unat w = nat rid" for w :: u32
    using assms(3) by (metis nat_0_le of_nat_unat uint_nat unat_eq_nat_uint)
  show ?thesis (is "?l = ?r")
  proof
    assume ?l
    then obtain pos where pos: "(of_nat pos :: u32) \<in> covers (intervals cov)"
      "pos < length (subtreeOrder vol)" "unat (subtreeOrder vol ! pos) = nat rid"
      by (auto simp: positions_iff id_eq simp del: set_concat)
    then have eq: "unat (subtreeStart vol ! nat rid) = pos"
      using assms(2) by (fastforce simp: wfVolume_def)
    then have "subtreeStart vol ! nat rid = of_nat pos" by (simp flip: eq)
    moreover have "subtreeStart vol ! nat rid \<noteq> - 1"
      using eq pos(2) L minus_one_u32 by (metis less_trans nat_neq_iff)
    ultimately show ?r using pos(1) containsInterval_iff [OF assms] by simp
  next
    assume ?r
    then have st: "subtreeStart vol ! nat rid \<noteq> - 1" "subtreeStart vol ! nat rid \<in> covers (intervals cov)"
      using containsInterval_iff [OF assms] by auto
    let ?pos = "unat (subtreeStart vol ! nat rid)"
    have "?pos < length (subtreeOrder vol)" "unat (subtreeOrder vol ! ?pos) = nat rid"
      using assms(2-4) st(1) by (auto simp: wfVolume_def nat_less_iff)
    then show ?l
      using st(2) L by (intro bexI [of _ ?pos]) (auto simp: positions_iff id_eq simp del: set_concat)
  qed
qed

lemma foldl_markPosition:
  assumes "length (recs vol) \<le> 64 * length bits"
  shows "length (foldl (markPosition vol) bits ps) = length bits \<and>
    (bitsetTest (foldl (markPosition vol) bits ps) k \<longleftrightarrow>
       bitsetTest bits k \<or> k < length (recs vol) \<and> (\<exists>pos\<in>set ps. unat (subtreeOrder vol ! pos) = k))"
  using assms
proof (induction ps arbitrary: bits)
  case (Cons pos ps)
  let ?i = "unat (subtreeOrder vol ! pos)"
  have len: "length (markPosition vol bits pos) = length bits"
    by (simp add: markPosition_def Let_def)
  moreover have "bitsetTest (markPosition vol bits pos) k \<longleftrightarrow>
      bitsetTest bits k \<or> k < length (recs vol) \<and> ?i = k"
    using Cons.prems by (auto simp: markPosition_def Let_def bitsetTest_set less_mult_imp_div_less)
  ultimately show ?case using Cons.IH [of "markPosition vol bits pos"] Cons.prems by auto
qed simp

lemma foldl_markSelf:
  assumes "n \<le> 64 * length bits"
  shows "length (foldl (\<lambda>bits rid. if rid \<ge> 0 \<and> rid < int n then bitsetSet bits (nat rid) else bits) bits ids) = length bits \<and>
    (bitsetTest (foldl (\<lambda>bits rid. if rid \<ge> 0 \<and> rid < int n then bitsetSet bits (nat rid) else bits) bits ids) k \<longleftrightarrow>
       bitsetTest bits k \<or> k < n \<and> int k \<in> set ids)"
  using assms
proof (induction ids arbitrary: bits)
  case (Cons i ids)
  let ?b = "if i \<ge> 0 \<and> i < int n then bitsetSet bits (nat i) else bits"
  have "bitsetTest ?b k \<longleftrightarrow> bitsetTest bits k \<or> k < n \<and> int k = i"
    using Cons.prems by (auto simp: bitsetTest_set less_mult_imp_div_less nat_less_iff)
  moreover have "length ?b = length bits" by simp
  ultimately show ?case using Cons.IH [of ?b] Cons.prems by auto
qed simp

lemma selfHitCounts_cardinality [simp]:
  "selfHitCounts (cov\<lparr>cardinality := n\<rparr>) vol = selfHitCounts cov vol"
  by (simp add: fun_eq_iff selfHitCounts_def containsInterval_def Let_def)

lemma build_builtCoverage:
  assumes "buildMappedComponentCoverageFromRoots vol roots ids = (cov, True)"
  shows "builtCoverage vol cov" "selfIDs cov = uniqueSortedInts ids" "membership cov = []"
proof -
  from assms obtain ivs where ivs: "rootIntervals vol (remdups roots) = Some ivs"
    "intervals cov = mergeComponentCoverageIntervals ivs"
    by (auto simp: buildMappedComponentCoverageFromRoots_def emptyCoverage_def Let_def
          split: if_splits option.splits)
  then show "builtCoverage vol cov"
    using rootIntervals_valid rootIntervals_bound by (force simp: builtCoverage_def)
  show "selfIDs cov = uniqueSortedInts ids" "membership cov = []"
    using assms by (auto simp: buildMappedComponentCoverageFromRoots_def emptyCoverage_def Let_def
          split: if_splits option.splits)
qed

text \<open>The live records a coverage stands for, seen through a visibility filter.\<close>

definition coveredLive :: "mappedComponentCoverage \<Rightarrow> coverageVolume \<Rightarrow> (int \<Rightarrow> bool) \<Rightarrow> int set" where
  "coveredLive cov vol vis =
     {rid. 0 \<le> rid \<and> rid < int (length (recs vol)) \<and> \<not> Deleted (recs vol ! nat rid) \<and> vis rid \<and>
       (containsInterval cov vol rid \<or>
        rid \<in> set (selfIDs cov) \<and> \<not> isDirMode (Mode (recs vol ! nat rid)))}"

lemma walked_count:
  assumes cov: "builtCoverage vol cov" and wf: "wfVolume vol"
  defines "P \<equiv> concat (map intervalPositions (intervals cov))"
  shows "length (filter (\<lambda>pos. liveAt vol pos \<and> vis (uint (subtreeOrder vol ! pos))) P) =
    card {rid. 0 \<le> rid \<and> rid < int (length (recs vol)) \<and> \<not> Deleted (recs vol ! nat rid) \<and> vis rid \<and>
      containsInterval cov vol rid}" (is "?n = card ?S")
proof -
  let ?Q = "{pos \<in> set P. liveAt vol pos \<and> vis (uint (subtreeOrder vol ! pos))}"
  let ?f = "\<lambda>pos. uint (subtreeOrder vol ! pos)"
  from cov obtain ivs where ivs: "intervals cov = mergeComponentCoverageIntervals ivs" "validIvs ivs"
    "\<forall>p\<in>covers ivs. unat p < length (subtreeOrder vol)" by (auto simp: builtCoverage_def)
  have "distinct P"
    unfolding P_def ivs(1)
    by (intro distinct_positions componentMerge.merge_separated componentMerge.merge_valid ivs(2))
  then have n: "?n = card ?Q" by (simp add: distinct_length_filter Int_def conj_commute)
  have L: "length (subtreeOrder vol) < 2 ^ 32 - 1" using wf by (simp add: wfVolume_def)
  have bound: "pos < length (subtreeOrder vol)" if "pos \<in> set P" for pos
  proof -
    have "pos < 2 ^ 32" "(of_nat pos :: u32) \<in> covers ivs"
      using that unfolding P_def positions_iff by (auto simp: ivs(1) componentMerge.merge_covers)
    with ivs(3) show ?thesis by (fastforce simp: unat_of_nat)
  qed
  have start_of: "unat (subtreeStart vol ! unat (subtreeOrder vol ! pos)) = pos" if "pos \<in> set P" for pos
    using wf bound [OF that] by (simp add: wfVolume_def)
  have inj: "inj_on ?f ?Q"
  proof (rule inj_onI)
    fix p q assume pq: "p \<in> ?Q" "q \<in> ?Q" "?f p = ?f q"
    have "unat (subtreeOrder vol ! p) = unat (subtreeOrder vol ! q)"
      unfolding unat_eq_nat_uint using pq(3) by (rule arg_cong)
    moreover have "p \<in> set P" "q \<in> set P" using pq by auto
    ultimately show "p = q" using start_of by metis
  qed
  have "?f ` ?Q = ?S"
  proof (intro set_eqI iffI)
    fix rid assume "rid \<in> ?f ` ?Q"
    then obtain pos where pos: "pos \<in> set P" "liveAt vol pos" "vis rid" "rid = ?f pos" by auto
    then have "0 \<le> rid" "rid < int (length (recs vol))" "\<not> Deleted (recs vol ! nat rid)"
      by (auto simp: liveAt_def Let_def uint_less_int)
    with walked_iff [OF cov wf] pos bound show "rid \<in> ?S" by (auto simp: P_def)
  next
    fix rid assume rid: "rid \<in> ?S"
    then obtain pos where "pos \<in> set P" "pos < length (subtreeOrder vol)" "?f pos = rid"
      using walked_iff [OF cov wf, of rid] by (auto simp: P_def)
    with rid show "rid \<in> ?f ` ?Q" by (auto simp: liveAt_def Let_def uint_less_int)
  qed
  with n card_image [OF inj] show ?thesis by metis
qed

lemma covered_count:
  assumes cov: "builtCoverage vol cov" and wf: "wfVolume vol" and d: "distinct (selfIDs cov)"
  shows "length (filter (\<lambda>pos. liveAt vol pos \<and> vis (uint (subtreeOrder vol ! pos)))
            (concat (map intervalPositions (intervals cov)))) +
         length (filter (\<lambda>rid. selfHitCounts cov vol rid \<and> vis rid) (selfIDs cov)) =
         card (coveredLive cov vol vis)"
proof -
  let ?A = "{rid. 0 \<le> rid \<and> rid < int (length (recs vol)) \<and> \<not> Deleted (recs vol ! nat rid) \<and> vis rid \<and>
      containsInterval cov vol rid}"
  let ?B = "{rid \<in> set (selfIDs cov). selfHitCounts cov vol rid \<and> vis rid}"
  have "length (filter (\<lambda>rid. selfHitCounts cov vol rid \<and> vis rid) (selfIDs cov)) = card ?B"
    using d by (metis distinct_card distinct_filter set_filter)
  moreover have "coveredLive cov vol vis = ?A \<union> ?B"
    by (auto simp: coveredLive_def selfHitCounts_def)
  moreover have "finite ?A" by (rule finite_subset [of _ "{0..<int (length (recs vol))}"]) auto
  moreover have "?A \<inter> ?B = {}" by (auto simp: selfHitCounts_def)
  ultimately show ?thesis
    using walked_count [OF cov wf] by (simp add: card_Un_disjoint)
qed

section \<open>Properties\<close>

text \<open>
  Merging component intervals keeps exactly the covered positions and leaves intervals that
  neither overlap nor touch, in increasing order; subtracting such a merged coverage from other
  intervals leaves exactly the positions not yet covered.
\<close>

theorem coverage_interval_algebra:
  fixes ivs incoming :: "componentCoverageInterval list"
  assumes "validIvs ivs"
  shows "covers (mergeComponentCoverageIntervals ivs) = covers ivs \<and>
    separated (mergeComponentCoverageIntervals ivs) \<and>
    covers (subtractComponentCoverageIntervals incoming (mergeComponentCoverageIntervals ivs)) =
      covers incoming - covers ivs"
proof -
  let ?m = "mergeComponentCoverageIntervals ivs"
  have sub: "covers (subtractOne cur ?m s) = {s..<endp cur} - covers ivs" for cur s
    using subtractOne_covers [OF componentMerge.merge_separated componentMerge.merge_valid [OF assms]]
    by (simp add: componentMerge.merge_covers)
  have "covers (concat (map (\<lambda>cur. subtractOne cur ?m (start cur)) xs)) = covers xs - covers ivs" for xs
    by (induction xs) (auto simp: sub)
  then show ?thesis
    using componentMerge.merge_covers [of ivs] componentMerge.merge_separated [of ivs]
    by (auto simp: subtractComponentCoverageIntervals_def)
qed

theorem coverage_interval_algebra_witness:
  "covers (subtractComponentCoverageIntervals [\<lparr>start = 1, endp = 9\<rparr>]
      (mergeComponentCoverageIntervals [\<lparr>start = 4, endp = 6\<rparr>, \<lparr>start = 2, endp = (5 :: u32)\<rparr>])) =
   covers [\<lparr>start = 1, endp = (9 :: u32)\<rparr>] - covers [\<lparr>start = 4, endp = 6\<rparr>, \<lparr>start = 2, endp = 5\<rparr>]"
  using coverage_interval_algebra [of "[\<lparr>start = 4, endp = 6\<rparr>, \<lparr>start = 2, endp = 5\<rparr>]"
      "[\<lparr>start = 1, endp = 9\<rparr>]"]
  by (simp add: validIvs_def)

text \<open>
  C37: The number of visible live records of a component coverage is counted exactly once per
  record, although a record may lie in several root subtrees and also be a filename hit: both the
  precomputed cardinality and the walk with a hidden set return the size of the union.
\<close>

theorem countLive_exact:
  assumes "buildMappedComponentCoverageFromRoots vol roots ids = (cov, True)"
    and "wfVolume vol" "sorted ids"
  shows "fst (countLive cov vol hidden) =
    card (coveredLive cov vol (\<lambda>rid. case hidden of None \<Rightarrow> True | Some h \<Rightarrow> \<not> h rid))"
proof -
  note built = build_builtCoverage [OF assms(1)]
  have d: "distinct (selfIDs cov)"
    using uniqueSorted_correct(2) [OF assms(3)] built(2)
    by (simp add: uniqueSortedInts_def strict_sorted_iff)
  let ?P = "concat (map intervalPositions (intervals cov))"
  have total: "cardinality cov = card (coveredLive cov vol (\<lambda>rid. True))" if nd: "\<not> baseHasDeletedRecords vol"
  proof -
    have live: "liveAt vol pos" if "pos \<in> set ?P" for pos
    proof -
      from built(1) obtain ivs where "intervals cov = mergeComponentCoverageIntervals ivs"
        "\<forall>p\<in>covers ivs. unat p < length (subtreeOrder vol)" by (auto simp: builtCoverage_def)
      with that have "pos < length (subtreeOrder vol)"
        unfolding positions_iff by (fastforce simp: componentMerge.merge_covers unat_of_nat)
      with assms(2) nd show ?thesis
        by (auto simp: liveAt_def Let_def wfVolume_def baseHasDeletedRecords_def list_ex_iff)
    qed
    from built(1) have "validIvs (intervals cov)"
      by (auto simp: builtCoverage_def componentMerge.merge_valid)
    then have "sum_list (map (\<lambda>iv. unat (endp iv - start iv)) (intervals cov)) = length ?P"
      by (induction "intervals cov") (auto simp: validIvs_def intervalPositions_def length_concat
            unat_sub_if_size word_le_nat_alt comp_def intro!: arg_cong [where f = sum_list])
    moreover have "cardinality cov = sum_list (map (\<lambda>iv. unat (endp iv - start iv)) (intervals cov)) +
        length (filter (selfHitCounts cov vol) (selfIDs cov))"
      using assms(1) nd
      by (auto simp: buildMappedComponentCoverageFromRoots_def Let_def
            split: if_splits option.splits)
    moreover have "filter (\<lambda>pos. liveAt vol pos) ?P = ?P" using live by (simp add: filter_id_conv)
    ultimately show ?thesis
      using covered_count [OF built(1) assms(2) d, of "\<lambda>_. True"] by simp
  qed
  show ?thesis
  proof (cases "hidden = None \<and> \<not> baseHasDeletedRecords vol")
    case True
    then show ?thesis using total by (simp add: countLive_def)
  next
    case False
    let ?vis = "\<lambda>rid. case hidden of None \<Rightarrow> True | Some h \<Rightarrow> \<not> h rid"
    have "fst (countLive cov vol hidden) =
        length (filter (\<lambda>pos. liveAt vol pos \<and> ?vis (uint (subtreeOrder vol ! pos))) ?P) +
        length (filter (\<lambda>rid. selfHitCounts cov vol rid \<and> ?vis rid) (selfIDs cov))"
      using False
      by (auto simp: countLive_def Let_def filter_filter liveAt_def conj_commute conj_left_commute
            intro!: arg_cong [where f = length] filter_cong)
    then show ?thesis using covered_count [OF built(1) assms(2) d, of ?vis] by simp
  qed
qed

definition exampleVolume :: coverageVolume where
  "exampleVolume =
     \<lparr>recs = [zeroRecord\<lparr>Mode := modeDir\<rparr>, zeroRecord, zeroRecord\<lparr>Deleted := True\<rparr>, zeroRecord],
      subtreeOrder = [0, 2, 1, 3], subtreeStart = [0, 2, 1, 3], subtreeEnd = [3, 3, 2, 4]\<rparr>"

lemma exampleVolume_wf: "wfVolume exampleVolume"
  by (simp add: wfVolume_def exampleVolume_def All_less_Suc)

theorem countLive_exact_witness:
  "3 = card (coveredLive (fst (buildMappedComponentCoverageFromRoots exampleVolume [0, 2, 0] [1, 3]))
     exampleVolume (\<lambda>_. True))"
proof -
  let ?b = "buildMappedComponentCoverageFromRoots exampleVolume [0, 2, 0] [1, 3]"
  have "snd ?b" by code_simp
  then have "?b = (fst ?b, True)" by (metis prod.collapse)
  from countLive_exact [OF this exampleVolume_wf, of None]
  have "fst (countLive (fst ?b) exampleVolume None) = card (coveredLive (fst ?b) exampleVolume (\<lambda>_. True))"
    by simp
  moreover have "fst (countLive (fst ?b) exampleVolume None) = 3" by code_simp
  ultimately show ?thesis by simp
qed

text \<open>
  The membership bitset answers like the searches it replaces: for every record of the
  volume, \<open>contains\<close> gives the same answer before and after \<open>buildMembership\<close>.
\<close>

theorem buildMembership_equivalent:
  assumes "buildMappedComponentCoverageFromRoots vol roots ids = (cov, True)"
    and "wfVolume vol" "sorted ids" "0 \<le> rid" "rid < int (length (recs vol))"
  shows "coverageContains (buildMembership cov vol) vol rid = coverageContains cov vol rid"
proof (cases "cardinality cov = 0 \<or> recs vol = []")
  case True
  then show ?thesis by (auto simp: buildMembership_def)
next
  case False
  note built = build_builtCoverage [OF assms(1)]
  let ?n = "length (recs vol)"
  have strict: "sorted_wrt (<) (selfIDs cov)"
    using uniqueSorted_correct(2) [OF assms(3)] built(2) by (simp add: uniqueSortedInts_def)
  have plain: "coverageContains cov vol rid \<longleftrightarrow> containsInterval cov vol rid \<or> rid \<in> set (selfIDs cov)"
    using sortSearch_mem [OF strict, of rid] built(3) by (auto simp: coverageContains_def Let_def)
  let ?ps = "filter (\<lambda>pos. pos < length (subtreeOrder vol)) (concat (map intervalPositions (intervals cov)))"
  let ?m = "membership (buildMembership cov vol)"
  have words: "?n \<le> 64 * length (replicate ((?n + 63) div 64) (0 :: u64))" by simp
  note marked = foldl_markPosition [OF words, of ?ps]
  have bits: "length ?m = (?n + 63) div 64 \<and>
      (bitsetTest ?m (nat rid) \<longleftrightarrow>
         (\<exists>pos\<in>set ?ps. unat (subtreeOrder vol ! pos) = nat rid) \<or> rid \<in> set (selfIDs cov))"
    using foldl_markSelf [of ?n "foldl (markPosition vol) (replicate ((?n + 63) div 64) 0) ?ps"
        "selfIDs cov" "nat rid"] marked words False assms(4,5)
    by (auto simp: buildMembership_def Let_def nat_less_iff)
  have "uint w = rid \<longleftrightarrow> unat w = nat rid" for w :: u32
    using assms(4) by (metis nat_0_le of_nat_unat uint_nat unat_eq_nat_uint)
  then have "(\<exists>pos\<in>set ?ps. unat (subtreeOrder vol ! pos) = nat rid) \<longleftrightarrow> containsInterval cov vol rid"
    using walked_iff [OF built(1) assms(2,4,5)] by auto
  moreover have "nat rid div 64 < (?n + 63) div 64" using assms(4,5) by linarith
  ultimately show ?thesis
    using bits plain assms(4) by (auto simp: coverageContains_def)
qed

theorem buildMembership_equivalent_witness:
  "coverageContains (buildMembership (fst (buildMappedComponentCoverageFromRoots exampleVolume [2] [1, 3]))
     exampleVolume) exampleVolume 3 =
   coverageContains (fst (buildMappedComponentCoverageFromRoots exampleVolume [2] [1, 3])) exampleVolume 3"
proof -
  let ?b = "buildMappedComponentCoverageFromRoots exampleVolume [2] [1, 3]"
  have "snd ?b" by code_simp
  then have "?b = (fst ?b, True)" by (metis prod.collapse)
  from buildMembership_equivalent [OF this exampleVolume_wf, of 3] show ?thesis
    by (simp add: exampleVolume_def)
qed

end
