(* ===== verification/Trigrams.thy ===== *)
theory Trigrams
  imports GramCodec Postings
begin

text \<open>
  The compressed gram index (\<open>cmd/seekfs/trigram_index.go\<close>): segments of compressed postings,
  the full and the selective builds with the companion of omitted grams, the low-memory layout,
  and the lookups. A Go map is an association list without duplicate keys (its iteration order is
  never observable in the results); the worker goroutines fill one slot per chunk, so the builds
  map the segment function over the chunks. The lower-casing of query terms is the parameter
  \<open>toLower\<close>; a memory-mapped gram section is represented by its posting lookup.
\<close>

section \<open>Go maps\<close>

type_synonym ('k, 'v) gomap = "('k \<times> 'v) list"

fun mapUpd :: "'k \<Rightarrow> ('v option \<Rightarrow> 'v) \<Rightarrow> ('k, 'v) gomap \<Rightarrow> ('k, 'v) gomap" where
  "mapUpd k f [] = [(k, f None)]"
| "mapUpd k f ((a, v) # m) = (if a = k then (a, f (Some v)) # m else (a, v) # mapUpd k f m)"

section \<open>Data\<close>

record compressedPosting =
  count :: nat
  data :: bytes
  offset :: u64
  psize :: u32

definition zeroPosting :: compressedPosting where
  "zeroPosting = \<lparr>count = 0, data = [], offset = 0, psize = 0\<rparr>"

record flatPosting =
  fcount :: nat
  foffset :: u64
  fsize :: u32

record trigramSegment =
  segStart :: nat
  segEnd :: nat
  postings :: "(u32, compressedPosting) gomap option"
  grams :: "u32 list"
  postingList :: "compressedPosting list"
  flatPostings :: "flatPosting list"
  segBytes :: nat

record compressedTrigramIndex =
  segments :: "trigramSegment list"
  counts :: "(u32, nat) gomap option"
  countKeys :: "u32 list"
  countValues :: "nat list"
  omitted :: "u32 list"
  gramCountsComplete :: bool
  mappedGrams :: "(u32 \<Rightarrow> u32 list option) option"
  gramSize :: nat
  recordCount :: nat
  postingBytes :: nat

text \<open>What a build reads of an \<open>Index\<close>: per record the deleted flag and the text to index.\<close>

record gramSource =
  srcCount :: nat
  srcDeleted :: "nat \<Rightarrow> bool"
  srcText :: "nat \<Rightarrow> string"

definition trigramSegmentTargetRecords :: nat where
  "trigramSegmentTargetRecords = 500000"

section \<open>Building\<close>

definition newIndex :: "nat \<Rightarrow> nat \<Rightarrow> compressedTrigramIndex" where
  "newIndex gsize n = \<lparr>segments = [], counts = Some [], countKeys = [], countValues = [],
     omitted = [], gramCountsComplete = True, mappedGrams = None, gramSize = gsize,
     recordCount = n, postingBytes = 0\<rparr>"

function chunksFrom :: "nat \<Rightarrow> nat \<Rightarrow> (nat \<times> nat) list" where
  "chunksFrom lo n =
     (if lo < n
      then (lo, min n (lo + trigramSegmentTargetRecords))
             # chunksFrom (lo + trigramSegmentTargetRecords) n
      else [])"
  by pat_completeness auto
termination
  by (relation "measure (\<lambda>(lo, n). n - lo)") (auto simp: trigramSegmentTargetRecords_def)

declare chunksFrom.simps [simp del]

definition trigramBuildChunks :: "nat \<Rightarrow> (nat \<times> nat) list" where
  "trigramBuildChunks n = (if n = 0 then [] else chunksFrom 0 n)"

text \<open>\<open>raw[gram] = append(raw[gram], uint32(id))\<close> for the distinct grams of one live record.\<close>

definition addId :: "nat \<Rightarrow> u32 list option \<Rightarrow> u32 list" where
  "addId rid o_ids = (case o_ids of None \<Rightarrow> [] | Some ids \<Rightarrow> ids) @ [of_nat rid]"

definition rawRecord ::
    "gramSource \<Rightarrow> (string \<Rightarrow> u32 list) \<Rightarrow> (u32 \<Rightarrow> bool) \<Rightarrow> (u32, u32 list) gomap \<Rightarrow> nat
     \<Rightarrow> (u32, u32 list) gomap" where
  "rawRecord src keys sel raw rid =
     (if srcDeleted src rid then raw
      else foldl (\<lambda>raw gram. if sel gram then mapUpd gram (addId rid) raw else raw) raw
             (keys (srcText src rid)))"

definition rawSegment ::
    "gramSource \<Rightarrow> (string \<Rightarrow> u32 list) \<Rightarrow> (u32 \<Rightarrow> bool) \<Rightarrow> nat \<Rightarrow> nat \<Rightarrow> (u32, u32 list) gomap" where
  "rawSegment src keys sel s e = foldl (rawRecord src keys sel) [] [s..<e]"

definition encodeRaw :: "(u32, u32 list) gomap \<Rightarrow> (u32, compressedPosting) gomap" where
  "encodeRaw raw = map (\<lambda>(gram, ids).
     (gram, zeroPosting\<lparr>count := length ids, data := encodeDeltaUvarint32 ids\<rparr>)) raw"

definition mkSegment :: "nat \<Rightarrow> nat \<Rightarrow> (u32, u32 list) gomap \<Rightarrow> trigramSegment" where
  "mkSegment s e raw = \<lparr>segStart = s, segEnd = e, postings = Some (encodeRaw raw), grams = [],
     postingList = [], flatPostings = [],
     segBytes = sum_list (map (\<lambda>(gram, p). length (data p)) (encodeRaw raw))\<rparr>"

definition buildCompactTrigramSegment :: "gramSource \<Rightarrow> nat \<Rightarrow> nat \<Rightarrow> trigramSegment" where
  "buildCompactTrigramSegment src s e =
     mkSegment s e (rawSegment src (appendUniqueTrigramKeys []) (\<lambda>_. True) s e)"

definition bump :: "nat option \<Rightarrow> nat" where
  "bump c = (case c of None \<Rightarrow> 1 | Some n \<Rightarrow> n + 1)"

definition countRecord ::
    "gramSource \<Rightarrow> (string \<Rightarrow> u32 list) \<Rightarrow> (u32, nat) gomap \<Rightarrow> nat \<Rightarrow> (u32, nat) gomap" where
  "countRecord src keys cs rid =
     (if srcDeleted src rid then cs
      else foldl (\<lambda>cs gram. mapUpd gram bump cs) cs (keys (srcText src rid)))"

definition countSegment ::
    "gramSource \<Rightarrow> (string \<Rightarrow> u32 list) \<Rightarrow> nat \<Rightarrow> nat \<Rightarrow> (u32, nat) gomap" where
  "countSegment src keys s e = foldl (countRecord src keys) [] [s..<e]"

definition countCompactTrigramSegment :: "gramSource \<Rightarrow> nat \<Rightarrow> nat \<Rightarrow> (u32, nat) gomap" where
  "countCompactTrigramSegment src s e = countSegment src (appendUniqueTrigramKeys []) s e"

definition nameKeys :: "nat \<Rightarrow> string \<Rightarrow> u32 list" where
  "nameKeys gsize text = appendUniqueFixedGramKeysFoldASCII [] text gsize"

definition countCompactNameGramSegment ::
    "gramSource \<Rightarrow> nat \<Rightarrow> nat \<Rightarrow> nat \<Rightarrow> (u32, nat) gomap" where
  "countCompactNameGramSegment src s e gsize = countSegment src (nameKeys gsize) s e"

definition countOf :: "(u32, nat) gomap \<Rightarrow> u32 \<Rightarrow> nat" where
  "countOf cs gram = (case map_of cs gram of None \<Rightarrow> 0 | Some n \<Rightarrow> n)"

definition buildSelectiveCompactTrigramSegment ::
    "gramSource \<Rightarrow> nat \<Rightarrow> nat \<Rightarrow> (u32, nat) gomap \<Rightarrow> nat \<Rightarrow> trigramSegment" where
  "buildSelectiveCompactTrigramSegment src s e cs maxCount =
     mkSegment s e (rawSegment src (appendUniqueTrigramKeys [])
       (\<lambda>gram. \<not> countOf cs gram > maxCount) s e)"

definition buildSelectiveCompactNameGramSegment ::
    "gramSource \<Rightarrow> nat \<Rightarrow> nat \<Rightarrow> nat \<Rightarrow> (u32, nat) gomap \<Rightarrow> nat \<Rightarrow> trigramSegment" where
  "buildSelectiveCompactNameGramSegment src s e gsize cs maxCount =
     mkSegment s e (rawSegment src (nameKeys gsize) (\<lambda>gram. \<not> countOf cs gram > maxCount) s e)"

text \<open>Both outputs of one pass: each gram goes to exactly one of the two raw maps.\<close>

definition bothRecord ::
    "gramSource \<Rightarrow> nat \<Rightarrow> (u32 \<Rightarrow> bool) \<Rightarrow> (u32, u32 list) gomap \<times> (u32, u32 list) gomap \<Rightarrow> nat
     \<Rightarrow> (u32, u32 list) gomap \<times> (u32, u32 list) gomap" where
  "bothRecord src gsize over st rid =
     (if srcDeleted src rid then st
      else foldl (\<lambda>(stored, omittedRaw) gram.
               if over gram then (stored, mapUpd gram (addId rid) omittedRaw)
               else (mapUpd gram (addId rid) stored, omittedRaw)) st
             (nameKeys gsize (srcText src rid)))"

definition buildSelectiveCompactNameGramSegmentsBoth ::
    "gramSource \<Rightarrow> nat \<Rightarrow> nat \<Rightarrow> nat \<Rightarrow> (u32, nat) gomap \<Rightarrow> nat \<Rightarrow> trigramSegment \<times> trigramSegment"
where
  "buildSelectiveCompactNameGramSegmentsBoth src s e gsize cs maxCount =
     (case foldl (bothRecord src gsize (\<lambda>gram. countOf cs gram > maxCount)) ([], []) [s..<e] of
        (stored, omittedRaw) \<Rightarrow> (mkSegment s e stored, mkSegment s e omittedRaw))"

text \<open>\<open>counts[gram] += count\<close> over a map.\<close>

definition addCounts :: "(u32, nat) gomap \<Rightarrow> (u32, nat) gomap \<Rightarrow> (u32, nat) gomap" where
  "addCounts cs ds = foldl (\<lambda>cs (gram, n). mapUpd gram (\<lambda>c. (case c of None \<Rightarrow> 0 | Some m \<Rightarrow> m) + n) cs) cs ds"

definition segPostingCounts :: "trigramSegment \<Rightarrow> (u32, nat) gomap" where
  "segPostingCounts seg =
     (case postings seg of None \<Rightarrow> [] | Some ps \<Rightarrow> map (\<lambda>(gram, p). (gram, count p)) ps)"

definition keepSegment :: "trigramSegment \<Rightarrow> bool" where
  "keepSegment seg \<longleftrightarrow> \<not> segEnd seg \<le> segStart seg"

definition buildCompactTrigramIndex :: "gramSource \<Rightarrow> compressedTrigramIndex" where
  "buildCompactTrigramIndex src =
     (let ti = newIndex 3 (srcCount src) in
      if srcCount src = 0 then ti
      else
        (let results = map (\<lambda>(s, e). buildCompactTrigramSegment src s e) (trigramBuildChunks (srcCount src));
             segs = filter keepSegment results
         in ti\<lparr>segments := segs, postingBytes := sum_list (map segBytes segs),
               counts := Some (foldl (\<lambda>cs seg. addCounts cs (segPostingCounts seg)) [] segs)\<rparr>))"

section \<open>Lookups\<close>

definition countForGram :: "compressedTrigramIndex \<Rightarrow> u32 \<Rightarrow> nat" where
  "countForGram ti gram =
     (case counts ti of
        Some cs \<Rightarrow> countOf cs gram
      | None \<Rightarrow>
          (let i = sortSearch (length (countKeys ti)) (\<lambda>i. countKeys ti ! i \<ge> gram)
           in if i < length (countKeys ti) \<and> countKeys ti ! i = gram then countValues ti ! i else 0))"

definition countPairs :: "compressedTrigramIndex \<Rightarrow> (u32 \<times> nat) list" where
  "countPairs ti = (case counts ti of Some cs \<Rightarrow> cs | None \<Rightarrow> zip (countKeys ti) (countValues ti))"

definition postingForGram :: "trigramSegment \<Rightarrow> u32 \<Rightarrow> compressedPosting" where
  "postingForGram seg gram =
     (case postings seg of
        Some ps \<Rightarrow> (case map_of ps gram of None \<Rightarrow> zeroPosting | Some p \<Rightarrow> p)
      | None \<Rightarrow>
          (let i = sortSearch (length (grams seg)) (\<lambda>i. grams seg ! i \<ge> gram)
           in if i < length (grams seg) \<and> grams seg ! i = gram \<and> flatPostings seg \<noteq> []
              then (let p = flatPostings seg ! i
                    in zeroPosting\<lparr>count := fcount p, offset := foffset p, psize := fsize p\<rparr>)
              else if i < length (grams seg) \<and> grams seg ! i = gram \<and> postingList seg \<noteq> []
              then postingList seg ! i
              else zeroPosting))"

definition hasStoredPosting :: "compressedTrigramIndex \<Rightarrow> u32 \<Rightarrow> bool" where
  "hasStoredPosting ti gram =
     (case mappedGrams ti of
        Some lookup \<Rightarrow> lookup gram \<noteq> None \<and> gram \<notin> set (omitted ti)
      | None \<Rightarrow> list_ex (\<lambda>seg. count (postingForGram seg gram) > 0) (segments ti))"

definition isOmittedGram :: "compressedTrigramIndex \<Rightarrow> u32 \<Rightarrow> bool" where
  "isOmittedGram ti gram \<longleftrightarrow> gram \<in> set (omitted ti)"

text \<open>\<open>hasStoredPosting\<close> is called while \<open>omitted\<close> grows; without a mapped section it does not
  read \<open>omitted\<close>.\<close>

definition markOmittedPostings :: "compressedTrigramIndex \<Rightarrow> nat \<Rightarrow> compressedTrigramIndex" where
  "markOmittedPostings ti maxCount =
     (if maxCount = 0 then ti
      else foldl (\<lambda>ti (gram, n).
             if n > maxCount \<and> \<not> hasStoredPosting ti gram
             then ti\<lparr>omitted := (if gram \<in> set (omitted ti) then omitted ti else omitted ti @ [gram])\<rparr>
             else ti) ti (countPairs ti))"

definition compactSegment :: "trigramSegment \<Rightarrow> trigramSegment" where
  "compactSegment seg =
     (case postings seg of
        None \<Rightarrow> seg
      | Some ps \<Rightarrow>
          (let gs = sort (map fst ps)
           in seg\<lparr>grams := gs,
                  postingList := map (\<lambda>gram. case map_of ps gram of None \<Rightarrow> zeroPosting | Some p \<Rightarrow> p) gs,
                  postings := None\<rparr>))"

definition compactForLowMemory :: "compressedTrigramIndex \<Rightarrow> compressedTrigramIndex" where
  "compactForLowMemory ti =
     (let ti1 = (case counts ti of
                   None \<Rightarrow> ti
                 | Some cs \<Rightarrow>
                     (let ks = sort (map fst cs)
                      in ti\<lparr>countKeys := ks, countValues := map (countOf cs) ks, counts := None\<rparr>))
      in ti1\<lparr>segments := map compactSegment (segments ti1)\<rparr>)"

definition companionFromOmittedSegments ::
    "trigramSegment list \<Rightarrow> nat \<Rightarrow> nat \<Rightarrow> compressedTrigramIndex option" where
  "companionFromOmittedSegments segs n gsize =
     (if segs = [] then None
      else let cs = foldl (\<lambda>cs seg. addCounts cs (segPostingCounts seg)) [] segs;
               bytes_total = sum_list (map segBytes segs)
           in if cs = [] then None
              else Some ((newIndex gsize n)\<lparr>segments := segs, counts := Some cs, postingBytes := bytes_total\<rparr>))"

definition hasPostings :: "trigramSegment \<Rightarrow> bool" where
  "hasPostings seg \<longleftrightarrow> (case postings seg of None \<Rightarrow> False | Some ps \<Rightarrow> ps \<noteq> [])"

text \<open>The internal build; \<open>lowMemory\<close> is \<open>serviceLowMemoryMode()\<close>.\<close>

definition buildSelectiveCompactNameGramIndexInternal ::
    "bool \<Rightarrow> gramSource \<Rightarrow> nat \<Rightarrow> nat \<Rightarrow> bool
     \<Rightarrow> compressedTrigramIndex \<times> compressedTrigramIndex option" where
  "buildSelectiveCompactNameGramIndexInternal lowMemory src gsize maxCount wantCompanion =
     (let n = srcCount src; ti = newIndex gsize n in
      if n = 0 \<or> maxCount = 0 then (ti, None)
      else
        (let chunks = trigramBuildChunks n;
             cs = foldl (\<lambda>cs (s, e). addCounts cs (countCompactNameGramSegment src s e gsize)) [] chunks;
             both = map (\<lambda>(s, e). if wantCompanion
                       then buildSelectiveCompactNameGramSegmentsBoth src s e gsize cs maxCount
                       else (buildSelectiveCompactNameGramSegment src s e gsize cs maxCount,
                             mkSegment 0 0 [])) chunks;
             segs = filter keepSegment (map fst both);
             omittedSegs = (if wantCompanion
                            then filter (\<lambda>seg. keepSegment seg \<and> hasPostings seg) (map snd both) else []);
             ti1 = ti\<lparr>counts := Some cs, segments := segs, postingBytes := sum_list (map segBytes segs)\<rparr>;
             ti2 = markOmittedPostings ti1 maxCount;
             ti3 = (if lowMemory then compactForLowMemory ti2 else ti2)
         in (ti3, companionFromOmittedSegments omittedSegs n gsize)))"

definition buildSelectiveCompactTrigramIndex :: "gramSource \<Rightarrow> nat \<Rightarrow> compressedTrigramIndex" where
  "buildSelectiveCompactTrigramIndex src maxCount =
     (let n = srcCount src; ti = newIndex 3 n in
      if n = 0 \<or> maxCount = 0 then ti
      else
        (let chunks = trigramBuildChunks n;
             cs = foldl (\<lambda>cs (s, e). addCounts cs (countCompactTrigramSegment src s e)) [] chunks;
             results = map (\<lambda>(s, e). buildSelectiveCompactTrigramSegment src s e cs maxCount) chunks;
             segs = filter keepSegment results
         in markOmittedPostings
              (ti\<lparr>counts := Some cs, segments := segs, postingBytes := sum_list (map segBytes segs)\<rparr>)
              maxCount))"

definition dropAt :: "nat \<Rightarrow> 'a list \<Rightarrow> 'a list" where
  "dropAt i xs = take i xs @ drop (i + 1) xs"

definition deletePosting :: "u32 \<Rightarrow> trigramSegment \<Rightarrow> trigramSegment" where
  "deletePosting gram seg =
     (case postings seg of
        Some ps \<Rightarrow> seg\<lparr>postings := Some (filter (\<lambda>(g, p). g \<noteq> gram) ps)\<rparr>
      | None \<Rightarrow>
          (let i = sortSearch (length (grams seg)) (\<lambda>i. grams seg ! i \<ge> gram) in
           if i \<ge> length (grams seg) \<or> grams seg ! i \<noteq> gram then seg
           else seg\<lparr>grams := dropAt i (grams seg),
                    flatPostings := (if flatPostings seg \<noteq> [] then dropAt i (flatPostings seg) else []),
                    postingList := (if postingList seg \<noteq> [] then dropAt i (postingList seg) else [])\<rparr>))"

definition dropGram :: "compressedTrigramIndex \<Rightarrow> u32 \<Rightarrow> compressedTrigramIndex" where
  "dropGram ti gram =
     (let dropped = sum_list (map (\<lambda>seg. if count (postingForGram seg gram) = 0 then 0
                                         else length (data (postingForGram seg gram))) (segments ti))
      in ti\<lparr>postingBytes := postingBytes ti - dropped,
            segments := map (\<lambda>seg. let p = postingForGram seg gram in
              if count p = 0 then seg
              else deletePosting gram (seg\<lparr>segBytes := segBytes seg - length (data p)\<rparr>)) (segments ti)\<rparr>)"

definition dropCommonPostings :: "compressedTrigramIndex \<Rightarrow> nat \<Rightarrow> compressedTrigramIndex" where
  "dropCommonPostings ti maxCount =
     (if maxCount = 0 then ti
      else foldl (\<lambda>ti (gram, n). if n \<le> maxCount then ti else dropGram ti gram) ti (countPairs ti))"

definition keyCount :: "compressedTrigramIndex \<Rightarrow> nat" where
  "keyCount ti = (case counts ti of Some cs \<Rightarrow> length cs | None \<Rightarrow> length (countKeys ti))"

definition termGramKeys :: "compressedTrigramIndex \<Rightarrow> string \<Rightarrow> u32 list" where
  "termGramKeys ti trm = uniqueFixedGramKeys trm (if gramSize ti = 0 then 3 else gramSize ti)"

definition hasAllGrams :: "compressedTrigramIndex \<Rightarrow> u32 list \<Rightarrow> bool" where
  "hasAllGrams ti gs = list_all (\<lambda>gram. countForGram ti gram \<noteq> 0) gs"

text \<open>The intersection loop with its early exit on an empty intermediate result.\<close>

fun intersectGrams :: "(u32 \<Rightarrow> u32 list) \<Rightarrow> u32 list \<Rightarrow> u32 list \<Rightarrow> u32 list" where
  "intersectGrams ids candidates [] = candidates"
| "intersectGrams ids candidates (gram # gs) =
     (let next = intersectSortedUint32s candidates (ids gram)
      in if next = [] then [] else intersectGrams ids next gs)"

definition segmentIds :: "trigramSegment \<Rightarrow> u32 \<Rightarrow> u32 list" where
  "segmentIds seg gram =
     (let p = postingForGram seg gram in decodeDeltaUvarint32 (data p) (count p))"

definition segmentCandidateIDs :: "trigramSegment \<Rightarrow> u32 list \<Rightarrow> u32 list" where
  "segmentCandidateIDs seg gs =
     (if list_ex (\<lambda>gram. count (postingForGram seg gram) = 0) gs then []
      else case gs of [] \<Rightarrow> [] | g # rest \<Rightarrow> intersectGrams (segmentIds seg) (segmentIds seg g) rest)"

definition idsForGram :: "compressedTrigramIndex \<Rightarrow> u32 \<Rightarrow> u32 list" where
  "idsForGram ti gram =
     (if countForGram ti gram = 0 then []
      else case mappedGrams ti of
             Some lookup \<Rightarrow> (case lookup gram of None \<Rightarrow> [] | Some ids \<Rightarrow> ids)
           | None \<Rightarrow> concat (map (\<lambda>seg. if count (postingForGram seg gram) = 0 then []
                                          else segmentIds seg gram) (segments ti)))"

text \<open>The mapped branch of \<open>candidateIDs\<close>: stop when a posting or the intersection is empty.\<close>

fun mappedIntersect :: "(u32 \<Rightarrow> u32 list) \<Rightarrow> u32 list \<Rightarrow> u32 list \<Rightarrow> u32 list" where
  "mappedIntersect ids candidates [] = candidates"
| "mappedIntersect ids candidates (gram # gs) =
     (if ids gram = [] then []
      else let next = intersectSortedUint32s candidates (ids gram)
           in if next = [] then [] else mappedIntersect ids next gs)"

definition candidateIDs ::
    "(string \<Rightarrow> string) \<Rightarrow> compressedTrigramIndex \<Rightarrow> string \<Rightarrow> int list \<times> bool" where
  "candidateIDs toLower ti trm0 =
     (let gs0 = termGramKeys ti (toLower trm0) in
      if gs0 = [] then ([], False)
      else let gs = sort_key (countForGram ti) gs0 in
        if \<not> hasAllGrams ti gs then ([], True)
        else case mappedGrams ti of
               Some _ \<Rightarrow> (if idsForGram ti (hd gs) = [] then ([], True)
                 else (uint32sToInts (mappedIntersect (idsForGram ti) (idsForGram ti (hd gs)) (tl gs)), True))
             | None \<Rightarrow> (concat (map (\<lambda>seg. uint32sToInts (segmentCandidateIDs seg gs)) (segments ti)), True))"

text \<open>The scan over the grams: \<open>None\<close> is the early \<open>return nil, false, false\<close>.\<close>

fun selectiveScan ::
    "compressedTrigramIndex \<Rightarrow> int \<Rightarrow> u32 list \<Rightarrow> bool \<Rightarrow> u32 list \<Rightarrow> (bool \<times> u32 list) option" where
  "selectiveScan ti maxIDs [] missing filtered = Some (missing, filtered)"
| "selectiveScan ti maxIDs (gram # gs) missing filtered =
     (let n = countForGram ti gram in
      if n = 0
      then (if gramCountsComplete ti then selectiveScan ti maxIDs gs True filtered else None)
      else if isOmittedGram ti gram then None
      else if maxIDs \<le> 0 \<or> int n \<le> maxIDs
      then selectiveScan ti maxIDs gs missing (filtered @ [gram])
      else selectiveScan ti maxIDs gs missing filtered)"

definition selectiveCandidateIDs ::
    "(string \<Rightarrow> string) \<Rightarrow> compressedTrigramIndex \<Rightarrow> string \<Rightarrow> int \<Rightarrow> int list \<times> bool \<times> bool" where
  "selectiveCandidateIDs toLower ti trm0 maxIDs =
     (let gs = termGramKeys ti (toLower trm0) in
      if gs = [] then ([], False, False)
      else case selectiveScan ti maxIDs gs False [] of
             None \<Rightarrow> ([], False, False)
           | Some (missing, filtered) \<Rightarrow>
               if missing then ([], True, True)
               else if filtered = [] then ([], False, False)
               else (uint32sToInts (idsForGram ti (hd (sort_key (countForGram ti) filtered))), True, False))"

fun intersectScan :: "compressedTrigramIndex \<Rightarrow> u32 list \<Rightarrow> (int list \<times> bool \<times> bool) option" where
  "intersectScan ti [] = None"
| "intersectScan ti (gram # gs) =
     (if countForGram ti gram = 0
      then (if gramCountsComplete ti then Some ([], True, True) else Some ([], False, False))
      else if isOmittedGram ti gram then Some ([], False, False)
      else intersectScan ti gs)"

fun collectSegments ::
    "trigramSegment list \<Rightarrow> u32 list \<Rightarrow> int \<Rightarrow> int list \<Rightarrow> int list \<times> bool \<times> bool" where
  "collectSegments [] stored maxIDs out = (out, True, False)"
| "collectSegments (seg # segs) stored maxIDs out =
     (let ids = segmentCandidateIDs seg stored in
      if ids = [] then collectSegments segs stored maxIDs out
      else let out' = out @ uint32sToInts ids in
        if maxIDs > 0 \<and> int (length out') > maxIDs then ([], False, False)
        else collectSegments segs stored maxIDs out')"

fun mappedIntersectLimited ::
    "(u32 \<Rightarrow> u32 list option) \<Rightarrow> int \<Rightarrow> u32 list \<Rightarrow> u32 list \<Rightarrow> int list \<times> bool \<times> bool" where
  "mappedIntersectLimited lookup maxIDs candidates [] = (uint32sToInts candidates, True, False)"
| "mappedIntersectLimited lookup maxIDs candidates (gram # gs) =
     (case lookup gram of
        None \<Rightarrow> ([], True, False)
      | Some ids \<Rightarrow>
          (let next = intersectSortedUint32s candidates ids in
           if next = [] then ([], True, False)
           else if maxIDs > 0 \<and> int (length next) > maxIDs then ([], False, False)
           else mappedIntersectLimited lookup maxIDs next gs))"

definition selectiveIntersectCandidateIDs ::
    "(string \<Rightarrow> string) \<Rightarrow> compressedTrigramIndex \<Rightarrow> string \<Rightarrow> int \<Rightarrow> int list \<times> bool \<times> bool" where
  "selectiveIntersectCandidateIDs toLower ti trm0 maxIDs =
     (let gs = termGramKeys ti (toLower trm0) in
      if gs = [] then ([], False, False)
      else case intersectScan ti gs of
             Some res \<Rightarrow> res
           | None \<Rightarrow>
               (let stored0 = filter (hasStoredPosting ti) gs in
                if stored0 = [] then ([], False, False)
                else let stored = sort_key (countForGram ti) stored0 in
                  if maxIDs > 0 \<and> int (countForGram ti (hd stored)) > maxIDs then ([], False, False)
                  else case mappedGrams ti of
                         Some lookup \<Rightarrow>
                           (case lookup (hd stored) of
                              None \<Rightarrow> ([], True, False)
                            | Some ids \<Rightarrow> (if ids = [] then ([], True, False)
                                           else mappedIntersectLimited lookup maxIDs ids (tl stored)))
                       | None \<Rightarrow> collectSegments (segments ti) stored maxIDs []))"

fun minCountLoop :: "compressedTrigramIndex \<Rightarrow> u32 list \<Rightarrow> int \<Rightarrow> int \<times> bool" where
  "minCountLoop ti [] m = (m, True)"
| "minCountLoop ti (gram # gs) m =
     (let n = countForGram ti gram in
      if n = 0 then (0, gramCountsComplete ti)
      else minCountLoop ti gs (if m < 0 \<or> int n < m then int n else m))"

definition postingCount ::
    "(string \<Rightarrow> string) \<Rightarrow> compressedTrigramIndex \<Rightarrow> string \<Rightarrow> int \<times> bool" where
  "postingCount toLower ti trm0 =
     (let gs = termGramKeys ti (toLower trm0)
      in if gs = [] then (0, False) else minCountLoop ti gs (- 1))"

datatype gramState = MissingSection | OmittedCommon | ExactEmpty | Present

fun lookupStateLoop :: "compressedTrigramIndex \<Rightarrow> u32 list \<Rightarrow> gramState" where
  "lookupStateLoop ti [] = Present"
| "lookupStateLoop ti (gram # gs) =
     (if isOmittedGram ti gram then OmittedCommon
      else if countForGram ti gram = 0
      then (if gramCountsComplete ti then ExactEmpty else MissingSection)
      else lookupStateLoop ti gs)"

definition lookupState :: "(string \<Rightarrow> string) \<Rightarrow> compressedTrigramIndex \<Rightarrow> string \<Rightarrow> gramState" where
  "lookupState toLower ti trm0 = lookupStateLoop ti (termGramKeys ti (toLower trm0))"

section \<open>Maps, raw postings and counts\<close>

lemma map_of_mapUpd: "map_of (mapUpd k f m) = (map_of m)(k \<mapsto> f (map_of m k))"
  by (induction m) (auto simp: fun_eq_iff)

lemma mapUpd_fst: "fst ` set (mapUpd k f m) = insert k (fst ` set m)"
proof (induction m)
  case (Cons a m)
  then show ?case by (cases a) (simp add: insert_commute)
qed simp

lemma mapUpd_distinct: "distinct (map fst m) \<Longrightarrow> distinct (map fst (mapUpd k f m))"
proof (induction m)
  case (Cons a m)
  then show ?case by (cases a) (auto simp: mapUpd_fst)
qed simp

text \<open>The live records of \<open>[s, e)\<close> whose text has the gram.\<close>

definition hits :: "gramSource \<Rightarrow> (string \<Rightarrow> u32 list) \<Rightarrow> u32 \<Rightarrow> nat \<Rightarrow> nat \<Rightarrow> nat list" where
  "hits src keys g s e =
     filter (\<lambda>rid. \<not> srcDeleted src rid \<and> g \<in> set (keys (srcText src rid))) [s..<e]"

lemma foldl_rawGrams:
  "distinct gs \<Longrightarrow>
   map_of (foldl (\<lambda>raw gram. if sel gram then mapUpd gram (addId rid) raw else raw) raw gs) g =
     (if g \<in> set gs \<and> sel g then Some (addId rid (map_of raw g)) else map_of raw g)"
  by (induction gs arbitrary: raw) (auto simp: map_of_mapUpd)

lemma foldl_rawGrams_distinct:
  "distinct (map fst raw) \<Longrightarrow>
   distinct (map fst (foldl (\<lambda>raw gram. if sel gram then mapUpd gram (addId rid) raw else raw) raw gs))"
  by (induction gs arbitrary: raw) (auto simp: mapUpd_distinct)

lemma rawSegment_Suc:
  "s \<le> e \<Longrightarrow> rawSegment src keys sel s (Suc e) = rawRecord src keys sel (rawSegment src keys sel s e) e"
  by (simp add: rawSegment_def)

lemma map_of_rawSegment:
  assumes "\<forall>t. distinct (keys t)" "s \<le> e"
  shows "map_of (rawSegment src keys sel s e) g =
    (if sel g \<and> hits src keys g s e \<noteq> [] then Some (map of_nat (hits src keys g s e)) else None)"
  using assms(2)
proof (induction e rule: dec_induct)
  case base
  then show ?case by (simp add: rawSegment_def hits_def)
next
  case (step e)
  then show ?case
    using assms(1)
    by (auto simp: rawSegment_Suc rawRecord_def foldl_rawGrams hits_def addId_def)
qed

lemma rawSegment_distinct: "distinct (map fst (rawSegment src keys sel s e))"
proof -
  have "distinct (map fst (foldl (rawRecord src keys sel) raw rids))" if "distinct (map fst raw)" for raw rids
    using that by (induction rids arbitrary: raw) (auto simp: rawRecord_def foldl_rawGrams_distinct)
  then show ?thesis by (simp add: rawSegment_def)
qed

lemma countOf_mapUpd: "countOf (mapUpd k f m) g = (if g = k then f (map_of m k) else countOf m g)"
  by (simp add: countOf_def map_of_mapUpd)

lemma foldl_countGrams:
  "distinct gs \<Longrightarrow> countOf (foldl (\<lambda>cs gram. mapUpd gram bump cs) cs gs) g =
     countOf cs g + (if g \<in> set gs then 1 else 0)"
  by (induction gs arbitrary: cs) (auto simp: countOf_mapUpd bump_def, auto simp: countOf_def bump_def split: option.splits)

lemma countSegment_hits:
  assumes "\<forall>t. distinct (keys t)" "s \<le> e"
  shows "countOf (countSegment src keys s e) g = length (hits src keys g s e)"
  using assms(2)
proof (induction e rule: dec_induct)
  case base
  then show ?case by (simp add: countSegment_def hits_def countOf_def)
next
  case (step e)
  then show ?case
    using assms(1)
    by (auto simp: countSegment_def countRecord_def foldl_countGrams hits_def)
qed

lemma countSegment_distinct: "distinct (map fst (countSegment src keys s e))"
proof -
  have inner: "distinct (map fst (foldl (\<lambda>cs gram. mapUpd gram bump cs) cs gs))"
    if "distinct (map fst cs)" for cs gs
    using that by (induction gs arbitrary: cs) (auto simp: mapUpd_distinct)
  have "distinct (map fst (foldl (countRecord src keys) cs rids))" if "distinct (map fst cs)" for cs rids
    using that by (induction rids arbitrary: cs) (auto simp: countRecord_def inner)
  then show ?thesis by (simp add: countSegment_def)
qed

lemma countOf_addCounts:
  "distinct (map fst ds) \<Longrightarrow> countOf (addCounts cs ds) g = countOf cs g + countOf ds g"
proof (induction ds arbitrary: cs)
  case Nil
  then show ?case by (simp add: addCounts_def countOf_def)
next
  case (Cons d ds)
  obtain h n where d: "d = (h, n)" by fastforce
  let ?cs = "mapUpd h (\<lambda>c. (case c of None \<Rightarrow> 0 | Some m \<Rightarrow> m) + n) cs"
  have "countOf (addCounts ?cs ds) g = countOf ?cs g + countOf ds g"
    using Cons.IH [of ?cs] Cons.prems by simp
  moreover have "countOf ?cs g = countOf cs g + (if g = h then n else 0)"
    by (simp add: countOf_def map_of_mapUpd split: option.splits)
  moreover have "map_of ds h = None" using Cons.prems d by (simp add: map_of_eq_None_iff)
  then have "countOf ds h = 0" by (simp add: countOf_def)
  ultimately show ?case using d by (auto simp: addCounts_def countOf_def)
qed

lemma addCounts_distinct: "distinct (map fst cs) \<Longrightarrow> distinct (map fst (addCounts cs ds))"
  unfolding addCounts_def by (induction ds arbitrary: cs) (auto simp: mapUpd_distinct)

lemma postingForGram_mkSegment:
  "postingForGram (mkSegment s e raw) g =
     (case map_of raw g of None \<Rightarrow> zeroPosting
      | Some ids \<Rightarrow> zeroPosting\<lparr>count := length ids, data := encodeDeltaUvarint32 ids\<rparr>)"
  by (simp add: postingForGram_def mkSegment_def encodeRaw_def map_of_map split: option.splits)

lemma concat_chunksFrom: "concat (map (\<lambda>(s, e). [s..<e]) (chunksFrom lo n)) = [lo..<n]"
proof (induction lo n rule: chunksFrom.induct)
  case (1 lo n)
  show ?case
  proof (cases "lo < n")
    case True
    let ?m = "lo + trigramSegmentTargetRecords"
    have "[lo..<min n ?m] @ [?m..<n] = [lo..<n]"
      using True upt_add_eq_append [of lo ?m "n - ?m"] by (cases "?m \<le> n") auto
    with 1 True show ?thesis by (subst chunksFrom.simps) simp
  qed (simp add: chunksFrom.simps)
qed

lemma chunksFrom_valid: "(s, e) \<in> set (chunksFrom lo n) \<Longrightarrow> s < e \<and> e \<le> n"
proof (induction lo n rule: chunksFrom.induct)
  case (1 lo n)
  from 1(2) have "lo < n" by (subst (asm) chunksFrom.simps) (auto split: if_splits)
  with 1 show ?case
    by (subst (asm) (2) chunksFrom.simps) (auto simp: trigramSegmentTargetRecords_def)
qed

lemma chunks_cover: "concat (map (\<lambda>(s, e). [s..<e]) (trigramBuildChunks n)) = [0..<n]"
  by (simp add: trigramBuildChunks_def concat_chunksFrom)

lemma chunks_valid: "(s, e) \<in> set (trigramBuildChunks n) \<Longrightarrow> s < e \<and> e \<le> n"
  by (auto simp: trigramBuildChunks_def chunksFrom_valid split: if_splits)

section \<open>What an index promises\<close>

definition postingOf :: "nat list \<Rightarrow> compressedPosting" where
  "postingOf rids = (if rids = [] then zeroPosting
     else zeroPosting\<lparr>count := length rids, data := encodeDeltaUvarint32 (map of_nat rids)\<rparr>)"

definition segIndexes ::
    "gramSource \<Rightarrow> (string \<Rightarrow> u32 list) \<Rightarrow> (u32 \<Rightarrow> bool) \<Rightarrow> trigramSegment \<Rightarrow> bool" where
  "segIndexes src keys sel seg \<longleftrightarrow>
     (\<forall>g. postingForGram seg g =
        (if sel g then postingOf (hits src keys g (segStart seg) (segEnd seg)) else zeroPosting))"

definition indexes ::
    "gramSource \<Rightarrow> (string \<Rightarrow> u32 list) \<Rightarrow> (u32 \<Rightarrow> bool) \<Rightarrow> compressedTrigramIndex \<Rightarrow> bool" where
  "indexes src keys sel ti \<longleftrightarrow>
     (\<forall>g. countForGram ti g = length (hits src keys g 0 (srcCount src))) \<and>
     (\<forall>seg\<in>set (segments ti). segIndexes src keys sel seg) \<and>
     concat (map (\<lambda>seg. [segStart seg..<segEnd seg]) (segments ti)) = [0..<srcCount src] \<and>
     mappedGrams ti = None \<and> gramCountsComplete ti"

text \<open>The answer of an exact lookup: the live records that have all the grams.\<close>

definition matching :: "gramSource \<Rightarrow> (string \<Rightarrow> u32 list) \<Rightarrow> u32 list \<Rightarrow> nat list \<Rightarrow> nat list" where
  "matching src keys gs rids =
     filter (\<lambda>rid. \<not> srcDeleted src rid \<and> set gs \<subseteq> set (keys (srcText src rid))) rids"

lemma postingOf_count [simp]: "count (postingOf rids) = length rids"
  by (simp add: postingOf_def zeroPosting_def)

lemma postingOf_decode:
  "decodeDeltaUvarint32 (data (postingOf rids)) c = map of_nat rids"
  using delta.dec_enc [of "[]" c] delta.dec_enc [of "map of_nat rids" c]
  by (auto simp: postingOf_def zeroPosting_def encodeDeltaUvarint32_def)

lemma sorted_of_nat:
  assumes "sorted_wrt (<) rids" "\<forall>r\<in>set rids. r < 2 ^ 32"
  shows "sorted_wrt (<) (map (of_nat :: nat \<Rightarrow> u32) rids)"
proof -
  have "(of_nat a :: u32) < of_nat b" if "a \<in> set rids" "b \<in> set rids" "a < b" for a b
  proof -
    have "unat (of_nat a :: u32) = a" "unat (of_nat b :: u32) = b"
      using assms(2) that by (simp_all add: unat_of_nat)
    with that(3) show ?thesis by (simp add: word_less_nat_alt)
  qed
  then show ?thesis
    unfolding sorted_wrt_map using assms(1) by (rule sorted_wrt_mono_rel)
qed

lemma uint_of_nat: "\<forall>r\<in>set rids. r < 2 ^ 32 \<Longrightarrow> uint32sToInts (map of_nat rids) = map int rids"
  by (induction rids) (simp_all add: uint32sToInts_def uint_nat unat_of_nat)

lemma hits_sorted: "sorted_wrt (<) (hits src keys g s e)"
  by (simp add: hits_def sorted_wrt_filter)

lemma matching_sorted: "sorted_wrt (<) rids \<Longrightarrow> sorted_wrt (<) (matching src keys gs rids)"
  by (simp add: matching_def sorted_wrt_filter)

lemma intersectGrams_foldl:
  "intersectGrams ids cands gs = foldl intersectSortedUint32s cands (map ids gs)"
proof (induction gs arbitrary: cands)
  case (Cons g gs)
  have "intersectSortedUint32s [] b = []" for b
    by (simp add: intersectSortedUint32s_def intersectLoop_merge)
  then have "foldl intersectSortedUint32s [] bs = []" for bs by (induction bs) auto
  with Cons show ?case by (simp add: Let_def)
qed simp

lemma segmentCandidateIDs_exact:
  assumes seg: "segIndexes src keys sel seg" and gs: "gs \<noteq> []" "\<forall>g\<in>set gs. sel g"
    and bound: "segEnd seg \<le> 2 ^ 32"
  shows "segmentCandidateIDs seg gs = map of_nat (matching src keys gs [segStart seg..<segEnd seg])"
proof -
  let ?H = "\<lambda>g. hits src keys g (segStart seg) (segEnd seg)"
  have post: "postingForGram seg g = postingOf (?H g)" if "g \<in> set gs" for g
    using seg gs(2) that by (simp add: segIndexes_def)
  then have ids: "segmentIds seg g = map of_nat (?H g)" if "g \<in> set gs" for g
    using that by (simp add: segmentIds_def Let_def postingOf_decode)
  have small: "\<forall>r\<in>set (?H g). r < 2 ^ 32" for g using bound by (auto simp: hits_def)
  obtain g rest where g: "gs = g # rest" using gs(1) by (cases gs) auto
  let ?m = "matching src keys gs [segStart seg..<segEnd seg]"
  have sm: "\<forall>r\<in>set ?m. r < 2 ^ 32" using bound by (auto simp: matching_def)
  show ?thesis
  proof (cases "\<exists>g\<in>set gs. ?H g = []")
    case True
    then have "segmentCandidateIDs seg gs = []"
      using post by (auto simp: segmentCandidateIDs_def list_ex_iff)
    moreover have "?m = []"
      using True by (auto simp: matching_def hits_def filter_empty_conv)
    ultimately show ?thesis by simp
  next
    case False
    have "segmentCandidateIDs seg gs =
        foldl intersectSortedUint32s (segmentIds seg g) (map (segmentIds seg) rest)"
      using False post g by (auto simp: segmentCandidateIDs_def list_ex_iff intersectGrams_foldl)
    moreover have "map (segmentIds seg) rest = map (\<lambda>g. map of_nat (?H g)) rest"
      using ids g by simp
    ultimately have eq: "segmentCandidateIDs seg gs =
        foldl intersectSortedUint32s (map of_nat (?H g)) (map (\<lambda>g. map of_nat (?H g)) rest)"
      using ids g by simp
    have srt: "sorted_wrt (<) (map (of_nat :: nat \<Rightarrow> u32) (?H g'))" for g'
      by (rule sorted_of_nat [OF hits_sorted small])
    have fold: "sorted_wrt (<) (segmentCandidateIDs seg gs)"
      "set (segmentCandidateIDs seg gs) = (\<Inter>g\<in>set gs. of_nat ` set (?H g))"
      using u32s.fold_inter [OF srt [of g], of "map (\<lambda>g. map of_nat (?H g)) rest"] srt
      unfolding eq by (auto simp: g)
    have "inj_on (of_nat :: nat \<Rightarrow> u32) {..<2 ^ 32}"
      by (rule inj_onI) (metis lessThan_iff unat_of_nat_u32)
    then have "(\<Inter>g\<in>set gs. (of_nat :: nat \<Rightarrow> u32) ` set (?H g)) = of_nat ` (\<Inter>g\<in>set gs. set (?H g))"
      using small gs(1) by (intro image_INT [symmetric, of _ "{..<2 ^ 32}" "set gs" _ g]) (auto simp: g)
    also have "(\<Inter>g\<in>set gs. set (?H g)) = set ?m"
      using gs(1) by (auto simp: hits_def matching_def neq_Nil_conv)
    finally have "set (segmentCandidateIDs seg gs) = set (map of_nat ?m)" using fold(2) by simp
    with fold(1) sorted_of_nat [OF matching_sorted sm] show ?thesis
      by (intro strict_sorted_equal) auto
  qed
qed

lemma matching_concat: "matching src keys gs (concat xss) = concat (map (matching src keys gs) xss)"
  by (induction xss) (simp_all add: matching_def)

lemma segments_concat:
  assumes ti: "indexes src keys sel ti" and gs: "gs \<noteq> []" "\<forall>g\<in>set gs. sel g"
    and bound: "srcCount src \<le> 2 ^ 32"
  shows "concat (map (\<lambda>seg. uint32sToInts (segmentCandidateIDs seg gs)) (segments ti)) =
    map int (matching src keys gs [0..<srcCount src])"
proof -
  have cov: "concat (map (\<lambda>seg. [segStart seg..<segEnd seg]) (segments ti)) = [0..<srcCount src]"
    using ti by (simp add: indexes_def)
  have "uint32sToInts (segmentCandidateIDs seg gs) =
      map int (matching src keys gs [segStart seg..<segEnd seg])" if seg: "seg \<in> set (segments ti)" for seg
  proof -
    have "set [segStart seg..<segEnd seg] \<subseteq> set [0..<srcCount src]"
      using seg by (subst cov [symmetric]) auto
    then have "segEnd seg \<le> srcCount src \<or> segEnd seg \<le> segStart seg"
      by (cases "segStart seg < segEnd seg") (auto dest: subsetD [of _ _ "segEnd seg - 1"])
    then consider "segEnd seg \<le> 2 ^ 32" | "[segStart seg..<segEnd seg] = []" using bound by fastforce
    then show ?thesis
    proof cases
      case 1
      have "\<forall>r\<in>set (matching src keys gs [segStart seg..<segEnd seg]). r < 2 ^ 32"
        using 1 by (auto simp: matching_def)
      moreover have "segIndexes src keys sel seg" using ti seg by (simp add: indexes_def)
      ultimately show ?thesis
        using segmentCandidateIDs_exact [OF _ gs 1] uint_of_nat by metis
    next
      case 2
      then have "postingForGram seg g = zeroPosting" for g
        using ti seg by (auto simp: indexes_def segIndexes_def hits_def postingOf_def)
      then show ?thesis
        using 2 gs by (cases gs) (auto simp: segmentCandidateIDs_def zeroPosting_def matching_def uint32sToInts_def)
    qed
  qed
  then have "concat (map (\<lambda>seg. uint32sToInts (segmentCandidateIDs seg gs)) (segments ti)) =
      map int (matching src keys gs (concat (map (\<lambda>seg. [segStart seg..<segEnd seg]) (segments ti))))"
    by (simp add: matching_concat map_concat comp_def cong: map_cong)
  with cov show ?thesis by simp
qed

lemma matching_set_cong: "set gs = set gs' \<Longrightarrow> matching src keys gs rids = matching src keys gs' rids"
  by (simp add: matching_def)

lemma matching_missing:
  "g \<in> set gs \<Longrightarrow> hits src keys g 0 n = [] \<Longrightarrow> matching src keys gs [0..<n] = []"
  by (auto simp: matching_def hits_def filter_empty_conv)

lemma candidateIDs_indexes:
  assumes ti: "indexes src keys (\<lambda>_. True) ti" and bound: "srcCount src \<le> 2 ^ 32"
    and gs: "termGramKeys ti (toLower trm) \<noteq> []"
  shows "candidateIDs toLower ti trm =
    (map int (matching src keys (termGramKeys ti (toLower trm)) [0..<srcCount src]), True)"
proof -
  let ?gs = "sort_key (countForGram ti) (termGramKeys ti (toLower trm))"
  have ne: "?gs \<noteq> []" using gs by (metis length_0_conv length_sort)
  have set: "set ?gs = set (termGramKeys ti (toLower trm))" by simp
  show ?thesis
  proof (cases "hasAllGrams ti ?gs")
    case True
    then show ?thesis
      using gs ti segments_concat [OF ti ne _ bound] matching_set_cong [OF set]
      by (simp add: candidateIDs_def Let_def indexes_def)
  next
    case False
    then obtain g where "g \<in> set ?gs" "countForGram ti g = 0"
      by (auto simp: hasAllGrams_def list_all_iff)
    then have "matching src keys (termGramKeys ti (toLower trm)) [0..<srcCount src] = []"
      using ti matching_missing [of g] by (auto simp: indexes_def)
    with False gs show ?thesis by (simp add: candidateIDs_def Let_def)
  qed
qed

section \<open>The builds satisfy the promise\<close>

lemma segIndexes_mkSegment:
  assumes "\<forall>t. distinct (keys t)" "s \<le> e"
  shows "segIndexes src keys sel (mkSegment s e (rawSegment src keys sel s e))"
  unfolding segIndexes_def postingForGram_mkSegment
  by (simp add: map_of_rawSegment [OF assms] postingOf_def mkSegment_def)

lemma segPostingCounts_rawSegment:
  assumes "\<forall>t. distinct (keys t)" "s \<le> e"
  shows "countOf (segPostingCounts (mkSegment s e (rawSegment src keys sel s e))) g =
      (if sel g then length (hits src keys g s e) else 0)"
    "distinct (map fst (segPostingCounts (mkSegment s e (rawSegment src keys sel s e))))"
proof -
  let ?raw = "rawSegment src keys sel s e"
  have eq: "segPostingCounts (mkSegment s e ?raw) = map (\<lambda>(g, ids). (g, length ids)) ?raw"
    by (auto simp: segPostingCounts_def mkSegment_def encodeRaw_def zeroPosting_def)
  show "distinct (map fst (segPostingCounts (mkSegment s e ?raw)))"
    using rawSegment_distinct [of src keys sel s e] unfolding eq
    by (simp add: comp_def case_prod_unfold)
  show "countOf (segPostingCounts (mkSegment s e ?raw)) g = (if sel g then length (hits src keys g s e) else 0)"
    unfolding eq countOf_def by (simp add: map_of_map map_of_rawSegment [OF assms])
qed

lemma hits_concat_length:
  "length (filter P (concat xss)) = sum_list (map (\<lambda>xs. length (filter P xs)) xss)"
  by (induction xss) auto

lemma foldl_addCounts:
  assumes "\<forall>ds\<in>set dss. distinct (map fst ds)"
  shows "countOf (foldl addCounts cs dss) g = countOf cs g + sum_list (map (\<lambda>ds. countOf ds g) dss)"
  using assms by (induction dss arbitrary: cs) (auto simp: countOf_addCounts)

lemma foldl_addCounts_distinct:
  "distinct (map fst cs) \<Longrightarrow> distinct (map fst (foldl addCounts cs dss))"
  by (induction dss arbitrary: cs) (auto simp: addCounts_distinct)

lemma hits_total:
  "sum_list (map (\<lambda>(s, e). length (hits src keys g s e)) (trigramBuildChunks n)) =
   length (hits src keys g 0 n)"
proof -
  have "length (hits src keys g 0 n) =
      length (filter (\<lambda>rid. \<not> srcDeleted src rid \<and> g \<in> set (keys (srcText src rid)))
        (concat (map (\<lambda>(s, e). [s..<e]) (trigramBuildChunks n))))"
    by (simp only: chunks_cover hits_def)
  then show ?thesis
    unfolding hits_concat_length by (simp add: hits_def comp_def case_prod_unfold)
qed

lemma distinct_trigramKeys: "distinct (appendUniqueTrigramKeys dst t)"
  by (simp add: appendUniqueTrigramKeys_def appendUniqueFixedGramKeys_eq distinct_uniqueFixedGramKeys)

lemma distinct_nameKeys: "distinct (nameKeys n t)"
  by (simp add: nameKeys_def appendUniqueFixedGramKeysFoldASCII_def Let_def appendKeysLoop_distinct)

lemma foldl_map_arg: "foldl (\<lambda>a x. f a (g x)) z xs = foldl f z (map g xs)"
  by (induction xs arbitrary: z) auto

lemma buildCompactTrigramIndex_indexes:
  "indexes src (appendUniqueTrigramKeys []) (\<lambda>_. True) (buildCompactTrigramIndex src)"
proof (cases "srcCount src = 0")
  case True
  then show ?thesis
    by (simp add: buildCompactTrigramIndex_def newIndex_def indexes_def countForGram_def countOf_def hits_def)
next
  case False
  let ?keys = "appendUniqueTrigramKeys []"
  let ?ch = "trigramBuildChunks (srcCount src)"
  let ?mk = "\<lambda>(s, e). buildCompactTrigramSegment src s e"
  have seg: "?mk (s, e) = mkSegment s e (rawSegment src ?keys (\<lambda>_. True) s e)" for s e
    by (simp add: buildCompactTrigramSegment_def)
  have keep: "filter keepSegment (map ?mk ?ch) = map ?mk ?ch"
    by (auto simp: filter_id_conv keepSegment_def buildCompactTrigramSegment_def mkSegment_def
          dest: chunks_valid)
  have le: "s \<le> e" if "(s, e) \<in> set ?ch" for s e using chunks_valid [OF that] by simp
  let ?dss = "map (\<lambda>seg. segPostingCounts seg) (map ?mk ?ch)"
  have d: "\<forall>ds\<in>set ?dss. distinct (map fst ds)"
    using segPostingCounts_rawSegment(2) [of ?keys] distinct_trigramKeys le
    by (auto simp: buildCompactTrigramSegment_def)
  have "map (\<lambda>ds. countOf ds g) ?dss = map (\<lambda>(s, e). length (hits src ?keys g s e)) ?ch" for g
    using segPostingCounts_rawSegment(1) [of ?keys] distinct_trigramKeys le
    by (auto simp: buildCompactTrigramSegment_def)
  then have "countOf (foldl addCounts [] ?dss) g = length (hits src ?keys g 0 (srcCount src))" for g
    by (simp only: foldl_addCounts [OF d] hits_total) (simp add: countOf_def)
  then have cnt: "countOf (foldl (\<lambda>cs seg. addCounts cs (segPostingCounts seg)) [] (map ?mk ?ch)) g =
      length (hits src ?keys g 0 (srcCount src))" for g
    by (simp only: foldl_map_arg)
  have "segIndexes src ?keys (\<lambda>_. True) (?mk (s, e))" if "(s, e) \<in> set ?ch" for s e
    unfolding seg using segIndexes_mkSegment distinct_trigramKeys le [OF that] by blast
  moreover have "map (\<lambda>seg. [segStart seg..<segEnd seg]) (map ?mk ?ch) = map (\<lambda>(s, e). [s..<e]) ?ch"
    by (auto simp: buildCompactTrigramSegment_def mkSegment_def)
  ultimately show ?thesis
    using False cnt chunks_cover [of "srcCount src"]
    by (auto simp: indexes_def buildCompactTrigramIndex_def newIndex_def countForGram_def Let_def keep
          simp del: map_map)
qed

section \<open>The low-memory layout\<close>

lemma sorted_keys_search:
  fixes ks :: "u32 list"
  assumes "distinct ks"
  defines "i \<equiv> \<lambda>g. sortSearch (length (sort ks)) (\<lambda>k. sort ks ! k \<ge> g)"
  shows "(i g < length (sort ks) \<and> sort ks ! i g = g) \<longleftrightarrow> g \<in> set ks"
proof -
  have "sorted_wrt (<) (sort ks)" using assms(1) by (simp add: strict_sorted_iff)
  from sortSearch_mem [OF this, of g] show ?thesis by (simp add: i_def)
qed

lemma countForGram_compact:
  assumes "counts ti = Some cs" "distinct (map fst cs)"
  shows "countForGram (compactForLowMemory ti) g = countForGram ti g"
proof (cases "g \<in> fst ` set cs")
  case True
  with assms(1) sorted_keys_search [OF assms(2), of g] show ?thesis
    by (auto simp: countForGram_def compactForLowMemory_def Let_def)
next
  case False
  then have "map_of cs g = None" by (simp add: map_of_eq_None_iff)
  with assms(1) sorted_keys_search [OF assms(2), of g] False show ?thesis
    by (auto simp: countForGram_def compactForLowMemory_def Let_def countOf_def)
qed

lemma postingForGram_compact:
  assumes "postings seg = Some ps" "distinct (map fst ps)" "flatPostings seg = []"
  shows "postingForGram (compactSegment seg) g = postingForGram seg g"
proof (cases "g \<in> fst ` set ps")
  case True
  then have "sort (map fst ps) \<noteq> []" by (metis empty_iff image_is_empty list.set(1) list.set_map set_sort)
  with True assms(1,3) sorted_keys_search [OF assms(2), of g] show ?thesis
    by (auto simp: postingForGram_def compactSegment_def Let_def)
next
  case False
  then have "map_of ps g = None" by (simp add: map_of_eq_None_iff)
  with assms(1,3) sorted_keys_search [OF assms(2), of g] False show ?thesis
    by (auto simp: postingForGram_def compactSegment_def Let_def)
qed

lemma compactSegment_range [simp]:
  "segStart (compactSegment seg) = segStart seg" "segEnd (compactSegment seg) = segEnd seg"
  by (simp_all add: compactSegment_def Let_def split: option.splits)

lemma mkSegment_layout:
  "flatPostings (mkSegment s e raw) = []" "postings (mkSegment s e raw) = Some (encodeRaw raw)"
  "segStart (mkSegment s e raw) = s" "segEnd (mkSegment s e raw) = e"
  "distinct (map fst raw) \<Longrightarrow> distinct (map fst (encodeRaw raw))"
  by (simp_all add: mkSegment_def encodeRaw_def comp_def case_prod_unfold)

section \<open>The selective build\<close>

lemma hasStoredPosting_omitted [simp]:
  "mappedGrams ti = None \<Longrightarrow> hasStoredPosting (ti\<lparr>omitted := om\<rparr>) g = hasStoredPosting ti g"
  by (simp add: hasStoredPosting_def)

lemma foldl_markOmitted:
  assumes "mappedGrams ti = None"
  shows "\<exists>om. foldl (\<lambda>ti (gram, n).
             if n > maxCount \<and> \<not> hasStoredPosting ti gram
             then ti\<lparr>omitted := (if gram \<in> set (omitted ti) then omitted ti else omitted ti @ [gram])\<rparr>
             else ti) ti ps = ti\<lparr>omitted := om\<rparr> \<and>
    set om = set (omitted ti) \<union> {g. \<exists>n. (g, n) \<in> set ps \<and> n > maxCount \<and> \<not> hasStoredPosting ti g}"
  using assms
proof (induction ps arbitrary: ti)
  case Nil
  show ?case by (intro exI [of _ "omitted ti"]) simp
next
  case (Cons p ps)
  obtain g n where p: "p = (g, n)" by fastforce
  let ?om = "if n > maxCount \<and> \<not> hasStoredPosting ti g
             then (if g \<in> set (omitted ti) then omitted ti else omitted ti @ [g]) else omitted ti"
  have "mappedGrams (ti\<lparr>omitted := ?om\<rparr>) = None" using Cons.prems by simp
  from Cons.IH [OF this] obtain om where om: "foldl (\<lambda>ti (gram, n).
             if n > maxCount \<and> \<not> hasStoredPosting ti gram
             then ti\<lparr>omitted := (if gram \<in> set (omitted ti) then omitted ti else omitted ti @ [gram])\<rparr>
             else ti) (ti\<lparr>omitted := ?om\<rparr>) ps = ti\<lparr>omitted := om\<rparr>"
    "set om = set ?om \<union> {g. \<exists>n. (g, n) \<in> set ps \<and> n > maxCount \<and> \<not> hasStoredPosting ti g}"
    using Cons.prems by auto
  have step: "(if n > maxCount \<and> \<not> hasStoredPosting ti g
             then ti\<lparr>omitted := (if g \<in> set (omitted ti) then omitted ti else omitted ti @ [g])\<rparr>
             else ti) = ti\<lparr>omitted := ?om\<rparr>" by auto
  show ?case
    unfolding p using om step by (intro exI [of _ om]) (auto split: if_splits)
qed

lemma foldl_both:
  "foldl (\<lambda>(stored, omittedRaw) gram.
       if over gram then (stored, mapUpd gram (addId rid) omittedRaw)
       else (mapUpd gram (addId rid) stored, omittedRaw)) (a, b) gs =
   (foldl (\<lambda>raw gram. if \<not> over gram then mapUpd gram (addId rid) raw else raw) a gs,
    foldl (\<lambda>raw gram. if over gram then mapUpd gram (addId rid) raw else raw) b gs)"
  by (induction gs arbitrary: a b) auto

lemma buildBoth_eq:
  "buildSelectiveCompactNameGramSegmentsBoth src s e n cs maxCount =
     (mkSegment s e (rawSegment src (nameKeys n) (\<lambda>g. \<not> countOf cs g > maxCount) s e),
      mkSegment s e (rawSegment src (nameKeys n) (\<lambda>g. countOf cs g > maxCount) s e))"
proof -
  have "foldl (bothRecord src n over) (a, b) rids =
      (foldl (rawRecord src (nameKeys n) (\<lambda>g. \<not> over g)) a rids,
       foldl (rawRecord src (nameKeys n) over) b rids)" for over a b rids
    by (induction rids arbitrary: a b) (auto simp: bothRecord_def rawRecord_def foldl_both)
  then show ?thesis
    by (simp add: buildSelectiveCompactNameGramSegmentsBoth_def rawSegment_def)
qed

text \<open>The promise of a selective index: exact counts for all grams, exact postings for the grams
  at most \<open>maxCount\<close> records have, and the others marked as omitted.\<close>

definition selects :: "gramSource \<Rightarrow> (string \<Rightarrow> u32 list) \<Rightarrow> nat \<Rightarrow> u32 \<Rightarrow> bool" where
  "selects src keys maxCount g \<longleftrightarrow> \<not> length (hits src keys g 0 (srcCount src)) > maxCount"

definition selective ::
    "gramSource \<Rightarrow> (string \<Rightarrow> u32 list) \<Rightarrow> nat \<Rightarrow> compressedTrigramIndex \<Rightarrow> bool" where
  "selective src keys maxCount ti \<longleftrightarrow>
     indexes src keys (selects src keys maxCount) ti \<and>
     (\<forall>g. isOmittedGram ti g \<longleftrightarrow> \<not> selects src keys maxCount g)"

lemma stored_iff:
  assumes "indexes src keys sel ti"
  shows "hasStoredPosting ti g \<longleftrightarrow> sel g \<and> hits src keys g 0 (srcCount src) \<noteq> []"
proof -
  have cov: "concat (map (\<lambda>seg. [segStart seg..<segEnd seg]) (segments ti)) = [0..<srcCount src]"
    and seg: "\<forall>seg\<in>set (segments ti). segIndexes src keys sel seg" and none: "mappedGrams ti = None"
    using assms by (auto simp: indexes_def)
  have "hits src keys g 0 (srcCount src) \<noteq> [] \<longleftrightarrow>
      (\<exists>seg\<in>set (segments ti). hits src keys g (segStart seg) (segEnd seg) \<noteq> [])"
    unfolding hits_def cov [symmetric] by (auto simp: filter_empty_conv)
  moreover have "count zeroPosting = 0" by (simp add: zeroPosting_def)
  ultimately show ?thesis
    using seg none by (auto simp: hasStoredPosting_def list_ex_iff segIndexes_def split: if_splits)
qed

lemma selective_mark:
  assumes ix: "indexes src keys (selects src keys maxCount) ti"
    and cs: "counts ti = Some cs" "distinct (map fst cs)" and om: "omitted ti = []" and m: "0 < maxCount"
  shows "selective src keys maxCount (markOmittedPostings ti maxCount) \<and>
    (\<exists>om. markOmittedPostings ti maxCount = ti\<lparr>omitted := om\<rparr>)"
proof -
  have none: "mappedGrams ti = None" using ix by (simp add: indexes_def)
  from foldl_markOmitted [OF none, of maxCount cs] obtain om where
    eq: "markOmittedPostings ti maxCount = ti\<lparr>omitted := om\<rparr>" and
    set: "set om = {g. \<exists>n. (g, n) \<in> set cs \<and> n > maxCount \<and> \<not> hasStoredPosting ti g}"
    using cs(1) om m by (auto simp: markOmittedPostings_def countPairs_def)
  have cnt: "countOf cs g = length (hits src keys g 0 (srcCount src))" for g
    using ix cs(1) by (simp add: indexes_def countForGram_def)
  have "g \<in> set om \<longleftrightarrow> \<not> selects src keys maxCount g" for g
  proof -
    have "(g, n) \<in> set cs \<longleftrightarrow> map_of cs g = Some n" for n
      using cs(2) by (simp add: map_of_eq_Some_iff)
    then have "g \<in> set om \<longleftrightarrow> (\<exists>n. map_of cs g = Some n \<and> n > maxCount) \<and> \<not> hasStoredPosting ti g"
      using set by auto
    also have "(\<exists>n. map_of cs g = Some n \<and> n > maxCount) \<longleftrightarrow> countOf cs g > maxCount"
      using m by (auto simp: countOf_def split: option.splits)
    also have "(countOf cs g > maxCount \<and> \<not> hasStoredPosting ti g) \<longleftrightarrow> \<not> selects src keys maxCount g"
      using stored_iff [OF ix] by (auto simp: cnt selects_def)
    finally show ?thesis .
  qed
  moreover have "countForGram (ti\<lparr>omitted := om\<rparr>) = countForGram ti"
    using cs(1) by (simp add: fun_eq_iff countForGram_def)
  ultimately show ?thesis
    using ix by (auto simp: eq selective_def isOmittedGram_def indexes_def)
qed

lemma selective_compact:
  assumes sel: "selective src keys maxCount ti" and cs: "counts ti = Some cs" "distinct (map fst cs)"
    and segs: "\<forall>seg\<in>set (segments ti). flatPostings seg = [] \<and>
      (\<exists>ps. postings seg = Some ps \<and> distinct (map fst ps))"
  shows "selective src keys maxCount (compactForLowMemory ti)"
proof -
  have s: "segments (compactForLowMemory ti) = map compactSegment (segments ti)"
    "mappedGrams (compactForLowMemory ti) = mappedGrams ti"
    "gramCountsComplete (compactForLowMemory ti) = gramCountsComplete ti"
    "omitted (compactForLowMemory ti) = omitted ti"
    using cs by (simp_all add: compactForLowMemory_def Let_def)
  have "segIndexes src keys f (compactSegment seg)" if "seg \<in> set (segments ti)" "segIndexes src keys f seg" for seg f
  proof -
    from segs that(1) obtain ps where "postings seg = Some ps" "distinct (map fst ps)" "flatPostings seg = []"
      by auto
    from postingForGram_compact [OF this] that(2) show ?thesis by (simp add: segIndexes_def)
  qed
  then show ?thesis
    using sel countForGram_compact [OF cs] s
    by (auto simp: selective_def indexes_def isOmittedGram_def comp_def)
qed

lemma map_both_fst:
  "map fst (map (\<lambda>(s, e). if w then buildSelectiveCompactNameGramSegmentsBoth src s e n cs m
                   else (buildSelectiveCompactNameGramSegment src s e n cs m, mkSegment 0 0 [])) chunks) =
   map (\<lambda>(s, e). mkSegment s e (rawSegment src (nameKeys n) (\<lambda>g. \<not> countOf cs g > m) s e)) chunks"
  by (auto simp: buildBoth_eq buildSelectiveCompactNameGramSegment_def)

lemma chunk_counts:
  fixes src
  assumes "\<forall>t. distinct (keys t)"
  defines "cs \<equiv> foldl (\<lambda>cs (s, e). addCounts cs (countSegment src keys s e)) [] (trigramBuildChunks (srcCount src))"
  shows "countOf cs g = length (hits src keys g 0 (srcCount src))" "distinct (map fst cs)"
proof -
  let ?dss = "map (\<lambda>(s, e). countSegment src keys s e) (trigramBuildChunks (srcCount src))"
  have "cs = foldl addCounts [] ?dss"
    unfolding cs_def by (simp add: foldl_map case_prod_unfold)
  moreover have "\<forall>ds\<in>set ?dss. distinct (map fst ds)" by (auto simp: countSegment_distinct)
  moreover have "map (\<lambda>ds. countOf ds g) ?dss =
      map (\<lambda>(s, e). length (hits src keys g s e)) (trigramBuildChunks (srcCount src))"
    by (auto simp: countSegment_hits [OF assms(1)] dest!: chunks_valid)
  ultimately show "countOf cs g = length (hits src keys g 0 (srcCount src))"
    using foldl_addCounts [of ?dss "[]" g] hits_total [of src keys g "srcCount src"]
    by (simp add: countOf_def del: map_map)
  show "distinct (map fst cs)"
    using \<open>cs = _\<close> foldl_addCounts_distinct [of "[]"] by simp
qed

lemma raw_segments_indexes:
  assumes keys: "\<forall>t. distinct (keys t)"
    and segs: "segments ti = map (\<lambda>(s, e). mkSegment s e (rawSegment src keys sel s e)) (trigramBuildChunks (srcCount src))"
    and cnt: "\<And>g. countForGram ti g = length (hits src keys g 0 (srcCount src))"
    and "mappedGrams ti = None" "gramCountsComplete ti"
  shows "indexes src keys sel ti"
proof -
  have "segIndexes src keys sel seg" if "seg \<in> set (segments ti)" for seg
    using that segIndexes_mkSegment [OF keys] unfolding segs by (auto dest!: chunks_valid)
  moreover have "map (\<lambda>seg. [segStart seg..<segEnd seg]) (segments ti) =
      map (\<lambda>(s, e). [s..<e]) (trigramBuildChunks (srcCount src))"
    unfolding segs by (auto simp: mkSegment_layout)
  ultimately show ?thesis using assms(3-5) chunks_cover by (simp add: indexes_def)
qed

lemma keep_chunks:
  "filter keepSegment (map (\<lambda>(s, e). mkSegment s e (f s e)) (trigramBuildChunks n)) =
   map (\<lambda>(s, e). mkSegment s e (f s e)) (trigramBuildChunks n)"
  by (auto simp: filter_id_conv keepSegment_def mkSegment_def dest!: chunks_valid)

lemma internal_selective:
  assumes "0 < maxCount"
  shows "selective src (nameKeys n) maxCount
    (fst (buildSelectiveCompactNameGramIndexInternal lowMemory src n maxCount want))"
proof (cases "srcCount src = 0")
  case True
  then show ?thesis
    by (simp add: buildSelectiveCompactNameGramIndexInternal_def newIndex_def selective_def indexes_def
          isOmittedGram_def selects_def countForGram_def countOf_def hits_def)
next
  case False
  let ?ch = "trigramBuildChunks (srcCount src)"
  let ?cs = "foldl (\<lambda>cs (s, e). addCounts cs (countSegment src (nameKeys n) s e)) [] ?ch"
  have keys: "\<forall>t. distinct (nameKeys n t)" by (simp add: distinct_nameKeys)
  note cs = chunk_counts [OF keys, of src]
  let ?raw = "rawSegment src (nameKeys n) (\<lambda>g. \<not> countOf ?cs g > maxCount)"
  let ?segs = "map (\<lambda>(s, e). mkSegment s e (?raw s e)) ?ch"
  let ?ti1 = "(newIndex n (srcCount src))\<lparr>counts := Some ?cs, segments := ?segs,
      postingBytes := sum_list (map segBytes ?segs)\<rparr>"
  let ?ti2 = "markOmittedPostings ?ti1 maxCount"
  have res: "fst (buildSelectiveCompactNameGramIndexInternal lowMemory src n maxCount want) =
      (if lowMemory then compactForLowMemory ?ti2 else ?ti2)"
    using False assms
    by (simp add: buildSelectiveCompactNameGramIndexInternal_def countCompactNameGramSegment_def Let_def
          map_both_fst keep_chunks del: map_map)
  have sel: "selects src (nameKeys n) maxCount = (\<lambda>g. \<not> countOf ?cs g > maxCount)"
    by (simp add: fun_eq_iff selects_def cs(1))
  have "indexes src (nameKeys n) (selects src (nameKeys n) maxCount) ?ti1"
    unfolding sel by (rule raw_segments_indexes [OF keys]) (simp_all add: newIndex_def countForGram_def cs(1))
  from selective_mark [OF this _ cs(2) _ assms]
  have mark: "selective src (nameKeys n) maxCount ?ti2" "\<exists>om. ?ti2 = ?ti1\<lparr>omitted := om\<rparr>"
    by (simp_all add: newIndex_def)
  then have "selective src (nameKeys n) maxCount (compactForLowMemory ?ti2)"
    using cs(2)
    by (intro selective_compact) (auto simp: mkSegment_layout rawSegment_distinct)
  with mark(1) res show ?thesis by simp
qed

lemma internal_gramSize:
  "gramSize (fst (buildSelectiveCompactNameGramIndexInternal lowMemory src n maxCount want)) = n"
proof -
  have "gramSize (compactForLowMemory t) = gramSize t" for t
    by (simp add: compactForLowMemory_def Let_def split: option.splits)
  moreover have "gramSize (markOmittedPostings t m) = gramSize t" if "mappedGrams t = None" for t m
    using foldl_markOmitted [OF that, of m "countPairs t"] by (auto simp: markOmittedPostings_def)
  ultimately show ?thesis
    by (simp add: buildSelectiveCompactNameGramIndexInternal_def newIndex_def Let_def)
qed

section \<open>Lookups in a selective index\<close>

lemma intersectScan_None:
  "intersectScan ti gs = None \<Longrightarrow> \<forall>g\<in>set gs. countForGram ti g \<noteq> 0 \<and> \<not> isOmittedGram ti g"
  by (induction gs) (auto split: if_splits)

lemma intersectScan_Some:
  "intersectScan ti gs = Some (ids, True, b) \<Longrightarrow>
   ids = [] \<and> gramCountsComplete ti \<and> (\<exists>g\<in>set gs. countForGram ti g = 0)"
  by (induction gs) (auto split: if_splits)

lemma collectSegments_True:
  "collectSegments segs stored maxIDs out = (ids, True, b) \<Longrightarrow>
   ids = out @ concat (map (\<lambda>seg. uint32sToInts (segmentCandidateIDs seg stored)) segs)"
proof (induction segs arbitrary: out)
  case (Cons seg segs)
  let ?ids = "segmentCandidateIDs seg stored"
  show ?case
  proof (cases "?ids = []")
    case True
    with Cons show ?thesis by (simp add: Let_def uint32sToInts_def)
  next
    case False
    then have "collectSegments segs stored maxIDs (out @ uint32sToInts ?ids) = (ids, True, b)"
      using Cons.prems by (auto simp: Let_def split: if_splits)
    from Cons.IH [OF this] show ?thesis by simp
  qed
qed simp

lemma selectiveIntersect_exact:
  assumes sel: "selective src keys maxCount ti" and bound: "srcCount src \<le> 2 ^ 32"
    and res: "selectiveIntersectCandidateIDs toLower ti trm maxIDs = (ids, True, b)"
  shows "ids = map int (matching src keys (termGramKeys ti (toLower trm)) [0..<srcCount src])"
proof -
  let ?gs = "termGramKeys ti (toLower trm)"
  have ix: "indexes src keys (selects src keys maxCount) ti"
    and om: "isOmittedGram ti g \<longleftrightarrow> \<not> selects src keys maxCount g" for g
    using sel by (auto simp: selective_def)
  have ne: "?gs \<noteq> []" using res by (auto simp: selectiveIntersectCandidateIDs_def Let_def)
  show ?thesis
  proof (cases "intersectScan ti ?gs")
    case (Some r)
    then have "intersectScan ti ?gs = Some (ids, True, b)"
      using res ne by (simp add: selectiveIntersectCandidateIDs_def Let_def)
    from intersectScan_Some [OF this] obtain g where "ids = []" "g \<in> set ?gs" "countForGram ti g = 0"
      by auto
    with ix matching_missing [of g] show ?thesis by (auto simp: indexes_def)
  next
    case None
    note ok = intersectScan_None [OF None]
    have "filter (hasStoredPosting ti) ?gs = ?gs"
      using ok om stored_iff [OF ix] ix by (auto simp: filter_id_conv indexes_def)
    moreover have "mappedGrams ti = None" using ix by (simp add: indexes_def)
    ultimately have "collectSegments (segments ti) (sort_key (countForGram ti) ?gs) maxIDs [] = (ids, True, b)"
      using res ne None by (auto simp: selectiveIntersectCandidateIDs_def Let_def split: if_splits)
    from collectSegments_True [OF this]
    have "ids = concat (map (\<lambda>seg. uint32sToInts (segmentCandidateIDs seg (sort_key (countForGram ti) ?gs))) (segments ti))"
      by simp
    also have "\<dots> = map int (matching src keys (sort_key (countForGram ti) ?gs) [0..<srcCount src])"
      using ne ok om by (intro segments_concat [OF ix _ _ bound]) (auto, metis length_0_conv length_sort)
    also have "\<dots> = map int (matching src keys ?gs [0..<srcCount src])"
      by (subst matching_set_cong [of _ ?gs]) simp_all
    finally show ?thesis .
  qed
qed

lemma hits_concat:
  "concat (map (\<lambda>xs. filter P xs) xss) = filter P (concat xss)"
  by (induction xss) auto

lemma segment_hits:
  assumes "segIndexes src keys sel seg" "sel g"
  shows "(if count (postingForGram seg g) = 0 then [] else segmentIds seg g) =
    map of_nat (hits src keys g (segStart seg) (segEnd seg))"
  using assms by (simp add: segIndexes_def segmentIds_def Let_def postingOf_decode)

lemma segments_hits:
  assumes "indexes src keys sel ti" "sel g"
  shows "concat (map (\<lambda>seg. if count (postingForGram seg g) = 0 then [] else segmentIds seg g) (segments ti)) =
    map of_nat (hits src keys g 0 (srcCount src))"
proof -
  have cov: "concat (map (\<lambda>seg. [segStart seg..<segEnd seg]) (segments ti)) = [0..<srcCount src]"
    and seg: "\<forall>seg\<in>set (segments ti). segIndexes src keys sel seg"
    using assms(1) by (auto simp: indexes_def)
  have "map (\<lambda>seg. if count (postingForGram seg g) = 0 then [] else segmentIds seg g) (segments ti) =
      map (\<lambda>seg. map of_nat (hits src keys g (segStart seg) (segEnd seg))) (segments ti)"
    using seg by (intro map_cong refl segment_hits [where sel = sel]) (simp_all add: assms(2))
  then have "concat (map (\<lambda>seg. if count (postingForGram seg g) = 0 then [] else segmentIds seg g) (segments ti)) =
      map of_nat (concat (map (\<lambda>seg. hits src keys g (segStart seg) (segEnd seg)) (segments ti)))"
    by (simp only: map_concat map_map comp_def)
  also have "concat (map (\<lambda>seg. hits src keys g (segStart seg) (segEnd seg)) (segments ti)) =
      hits src keys g 0 (srcCount src)"
    unfolding hits_def cov [symmetric] hits_concat [symmetric] by (simp add: comp_def)
  finally show ?thesis .
qed

lemma idsForGram_exact:
  assumes "indexes src keys sel ti" "sel g"
  shows "idsForGram ti g = map of_nat (hits src keys g 0 (srcCount src))"
  using segments_hits [OF assms] assms(1) by (simp add: idsForGram_def indexes_def)

lemma selectiveScan_Some:
  "selectiveScan ti maxIDs gs missing filtered = Some (miss, flt) \<Longrightarrow>
   (miss \<longrightarrow> missing \<or> (\<exists>g\<in>set gs. countForGram ti g = 0)) \<and>
   (\<forall>g\<in>set flt. g \<in> set filtered \<or> g \<in> set gs \<and> \<not> isOmittedGram ti g)"
proof (induction gs arbitrary: missing filtered)
  case (Cons g gs)
  consider "countForGram ti g = 0" | "countForGram ti g \<noteq> 0" "maxIDs \<le> 0 \<or> int (countForGram ti g) \<le> maxIDs"
    | "countForGram ti g \<noteq> 0" "\<not> (maxIDs \<le> 0 \<or> int (countForGram ti g) \<le> maxIDs)" by blast
  then show ?case
  proof cases
    case 1
    with Cons.IH [of True filtered] Cons.prems show ?thesis by (auto simp: Let_def split: if_splits)
  next
    case 2
    with Cons.IH [of missing "filtered @ [g]"] Cons.prems show ?thesis
      by (auto simp: Let_def split: if_splits)
  next
    case 3
    with Cons.IH [of missing filtered] Cons.prems show ?thesis by (auto simp: Let_def split: if_splits)
  qed
qed simp

lemma selectiveCandidates_superset:
  assumes sel: "selective src keys maxCount ti" and bound: "srcCount src \<le> 2 ^ 32"
    and res: "selectiveCandidateIDs toLower ti trm maxIDs = (ids, True, b)"
  shows "int ` set (matching src keys (termGramKeys ti (toLower trm)) [0..<srcCount src]) \<subseteq> set ids"
proof -
  let ?gs = "termGramKeys ti (toLower trm)"
  have ix: "indexes src keys (selects src keys maxCount) ti"
    and om: "isOmittedGram ti g \<longleftrightarrow> \<not> selects src keys maxCount g" for g
    using sel by (auto simp: selective_def)
  from res obtain miss flt where scan: "selectiveScan ti maxIDs ?gs False [] = Some (miss, flt)"
    by (auto simp: selectiveCandidateIDs_def Let_def split: if_splits option.splits)
  show ?thesis
  proof (cases miss)
    case True
    with selectiveScan_Some [OF scan] obtain g where "g \<in> set ?gs" "countForGram ti g = 0" by auto
    with ix matching_missing [of g] show ?thesis by (auto simp: indexes_def)
  next
    case False
    let ?g = "hd (sort_key (countForGram ti) flt)"
    have ne: "flt \<noteq> []" and ids: "ids = uint32sToInts (idsForGram ti ?g)"
      using res scan False by (auto simp: selectiveCandidateIDs_def Let_def split: if_splits)
    have "?g \<in> set flt" using ne by (metis hd_in_set length_0_conv length_sort set_sort)
    then have g: "?g \<in> set ?gs" "selects src keys maxCount ?g"
      using selectiveScan_Some [OF scan] om by auto
    have "\<forall>r\<in>set (hits src keys ?g 0 (srcCount src)). r < 2 ^ 32" using bound by (auto simp: hits_def)
    then have "ids = map int (hits src keys ?g 0 (srcCount src))"
      using ids idsForGram_exact [OF ix g(2)] uint_of_nat by metis
    with g(1) show ?thesis by (auto simp: matching_def hits_def)
  qed
qed

section \<open>The companion\<close>

lemma concat_map_filter_empty:
  "\<forall>x\<in>set xs. \<not> P x \<longrightarrow> f x = [] \<Longrightarrow> concat (map f (filter P xs)) = concat (map f xs)"
  by (induction xs) auto

lemma sum_map_filter_zero:
  "\<forall>x\<in>set xs. \<not> P x \<longrightarrow> f x = (0 :: nat) \<Longrightarrow> sum_list (map f (filter P xs)) = sum_list (map f xs)"
  by (induction xs) auto

lemma companion_exact:
  assumes "0 < maxCount" "length (hits src (nameKeys n) g 0 (srcCount src)) > maxCount"
  shows "\<exists>c. snd (buildSelectiveCompactNameGramIndexInternal lowMemory src n maxCount True) = Some c \<and>
    idsForGram c g = map of_nat (hits src (nameKeys n) g 0 (srcCount src))"
proof -
  let ?ch = "trigramBuildChunks (srcCount src)"
  let ?keys = "nameKeys n"
  let ?cs = "foldl (\<lambda>cs (s, e). addCounts cs (countSegment src ?keys s e)) [] ?ch"
  have keys: "\<forall>t. distinct (?keys t)" by (simp add: distinct_nameKeys)
  note cs = chunk_counts [OF keys, of src]
  let ?over = "\<lambda>g. countOf ?cs g > maxCount"
  let ?segs = "map (\<lambda>(s, e). mkSegment s e (rawSegment src ?keys ?over s e)) ?ch"
  let ?P = "\<lambda>seg. keepSegment seg \<and> hasPostings seg"
  let ?os = "filter ?P ?segs"
  have n0: "srcCount src \<noteq> 0"
  proof
    assume "srcCount src = 0"
    then have "hits src ?keys g 0 (srcCount src) = []" by (simp add: hits_def)
    with assms(2) show False by simp
  qed
  have "map snd (map (\<lambda>(s, e). buildSelectiveCompactNameGramSegmentsBoth src s e n ?cs maxCount) ?ch) = ?segs"
    by (auto simp: buildBoth_eq)
  then have comp: "snd (buildSelectiveCompactNameGramIndexInternal lowMemory src n maxCount True) =
      companionFromOmittedSegments ?os (srcCount src) n"
    using n0 assms(1)
    by (simp add: buildSelectiveCompactNameGramIndexInternal_def countCompactNameGramSegment_def Let_def
          del: map_map)
  have over: "?over g" using assms(2) by (simp add: cs(1))
  have seg: "segIndexes src ?keys ?over seg" if "seg \<in> set ?segs" for seg
    using that segIndexes_mkSegment [OF keys] by (auto dest!: chunks_valid)
  have dropped: "hits src ?keys g (segStart seg) (segEnd seg) = []" if "seg \<in> set ?segs" "\<not> ?P seg" for seg
  proof -
    from that(1) obtain s e where se: "(s, e) \<in> set ?ch" "seg = mkSegment s e (rawSegment src ?keys ?over s e)"
      by auto
    with chunks_valid [OF se(1)] that(2) have "rawSegment src ?keys ?over s e = []"
      by (auto simp: keepSegment_def hasPostings_def mkSegment_def encodeRaw_def)
    with map_of_rawSegment [OF keys, of s e src ?over g] chunks_valid [OF se(1)] over se(2) show ?thesis
      by (auto simp: mkSegment_layout split: if_splits)
  qed
  have dist: "\<forall>ds\<in>set (map segPostingCounts ?os). distinct (map fst ds)"
    using segPostingCounts_rawSegment(2) [OF keys] by (auto dest!: chunks_valid)
  have cseg: "countOf (segPostingCounts seg) g = length (hits src ?keys g (segStart seg) (segEnd seg))"
    if "seg \<in> set ?segs" for seg
    using that segPostingCounts_rawSegment(1) [OF keys] over
    by (auto simp: mkSegment_layout dest!: chunks_valid)
  let ?fold = "foldl addCounts [] (map segPostingCounts ?os)"
  have "countOf ?fold g = sum_list (map (\<lambda>seg. countOf (segPostingCounts seg) g) ?os)"
    unfolding foldl_addCounts [OF dist] by (simp add: countOf_def comp_def)
  also have "\<dots> = sum_list (map (\<lambda>seg. countOf (segPostingCounts seg) g) ?segs)"
    using cseg dropped by (intro sum_map_filter_zero) auto
  also have "\<dots> = sum_list (map (\<lambda>(s, e). length (hits src ?keys g s e)) ?ch)"
    using cseg by (intro arg_cong [where f = sum_list]) (auto simp: mkSegment_layout)
  finally have cnt: "countOf ?fold g = length (hits src ?keys g 0 (srcCount src))"
    by (simp only: hits_total)
  have "?fold \<noteq> []" using cnt assms(2) by (auto simp: countOf_def)
  moreover have "?os \<noteq> []" using cnt assms(2) by (auto simp: countOf_def)
  ultimately have some: "companionFromOmittedSegments ?os (srcCount src) n =
      Some ((newIndex n (srcCount src))\<lparr>segments := ?os, counts := Some ?fold, postingBytes := sum_list (map segBytes ?os)\<rparr>)"
    by (simp add: companionFromOmittedSegments_def Let_def foldl_map_arg)
  have sg: "(if count (postingForGram seg g) = 0 then [] else segmentIds seg g) =
      map of_nat (hits src ?keys g (segStart seg) (segEnd seg))" if "seg \<in> set ?segs" for seg
    using segment_hits [OF seg [OF that], of g] over by simp
  have "concat (map (\<lambda>seg. if count (postingForGram seg g) = 0 then [] else segmentIds seg g) ?os) =
      concat (map (\<lambda>seg. if count (postingForGram seg g) = 0 then [] else segmentIds seg g) ?segs)"
    using sg dropped by (intro concat_map_filter_empty) auto
  also have "\<dots> = concat (map (\<lambda>seg. map of_nat (hits src ?keys g (segStart seg) (segEnd seg))) ?segs)"
    using sg by (intro arg_cong [where f = concat] map_cong) auto
  also have "\<dots> = map of_nat (concat (map (\<lambda>(s, e). hits src ?keys g s e) ?ch))"
    by (simp add: map_concat comp_def mkSegment_layout case_prod_unfold)
  also have "concat (map (\<lambda>(s, e). hits src ?keys g s e) ?ch) = hits src ?keys g 0 (srcCount src)"
    unfolding hits_def chunks_cover [symmetric] hits_concat [symmetric]
    by (simp add: comp_def case_prod_unfold)
  finally show ?thesis
    using comp some cnt assms(2) by (auto simp: idsForGram_def countForGram_def newIndex_def)
qed

section \<open>Properties\<close>

text \<open>
  C4: The full gram index answers exactly: for a term with at least one gram, the candidates are
  precisely the live records, in increasing order, whose indexed text has every gram of the
  lower-cased term; chunking, compression and the selectivity ordering of the intersection do
  not change the answer. In particular a live record whose text contains the term is returned.
\<close>

theorem candidateIDs_exact:
  assumes "srcCount src \<le> 2 ^ 32" "length (toLower trm) \<ge> 3"
  defines "gs \<equiv> set (uniqueFixedGramKeys (toLower trm) 3)"
  shows "candidateIDs toLower (buildCompactTrigramIndex src) trm =
      (map int (filter (\<lambda>rid. \<not> srcDeleted src rid \<and> gs \<subseteq> set (uniqueFixedGramKeys (srcText src rid) 3))
        [0..<srcCount src]), True) \<and>
    (\<forall>rid < srcCount src. \<not> srcDeleted src rid \<and> sublist (toLower trm) (srcText src rid) \<longrightarrow>
       int rid \<in> set (fst (candidateIDs toLower (buildCompactTrigramIndex src) trm)))"
proof -
  let ?ti = "buildCompactTrigramIndex src"
  have "gramSize ?ti = 3" by (simp add: buildCompactTrigramIndex_def newIndex_def Let_def)
  then have keys: "termGramKeys ?ti (toLower trm) = uniqueFixedGramKeys (toLower trm) 3"
    by (simp add: termGramKeys_def)
  have "fixedGramKey (toLower trm) 0 3 \<in> gramsOf 3 (toLower trm)"
    using assms(2) by (auto simp: gramsOf_def)
  then have "set (uniqueFixedGramKeys (toLower trm) 3) \<noteq> {}" by (auto simp: set_uniqueFixedGramKeys)
  then have ne: "termGramKeys ?ti (toLower trm) \<noteq> []" by (auto simp: keys)
  have eq: "candidateIDs toLower ?ti trm =
      (map int (filter (\<lambda>rid. \<not> srcDeleted src rid \<and> gs \<subseteq> set (uniqueFixedGramKeys (srcText src rid) 3))
        [0..<srcCount src]), True)"
    using candidateIDs_indexes [where toLower = toLower and trm = trm, OF buildCompactTrigramIndex_indexes assms(1) ne]
    by (simp add: matching_def keys gs_def appendUniqueTrigramKeys_def appendUniqueFixedGramKeys_eq)
  moreover have "gs \<subseteq> set (uniqueFixedGramKeys (srcText src rid) 3)"
    if "sublist (toLower trm) (srcText src rid)" for rid
    using gramsOf_sublist [OF that, of 3] by (simp add: gs_def set_uniqueFixedGramKeys)
  ultimately show ?thesis by auto
qed

definition exampleSource :: gramSource where
  "exampleSource = \<lparr>srcCount = 3, srcDeleted = (\<lambda>rid. rid = 1),
     srcText = (\<lambda>rid. [''report.txt'', ''report.old'', ''notes.txt''] ! rid)\<rparr>"

theorem candidateIDs_exact_witness:
  "candidateIDs lowerASCII (buildCompactTrigramIndex exampleSource) ''PORT'' = ([0], True)"
proof -
  have "filter (\<lambda>rid. \<not> srcDeleted exampleSource rid \<and>
      set (uniqueFixedGramKeys (lowerASCII ''PORT'') 3) \<subseteq> set (uniqueFixedGramKeys (srcText exampleSource rid) 3))
      [0..<srcCount exampleSource] = [0]"
    by code_simp
  with candidateIDs_exact [of exampleSource lowerASCII "''PORT''"] show ?thesis
    by (simp add: exampleSource_def)
qed

text \<open>
  C20: The selective index never loses a record. Whatever memory mode and companion option it was
  built with, when a lookup claims to have evaluated the term, the intersecting lookup returns
  exactly the live records whose lower-cased name has all the term's grams, and the cheaper
  one-posting lookup returns a superset of them; both are empty when a gram is proven absent.
\<close>

theorem selective_lookup_sound:
  fixes lowMemory want :: bool and toLower :: "string \<Rightarrow> string" and trm :: string
  assumes "0 < maxCount" "srcCount src \<le> 2 ^ 32" "n = 3 \<or> n = 4"
    and "\<forall>rid < srcCount src. lowerASCII (srcText src rid) = srcText src rid"
  defines "ti \<equiv> fst (buildSelectiveCompactNameGramIndexInternal lowMemory src n maxCount want)"
  defines "ids \<equiv> filter (\<lambda>rid. \<not> srcDeleted src rid \<and>
      set (uniqueFixedGramKeys (toLower trm) n) \<subseteq> set (uniqueFixedGramKeys (srcText src rid) n)) [0..<srcCount src]"
  shows "(\<forall>out empty. selectiveIntersectCandidateIDs toLower ti trm maxIDs = (out, True, empty) \<longrightarrow>
       out = map int ids) \<and>
    (\<forall>out empty. selectiveCandidateIDs toLower ti trm maxIDs = (out, True, empty) \<longrightarrow>
       int ` set ids \<subseteq> set out)"
proof -
  note sel = internal_selective [OF assms(1), of src n lowMemory want, folded ti_def]
  have "gramSize ti = n" by (simp add: ti_def internal_gramSize)
  then have keys: "termGramKeys ti (toLower trm) = uniqueFixedGramKeys (toLower trm) n"
    using assms(3) by (auto simp: termGramKeys_def)
  have "nameKeys n (srcText src rid) = uniqueFixedGramKeys (srcText src rid) n" if "rid < srcCount src" for rid
    using that assms(3,4) by (simp add: nameKeys_def appendUniqueFixedGramKeysFoldASCII_eq)
  then have "matching src (nameKeys n) (termGramKeys ti (toLower trm)) [0..<srcCount src] = ids"
    unfolding matching_def ids_def keys by (intro filter_cong) auto
  then show ?thesis
    using selectiveIntersect_exact [OF sel assms(2), of toLower trm maxIDs]
      selectiveCandidates_superset [OF sel assms(2), of toLower trm maxIDs] by blast
qed

definition tinySource :: gramSource where
  "tinySource = \<lparr>srcCount = 1, srcDeleted = (\<lambda>rid. False), srcText = (\<lambda>rid. ''abc'')\<rparr>"

lemma tiny_keys: "nameKeys 3 ''abc'' = [0x616263]" "uniqueFixedGramKeys ''abc'' 3 = [0x616263]"
  "lowerASCII ''abc'' = ''abc''" "lowerASCII ''Abc'' = ''abc''"
  by code_simp+

theorem selective_lookup_sound_witness:
  "{0} \<subseteq> set (fst (selectiveCandidateIDs lowerASCII
      (fst (buildSelectiveCompactNameGramIndexInternal True tinySource 3 5 True)) ''Abc'' 0))"
proof -
  define ti where "ti = fst (buildSelectiveCompactNameGramIndexInternal True tinySource 3 5 True)"
  have "selective tinySource (nameKeys 3) 5 ti" unfolding ti_def by (rule internal_selective) simp
  then have "countForGram ti 0x616263 = 1" "\<not> isOmittedGram ti 0x616263"
    by (simp_all add: selective_def indexes_def selects_def hits_def tinySource_def tiny_keys)
  moreover have "termGramKeys ti (lowerASCII ''Abc'') = [0x616263]"
    by (simp add: termGramKeys_def ti_def internal_gramSize tiny_keys)
  ultimately obtain out where "selectiveCandidateIDs lowerASCII ti ''Abc'' 0 = (out, True, False)"
    by (simp add: selectiveCandidateIDs_def Let_def)
  with selective_lookup_sound [where maxCount = 5 and src = tinySource and n = 3 and toLower = lowerASCII
    and trm = "''Abc''" and lowMemory = True and want = True and maxIDs = 0]
  have "int ` {0} \<subseteq> set out" unfolding ti_def
    by (simp add: tinySource_def tiny_keys del: image_insert) metis
  with \<open>selectiveCandidateIDs lowerASCII ti ''Abc'' 0 = (out, True, False)\<close>
  show ?thesis by (simp add: ti_def)
qed



text \<open>
  The low-memory layout is equivalent: after \<open>compactForLowMemory\<close> the sorted arrays with
  their binary searches return the same count and the same posting for every gram as the maps.
\<close>

theorem compactForLowMemory_equivalent:
  assumes "counts ti = Some cs" "distinct (map fst cs)"
    and "\<forall>seg\<in>set (segments ti). flatPostings seg = [] \<and>
      (\<exists>ps. postings seg = Some ps \<and> distinct (map fst ps))"
  shows "countForGram (compactForLowMemory ti) g = countForGram ti g \<and>
    map (\<lambda>seg. postingForGram seg g) (segments (compactForLowMemory ti)) =
    map (\<lambda>seg. postingForGram seg g) (segments ti)"
proof -
  have "segments (compactForLowMemory ti) = map compactSegment (segments ti)"
    using assms(1) by (simp add: compactForLowMemory_def Let_def)
  moreover have "postingForGram (compactSegment seg) g = postingForGram seg g" if "seg \<in> set (segments ti)" for seg
    using assms(3) that postingForGram_compact by blast
  ultimately show ?thesis using countForGram_compact [OF assms(1,2)] by simp
qed

theorem compactForLowMemory_equivalent_witness:
  "countForGram (compactForLowMemory ((newIndex 3 1)\<lparr>counts := Some [(9, 2), (4, 1)],
      segments := [mkSegment 0 1 [(9, [0]), (4, [0])]]\<rparr>)) 4 = 1"
proof -
  let ?ti = "(newIndex 3 1)\<lparr>counts := Some [(9, 2), (4, 1)], segments := [mkSegment 0 1 [(9, [0]), (4, [0])]]\<rparr>"
  have "countForGram (compactForLowMemory ?ti) 4 = countForGram ?ti 4"
    using compactForLowMemory_equivalent [of ?ti "[(9, 2), (4, 1)]" 4]
    by (simp add: mkSegment_layout encodeRaw_def)
  then show ?thesis by (simp add: countForGram_def countOf_def)
qed

end
