(* ===== verification/Iterators.thy ===== *)
theory Iterators
  imports Postings "HOL-Library.Monad_Syntax"
begin

text \<open>
  The ordered record-ID iterators of the global query engine (\<open>global_iterators.go\<close>,
  \<open>global_rank.go\<close>, \<open>global_planner_entries.go\<close>): the interface \<open>globalIDIterator\<close>, its leaf
  implementations over a slice of IDs, and the functions that intersect, unite, subtract and
  collect iterators.

  A Go value of the interface type is a state together with the methods of its type, so every
  client takes the \<open>Next\<close> (and \<open>SeekGE\<close>) functions of its sources as arguments. A method returns
  \<open>Some (id, state')\<close>; the outer option is \<open>None\<close> when the call does not return, which the loops
  over arbitrary sources allow, and \<open>id\<close> is \<open>None\<close> where Go returns \<open>false\<close>.

  The contract of the interface is the locale \<open>next_iterator\<close> (an iterator stands for a strictly
  increasing list of IDs that \<open>Next\<close> takes the head of) and its extension \<open>seek_iterator\<close>
  (\<open>SeekGE\<close> skips what is below the target). The client functions are proved to return, and to
  compute the set operation, for every pair of sources that obey the contract.
\<close>

section \<open>Record identifiers\<close>

datatype globalRecordID = GlobalRecordID (volume: int) (local: int)

definition compareGlobalRecordID :: "globalRecordID \<Rightarrow> globalRecordID \<Rightarrow> int" where
  "compareGlobalRecordID a b =
    (if volume a \<noteq> volume b then (if volume a < volume b then - 1 else 1)
     else if local a \<noteq> local b then (if local a < local b then - 1 else 1)
     else 0)"

instantiation globalRecordID :: linorder
begin

definition less_eq_globalRecordID :: "globalRecordID \<Rightarrow> globalRecordID \<Rightarrow> bool" where
  "less_eq_globalRecordID a b = (compareGlobalRecordID a b \<le> 0)"

definition less_globalRecordID :: "globalRecordID \<Rightarrow> globalRecordID \<Rightarrow> bool" where
  "less_globalRecordID a b = (compareGlobalRecordID a b < 0)"

instance
  by standard
    (auto simp: less_eq_globalRecordID_def less_globalRecordID_def compareGlobalRecordID_def
      globalRecordID.expand split: if_splits)

end

type_synonym 's iterResult = "(globalRecordID option \<times> 's) option"
type_synonym 's nextFn = "'s \<Rightarrow> 's iterResult"
type_synonym 's seekFn = "'s \<Rightarrow> globalRecordID \<Rightarrow> 's iterResult"

section \<open>Leaf iterators\<close>

record globalRecordIterator =
  itVolume :: int
  itIds :: "int list"
  itPos :: nat

definition newGlobalRecordIterator :: "int \<Rightarrow> int list \<Rightarrow> globalRecordIterator" where
  "newGlobalRecordIterator vol ids = \<lparr>itVolume = vol, itIds = ids, itPos = 0\<rparr>"

definition recordCountHint :: "globalRecordIterator \<Rightarrow> int" where
  "recordCountHint it =
    (if itPos it \<ge> length (itIds it) then 0 else int (length (itIds it)) - int (itPos it))"

definition recordNext :: "globalRecordIterator \<Rightarrow> globalRecordIterator iterResult" where
  "recordNext it =
    (if itPos it \<ge> length (itIds it) then Some (None, it)
     else Some (Some (GlobalRecordID (itVolume it) (itIds it ! itPos it)), it\<lparr>itPos := itPos it + 1\<rparr>))"

text \<open>The loop \<open>for it.pos < len(it.ids) && below(it.ids[it.pos])\<close> that advances \<open>it.pos\<close>.\<close>

function skipWhile :: "('a \<Rightarrow> bool) \<Rightarrow> 'a list \<Rightarrow> nat \<Rightarrow> nat" where
  "skipWhile below xs pos =
    (if pos < length xs \<and> below (xs ! pos) then skipWhile below xs (pos + 1) else pos)"
  by auto
termination by (relation "measure (\<lambda>(below, xs, pos). length xs - pos)") auto

declare skipWhile.simps [simp del]

definition recordSeekGE :: "globalRecordIterator \<Rightarrow> globalRecordID \<Rightarrow> globalRecordIterator iterResult" where
  "recordSeekGE it target =
    (if volume target > itVolume it then Some (None, it\<lparr>itPos := length (itIds it)\<rparr>)
     else let minLocal = (if volume target < itVolume it then 0 else local target)
       in recordNext (it\<lparr>itPos := skipWhile (\<lambda>x. x < minLocal) (itIds it) (itPos it)\<rparr>))"

record globalIDSliceIterator =
  slIds :: "globalRecordID list"
  slPos :: nat

definition newGlobalIDSliceIterator :: "globalRecordID list \<Rightarrow> globalIDSliceIterator" where
  "newGlobalIDSliceIterator ids = \<lparr>slIds = ids, slPos = 0\<rparr>"

definition sliceCountHint :: "globalIDSliceIterator \<Rightarrow> int" where
  "sliceCountHint it =
    (if slPos it \<ge> length (slIds it) then 0 else int (length (slIds it)) - int (slPos it))"

definition sliceNext :: "globalIDSliceIterator \<Rightarrow> globalIDSliceIterator iterResult" where
  "sliceNext it =
    (if slPos it \<ge> length (slIds it) then Some (None, it)
     else Some (Some (slIds it ! slPos it), it\<lparr>slPos := slPos it + 1\<rparr>))"

definition sliceSeekGE :: "globalIDSliceIterator \<Rightarrow> globalRecordID \<Rightarrow> globalIDSliceIterator iterResult" where
  "sliceSeekGE it target =
    sliceNext (it\<lparr>slPos := skipWhile (\<lambda>x. compareGlobalRecordID x target < 0) (slIds it) (slPos it)\<rparr>)"

section \<open>Clients: intersect, union, exclude, collect\<close>

definition positiveCountHint :: "int \<Rightarrow> int" where
  "positiveCountHint n = (if n < 0 then 0 else n)"

definition minPositiveCountHint :: "int \<Rightarrow> int \<Rightarrow> int" where
  "minPositiveCountHint a0 b0 =
    (let a = positiveCountHint a0; b = positiveCountHint b0
     in if a = 0 then b else if b = 0 then a else min a b)"

definition reachedLimit :: "int \<Rightarrow> globalRecordID list \<Rightarrow> bool" where
  "reachedLimit limit out = (limit > 0 \<and> int (length out) \<ge> limit)"

partial_function (option) intersectGlobalLoop ::
  "'a nextFn \<Rightarrow> 'a seekFn \<Rightarrow> 'b nextFn \<Rightarrow> 'b seekFn \<Rightarrow> int \<Rightarrow> globalRecordID list \<Rightarrow>
   globalRecordID option \<Rightarrow> 'a \<Rightarrow> globalRecordID option \<Rightarrow> 'b \<Rightarrow> globalRecordID list option" where
  "intersectGlobalLoop nxA skA nxB skB limit out av a bv b =
    (case (av, bv) of
      (Some x, Some y) \<Rightarrow>
        (if compareGlobalRecordID x y = 0 then
           (if reachedLimit limit (out @ [x]) then Some (out @ [x])
            else nxA a \<bind> (\<lambda>(av', a'). nxB b \<bind> (\<lambda>(bv', b').
              intersectGlobalLoop nxA skA nxB skB limit (out @ [x]) av' a' bv' b')))
         else if compareGlobalRecordID x y = - 1 then
           skA a y \<bind> (\<lambda>(av', a'). intersectGlobalLoop nxA skA nxB skB limit out av' a' bv b)
         else
           skB b x \<bind> (\<lambda>(bv', b'). intersectGlobalLoop nxA skA nxB skB limit out av a bv' b'))
    | _ \<Rightarrow> Some out)"

definition intersectGlobalIterators ::
  "'a nextFn \<Rightarrow> 'a seekFn \<Rightarrow> 'b nextFn \<Rightarrow> 'b seekFn \<Rightarrow> 'a option \<Rightarrow> 'b option \<Rightarrow> int \<Rightarrow>
   globalRecordID list option" where
  "intersectGlobalIterators nxA skA nxB skB a b limit =
    (case (a, b) of
      (Some a, Some b) \<Rightarrow> nxA a \<bind> (\<lambda>(av, a'). nxB b \<bind> (\<lambda>(bv, b').
        intersectGlobalLoop nxA skA nxB skB limit [] av a' bv b'))
    | _ \<Rightarrow> Some [])"

partial_function (option) collectLoop ::
  "'s nextFn \<Rightarrow> int \<Rightarrow> globalRecordID list \<Rightarrow> 's \<Rightarrow> globalRecordID list option" where
  "collectLoop nxt limit out it =
    nxt it \<bind> (\<lambda>(r, it'). case r of
      None \<Rightarrow> Some out
    | Some x \<Rightarrow> if reachedLimit limit (out @ [x]) then Some (out @ [x])
        else collectLoop nxt limit (out @ [x]) it')"

definition collectGlobalIterator :: "'s nextFn \<Rightarrow> 's option \<Rightarrow> int \<Rightarrow> globalRecordID list option" where
  "collectGlobalIterator nxt it limit = (case it of None \<Rightarrow> Some [] | Some s \<Rightarrow> collectLoop nxt limit [] s)"

text \<open>\<open>canceled k\<close> is what the probe returns when it is called for the \<open>k\<close>-th time.\<close>

partial_function (option) collectCancelableLoop ::
  "'s nextFn \<Rightarrow> int \<Rightarrow> (nat \<Rightarrow> bool) \<Rightarrow> nat \<Rightarrow> globalRecordID list \<Rightarrow> 's \<Rightarrow>
   (globalRecordID list \<times> bool) option" where
  "collectCancelableLoop nxt limit canceled k out it =
    (if canceled k then Some ([], True)
     else nxt it \<bind> (\<lambda>(r, it'). case r of
      None \<Rightarrow> Some (out, False)
    | Some x \<Rightarrow> if reachedLimit limit (out @ [x]) then Some (out @ [x], False)
        else collectCancelableLoop nxt limit canceled (k + 1) (out @ [x]) it'))"

definition collectGlobalIteratorCancelable ::
  "'s nextFn \<Rightarrow> 's option \<Rightarrow> int \<Rightarrow> (nat \<Rightarrow> bool) option \<Rightarrow> (globalRecordID list \<times> bool) option" where
  "collectGlobalIteratorCancelable nxt it limit canceled =
    (case it of None \<Rightarrow> Some ([], False)
     | Some s \<Rightarrow> collectCancelableLoop nxt limit
         (case canceled of None \<Rightarrow> (\<lambda>k. False) | Some c \<Rightarrow> c) 0 [] s)"

partial_function (option) unionGlobalLoop ::
  "'a nextFn \<Rightarrow> 'b nextFn \<Rightarrow> int \<Rightarrow> globalRecordID list \<Rightarrow>
   globalRecordID option \<Rightarrow> 'a \<Rightarrow> globalRecordID option \<Rightarrow> 'b \<Rightarrow> globalRecordID list option" where
  "unionGlobalLoop nxA nxB limit out av a bv b =
    (case (av, bv) of
      (None, None) \<Rightarrow> Some out
    | (Some x, None) \<Rightarrow> nxA a \<bind> (\<lambda>(av', a').
        if reachedLimit limit (out @ [x]) then Some (out @ [x])
        else unionGlobalLoop nxA nxB limit (out @ [x]) av' a' bv b)
    | (None, Some y) \<Rightarrow> nxB b \<bind> (\<lambda>(bv', b').
        if reachedLimit limit (out @ [y]) then Some (out @ [y])
        else unionGlobalLoop nxA nxB limit (out @ [y]) av a bv' b')
    | (Some x, Some y) \<Rightarrow>
        if compareGlobalRecordID x y < 0 then nxA a \<bind> (\<lambda>(av', a').
          if reachedLimit limit (out @ [x]) then Some (out @ [x])
          else unionGlobalLoop nxA nxB limit (out @ [x]) av' a' bv b)
        else if compareGlobalRecordID x y > 0 then nxB b \<bind> (\<lambda>(bv', b').
          if reachedLimit limit (out @ [y]) then Some (out @ [y])
          else unionGlobalLoop nxA nxB limit (out @ [y]) av a bv' b')
        else nxA a \<bind> (\<lambda>(av', a'). nxB b \<bind> (\<lambda>(bv', b').
          if reachedLimit limit (out @ [x]) then Some (out @ [x])
          else unionGlobalLoop nxA nxB limit (out @ [x]) av' a' bv' b')))"

definition unionGlobalIterators ::
  "'a nextFn \<Rightarrow> 'b nextFn \<Rightarrow> 'a option \<Rightarrow> 'b option \<Rightarrow> int \<Rightarrow> globalRecordID list option" where
  "unionGlobalIterators nxA nxB a b limit =
    (case a of None \<Rightarrow> collectGlobalIterator nxB b limit
     | Some sa \<Rightarrow> (case b of None \<Rightarrow> collectGlobalIterator nxA a limit
        | Some sb \<Rightarrow> nxA sa \<bind> (\<lambda>(av, a'). nxB sb \<bind> (\<lambda>(bv, b').
            unionGlobalLoop nxA nxB limit [] av a' bv b'))))"

text \<open>The inner loop \<open>for eok && ev < iv\<close> of the exclusions: seek the excluded source.\<close>

partial_function (option) excludeSkip ::
  "'b seekFn \<Rightarrow> globalRecordID \<Rightarrow> globalRecordID option \<Rightarrow> 'b \<Rightarrow> 'b iterResult" where
  "excludeSkip skB iv ev b =
    (case ev of
      Some e \<Rightarrow> if compareGlobalRecordID e iv < 0
        then skB b iv \<bind> (\<lambda>(ev', b'). excludeSkip skB iv ev' b') else Some (ev, b)
    | None \<Rightarrow> Some (ev, b))"

definition excludes :: "globalRecordID option \<Rightarrow> globalRecordID \<Rightarrow> bool" where
  "excludes ev iv = (case ev of None \<Rightarrow> False | Some e \<Rightarrow> compareGlobalRecordID iv e = 0)"

partial_function (option) excludeGlobalLoop ::
  "'a nextFn \<Rightarrow> 'b seekFn \<Rightarrow> int \<Rightarrow> globalRecordID list \<Rightarrow>
   globalRecordID option \<Rightarrow> 'a \<Rightarrow> globalRecordID option \<Rightarrow> 'b \<Rightarrow> globalRecordID list option" where
  "excludeGlobalLoop nxA skB limit out iv a ev b =
    (case iv of
      None \<Rightarrow> Some out
    | Some x \<Rightarrow> excludeSkip skB x ev b \<bind> (\<lambda>(ev', b').
        let out' = (if excludes ev' x then out else out @ [x])
        in if \<not> excludes ev' x \<and> reachedLimit limit out' then Some out'
           else nxA a \<bind> (\<lambda>(iv', a'). excludeGlobalLoop nxA skB limit out' iv' a' ev' b')))"

definition excludeGlobalIterator ::
  "'a nextFn \<Rightarrow> 'b nextFn \<Rightarrow> 'b seekFn \<Rightarrow> 'a option \<Rightarrow> 'b option \<Rightarrow> int \<Rightarrow>
   globalRecordID list option" where
  "excludeGlobalIterator nxA nxB skB a b limit =
    (case a of None \<Rightarrow> Some []
     | Some sa \<Rightarrow> (case b of None \<Rightarrow> collectGlobalIterator nxA a limit
        | Some sb \<Rightarrow> nxA sa \<bind> (\<lambda>(iv, a'). nxB sb \<bind> (\<lambda>(ev, b').
            excludeGlobalLoop nxA skB limit [] iv a' ev b'))))"

lemmas loop_equations [code] = intersectGlobalLoop.simps collectLoop.simps collectCancelableLoop.simps
  unionGlobalLoop.simps excludeSkip.simps excludeGlobalLoop.simps

section \<open>Ordered lists of identifiers\<close>

lemma compare_cases [simp]:
  "compareGlobalRecordID a b = 0 \<longleftrightarrow> a = b"
  "compareGlobalRecordID a b < 0 \<longleftrightarrow> a < b"
  "compareGlobalRecordID a b = - 1 \<longleftrightarrow> a < b"
  "0 < compareGlobalRecordID a b \<longleftrightarrow> b < a"
  by (auto simp: compareGlobalRecordID_def less_globalRecordID_def intro: globalRecordID.expand)

abbreviation ascending :: "'a::linorder list \<Rightarrow> bool" where
  "ascending xs \<equiv> sorted_wrt (<) xs"

definition interList :: "'a list \<Rightarrow> 'a list \<Rightarrow> 'a list" where
  "interList xs ys = filter (\<lambda>x. x \<in> set ys) xs"

definition diffList :: "'a list \<Rightarrow> 'a list \<Rightarrow> 'a list" where
  "diffList xs ys = filter (\<lambda>x. x \<notin> set ys) xs"

definition unionList :: "'a::linorder list \<Rightarrow> 'a list \<Rightarrow> 'a list" where
  "unionList xs ys = sorted_list_of_set (set xs \<union> set ys)"

definition limited :: "int \<Rightarrow> 'a list \<Rightarrow> 'a list" where
  "limited limit xs = (if limit > 0 then take (nat limit) xs else xs)"

lemma ascending_sorted: "ascending xs \<Longrightarrow> sorted_list_of_set (set xs) = xs"
  by (simp add: strict_sorted_equal)

lemma dropWhile_ascending:
  "ascending xs \<Longrightarrow> dropWhile (\<lambda>x. x < t) xs = filter (\<lambda>x. t \<le> x) xs"
proof (induction xs)
  case (Cons a xs)
  then have "t \<le> a \<Longrightarrow> filter (\<lambda>x. t \<le> x) xs = xs" by (auto intro!: filter_True)
  with Cons show ?case by (auto simp: not_less)
qed simp

lemma set_dropWhile_ascending:
  "ascending xs \<Longrightarrow> set (dropWhile (\<lambda>x. x < t) xs) = {x \<in> set xs. t \<le> x}"
  by (simp add: dropWhile_ascending)

lemma ascending_dropWhile: "ascending xs \<Longrightarrow> ascending (dropWhile P xs)"
  by (induction xs) auto

lemma ascending_filter: "ascending xs \<Longrightarrow> ascending (filter P xs)"
  by (simp add: sorted_wrt_filter)

lemma dropWhile_filter_ascending:
  "ascending xs \<Longrightarrow> dropWhile (\<lambda>x. x < t) (filter P xs) = filter P (dropWhile (\<lambda>x. x < t) xs)"
  by (simp add: dropWhile_ascending ascending_filter conj_commute)

lemma interList_nil [simp]: "interList [] ys = []" "interList xs [] = []"
  by (simp_all add: interList_def)

lemma interList_eq:
  assumes "ascending (x # xs)" "ascending (x # ys)"
  shows "interList (x # xs) (x # ys) = x # interList xs ys"
  using assms by (auto simp: interList_def intro!: filter_cong)

lemma interList_skip_left:
  assumes "ascending (x # xs)" "ascending (y # ys)" "x < y"
  shows "interList (x # xs) (y # ys) = interList (dropWhile (\<lambda>z. z < y) xs) (y # ys)"
proof -
  have "x \<notin> set (y # ys)" using assms(2,3) by auto
  moreover have "\<forall>z \<in> set (y # ys). y \<le> z" using assms(2) by auto
  ultimately show ?thesis using assms(1)
    by (auto simp: interList_def dropWhile_ascending intro!: filter_cong)
qed

lemma interList_skip_right:
  assumes "ascending (x # xs)" "ascending (y # ys)" "y < x"
  shows "interList (x # xs) (y # ys) = interList (x # xs) (dropWhile (\<lambda>z. z < x) ys)"
  using assms by (auto simp: interList_def set_dropWhile_ascending intro!: filter_cong)

lemma diffList_skip:
  assumes "\<forall>z\<in>set xs. x < z" "ascending ys"
  shows "diffList xs (dropWhile (\<lambda>z. z < x) ys) = diffList xs ys"
  using assms by (auto simp: diffList_def set_dropWhile_ascending intro!: filter_cong)

lemma sorted_list_of_set_min:
  assumes "finite A" "\<forall>a\<in>A. x < a"
  shows "sorted_list_of_set (insert x A) = x # sorted_list_of_set A"
proof -
  have "x \<notin> A" using assms(2) by blast
  with assms show ?thesis by (auto simp: sorted_list_of_set_insert intro!: insort_is_Cons less_imp_le)
qed

lemma unionList_left:
  "ascending (x # xs) \<Longrightarrow> \<forall>y\<in>set ys. x < y \<Longrightarrow> unionList (x # xs) ys = x # unionList xs ys"
  unfolding unionList_def list.set(2) Un_insert_left by (rule sorted_list_of_set_min) auto

lemma unionList_commute: "unionList xs ys = unionList ys xs"
  by (simp add: unionList_def Un_commute)

lemma unionList_both:
  assumes "ascending (x # xs)" "ascending (x # ys)"
  shows "unionList (x # xs) (x # ys) = x # unionList xs ys"
proof -
  have "unionList (x # xs) (x # ys) = unionList (x # xs) ys" by (simp add: unionList_def)
  with unionList_left [OF assms(1)] assms(2) show ?thesis by simp
qed

lemma limited_here: "\<not> reachedLimit limit out \<Longrightarrow> limited limit out = out"
  by (auto simp: reachedLimit_def limited_def)

lemma limited_reached:
  "\<not> reachedLimit limit out \<Longrightarrow> reachedLimit limit (out @ [x]) \<Longrightarrow> limited limit (out @ x # xs) = out @ [x]"
  by (auto simp: reachedLimit_def limited_def take_Cons' take_append)

lemma emit_limited:
  assumes "\<not> reachedLimit limit out"
    and "\<not> reachedLimit limit (out @ [x]) \<Longrightarrow> r = Some (limited limit ((out @ [x]) @ xs))"
  shows "(if reachedLimit limit (out @ [x]) then Some (out @ [x]) else r) = Some (limited limit (out @ x # xs))"
  using assms by (simp add: limited_reached)

lemma not_reachedLimit_Nil [simp]: "\<not> reachedLimit limit []"
  by (simp add: reachedLimit_def)

section \<open>The contract of the interface\<close>

definition headOpt :: "'a list \<Rightarrow> 'a option" where
  "headOpt xs = (case xs of [] \<Rightarrow> None | x # _ \<Rightarrow> Some x)"

lemma headOpt_simps [simp]: "headOpt [] = None" "headOpt (x # xs) = Some x"
  by (simp_all add: headOpt_def)

text \<open>A call delivers the first of \<open>xs\<close>, if there is one, and leaves the others.\<close>

definition delivers ::
  "('s \<Rightarrow> bool) \<Rightarrow> ('s \<Rightarrow> globalRecordID list) \<Rightarrow> 's iterResult \<Rightarrow> globalRecordID list \<Rightarrow> bool" where
  "delivers ok remaining out xs \<longleftrightarrow> (\<exists>s'. out = Some (headOpt xs, s') \<and> ok s' \<and> remaining s' = tl xs)"

text \<open>An identifier taken from a source and held by its client: what client and source still have.\<close>

definition buffer :: "('s \<Rightarrow> globalRecordID list) \<Rightarrow> globalRecordID option \<Rightarrow> 's \<Rightarrow> globalRecordID list" where
  "buffer remaining v s = (case v of None \<Rightarrow> [] | Some x \<Rightarrow> x # remaining s)"

lemma buffer_simps [simp]:
  "buffer remaining None s = []" "buffer remaining (Some x) s = x # remaining s"
  by (simp_all add: buffer_def)

definition bufferOk ::
  "('s \<Rightarrow> bool) \<Rightarrow> ('s \<Rightarrow> globalRecordID list) \<Rightarrow> globalRecordID option \<Rightarrow> 's \<Rightarrow> bool" where
  "bufferOk ok remaining v s \<longleftrightarrow> ok s \<and> ascending (buffer remaining v s) \<and> (v = None \<longrightarrow> remaining s = [])"

lemma bufferOk_ascending: "bufferOk ok remaining v s \<Longrightarrow> ascending (buffer remaining v s)"
  by (simp add: bufferOk_def)

lemma buffer_headOpt: "remaining s = tl xs \<Longrightarrow> buffer remaining (headOpt xs) s = xs"
  by (cases xs) simp_all

locale next_iterator =
  fixes nxt :: "'s nextFn" and ok :: "'s \<Rightarrow> bool" and remaining :: "'s \<Rightarrow> globalRecordID list"
  assumes ordered: "ok s \<Longrightarrow> ascending (remaining s)"
    and next_delivers: "ok s \<Longrightarrow> delivers ok remaining (nxt s) (remaining s)"
begin

lemma next_step:
  assumes "ok s"
  obtains v s' where "nxt s = Some (v, s')" "bufferOk ok remaining v s'" "buffer remaining v s' = remaining s"
proof -
  obtain s' where s': "nxt s = Some (headOpt (remaining s), s')" "ok s'" "remaining s' = tl (remaining s)"
    using next_delivers [OF assms] by (auto simp: delivers_def)
  then have "buffer remaining (headOpt (remaining s)) s' = remaining s" by (simp add: buffer_headOpt)
  with s' ordered [OF assms] show thesis
    by (intro that) (auto simp: bufferOk_def headOpt_def split: list.splits)
qed

lemma bufferOk_ok: "bufferOk ok remaining v s \<Longrightarrow> ok s"
  by (simp add: bufferOk_def)

lemma collectLoop_exact:
  "ok s \<Longrightarrow> \<not> reachedLimit limit out \<Longrightarrow> collectLoop nxt limit out s = Some (limited limit (out @ remaining s))"
proof (induction "length (remaining s)" arbitrary: s out)
  case 0
  obtain v s' where "nxt s = Some (v, s')" "buffer remaining v s' = remaining s"
    using next_step [OF 0(2)] by blast
  with 0 show ?case by (cases v) (simp_all add: collectLoop.simps limited_here)
next
  case (Suc n)
  obtain v s' where s': "nxt s = Some (v, s')" "bufferOk ok remaining v s'" "buffer remaining v s' = remaining s"
    using next_step [OF Suc(3)] by blast
  with Suc(2) obtain x where x: "v = Some x" "remaining s = x # remaining s'" by (cases v) auto
  show ?case
  proof (cases "reachedLimit limit (out @ [x])")
    case True
    with x s' Suc(4) show ?thesis by (simp add: collectLoop.simps limited_reached)
  next
    case False
    have "collectLoop nxt limit (out @ [x]) s' = Some (limited limit ((out @ [x]) @ remaining s'))"
      using Suc(1) [OF _ bufferOk_ok [OF s'(2)] False] Suc(2) x by simp
    with False x s' show ?thesis by (subst collectLoop.simps) simp
  qed
qed

lemma collect_exact: "ok s \<Longrightarrow> collectGlobalIterator nxt (Some s) limit = Some (limited limit (remaining s))"
  by (simp add: collectGlobalIterator_def collectLoop_exact)

end

text \<open>
  \<open>SeekGE\<close> obeys its law for the targets the state admits: those above the identifier the iterator
  returned last are always admitted.
\<close>

locale seek_iterator = next_iterator nxt ok remaining
  for nxt :: "'s nextFn" and ok :: "'s \<Rightarrow> bool" and remaining :: "'s \<Rightarrow> globalRecordID list" +
  fixes seek :: "'s seekFn" and seekable :: "'s \<Rightarrow> globalRecordID \<Rightarrow> bool"
  assumes seek_delivers: "ok s \<Longrightarrow> seekable s t \<Longrightarrow>
      delivers ok remaining (seek s t) (dropWhile (\<lambda>x. x < t) (remaining s))"
    and next_seekable: "ok s \<Longrightarrow> nxt s = Some (Some x, s') \<Longrightarrow> x < t \<Longrightarrow> seekable s' t"
    and seek_seekable: "ok s \<Longrightarrow> seekable s t \<Longrightarrow> seek s t = Some (Some x, s') \<Longrightarrow> x < u \<Longrightarrow> seekable s' u"
begin

definition held :: "globalRecordID option \<Rightarrow> 's \<Rightarrow> bool" where
  "held v s \<longleftrightarrow> bufferOk ok remaining v s \<and> (\<forall>x t. v = Some x \<longrightarrow> x < t \<longrightarrow> seekable s t)"

lemma held_bufferOk: "held v s \<Longrightarrow> bufferOk ok remaining v s"
  by (simp add: held_def)

lemma held_ascending: "held v s \<Longrightarrow> ascending (buffer remaining v s)"
  by (simp add: held_def bufferOk_def)

lemma held_ok: "held v s \<Longrightarrow> ok s"
  by (simp add: held_def bufferOk_def)

lemma next_held:
  assumes "ok s"
  obtains v s' where "nxt s = Some (v, s')" "held v s'" "buffer remaining v s' = remaining s"
  using next_step [OF assms] next_seekable [OF assms] by (metis held_def)

lemma seek_held:
  assumes "ok s" "seekable s t"
  obtains v s' where "seek s t = Some (v, s')" "held v s'"
    "buffer remaining v s' = dropWhile (\<lambda>x. x < t) (remaining s)"
proof -
  define xs where "xs = dropWhile (\<lambda>x. x < t) (remaining s)"
  obtain s' where s': "seek s t = Some (headOpt xs, s')" "ok s'" "remaining s' = tl xs"
    using seek_delivers [OF assms] by (auto simp: delivers_def xs_def)
  then have b: "buffer remaining (headOpt xs) s' = xs" by (simp add: buffer_headOpt)
  have "ascending xs" unfolding xs_def by (rule ascending_dropWhile [OF ordered [OF assms(1)]])
  then have "held (headOpt xs) s'"
    using s' b seek_seekable [OF assms] by (cases xs) (auto simp: held_def bufferOk_def)
  with s' b show thesis by (intro that) (simp_all add: xs_def)
qed

lemma held_seek:
  assumes "held (Some x) s" "x < t"
  obtains v s' where "seek s t = Some (v, s')" "held v s'"
    "buffer remaining v s' = dropWhile (\<lambda>x. x < t) (buffer remaining (Some x) s)"
  using seek_held [of s t] assms by (auto simp: held_def bufferOk_def)

end

text \<open>Two sources, with what the client calls of them: the union only takes heads, the exclusion
  also seeks the second source, the intersection seeks both.\<close>

locale union_pair = a: next_iterator nxA okA remA + b: next_iterator nxB okB remB
  for nxA :: "'a nextFn" and okA :: "'a \<Rightarrow> bool" and remA :: "'a \<Rightarrow> globalRecordID list"
    and nxB :: "'b nextFn" and okB :: "'b \<Rightarrow> bool" and remB :: "'b \<Rightarrow> globalRecordID list"
begin

lemma unionGlobalLoop_exact:
  assumes "bufferOk okA remA av a" "bufferOk okB remB bv b" "\<not> reachedLimit limit out"
  shows "unionGlobalLoop nxA nxB limit out av a bv b =
    Some (limited limit (out @ unionList (buffer remA av a) (buffer remB bv b)))"
  using assms
proof (induction "length (buffer remA av a) + length (buffer remB bv b)" arbitrary: av a bv b out rule: less_induct)
  case less
  note okab = a.bufferOk_ok [OF less(2)] b.bufferOk_ok [OF less(3)]
  obtain v a' where a': "nxA a = Some (v, a')" "bufferOk okA remA v a'" "buffer remA v a' = remA a"
    using a.next_step [OF okab(1)] by blast
  obtain w b' where b': "nxB b = Some (w, b')" "bufferOk okB remB w b'" "buffer remB w b' = remB b"
    using b.next_step [OF okab(2)] by blast
  note asc = less(2,3) [THEN bufferOk_ascending]
  note emit = emit_limited [OF less(4)]
  have A: "(if reachedLimit limit (out @ [x]) then Some (out @ [x])
        else unionGlobalLoop nxA nxB limit (out @ [x]) v a' bv b) =
      Some (limited limit (out @ unionList (x # remA a) (buffer remB bv b)))"
    if "av = Some x" "\<forall>y\<in>set (buffer remB bv b). x < y" for x
  proof -
    have "unionList (x # remA a) (buffer remB bv b) = x # unionList (remA a) (buffer remB bv b)"
      using unionList_left that asc by simp
    with emit less(1) [of v a' bv b "out @ [x]"] that a' less(3) show ?thesis by simp
  qed
  have B: "(if reachedLimit limit (out @ [y]) then Some (out @ [y])
        else unionGlobalLoop nxA nxB limit (out @ [y]) av a w b') =
      Some (limited limit (out @ unionList (buffer remA av a) (y # remB b)))"
    if "bv = Some y" "\<forall>x\<in>set (buffer remA av a). y < x" for y
  proof -
    have "unionList (buffer remA av a) (y # remB b) = y # unionList (buffer remA av a) (remB b)"
      using unionList_left [of y "remB b" "buffer remA av a"] that asc
      by (simp add: unionList_commute [of "buffer remA av a"])
    with emit less(1) [of av a w b' "out @ [y]"] that b' less(2) show ?thesis by simp
  qed
  have C: "(if reachedLimit limit (out @ [x]) then Some (out @ [x])
        else unionGlobalLoop nxA nxB limit (out @ [x]) v a' w b') =
      Some (limited limit (out @ unionList (x # remA a) (x # remB b)))"
    if "av = Some x" "bv = Some x" for x
  proof -
    have "unionList (x # remA a) (x # remB b) = x # unionList (remA a) (remB b)"
      by (rule unionList_both) (use that asc in simp_all)
    with emit less(1) [of v a' w b' "out @ [x]"] that a' b' show ?thesis by simp
  qed
  show ?case
  proof (cases av)
    case None
    show ?thesis
      by (subst unionGlobalLoop.simps, cases bv) 
        (use None B b' less(4) in \<open>simp_all add: limited_here unionList_def\<close>)
  next
    case (Some x)
    show ?thesis
    proof (cases bv)
      case None
      with Some A a' show ?thesis by (subst unionGlobalLoop.simps) simp
    next
      case (Some y)
      with \<open>av = Some x\<close> asc have lt: "x < y \<Longrightarrow> \<forall>z\<in>set (y # remB b). x < z"
        "y < x \<Longrightarrow> \<forall>z\<in>set (x # remA a). y < z" by auto
      consider "x < y" | "y < x" | "x = y" by fastforce
      then show ?thesis
        by cases (subst unionGlobalLoop.simps; use \<open>av = Some x\<close> Some A B C a' b' lt in simp)+
    qed
  qed
qed

lemma union_exact:
  assumes "okA a" "okB b"
  shows "unionGlobalIterators nxA nxB (Some a) (Some b) limit = Some (limited limit (unionList (remA a) (remB b)))"
proof -
  obtain av a' where "nxA a = Some (av, a')" "bufferOk okA remA av a'" "buffer remA av a' = remA a"
    using a.next_step [OF assms(1)] by blast
  moreover obtain bv b' where "nxB b = Some (bv, b')" "bufferOk okB remB bv b'" "buffer remB bv b' = remB b"
    using b.next_step [OF assms(2)] by blast
  ultimately show ?thesis by (simp add: unionGlobalIterators_def unionGlobalLoop_exact)
qed

end

locale exclusion_pair = union_pair nxA okA remA nxB okB remB + b: seek_iterator nxB okB remB skB admB
  for nxA :: "'a nextFn" and okA :: "'a \<Rightarrow> bool" and remA :: "'a \<Rightarrow> globalRecordID list"
    and nxB :: "'b nextFn" and okB :: "'b \<Rightarrow> bool" and remB :: "'b \<Rightarrow> globalRecordID list"
    and skB :: "'b seekFn" and admB :: "'b \<Rightarrow> globalRecordID \<Rightarrow> bool"
begin

lemma excludeSkip_exact:
  assumes "b.held ev b"
  obtains ev' b' where "excludeSkip skB x ev b = Some (ev', b')" "b.held ev' b'"
    "buffer remB ev' b' = dropWhile (\<lambda>z. z < x) (buffer remB ev b)"
proof (cases "\<exists>e. ev = Some e \<and> e < x")
  case True
  then obtain e where e: "ev = Some e" "e < x" by blast
  obtain v b' where b': "skB b x = Some (v, b')" "b.held v b'"
    "buffer remB v b' = dropWhile (\<lambda>z. z < x) (buffer remB ev b)"
    using b.held_seek [of e b x] assms e by auto
  have "\<not> y < x" if "v = Some y" for y
  proof -
    from that b'(3) have "y # remB b' = dropWhile (\<lambda>z. z < x) (buffer remB ev b)" by simp
    then show ?thesis using hd_dropWhile [of "\<lambda>z. z < x" "buffer remB ev b"]
      by (metis list.distinct(1) list.sel(1))
  qed
  then have "excludeSkip skB x v b' = Some (v, b')"
    by (subst excludeSkip.simps) (cases v; simp)
  then have "excludeSkip skB x ev b = Some (v, b')"
    using e b'(1) by (subst excludeSkip.simps) simp
  with b' that show thesis by blast
next
  case False
  then have "excludeSkip skB x ev b = Some (ev, b)"
    by (subst excludeSkip.simps) (auto split: option.split)
  moreover have "dropWhile (\<lambda>z. z < x) (buffer remB ev b) = buffer remB ev b"
    using False by (cases ev) auto
  ultimately show thesis using assms that by metis
qed

lemma excludes_iff:
  assumes "ascending (buffer remB ev b)" "ascending ys" "buffer remB ev b = dropWhile (\<lambda>z. z < x) ys"
  shows "excludes ev x \<longleftrightarrow> x \<in> set ys"
proof -
  have "x \<in> set ys \<longleftrightarrow> x \<in> set (buffer remB ev b)"
    by (simp add: assms(3) set_dropWhile_ascending [OF assms(2)])
  moreover have "\<forall>y \<in> set (buffer remB ev b). x \<le> y"
    by (simp add: assms(3) set_dropWhile_ascending [OF assms(2)])
  ultimately show ?thesis using assms(1) by (cases ev) (fastforce simp: excludes_def)+
qed

lemma excludeGlobalLoop_exact:
  assumes "bufferOk okA remA iv a" "b.held ev b" "\<not> reachedLimit limit out"
  shows "excludeGlobalLoop nxA skB limit out iv a ev b =
    Some (limited limit (out @ diffList (buffer remA iv a) (buffer remB ev b)))"
  using assms
proof (induction "length (buffer remA iv a)" arbitrary: iv a ev b out)
  case 0
  then show ?case by (cases iv) (simp_all add: excludeGlobalLoop.simps diffList_def limited_here)
next
  case (Suc n)
  then obtain x where iv: "iv = Some x" by (cases iv) auto
  let ?ys = "buffer remB ev b"
  obtain ev' b' where b': "excludeSkip skB x ev b = Some (ev', b')" "b.held ev' b'"
    "buffer remB ev' b' = dropWhile (\<lambda>z. z < x) ?ys"
    using excludeSkip_exact [OF Suc(4)] by blast
  obtain iv' a' where a': "nxA a = Some (iv', a')" "bufferOk okA remA iv' a'" "buffer remA iv' a' = remA a"
    using a.next_step [OF a.bufferOk_ok [OF Suc(3)]] by blast
  have exc: "excludes ev' x \<longleftrightarrow> x \<in> set ?ys"
    using excludes_iff b' b.held_ascending Suc(4) by blast
  have rest: "excludeGlobalLoop nxA skB limit out' iv' a' ev' b' = Some (limited limit (out' @ diffList (remA a) ?ys))"
    if "\<not> reachedLimit limit out'" for out'
  proof -
    have "diffList (remA a) (dropWhile (\<lambda>z. z < x) ?ys) = diffList (remA a) ?ys"
      by (rule diffList_skip [OF _ b.held_ascending [OF Suc(4)]])
        (use bufferOk_ascending [OF Suc(3)] iv in simp)
    then show ?thesis using Suc(1) [OF _ a'(2) b'(2) that] Suc(2) a'(3) b'(3) iv by simp
  qed
  show ?case
  proof (cases "x \<in> set ?ys")
    case True
    with rest [OF Suc(5)] iv b' a' exc show ?thesis
      by (subst excludeGlobalLoop.simps) (simp add: diffList_def)
  next
    case False
    with emit_limited [OF Suc(5) rest, of x] iv b' a' exc show ?thesis
      by (subst excludeGlobalLoop.simps) (simp add: diffList_def Let_def split: if_splits)
  qed
qed

lemma exclude_exact:
  assumes "okA a" "okB b"
  shows "excludeGlobalIterator nxA nxB skB (Some a) (Some b) limit =
    Some (limited limit (diffList (remA a) (remB b)))"
proof -
  obtain iv a' where "nxA a = Some (iv, a')" "bufferOk okA remA iv a'" "buffer remA iv a' = remA a"
    using a.next_step [OF assms(1)] by blast
  moreover obtain ev b' where "nxB b = Some (ev, b')" "b.held ev b'" "buffer remB ev b' = remB b"
    using b.next_held [OF assms(2)] by blast
  ultimately show ?thesis by (simp add: excludeGlobalIterator_def excludeGlobalLoop_exact)
qed

end

locale intersection_pair = exclusion_pair nxA okA remA nxB okB remB skB admB +
    a: seek_iterator nxA okA remA skA admA
  for nxA :: "'a nextFn" and okA :: "'a \<Rightarrow> bool" and remA :: "'a \<Rightarrow> globalRecordID list"
    and skA :: "'a seekFn" and admA :: "'a \<Rightarrow> globalRecordID \<Rightarrow> bool"
    and nxB :: "'b nextFn" and okB :: "'b \<Rightarrow> bool" and remB :: "'b \<Rightarrow> globalRecordID list"
    and skB :: "'b seekFn" and admB :: "'b \<Rightarrow> globalRecordID \<Rightarrow> bool"
begin

text \<open>One turn of the intersection: the two heads are equal, or one source is sought past its own.\<close>

lemma intersection_turn:
  assumes "a.held (Some x) a" "b.held (Some y) b"
  shows "x = y \<Longrightarrow> interList (x # remA a) (y # remB b) = x # interList (remA a) (remB b)"
    and "x < y \<Longrightarrow> \<exists>v a'. skA a y = Some (v, a') \<and> a.held v a' \<and>
      length (buffer remA v a') < length (x # remA a) \<and>
      interList (buffer remA v a') (y # remB b) = interList (x # remA a) (y # remB b)"
    and "y < x \<Longrightarrow> \<exists>v b'. skB b x = Some (v, b') \<and> b.held v b' \<and>
      length (buffer remB v b') < length (y # remB b) \<and>
      interList (x # remA a) (buffer remB v b') = interList (x # remA a) (y # remB b)"
proof -
  have asc: "ascending (x # remA a)" "ascending (y # remB b)"
    using a.held_ascending [OF assms(1)] b.held_ascending [OF assms(2)] by simp_all
  show "x = y \<Longrightarrow> interList (x # remA a) (y # remB b) = x # interList (remA a) (remB b)"
    using asc interList_eq by blast
  show "\<exists>v a'. skA a y = Some (v, a') \<and> a.held v a' \<and> length (buffer remA v a') < length (x # remA a) \<and>
      interList (buffer remA v a') (y # remB b) = interList (x # remA a) (y # remB b)" if lt: "x < y"
  proof -
    obtain v a' where "skA a y = Some (v, a')" "a.held v a'"
      "buffer remA v a' = dropWhile (\<lambda>z. z < y) (remA a)"
      using a.held_seek [OF assms(1) lt] lt by auto
    with interList_skip_left [OF asc lt] show ?thesis
      by (auto simp: less_Suc_eq_le length_dropWhile_le)
  qed
  show "\<exists>v b'. skB b x = Some (v, b') \<and> b.held v b' \<and> length (buffer remB v b') < length (y # remB b) \<and>
      interList (x # remA a) (buffer remB v b') = interList (x # remA a) (y # remB b)" if lt: "y < x"
  proof -
    obtain v b' where "skB b x = Some (v, b')" "b.held v b'"
      "buffer remB v b' = dropWhile (\<lambda>z. z < x) (remB b)"
      using b.held_seek [OF assms(2) lt] lt by auto
    with interList_skip_right [OF asc lt] show ?thesis
      by (auto simp: less_Suc_eq_le length_dropWhile_le)
  qed
qed

lemma intersectGlobalLoop_exact:
  assumes "a.held av a" "b.held bv b" "\<not> reachedLimit limit out"
  shows "intersectGlobalLoop nxA skA nxB skB limit out av a bv b =
    Some (limited limit (out @ interList (buffer remA av a) (buffer remB bv b)))"
  using assms
proof (induction "length (buffer remA av a) + length (buffer remB bv b)" arbitrary: av a bv b out rule: less_induct)
  case less
  show ?case
  proof (cases "av = None \<or> bv = None")
    case True
    with less(4) show ?thesis
      by (subst intersectGlobalLoop.simps) (auto simp: limited_here split: option.split)
  next
    case False
    then obtain x y where v: "av = Some x" "bv = Some y" by auto
    note turn = intersection_turn [OF less(2,3) [unfolded v]]
    consider "x = y" | "x < y" | "y < x" by fastforce
    then show ?thesis
    proof cases
      case 1
      obtain v' a' where a': "nxA a = Some (v', a')" "a.held v' a'" "buffer remA v' a' = remA a"
        using a.next_held [OF a.held_ok [OF less(2)]] by blast
      obtain w' b' where b': "nxB b = Some (w', b')" "b.held w' b'" "buffer remB w' b' = remB b"
        using b.next_held [OF b.held_ok [OF less(3)]] by blast
      have "\<not> reachedLimit limit (out @ [x]) \<Longrightarrow> intersectGlobalLoop nxA skA nxB skB limit (out @ [x]) v' a' w' b' =
          Some (limited limit ((out @ [x]) @ interList (remA a) (remB b)))"
        using less(1) [OF _ a'(2) b'(2)] a' b' v by simp
      note emit_limited [OF less(4) this]
      moreover have "bv = Some x" "interList (x # remA a) (x # remB b) = x # interList (remA a) (remB b)"
        using turn(1) 1 v by simp_all
      ultimately show ?thesis using v(1) a' b' by (subst intersectGlobalLoop.simps) (simp split: if_splits)
    next
      case 2
      obtain v' a' where a': "skA a y = Some (v', a')" "a.held v' a'"
        "length (buffer remA v' a') < length (x # remA a)"
        "interList (buffer remA v' a') (y # remB b) = interList (x # remA a) (y # remB b)"
        using turn(2) [OF 2] by blast
      with less(1) [of v' a' bv b out] less(3,4) v 2 less_imp_neq [OF 2] show ?thesis
        by (subst intersectGlobalLoop.simps) simp
    next
      case 3
      obtain w' b' where b': "skB b x = Some (w', b')" "b.held w' b'"
        "length (buffer remB w' b') < length (y # remB b)"
        "interList (x # remA a) (buffer remB w' b') = interList (x # remA a) (y # remB b)"
        using turn(3) [OF 3] by blast
      with less(1) [of av a w' b' out] less(2,4) v 3 less_imp_neq [OF 3] less_not_sym [OF 3] show ?thesis
        by (subst intersectGlobalLoop.simps) simp
    qed
  qed
qed

lemma intersect_exact:
  assumes "okA a" "okB b"
  shows "intersectGlobalIterators nxA skA nxB skB (Some a) (Some b) limit =
    Some (limited limit (interList (remA a) (remB b)))"
proof -
  obtain av a' where "nxA a = Some (av, a')" "a.held av a'" "buffer remA av a' = remA a"
    using a.next_held [OF assms(1)] by blast
  moreover obtain bv b' where "nxB b = Some (bv, b')" "b.held bv b'" "buffer remB bv b' = remB b"
    using b.next_held [OF assms(2)] by blast
  ultimately show ?thesis by (simp add: intersectGlobalIterators_def intersectGlobalLoop_exact)
qed

end

section \<open>The leaf iterators obey the contract\<close>

lemma skipWhile_drop: "drop (skipWhile P xs n) xs = dropWhile P (drop n xs)"
proof (induction P xs n rule: skipWhile.induct)
  case (1 P xs n)
  show ?case
  proof (cases "n < length xs")
    case True
    then have "drop n xs = xs ! n # drop (Suc n) xs" by (rule Cons_nth_drop_Suc [symmetric])
    with 1 True show ?thesis by (simp add: skipWhile.simps [of P xs n])
  qed (simp add: skipWhile.simps [of P xs n])
qed

definition recordOk :: "globalRecordIterator \<Rightarrow> bool" where
  "recordOk it \<longleftrightarrow> ascending (itIds it) \<and> (\<forall>x\<in>set (itIds it). 0 \<le> x)"

definition recordRemaining :: "globalRecordIterator \<Rightarrow> globalRecordID list" where
  "recordRemaining it = map (GlobalRecordID (itVolume it)) (drop (itPos it) (itIds it))"

definition sliceOk :: "globalIDSliceIterator \<Rightarrow> bool" where
  "sliceOk it \<longleftrightarrow> ascending (slIds it)"

definition sliceRemaining :: "globalIDSliceIterator \<Rightarrow> globalRecordID list" where
  "sliceRemaining it = drop (slPos it) (slIds it)"

lemma less_GlobalRecordID [simp]:
  "GlobalRecordID v l < GlobalRecordID w m \<longleftrightarrow> v < w \<or> v = w \<and> l < m"
  by (auto simp: less_globalRecordID_def compareGlobalRecordID_def)

lemma less_eq_GlobalRecordID [simp]:
  "GlobalRecordID v l \<le> GlobalRecordID w m \<longleftrightarrow> v < w \<or> v = w \<and> l \<le> m"
  by (auto simp: less_eq_globalRecordID_def compareGlobalRecordID_def)

lemma less_globalRecordID_iff: "a < b \<longleftrightarrow> volume a < volume b \<or> volume a = volume b \<and> local a < local b"
  by (cases a; cases b) simp

lemma recordNext_delivers:
  assumes "recordOk it"
  shows "delivers recordOk recordRemaining (recordNext it) (recordRemaining it)"
proof (cases "itPos it < length (itIds it)")
  case True
  then have "drop (itPos it) (itIds it) = itIds it ! itPos it # drop (Suc (itPos it)) (itIds it)"
    by (rule Cons_nth_drop_Suc [symmetric])
  with True assms show ?thesis by (simp add: delivers_def recordNext_def recordRemaining_def recordOk_def)
qed (use assms in \<open>simp add: delivers_def recordNext_def recordRemaining_def\<close>)

lemma record_ordered: "recordOk it \<Longrightarrow> ascending (recordRemaining it)"
  by (simp add: recordOk_def recordRemaining_def sorted_wrt_map sorted_wrt_drop)

lemma recordSeekGE_delivers:
  assumes "recordOk it"
  shows "delivers recordOk recordRemaining (recordSeekGE it t) (dropWhile (\<lambda>x. x < t) (recordRemaining it))"
proof (cases "volume t > itVolume it")
  case True
  then have empty: "dropWhile (\<lambda>x. x < t) (recordRemaining it) = []"
    by (auto simp: recordRemaining_def less_globalRecordID_iff)
  show ?thesis unfolding empty using True assms
    by (simp add: recordSeekGE_def delivers_def recordRemaining_def recordOk_def)
next
  case False
  define m where "m = (if volume t < itVolume it then 0 else local t)"
  let ?it = "it\<lparr>itPos := skipWhile (\<lambda>x. x < m) (itIds it) (itPos it)\<rparr>"
  have "\<forall>x\<in>set (drop (itPos it) (itIds it)). GlobalRecordID (itVolume it) x < t \<longleftrightarrow> x < m"
    using False assms by (auto simp: recordOk_def less_globalRecordID_iff m_def dest!: in_set_dropD)
  then have "dropWhile (\<lambda>x. GlobalRecordID (itVolume it) x < t) (drop (itPos it) (itIds it)) =
      dropWhile (\<lambda>x. x < m) (drop (itPos it) (itIds it))"
    by (intro dropWhile_cong) auto
  then have "recordRemaining ?it = dropWhile (\<lambda>x. x < t) (recordRemaining it)"
    by (simp add: recordRemaining_def skipWhile_drop dropWhile_map comp_def)
  moreover have "recordOk ?it" using assms by (simp add: recordOk_def)
  ultimately show ?thesis using recordNext_delivers [of ?it] False
    by (simp add: recordSeekGE_def m_def Let_def)
qed

interpretation records: seek_iterator recordNext recordOk recordRemaining recordSeekGE "\<lambda>it t. True"
  by unfold_locales (simp_all add: record_ordered recordNext_delivers recordSeekGE_delivers)

lemma sliceNext_delivers:
  assumes "sliceOk it"
  shows "delivers sliceOk sliceRemaining (sliceNext it) (sliceRemaining it)"
proof (cases "slPos it < length (slIds it)")
  case True
  then have "drop (slPos it) (slIds it) = slIds it ! slPos it # drop (Suc (slPos it)) (slIds it)"
    by (rule Cons_nth_drop_Suc [symmetric])
  with True assms show ?thesis by (simp add: delivers_def sliceNext_def sliceRemaining_def sliceOk_def)
qed (use assms in \<open>simp add: delivers_def sliceNext_def sliceRemaining_def\<close>)

lemma sliceSeekGE_delivers:
  assumes "sliceOk it"
  shows "delivers sliceOk sliceRemaining (sliceSeekGE it t) (dropWhile (\<lambda>x. x < t) (sliceRemaining it))"
proof -
  let ?it = "it\<lparr>slPos := skipWhile (\<lambda>x. x < t) (slIds it) (slPos it)\<rparr>"
  have "sliceRemaining ?it = dropWhile (\<lambda>x. x < t) (sliceRemaining it)"
    by (simp add: sliceRemaining_def skipWhile_drop)
  moreover have "sliceOk ?it" using assms by (simp add: sliceOk_def)
  ultimately show ?thesis using sliceNext_delivers [of ?it] by (simp add: sliceSeekGE_def)
qed

interpretation slices: seek_iterator sliceNext sliceOk sliceRemaining sliceSeekGE "\<lambda>it t. True"
  by unfold_locales
    (simp_all add: sliceNext_delivers sliceSeekGE_delivers, simp add: sliceOk_def sliceRemaining_def sorted_wrt_drop)

end
