(* ===== verification/IterCombinators.thy ===== *)
theory IterCombinators
  imports Iterators
begin

text \<open>
  The iterators built from other iterators (\<open>global_iterators.go\<close>, \<open>global_planner_entries.go\<close>):
  the merge of sorted sources, the lazy intersection and exclusion, and the filters by record
  type, by hidden record and by subtree. Each is a state holding its sources and the identifiers
  it took from them and has not returned yet.

  The merge and the filters obey the whole contract of \<open>Iterators\<close> whenever their sources do. The
  lazy intersection and exclusion obey it for \<open>Next\<close>; their \<open>SeekGE\<close> overwrites the buffered
  identifiers, and the theory exhibits a query of three sources that loses its only result.
\<close>

section \<open>Merge\<close>

text \<open>\<open>current !! i\<close> is \<open>None\<close> where the code has \<open>valid[i] = false\<close>.\<close>

record 's globalMergeIterator =
  children :: "'s list"
  current :: "globalRecordID option list"

text \<open>The loop over the children that replaces the current identifier of those it selects.\<close>

fun refill :: "(globalRecordID option \<Rightarrow> bool) \<Rightarrow> 's nextFn \<Rightarrow> 's list \<Rightarrow> globalRecordID option list \<Rightarrow>
    ('s list \<times> globalRecordID option list) option" where
  "refill sel step (c # cs) (v # vs) =
    (if sel v then step c else Some (v, c)) \<bind> (\<lambda>(v', c').
      refill sel step cs vs \<bind> (\<lambda>(cs', vs'). Some (c' # cs', v' # vs')))"
| "refill sel step cs vs = Some (cs, vs)"

definition newGlobalMergeIterator :: "'s nextFn \<Rightarrow> 's option list \<Rightarrow> 's globalMergeIterator option" where
  "newGlobalMergeIterator nxt cs =
    (let filtered = map the (filter (\<lambda>c. c \<noteq> None) cs)
     in refill (\<lambda>v. True) nxt filtered (replicate (length filtered) None) \<bind>
       (\<lambda>(cs', vs). Some \<lparr>children = cs', current = vs\<rparr>))"

definition mergeCountHint :: "('s \<Rightarrow> int) \<Rightarrow> 's globalMergeIterator \<Rightarrow> int" where
  "mergeCountHint hint it =
    sum_list (map (\<lambda>(c, v). if v \<noteq> None then hint c else 0) (zip (children it) (current it)))"

text \<open>The scan for the smallest valid identifier; the first of equal ones stays.\<close>

definition mergeBetter :: "globalRecordID option \<Rightarrow> globalRecordID option \<Rightarrow> globalRecordID option" where
  "mergeBetter best v =
    (case v of None \<Rightarrow> best
     | Some x \<Rightarrow> (case best of None \<Rightarrow> v
        | Some y \<Rightarrow> if compareGlobalRecordID x y \<ge> 0 then best else v))"

definition mergeBest :: "globalRecordID option list \<Rightarrow> globalRecordID option" where
  "mergeBest vs = foldl mergeBetter None vs"

definition mergeNext :: "'s nextFn \<Rightarrow> 's globalMergeIterator nextFn" where
  "mergeNext nxt it =
    (case mergeBest (current it) of
      None \<Rightarrow> Some (None, it)
    | Some out \<Rightarrow>
        refill (\<lambda>v. case v of None \<Rightarrow> False | Some x \<Rightarrow> compareGlobalRecordID x out = 0) nxt
            (children it) (current it) \<bind>
          (\<lambda>(cs, vs). Some (Some out, it\<lparr>children := cs, current := vs\<rparr>)))"

definition mergeSeekGE :: "'s nextFn \<Rightarrow> 's seekFn \<Rightarrow> 's globalMergeIterator seekFn" where
  "mergeSeekGE nxt seek it target =
    refill (\<lambda>v. case v of None \<Rightarrow> False | Some x \<Rightarrow> compareGlobalRecordID x target < 0)
        (\<lambda>c. seek c target) (children it) (current it) \<bind>
      (\<lambda>(cs, vs). mergeNext nxt (it\<lparr>children := cs, current := vs\<rparr>))"

section \<open>Lazy intersection\<close>

text \<open>A source that may be nil is an option; \<open>aID\<close> is \<open>None\<close> where the code has \<open>aOK = false\<close>.\<close>

record ('a, 'b) globalIntersectionIterator =
  interA :: "'a option"
  interB :: "'b option"
  aID :: "globalRecordID option"
  bID :: "globalRecordID option"
  interInitialized :: bool

definition newGlobalIntersectionIterator :: "'a option \<Rightarrow> 'b option \<Rightarrow> ('a, 'b) globalIntersectionIterator" where
  "newGlobalIntersectionIterator a b =
    \<lparr>interA = a, interB = b, aID = None, bID = None, interInitialized = False\<rparr>"

definition interCountHint :: "('a \<Rightarrow> int) \<Rightarrow> ('b \<Rightarrow> int) \<Rightarrow> ('a, 'b) globalIntersectionIterator \<Rightarrow> int" where
  "interCountHint hA hB it =
    (case (interA it, interB it) of (Some a, Some b) \<Rightarrow> minPositiveCountHint (hA a) (hB b) | _ \<Rightarrow> 0)"

partial_function (option) interLoop ::
  "'a nextFn \<Rightarrow> 'a seekFn \<Rightarrow> 'b nextFn \<Rightarrow> 'b seekFn \<Rightarrow> globalRecordID option \<Rightarrow> 'a \<Rightarrow>
   globalRecordID option \<Rightarrow> 'b \<Rightarrow>
   (globalRecordID option \<times> (globalRecordID option \<times> 'a) \<times> (globalRecordID option \<times> 'b)) option" where
  "interLoop nxA skA nxB skB av a bv b =
    (case (av, bv) of
      (Some x, Some y) \<Rightarrow>
        (if compareGlobalRecordID x y = 0 then
           nxA a \<bind> (\<lambda>a'. nxB b \<bind> (\<lambda>b'. Some (Some x, a', b')))
         else if compareGlobalRecordID x y = - 1 then
           skA a y \<bind> (\<lambda>(av', a'). interLoop nxA skA nxB skB av' a' bv b)
         else
           skB b x \<bind> (\<lambda>(bv', b'). interLoop nxA skA nxB skB av a bv' b'))
    | _ \<Rightarrow> Some (None, (av, a), (bv, b)))"

definition interInit :: "'a nextFn \<Rightarrow> 'b nextFn \<Rightarrow> ('a, 'b) globalIntersectionIterator \<Rightarrow> 'a \<Rightarrow> 'b \<Rightarrow>
    ((globalRecordID option \<times> 'a) \<times> (globalRecordID option \<times> 'b)) option" where
  "interInit nxA nxB it a b =
    (if interInitialized it then Some ((aID it, a), (bID it, b))
     else nxA a \<bind> (\<lambda>a'. nxB b \<bind> (\<lambda>b'. Some (a', b'))))"

definition interNext :: "'a nextFn \<Rightarrow> 'a seekFn \<Rightarrow> 'b nextFn \<Rightarrow> 'b seekFn \<Rightarrow>
    ('a, 'b) globalIntersectionIterator nextFn" where
  "interNext nxA skA nxB skB it =
    (case (interA it, interB it) of
      (Some a, Some b) \<Rightarrow>
        interInit nxA nxB it a b \<bind> (\<lambda>((av, a'), (bv, b')).
          interLoop nxA skA nxB skB av a' bv b' \<bind> (\<lambda>(r, (av', a''), (bv', b'')).
            Some (r, it\<lparr>interA := Some a'', interB := Some b'', aID := av', bID := bv', interInitialized := True\<rparr>)))
    | _ \<Rightarrow> Some (None, it))"

definition interSeekGE :: "'a nextFn \<Rightarrow> 'a seekFn \<Rightarrow> 'b nextFn \<Rightarrow> 'b seekFn \<Rightarrow>
    ('a, 'b) globalIntersectionIterator seekFn" where
  "interSeekGE nxA skA nxB skB it target =
    (case (interA it, interB it) of
      (Some a, Some b) \<Rightarrow>
        skA a target \<bind> (\<lambda>(av, a'). skB b target \<bind> (\<lambda>(bv, b').
          interNext nxA skA nxB skB
            (it\<lparr>interA := Some a', interB := Some b', aID := av, bID := bv, interInitialized := True\<rparr>)))
    | _ \<Rightarrow> Some (None, it))"

section \<open>Lazy exclusion\<close>

record ('a, 'b) globalExclusionIterator =
  exclInclude :: "'a option"
  exclExclude :: "'b option"
  iID :: "globalRecordID option"
  eID :: "globalRecordID option"
  exclInitialized :: bool

definition newGlobalExclusionIterator :: "'a option \<Rightarrow> 'b option \<Rightarrow> ('a, 'b) globalExclusionIterator" where
  "newGlobalExclusionIterator a b =
    \<lparr>exclInclude = a, exclExclude = b, iID = None, eID = None, exclInitialized = False\<rparr>"

definition exclCountHint :: "('a \<Rightarrow> int) \<Rightarrow> ('a, 'b) globalExclusionIterator \<Rightarrow> int" where
  "exclCountHint hA it = (case exclInclude it of None \<Rightarrow> 0 | Some a \<Rightarrow> hA a)"

text \<open>The methods of an excluded source that may be nil: nothing is taken from it then.\<close>

definition optNext :: "'b nextFn \<Rightarrow> 'b option nextFn" where
  "optNext nx b = (case b of None \<Rightarrow> Some (None, None) | Some s \<Rightarrow> nx s \<bind> (\<lambda>(v, s'). Some (v, Some s')))"

definition optSeek :: "'b seekFn \<Rightarrow> 'b option seekFn" where
  "optSeek sk b t = (case b of None \<Rightarrow> Some (None, None) | Some s \<Rightarrow> sk s t \<bind> (\<lambda>(v, s'). Some (v, Some s')))"

partial_function (option) exclLoop ::
  "'a nextFn \<Rightarrow> 'b seekFn \<Rightarrow> globalRecordID option \<Rightarrow> 'a \<Rightarrow> globalRecordID option \<Rightarrow> 'b \<Rightarrow>
   (globalRecordID option \<times> (globalRecordID option \<times> 'a) \<times> (globalRecordID option \<times> 'b)) option" where
  "exclLoop nxA skB iv a ev b =
    (case iv of
      None \<Rightarrow> Some (None, (iv, a), (ev, b))
    | Some x \<Rightarrow> excludeSkip skB x ev b \<bind> (\<lambda>(ev', b').
        nxA a \<bind> (\<lambda>(iv', a').
          if \<not> excludes ev' x then Some (Some x, (iv', a'), (ev', b'))
          else exclLoop nxA skB iv' a' ev' b')))"

definition exclInit :: "'a nextFn \<Rightarrow> 'b nextFn \<Rightarrow> ('a, 'b) globalExclusionIterator \<Rightarrow> 'a \<Rightarrow>
    ((globalRecordID option \<times> 'a) \<times> (globalRecordID option \<times> 'b option)) option" where
  "exclInit nxA nxB it a =
    (if exclInitialized it then Some ((iID it, a), (eID it, exclExclude it))
     else nxA a \<bind> (\<lambda>a'. optNext nxB (exclExclude it) \<bind> (\<lambda>b'. Some (a', b'))))"

definition exclNext :: "'a nextFn \<Rightarrow> 'b nextFn \<Rightarrow> 'b seekFn \<Rightarrow> ('a, 'b) globalExclusionIterator nextFn" where
  "exclNext nxA nxB skB it =
    (case exclInclude it of
      None \<Rightarrow> Some (None, it)
    | Some a \<Rightarrow>
        exclInit nxA nxB it a \<bind> (\<lambda>((iv, a'), (ev, b')).
          exclLoop nxA (optSeek skB) iv a' ev b' \<bind> (\<lambda>(r, (iv', a''), (ev', b'')).
            Some (r, it\<lparr>exclInclude := Some a'', exclExclude := b'', iID := iv', eID := ev', exclInitialized := True\<rparr>))))"

definition exclSeekGE :: "'a nextFn \<Rightarrow> 'a seekFn \<Rightarrow> 'b nextFn \<Rightarrow> 'b seekFn \<Rightarrow>
    ('a, 'b) globalExclusionIterator seekFn" where
  "exclSeekGE nxA skA nxB skB it target =
    (case exclInclude it of
      None \<Rightarrow> Some (None, it)
    | Some a \<Rightarrow> skA a target \<bind> (\<lambda>(iv, a'). 
        (case exclExclude it of None \<Rightarrow> Some (eID it, None) | Some b \<Rightarrow> optSeek skB (Some b) target) \<bind> (\<lambda>(ev, b').
          exclNext nxA nxB skB
            (it\<lparr>exclInclude := Some a', exclExclude := b', iID := iv, eID := ev, exclInitialized := True\<rparr>))))"

section \<open>Filters\<close>

text \<open>
  The filters differ in the test only. Their other fields never change, so they are parameters
  and the state is the base iterator (an option, nil being \<open>None\<close>).
\<close>

partial_function (option) filterLoop :: "(globalRecordID \<Rightarrow> bool) \<Rightarrow> 's nextFn \<Rightarrow> 's nextFn" where
  "filterLoop keep nxt s = nxt s \<bind> (\<lambda>(r, s'). case r of
      None \<Rightarrow> Some (None, s')
    | Some x \<Rightarrow> if keep x then Some (Some x, s') else filterLoop keep nxt s')"

definition filterNext :: "(globalRecordID \<Rightarrow> bool) \<Rightarrow> 's nextFn \<Rightarrow> 's option nextFn" where
  "filterNext keep nxt base = optNext (filterLoop keep nxt) base"

definition filterSeekGE :: "(globalRecordID \<Rightarrow> bool) \<Rightarrow> 's nextFn \<Rightarrow> 's seekFn \<Rightarrow> 's option seekFn" where
  "filterSeekGE keep nxt seek base target =
    optSeek (\<lambda>s t. seek s t \<bind> (\<lambda>(r, s'). case r of
      Some x \<Rightarrow> if keep x then Some (Some x, s') else filterLoop keep nxt s'
    | None \<Rightarrow> filterLoop keep nxt s')) base target"

text \<open>\<open>globalTypeFilterIterator\<close>; a volume without index is \<open>None\<close>.\<close>

definition typeKeep :: "CompactRecord list option list \<Rightarrow> string \<Rightarrow> globalRecordID \<Rightarrow> bool" where
  "typeKeep volumes typ gid =
    (if volume gid < 0 \<or> volume gid \<ge> int (length volumes) \<or> local gid < 0 then False
     else case volumes ! nat (volume gid) of
       None \<Rightarrow> False
     | Some rs \<Rightarrow>
         if local gid \<ge> int (length rs) then False
         else let isDir = isDirMode (Mode (rs ! nat (local gid)))
           in typ = ''dir'' \<and> isDir \<or> typ = ''file'' \<and> \<not> isDir)"

definition typeFilterNext :: "CompactRecord list option list \<Rightarrow> string \<Rightarrow> 's nextFn \<Rightarrow> 's option nextFn" where
  "typeFilterNext volumes typ nxt = filterNext (typeKeep volumes typ) nxt"

definition typeFilterSeekGE ::
  "CompactRecord list option list \<Rightarrow> string \<Rightarrow> 's nextFn \<Rightarrow> 's seekFn \<Rightarrow> 's option seekFn" where
  "typeFilterSeekGE volumes typ nxt seek = filterSeekGE (typeKeep volumes typ) nxt seek"

text \<open>\<open>hiddenBaseIDs\<close>: base records that the overlay of a volume deleted or replaced.\<close>

record hiddenBaseIDs =
  tombstone :: "int list"
  shadowed :: "int list"

definition toInt32 :: "int \<Rightarrow> int" where
  "toInt32 n = signed_take_bit 31 n"

definition searchHit :: "int list \<Rightarrow> int \<Rightarrow> bool" where
  "searchHit xs x = (let pos = sortSearch (length xs) (\<lambda>i. xs ! i \<ge> x) in pos < length xs \<and> xs ! pos = x)"

definition hiddenContains :: "hiddenBaseIDs \<Rightarrow> int \<Rightarrow> bool" where
  "hiddenContains h n =
    (if n < 0 then False
     else if searchHit (tombstone h) (toInt32 n) then True
     else if searchHit (shadowed h) (toInt32 n) then True
     else False)"

definition globalHiddenContains :: "hiddenBaseIDs option list \<Rightarrow> globalRecordID \<Rightarrow> bool" where
  "globalHiddenContains snapshots gid =
    (if volume gid < 0 \<or> volume gid \<ge> int (length snapshots) then False
     else case snapshots ! nat (volume gid) of
       None \<Rightarrow> False
     | Some h \<Rightarrow> hiddenContains h (local gid))"

definition filterGlobalIDsHidden :: "globalRecordID list \<Rightarrow> hiddenBaseIDs option list \<Rightarrow> globalRecordID list" where
  "filterGlobalIDsHidden gids snapshots = filter (\<lambda>gid. \<not> globalHiddenContains snapshots gid) gids"

definition hiddenNext :: "hiddenBaseIDs option list \<Rightarrow> 's nextFn \<Rightarrow> 's option nextFn" where
  "hiddenNext snapshots nxt = filterNext (\<lambda>gid. \<not> globalHiddenContains snapshots gid) nxt"

partial_function (option) hiddenSkip ::
  "hiddenBaseIDs option list \<Rightarrow> 's nextFn \<Rightarrow> globalRecordID option \<Rightarrow> 's nextFn" where
  "hiddenSkip snapshots nxt v s =
    (case v of
      Some x \<Rightarrow> if globalHiddenContains snapshots x then nxt s \<bind> (\<lambda>(v', s'). hiddenSkip snapshots nxt v' s')
        else Some (v, s)
    | None \<Rightarrow> Some (v, s))"

definition hiddenSeekGE :: "hiddenBaseIDs option list \<Rightarrow> 's nextFn \<Rightarrow> 's seekFn \<Rightarrow> 's option seekFn" where
  "hiddenSeekGE snapshots nxt seek base target =
    optSeek (\<lambda>s t. seek s t \<bind> (\<lambda>(v, s'). hiddenSkip snapshots nxt v s')) base target"

lemmas lazy_loop_equations [code] = interLoop.simps exclLoop.simps filterLoop.simps hiddenSkip.simps

section \<open>The merge obeys the contract\<close>

lemma compare_ge [simp]: "0 \<le> compareGlobalRecordID a b \<longleftrightarrow> b \<le> a"
  using compare_cases(2) [of a b] by (simp del: compare_cases flip: not_less)

lemma mergeBetter_simps [simp]:
  "mergeBetter b None = b" "mergeBetter None v = v"
  "mergeBetter (Some y) (Some x) = (if y \<le> x then Some y else Some x)"
  by (simp_all add: mergeBetter_def split: option.split)

lemma foldl_mergeBetter:
  "foldl mergeBetter b vs = None \<longleftrightarrow> b = None \<and> (\<forall>v\<in>set vs. v = None)"
  "foldl mergeBetter b vs = Some r \<Longrightarrow>
    (b = Some r \<or> Some r \<in> set vs) \<and> (\<forall>x. b = Some x \<or> Some x \<in> set vs \<longrightarrow> r \<le> x)"
proof (induction vs arbitrary: b)
  case (Cons v vs)
  { case 1 show ?case by (cases b; cases v) (simp_all add: Cons.IH) }
  { case 2
    then have "foldl mergeBetter (mergeBetter b v) vs = Some r" by simp
    from Cons.IH(2) [OF this] show ?case
      by (cases b; cases v) (auto split: if_splits intro: order_trans) }
qed auto

lemma mergeBest_None: "mergeBest vs = None \<longleftrightarrow> (\<forall>v\<in>set vs. v = None)"
  by (simp add: mergeBest_def foldl_mergeBetter)

lemma mergeBest_Some: "mergeBest vs = Some r \<Longrightarrow> Some r \<in> set vs \<and> (\<forall>x. Some x \<in> set vs \<longrightarrow> r \<le> x)"
  using foldl_mergeBetter(2) [of None vs r] by (simp add: mergeBest_def)

definition pool :: "('s \<Rightarrow> globalRecordID list) \<Rightarrow> globalRecordID option list \<Rightarrow> 's list \<Rightarrow> globalRecordID set" where
  "pool remaining vs cs = (\<Union>(v, c)\<in>set (zip vs cs). set (buffer remaining v c))"

lemma pool_simps [simp]:
  "pool remaining [] cs = {}"
  "pool remaining (v # vs) (c # cs) = set (buffer remaining v c) \<union> pool remaining vs cs"
  by (simp_all add: pool_def)

lemma finite_pool [simp]: "finite (pool remaining vs cs)"
  by (auto simp: pool_def)

lemma pool_mem: "x \<in> pool remaining vs cs \<longleftrightarrow> (\<exists>v c. (v, c) \<in> set (zip vs cs) \<and> x \<in> set (buffer remaining v c))"
  by (auto simp: pool_def)

lemma sorted_list_of_set_ge:
  "finite A \<Longrightarrow> sorted_list_of_set {x \<in> A. t \<le> x} = dropWhile (\<lambda>x. x < t) (sorted_list_of_set A)"
  by (rule strict_sorted_equal [symmetric]) (simp_all add: ascending_dropWhile set_dropWhile_ascending)

definition mergeRemaining :: "('s \<Rightarrow> globalRecordID list) \<Rightarrow> 's globalMergeIterator \<Rightarrow> globalRecordID list" where
  "mergeRemaining remaining it = sorted_list_of_set (pool remaining (current it) (children it))"

context seek_iterator
begin

text \<open>Refilling one child keeps of its identifiers those with \<open>p\<close>.\<close>

definition refills :: "(globalRecordID option \<Rightarrow> bool) \<Rightarrow> 's nextFn \<Rightarrow> (globalRecordID \<Rightarrow> bool) \<Rightarrow>
    globalRecordID option \<Rightarrow> 's \<Rightarrow> bool" where
  "refills sel step p v c \<longleftrightarrow>
    (if sel v then \<exists>v' c'. step c = Some (v', c') \<and> held v' c' \<and>
       set (buffer remaining v' c') = {x \<in> set (buffer remaining v c). p x}
     else \<forall>x\<in>set (buffer remaining v c). p x)"

lemma refill_exact:
  assumes "list_all2 held vs cs" "\<forall>(v, c) \<in> set (zip vs cs). refills sel step p v c"
  obtains cs' vs' where "refill sel step cs vs = Some (cs', vs')" "list_all2 held vs' cs'"
    "pool remaining vs' cs' = {x \<in> pool remaining vs cs. p x}"
proof -
  have "\<exists>cs' vs'. refill sel step cs vs = Some (cs', vs') \<and> list_all2 held vs' cs' \<and>
      pool remaining vs' cs' = {x \<in> pool remaining vs cs. p x}"
    using assms
  proof (induction vs cs rule: list_all2_induct)
    case (Cons v vs c cs)
    from Cons.prems have r: "refills sel step p v c" "\<forall>(v, c) \<in> set (zip vs cs). refills sel step p v c"
      by simp_all
    from Cons.IH [OF r(2)] obtain cs' vs' where rest: "refill sel step cs vs = Some (cs', vs')"
      "list_all2 held vs' cs'" "pool remaining vs' cs' = {x \<in> pool remaining vs cs. p x}" by blast
    show ?case
    proof (cases "sel v")
      case True
      then obtain v' c' where "step c = Some (v', c')" "held v' c'"
        "set (buffer remaining v' c') = {x \<in> set (buffer remaining v c). p x}"
        using r(1) by (auto simp: refills_def)
      with rest True show ?thesis by auto
    next
      case False
      then have "\<forall>x\<in>set (buffer remaining v c). p x" using r(1) by (simp add: refills_def)
      with rest False Cons.hyps(1) show ?thesis by auto
    qed
  qed simp
  then show thesis using that by blast
qed

lemma held_zip: "list_all2 held vs cs \<Longrightarrow> (v, c) \<in> set (zip vs cs) \<Longrightarrow> held v c"
  by (auto simp: list_all2_iff)

definition mergeOk :: "'s globalMergeIterator \<Rightarrow> bool" where
  "mergeOk it \<longleftrightarrow> list_all2 held (current it) (children it)"

lemma held_least: "held (Some x) c \<Longrightarrow> y \<in> set (buffer remaining (Some x) c) \<Longrightarrow> x \<le> y"
  by (auto simp: held_def bufferOk_def)

lemma best_least:
  assumes "list_all2 held vs cs" "mergeBest vs = Some out"
  shows "out \<in> pool remaining vs cs \<and> (\<forall>x \<in> pool remaining vs cs. out \<le> x)"
proof -
  have len: "length vs = length cs" using assms(1) by (rule list_all2_lengthD)
  obtain i where i: "i < length vs" "vs ! i = Some out"
    using mergeBest_Some [OF assms(2)] by (auto simp: in_set_conv_nth)
  then have "(Some out, cs ! i) \<in> set (zip vs cs)" using len by (force simp: set_zip)
  then have "out \<in> pool remaining vs cs" by (auto simp: pool_mem intro!: exI)
  moreover have "out \<le> x" if x: "x \<in> pool remaining vs cs" for x
  proof -
    obtain v c where vc: "(v, c) \<in> set (zip vs cs)" "x \<in> set (buffer remaining v c)"
      using x unfolding pool_mem by blast
    then obtain y where y: "v = Some y" by (cases v) auto
    have "held v c" using assms(1) vc(1) by (auto simp: list_all2_iff)
    with y vc have "y \<le> x" using held_least by blast
    moreover have "out \<le> y" using mergeBest_Some [OF assms(2)] vc(1) y by (auto dest: set_zip_leftD)
    ultimately show ?thesis by (rule order_trans [rotated])
  qed
  ultimately show ?thesis by blast
qed

lemma next_out:
  assumes h: "held v c" and v: "v = Some out"
  shows "\<exists>v' c'. nxt c = Some (v', c') \<and> held v' c' \<and>
    set (buffer remaining v' c') = {x \<in> set (buffer remaining v c). x \<noteq> out}"
proof -
  obtain v' c' where "nxt c = Some (v', c')" "held v' c'" "buffer remaining v' c' = remaining c"
    using next_held [OF held_ok [OF h]] by blast
  moreover have "out \<notin> set (remaining c)" using held_ascending [OF h] v by auto
  ultimately show ?thesis using v by auto
qed

lemma seek_out:
  assumes h: "held v c" and v: "v = Some y" "y < t"
  shows "\<exists>v' c'. seek c t = Some (v', c') \<and> held v' c' \<and>
    set (buffer remaining v' c') = {x \<in> set (buffer remaining v c). t \<le> x}"
proof -
  obtain v' c' where "seek c t = Some (v', c')" "held v' c'"
    "buffer remaining v' c' = dropWhile (\<lambda>x. x < t) (buffer remaining v c)"
    using held_seek [OF h [unfolded v(1)] v(2)] v(1) by blast
  with set_dropWhile_ascending [OF held_ascending [OF h]] show ?thesis by auto
qed

lemma mergeNext_delivers:
  assumes "mergeOk it"
  shows "delivers mergeOk (mergeRemaining remaining) (mergeNext nxt it) (mergeRemaining remaining it)"
proof (cases "mergeBest (current it)")
  case None
  then have "\<forall>v\<in>set (current it). v = None" by (simp add: mergeBest_None)
  then have "pool remaining (current it) (children it) = {}"
    by (auto simp: pool_def dest!: set_zip_leftD)
  with None assms show ?thesis by (simp add: delivers_def mergeNext_def mergeRemaining_def)
next
  case (Some out)
  let ?P = "pool remaining (current it) (children it)"
  note ok = assms [unfolded mergeOk_def]
  note best = best_least [OF ok Some]
  let ?sel = "\<lambda>v. case v of None \<Rightarrow> False | Some x \<Rightarrow> compareGlobalRecordID x out = 0"
  have sel: "?sel v \<longleftrightarrow> v = Some out" for v by (simp split: option.split)
  have "refills ?sel nxt (\<lambda>x. x \<noteq> out) v c" if vc: "(v, c) \<in> set (zip (current it) (children it))" for v c
  proof (cases "?sel v")
    case True
    with next_out [OF held_zip [OF ok vc]] sel show ?thesis by (simp add: refills_def)
  next
    case False
    have "x \<noteq> out" if x: "x \<in> set (buffer remaining v c)" for x
    proof -
      obtain y where y: "v = Some y" using x by (cases v) auto
      then have "out < y" using vc False mergeBest_Some [OF Some]
        by (auto simp: order.strict_iff_order dest: set_zip_leftD)
      moreover have "y \<le> x" using held_least held_zip [OF ok vc] x y by blast
      ultimately show ?thesis by auto
    qed
    with False show ?thesis unfolding refills_def by simp
  qed
  then have "\<forall>(v, c) \<in> set (zip (current it) (children it)). refills ?sel nxt (\<lambda>x. x \<noteq> out) v c" by blast
  from refill_exact [OF ok this] obtain cs vs
    where r: "refill ?sel nxt (children it) (current it) = Some (cs, vs)"
      "list_all2 held vs cs" "pool remaining vs cs = {x \<in> ?P. x \<noteq> out}" by blast
  have P: "insert out {x \<in> ?P. x \<noteq> out} = ?P" using best by auto
  have "\<forall>x\<in>{x \<in> ?P. x \<noteq> out}. out < x" using best by (auto simp: order.strict_iff_order)
  then have "sorted_list_of_set ?P = out # sorted_list_of_set {x \<in> ?P. x \<noteq> out}"
    using sorted_list_of_set_min [of "{x \<in> ?P. x \<noteq> out}" out] unfolding P by simp
  moreover have "mergeNext nxt it = Some (Some out, it\<lparr>children := cs, current := vs\<rparr>)"
    using Some r(1) by (simp add: mergeNext_def del: compare_cases)
  ultimately show ?thesis using r(2,3) by (simp add: delivers_def mergeRemaining_def mergeOk_def)
qed

lemma mergeSeekGE_delivers:
  assumes "mergeOk it"
  shows "delivers mergeOk (mergeRemaining remaining) (mergeSeekGE nxt seek it t)
    (dropWhile (\<lambda>x. x < t) (mergeRemaining remaining it))"
proof -
  let ?sel = "\<lambda>v. case v of None \<Rightarrow> False | Some x \<Rightarrow> compareGlobalRecordID x t < 0"
  note ok = assms [unfolded mergeOk_def]
  have "refills ?sel (\<lambda>c. seek c t) (\<lambda>x. t \<le> x) v c" if vc: "(v, c) \<in> set (zip (current it) (children it))" for v c
  proof (cases v)
    case (Some y)
    note h = held_zip [OF ok vc]
    show ?thesis
    proof (cases "y < t")
      case True
      with seek_out [OF h Some] Some show ?thesis by (simp add: refills_def)
    next
      case False
      then have "\<forall>x\<in>set (buffer remaining v c). t \<le> x" using held_least h Some
        by (metis not_less order_trans)
      with False Some show ?thesis by (simp add: refills_def)
    qed
  qed (simp add: refills_def)
  then have "\<forall>(v, c) \<in> set (zip (current it) (children it)). refills ?sel (\<lambda>c. seek c t) (\<lambda>x. t \<le> x) v c"
    by blast
  from refill_exact [OF ok this] obtain cs vs
    where r: "refill ?sel (\<lambda>c. seek c t) (children it) (current it) = Some (cs, vs)"
      "list_all2 held vs cs" "pool remaining vs cs = {x \<in> pool remaining (current it) (children it). t \<le> x}"
    by blast
  then show ?thesis
    using mergeNext_delivers [of "it\<lparr>children := cs, current := vs\<rparr>"]
    by (simp add: mergeSeekGE_def mergeOk_def mergeRemaining_def sorted_list_of_set_ge)
qed

lemma merge_seek_iterator:
  "seek_iterator (mergeNext nxt) mergeOk (mergeRemaining remaining) (mergeSeekGE nxt seek) (\<lambda>it t. True)"
  by unfold_locales (simp_all add: mergeNext_delivers mergeSeekGE_delivers, simp add: mergeRemaining_def)

lemma newGlobalMergeIterator_exact:
  assumes "\<forall>c. Some c \<in> set cs \<longrightarrow> ok c"
  shows "\<exists>it. newGlobalMergeIterator nxt cs = Some it \<and> mergeOk it \<and>
    set (mergeRemaining remaining it) = (\<Union>c\<in>{c. Some c \<in> set cs}. set (remaining c))"
proof -
  have "\<exists>cs' vs'. refill (\<lambda>v. True) nxt ds (replicate (length ds) None) = Some (cs', vs') \<and>
      list_all2 held vs' cs' \<and> pool remaining vs' cs' = (\<Union>d\<in>set ds. set (remaining d))"
    if "\<forall>d\<in>set ds. ok d" for ds using that
  proof (induction ds)
    case (Cons d ds)
    obtain v c where "nxt d = Some (v, c)" "held v c" "buffer remaining v c = remaining d"
      using next_held [of d] Cons.prems by auto
    with Cons show ?case by auto
  qed simp
  moreover have "set (map the (filter (\<lambda>c. c \<noteq> None) cs)) = {c. Some c \<in> set cs}" (is "set ?ds = _") by force
  ultimately obtain cs' vs' where "refill (\<lambda>v. True) nxt ?ds (replicate (length ?ds) None) = Some (cs', vs')"
    "list_all2 held vs' cs'" "pool remaining vs' cs' = (\<Union>c\<in>{c. Some c \<in> set cs}. set (remaining c))"
    using assms by (metis mem_Collect_eq)
  then show ?thesis
    by (simp add: newGlobalMergeIterator_def Let_def mergeOk_def mergeRemaining_def del: length_map)
qed

end

section \<open>The lazy intersection and exclusion obey the contract for Next\<close>

context intersection_pair
begin

lemma interLoop_exact:
  assumes "a.held av a" "b.held bv b"
  shows "\<exists>av' a' bv' b'. interLoop nxA skA nxB skB av a bv b =
      Some (headOpt (interList (buffer remA av a) (buffer remB bv b)), (av', a'), (bv', b')) \<and>
    a.held av' a' \<and> b.held bv' b' \<and>
    interList (buffer remA av' a') (buffer remB bv' b') = tl (interList (buffer remA av a) (buffer remB bv b))"
  using assms
proof (induction "length (buffer remA av a) + length (buffer remB bv b)" arbitrary: av a bv b rule: less_induct)
  case less
  show ?case
  proof (cases "av = None \<or> bv = None")
    case True
    with less(2,3) show ?thesis by (subst interLoop.simps) (auto split: option.split)
  next
    case False
    then obtain x y where v: "av = Some x" "bv = Some y" by auto
    note turn = intersection_turn [OF less(2,3) [unfolded v]]
    consider "x = y" | "x < y" | "y < x" by fastforce
    then show ?thesis
    proof cases
      case 1
      obtain v' a' where a': "nxA a = Some (v', a')" "a.held v' a'" "buffer remA v' a' = remA a"
        using a.next_held [OF a.held_ok [OF less(2)]] by blast
      obtain w' b' where b': "nxB b = Some (w', b')" "b.held w' b'" "buffer remB w' b' = remB b"
        using b.next_held [OF b.held_ok [OF less(3)]] by blast
      from turn(1) 1 v a' b' show ?thesis by (subst interLoop.simps) simp
    next
      case 2
      obtain v' a' where a': "skA a y = Some (v', a')" "a.held v' a'"
        "length (buffer remA v' a') < length (x # remA a)"
        "interList (buffer remA v' a') (y # remB b) = interList (x # remA a) (y # remB b)"
        using turn(2) [OF 2] by blast
      have "interLoop nxA skA nxB skB av a bv b = interLoop nxA skA nxB skB v' a' bv b"
        using a'(1) v 2 less_imp_neq [OF 2] by (subst interLoop.simps) simp
      with less(1) [of v' a' bv b] less(3) a' v show ?thesis by simp
    next
      case 3
      obtain w' b' where b': "skB b x = Some (w', b')" "b.held w' b'"
        "length (buffer remB w' b') < length (y # remB b)"
        "interList (x # remA a) (buffer remB w' b') = interList (x # remA a) (y # remB b)"
        using turn(3) [OF 3] by blast
      have "interLoop nxA skA nxB skB av a bv b = interLoop nxA skA nxB skB av a w' b'"
        using b'(1) v 3 less_imp_neq [OF 3] less_not_sym [OF 3] by (subst interLoop.simps) simp
      with less(1) [of av a w' b'] less(2) b' v show ?thesis by simp
    qed
  qed
qed

definition interOk :: "('a, 'b) globalIntersectionIterator \<Rightarrow> bool" where
  "interOk it \<longleftrightarrow> (case (interA it, interB it) of
      (Some a, Some b) \<Rightarrow> if interInitialized it then a.held (aID it) a \<and> b.held (bID it) b else okA a \<and> okB b
    | _ \<Rightarrow> True)"

definition interRemaining :: "('a, 'b) globalIntersectionIterator \<Rightarrow> globalRecordID list" where
  "interRemaining it = (case (interA it, interB it) of
      (Some a, Some b) \<Rightarrow> if interInitialized it then interList (buffer remA (aID it) a) (buffer remB (bID it) b)
        else interList (remA a) (remB b)
    | _ \<Rightarrow> [])"

lemma interInit_exact:
  assumes "interOk it" "interA it = Some a" "interB it = Some b"
  shows "\<exists>av a' bv b'. interInit nxA nxB it a b = Some ((av, a'), (bv, b')) \<and> a.held av a' \<and> b.held bv b' \<and>
    interList (buffer remA av a') (buffer remB bv b') = interRemaining it"
proof (cases "interInitialized it")
  case True
  with assms show ?thesis by (simp add: interInit_def interOk_def interRemaining_def)
next
  case False
  with assms have ok: "okA a" "okB b" by (simp_all add: interOk_def)
  obtain av a' where "nxA a = Some (av, a')" "a.held av a'" "buffer remA av a' = remA a"
    using a.next_held [OF ok(1)] by blast
  moreover obtain bv b' where "nxB b = Some (bv, b')" "b.held bv b'" "buffer remB bv b' = remB b"
    using b.next_held [OF ok(2)] by blast
  ultimately show ?thesis using False assms by (simp add: interInit_def interRemaining_def)
qed

lemma interNext_delivers:
  assumes "interOk it"
  shows "delivers interOk interRemaining (interNext nxA skA nxB skB it) (interRemaining it)"
proof (cases "interA it = None \<or> interB it = None")
  case True
  with assms show ?thesis by (auto simp: delivers_def interNext_def interRemaining_def split: option.split)
next
  case False
  then obtain a b where ab: "interA it = Some a" "interB it = Some b" by auto
  obtain av a' bv b' where i: "interInit nxA nxB it a b = Some ((av, a'), (bv, b'))" "a.held av a'" "b.held bv b'"
    "interList (buffer remA av a') (buffer remB bv b') = interRemaining it"
    using interInit_exact [OF assms ab] by blast
  from interLoop_exact [OF i(2,3)] i(1,4) ab show ?thesis
    by (auto simp: delivers_def interNext_def interOk_def interRemaining_def)
qed

lemma inter_next_iterator: "next_iterator (interNext nxA skA nxB skB) interOk interRemaining"
proof
  fix it assume ok: "interOk it"
  then show "ascending (interRemaining it)"
    using a.ordered b.ordered a.held_ascending
    by (auto simp: interOk_def interRemaining_def interList_def ascending_filter split: option.split)
  show "delivers interOk interRemaining (interNext nxA skA nxB skB it) (interRemaining it)"
    by (rule interNext_delivers [OF ok])
qed

end

context exclusion_pair
begin

lemma exclLoop_exact:
  assumes "bufferOk okA remA iv a" "b.held ev b"
  shows "\<exists>iv' a' ev' b'. exclLoop nxA skB iv a ev b =
      Some (headOpt (diffList (buffer remA iv a) (buffer remB ev b)), (iv', a'), (ev', b')) \<and>
    bufferOk okA remA iv' a' \<and> b.held ev' b' \<and>
    diffList (buffer remA iv' a') (buffer remB ev' b') = tl (diffList (buffer remA iv a) (buffer remB ev b))"
  using assms
proof (induction "length (buffer remA iv a)" arbitrary: iv a ev b)
  case 0
  then show ?case by (subst exclLoop.simps) (cases iv; simp add: diffList_def)
next
  case (Suc n)
  then obtain x where iv: "iv = Some x" by (cases iv) auto
  let ?ys = "buffer remB ev b"
  obtain ev' b' where b': "excludeSkip skB x ev b = Some (ev', b')" "b.held ev' b'"
    "buffer remB ev' b' = dropWhile (\<lambda>z. z < x) ?ys"
    using excludeSkip_exact [OF Suc(4)] by blast
  obtain iv' a' where a': "nxA a = Some (iv', a')" "bufferOk okA remA iv' a'" "buffer remA iv' a' = remA a"
    using a.next_step [OF a.bufferOk_ok [OF Suc(3)]] by blast
  have exc: "excludes ev' x \<longleftrightarrow> x \<in> set ?ys"
    using excludes_iff b' b.held_ascending Suc(4) by blast
  have skip: "diffList (remA a) (buffer remB ev' b') = diffList (remA a) ?ys"
    unfolding b'(3) by (rule diffList_skip [OF _ b.held_ascending [OF Suc(4)]])
      (use bufferOk_ascending [OF Suc(3)] iv in simp)
  show ?case
  proof (cases "x \<in> set ?ys")
    case True
    then have "exclLoop nxA skB iv a ev b = exclLoop nxA skB iv' a' ev' b'"
      using iv b' a' exc by (subst exclLoop.simps) simp
    moreover have "diffList (x # remA a) ?ys = diffList (remA a) ?ys" using True by (simp add: diffList_def)
    ultimately show ?thesis using Suc(1) [OF _ a'(2) b'(2)] Suc(2) a'(3) iv skip by simp
  next
    case False
    then have "diffList (x # remA a) ?ys = x # diffList (remA a) ?ys" by (simp add: diffList_def)
    with False iv b'(1,2) a' exc skip show ?thesis by (subst exclLoop.simps) simp
  qed
qed

end

text \<open>A source that may be nil stands for the empty list.\<close>

definition optOk :: "('s \<Rightarrow> bool) \<Rightarrow> 's option \<Rightarrow> bool" where
  "optOk ok b = (case b of None \<Rightarrow> True | Some s \<Rightarrow> ok s)"

definition optRemaining :: "('s \<Rightarrow> globalRecordID list) \<Rightarrow> 's option \<Rightarrow> globalRecordID list" where
  "optRemaining remaining b = (case b of None \<Rightarrow> [] | Some s \<Rightarrow> remaining s)"

definition optSeekable :: "('s \<Rightarrow> globalRecordID \<Rightarrow> bool) \<Rightarrow> 's option \<Rightarrow> globalRecordID \<Rightarrow> bool" where
  "optSeekable seekable b t = (case b of None \<Rightarrow> True | Some s \<Rightarrow> seekable s t)"

lemmas opt_defs = optOk_def optRemaining_def optSeekable_def optNext_def optSeek_def

context seek_iterator
begin

lemma opt_seek_iterator:
  "seek_iterator (optNext nxt) (optOk ok) (optRemaining remaining) (optSeek seek) (optSeekable seekable)"
proof
  fix b t u x b'
  assume ok: "optOk ok b"
  show "ascending (optRemaining remaining b)" using ok ordered by (simp add: opt_defs split: option.splits)
  show "delivers (optOk ok) (optRemaining remaining) (optNext nxt b) (optRemaining remaining b)"
    using ok next_delivers by (fastforce simp: opt_defs delivers_def split: option.splits)
  show "delivers (optOk ok) (optRemaining remaining) (optSeek seek b t) (dropWhile (\<lambda>x. x < t) (optRemaining remaining b))"
    if "optSeekable seekable b t"
    using ok that seek_delivers by (fastforce simp: opt_defs delivers_def split: option.splits)
  show "optSeekable seekable b' t" if "optNext nxt b = Some (Some x, b')" "x < t"
    using ok that next_seekable by (auto simp: opt_defs bind_eq_Some_conv split: option.splits)
  show "optSeekable seekable b' u" if "optSeekable seekable b t" "optSeek seek b t = Some (Some x, b')" "x < u"
    using ok that seek_seekable by (auto simp: opt_defs bind_eq_Some_conv split: option.splits)
qed

end

context exclusion_pair
begin

lemma opt_exclusion_pair:
  "exclusion_pair nxA okA remA (optNext nxB) (optOk okB) (optRemaining remB) (optSeek skB) (optSeekable admB)"
  by (intro exclusion_pair.intro union_pair.intro b.opt_seek_iterator
      seek_iterator.axioms(1) [OF b.opt_seek_iterator] a.next_iterator_axioms)

abbreviation optHeld :: "globalRecordID option \<Rightarrow> 'b option \<Rightarrow> bool" where
  "optHeld \<equiv> seek_iterator.held (optOk okB) (optRemaining remB) (optSeekable admB)"

definition exclOk :: "('a, 'b) globalExclusionIterator \<Rightarrow> bool" where
  "exclOk it \<longleftrightarrow> (case exclInclude it of
      Some a \<Rightarrow> if exclInitialized it then bufferOk okA remA (iID it) a \<and> optHeld (eID it) (exclExclude it)
        else okA a \<and> optOk okB (exclExclude it)
    | None \<Rightarrow> True)"

definition exclRemaining :: "('a, 'b) globalExclusionIterator \<Rightarrow> globalRecordID list" where
  "exclRemaining it = (case exclInclude it of
      Some a \<Rightarrow> if exclInitialized it
        then diffList (buffer remA (iID it) a) (buffer (optRemaining remB) (eID it) (exclExclude it))
        else diffList (remA a) (optRemaining remB (exclExclude it))
    | None \<Rightarrow> [])"

lemma exclInit_exact:
  assumes "exclOk it" "exclInclude it = Some a"
  shows "\<exists>iv a' ev b'. exclInit nxA nxB it a = Some ((iv, a'), (ev, b')) \<and> bufferOk okA remA iv a' \<and>
    optHeld ev b' \<and> diffList (buffer remA iv a') (buffer (optRemaining remB) ev b') = exclRemaining it"
proof (cases "exclInitialized it")
  case True
  with assms show ?thesis by (simp add: exclInit_def exclOk_def exclRemaining_def)
next
  case False
  with assms have ok: "okA a" "optOk okB (exclExclude it)" by (simp_all add: exclOk_def)
  obtain iv a' where "nxA a = Some (iv, a')" "bufferOk okA remA iv a'" "buffer remA iv a' = remA a"
    using a.next_step [OF ok(1)] by blast
  moreover obtain ev b' where "optNext nxB (exclExclude it) = Some (ev, b')" "optHeld ev b'"
    "buffer (optRemaining remB) ev b' = optRemaining remB (exclExclude it)"
    using seek_iterator.next_held [OF b.opt_seek_iterator ok(2)] by blast
  ultimately show ?thesis using False assms by (simp add: exclInit_def exclRemaining_def)
qed

lemma excl_next_iterator: "next_iterator (exclNext nxA nxB skB) exclOk exclRemaining"
proof
  fix it assume ok: "exclOk it"
  then show "ascending (exclRemaining it)"
    using a.ordered
    by (auto simp: exclOk_def exclRemaining_def diffList_def split: option.split
        intro!: ascending_filter dest: bufferOk_ascending)
  show "delivers exclOk exclRemaining (exclNext nxA nxB skB it) (exclRemaining it)"
  proof (cases "exclInclude it")
    case None
    with ok show ?thesis by (simp add: delivers_def exclNext_def exclRemaining_def)
  next
    case (Some a)
    obtain iv a' ev b' where i: "exclInit nxA nxB it a = Some ((iv, a'), (ev, b'))" "bufferOk okA remA iv a'"
      "optHeld ev b'" "diffList (buffer remA iv a') (buffer (optRemaining remB) ev b') = exclRemaining it"
      using exclInit_exact [OF ok Some] by blast
    from exclusion_pair.exclLoop_exact [OF opt_exclusion_pair i(2,3)] i(1,4) Some show ?thesis
      by (auto simp: delivers_def exclNext_def exclOk_def exclRemaining_def)
  qed
qed

end

section \<open>The filters obey the contract\<close>

definition filterRemaining ::
  "(globalRecordID \<Rightarrow> bool) \<Rightarrow> ('s \<Rightarrow> globalRecordID list) \<Rightarrow> 's \<Rightarrow> globalRecordID list" where
  "filterRemaining keep remaining s = filter keep (remaining s)"

lemma filter_dropWhile_head: "headOpt xs = Some x \<Longrightarrow> filter P xs = (if P x then x # filter P (tl xs) else filter P (tl xs))"
  by (cases xs) auto

context seek_iterator
begin

lemma filterLoop_delivers:
  "ok s \<Longrightarrow> delivers ok (filterRemaining keep remaining) (filterLoop keep nxt s) (filter keep (remaining s))"
proof (induction "length (remaining s)" arbitrary: s)
  case 0
  then obtain s' where "nxt s = Some (None, s')" "ok s'" "remaining s' = []"
    using next_delivers [of s] by (auto simp: delivers_def)
  with 0 show ?case by (subst filterLoop.simps) (simp add: delivers_def filterRemaining_def)
next
  case (Suc n)
  then obtain x xs where xs: "remaining s = x # xs" by (cases "remaining s") auto
  with Suc obtain s' where s': "nxt s = Some (Some x, s')" "ok s'" "remaining s' = xs"
    using next_delivers [of s] by (auto simp: delivers_def)
  show ?case
  proof (cases "keep x")
    case True
    with s' xs show ?thesis by (subst filterLoop.simps) (simp add: delivers_def filterRemaining_def)
  next
    case False
    with s' xs Suc(1) [of s'] Suc(2) show ?thesis by (subst filterLoop.simps) simp
  qed
qed

lemma filterLoop_seekable:
  "ok s \<Longrightarrow> filterLoop keep nxt s = Some (Some x, s') \<Longrightarrow> x < t \<Longrightarrow> seekable s' t"
proof (induction "length (remaining s)" arbitrary: s)
  case 0
  then show ?case using filterLoop_delivers [of s keep] by (simp add: delivers_def)
next
  case (Suc n)
  then obtain y ys where ys: "remaining s = y # ys" by (cases "remaining s") auto
  with Suc obtain s1 where s1: "nxt s = Some (Some y, s1)" "ok s1" "remaining s1 = ys"
    using next_delivers [of s] by (auto simp: delivers_def)
  have loop: "filterLoop keep nxt s = (if keep y then Some (Some y, s1) else filterLoop keep nxt s1)"
    by (subst filterLoop.simps) (simp add: s1)
  show ?case
  proof (cases "keep y")
    case True
    with loop Suc.prems s1 next_seekable show ?thesis by auto
  next
    case False
    with loop Suc.prems(2) have "filterLoop keep nxt s1 = Some (Some x, s')" by simp
    from Suc(1) [OF _ s1(2) this Suc.prems(3)] Suc(2) s1(3) ys show ?thesis by simp
  qed
qed

abbreviation filterSeekStep :: "(globalRecordID \<Rightarrow> bool) \<Rightarrow> 's seekFn" where
  "filterSeekStep keep s t \<equiv> seek s t \<bind> (\<lambda>(r, s'). case r of
      Some x \<Rightarrow> if keep x then Some (Some x, s') else filterLoop keep nxt s'
    | None \<Rightarrow> filterLoop keep nxt s')"

lemma filterSeekStep_delivers:
  assumes "ok s" "seekable s t"
  shows "delivers ok (filterRemaining keep remaining) (filterSeekStep keep s t)
    (dropWhile (\<lambda>x. x < t) (filter keep (remaining s)))"
proof -
  let ?xs = "dropWhile (\<lambda>x. x < t) (remaining s)"
  obtain s' where s': "seek s t = Some (headOpt ?xs, s')" "ok s'" "remaining s' = tl ?xs"
    using seek_delivers [OF assms] by (auto simp: delivers_def)
  note rest = filterLoop_delivers [OF s'(2), of keep, unfolded s'(3)]
  have "delivers ok (filterRemaining keep remaining) (filterSeekStep keep s t) (filter keep ?xs)"
  proof (cases "?xs")
    case Nil
    with s' have "filterSeekStep keep s t = filterLoop keep nxt s'" unfolding Nil by simp
    with rest show ?thesis unfolding Nil by simp
  next
    case (Cons x xs)
    show ?thesis
    proof (cases "keep x")
      case True
      with Cons s' show ?thesis by (simp add: delivers_def filterRemaining_def)
    next
      case False
      with Cons s' rest show ?thesis by simp
    qed
  qed
  then show ?thesis by (simp add: dropWhile_filter_ascending ordered [OF assms(1)])
qed

lemma filter_base_iterator:
  "seek_iterator (filterLoop keep nxt) ok (filterRemaining keep remaining) (filterSeekStep keep) seekable"
proof
  fix s t x s' u assume ok: "ok s"
  show "ascending (filterRemaining keep remaining s)"
    by (simp add: filterRemaining_def ascending_filter ordered [OF ok])
  show "delivers ok (filterRemaining keep remaining) (filterLoop keep nxt s) (filterRemaining keep remaining s)"
    using filterLoop_delivers [OF ok] by (simp add: filterRemaining_def)
  show "delivers ok (filterRemaining keep remaining) (filterSeekStep keep s t)
      (dropWhile (\<lambda>x. x < t) (filterRemaining keep remaining s))" if "seekable s t"
    using filterSeekStep_delivers [OF ok that] by (simp add: filterRemaining_def)
  show "seekable s' t" if "filterLoop keep nxt s = Some (Some x, s')" "x < t"
    using filterLoop_seekable [OF ok that] .
  show "seekable s' u" if st: "seekable s t" and out: "filterSeekStep keep s t = Some (Some x, s')" "x < u"
  proof -
    obtain v s1 where s1: "seek s t = Some (v, s1)" "ok s1"
      using seek_delivers [OF ok st] by (auto simp: delivers_def)
    show ?thesis
    proof (cases "\<exists>y. v = Some y \<and> keep y")
      case True
      then show ?thesis using s1 out seek_seekable [OF ok st] by auto
    next
      case False
      then have "filterLoop keep nxt s1 = Some (Some x, s')" using s1 out(1) by (cases v) auto
      then show ?thesis using filterLoop_seekable [OF s1(2)] out(2) by blast
    qed
  qed
qed

lemma filter_seek_iterator:
  "seek_iterator (filterNext keep nxt) (optOk ok) (optRemaining (filterRemaining keep remaining))
    (filterSeekGE keep nxt seek) (optSeekable seekable)"
  using seek_iterator.opt_seek_iterator [OF filter_base_iterator, of keep]
  by (simp add: filterNext_def [abs_def] filterSeekGE_def [abs_def])

text \<open>The hidden filter's \<open>SeekGE\<close> loops over \<open>Next\<close> itself.\<close>

lemma hiddenSkip_exact:
  fixes snapshots
  defines "keep \<equiv> \<lambda>gid. \<not> globalHiddenContains snapshots gid"
  assumes "held v s"
  shows "\<exists>v' s'. hiddenSkip snapshots nxt v s = Some (v', s') \<and> held v' s' \<and>
    buffer (filterRemaining keep remaining) v' s' = filter keep (buffer remaining v s)"
  using assms(2)
proof (induction "length (buffer remaining v s)" arbitrary: v s)
  case 0
  then have "v = None" by (cases v) auto
  with 0 show ?case by (subst hiddenSkip.simps) auto
next
  case (Suc n)
  then obtain x where v: "v = Some x" by (cases v) auto
  obtain w s1 where s1: "nxt s = Some (w, s1)" "held w s1" "buffer remaining w s1 = remaining s"
    using next_held [OF held_ok [OF Suc(3)]] by blast
  show ?case
  proof (cases "keep x")
    case True
    with v Suc(3) show ?thesis by (subst hiddenSkip.simps) (auto simp: keep_def filterRemaining_def)
  next
    case False
    then have "hiddenSkip snapshots nxt v s = hiddenSkip snapshots nxt w s1"
      using v s1 by (subst hiddenSkip.simps) (simp add: keep_def)
    with Suc(1) [OF _ s1(2)] Suc(2) s1(3) v False show ?thesis by simp
  qed
qed

lemma held_delivers:
  assumes "held v s" "buffer (filterRemaining keep remaining) v s = xs"
  shows "delivers ok (filterRemaining keep remaining) (Some (v, s)) xs"
  using assms by (cases v) (auto simp: delivers_def held_def bufferOk_def filterRemaining_def)

lemma hidden_seek_iterator:
  fixes snapshots
  defines "keep \<equiv> \<lambda>gid. \<not> globalHiddenContains snapshots gid"
  shows "seek_iterator (hiddenNext snapshots nxt) (optOk ok) (optRemaining (filterRemaining keep remaining))
    (hiddenSeekGE snapshots nxt seek) (optSeekable seekable)"
proof -
  let ?step = "\<lambda>s t. seek s t \<bind> (\<lambda>(v, s'). hiddenSkip snapshots nxt v s')"
  note f = filter_base_iterator [of keep]
  have step: "\<exists>v' s'. ?step s t = Some (v', s') \<and> held v' s' \<and>
      buffer (filterRemaining keep remaining) v' s' = dropWhile (\<lambda>x. x < t) (filterRemaining keep remaining s)"
    if ok: "ok s" "seekable s t" for s t
  proof -
    obtain v s1 where s1: "seek s t = Some (v, s1)" "held v s1"
      "buffer remaining v s1 = dropWhile (\<lambda>x. x < t) (remaining s)"
      using seek_held [OF ok] by blast
    with hiddenSkip_exact [OF s1(2), of snapshots, folded keep_def] show ?thesis
      by (auto simp: filterRemaining_def dropWhile_filter_ascending ordered [OF ok(1)])
  qed
  have "seek_iterator (filterLoop keep nxt) ok (filterRemaining keep remaining) ?step seekable"
  proof (intro seek_iterator.intro seek_iterator_axioms.intro)
    show "next_iterator (filterLoop keep nxt) ok (filterRemaining keep remaining)"
      using f by (rule seek_iterator.axioms(1))
    show "delivers ok (filterRemaining keep remaining) (?step s t) (dropWhile (\<lambda>x. x < t) (filterRemaining keep remaining s))"
      if "ok s" "seekable s t" for s t
      using step [OF that] held_delivers by fastforce
    show "seekable s' u" if "ok s" "seekable s t" "?step s t = Some (Some x, s')" "x < u" for s t x s' u
      using step [OF that(1,2)] that(3,4) by (auto simp: held_def)
    show "seekable s' t" if "ok s" "filterLoop keep nxt s = Some (Some x, s')" "x < t" for s x s' t
      using filterLoop_seekable [OF that] .
  qed
  from seek_iterator.opt_seek_iterator [OF this] show ?thesis
    by (simp add: filterNext_def [abs_def] hiddenNext_def [abs_def] hiddenSeekGE_def [abs_def] keep_def)
qed

end

section \<open>The iterators the query planner builds\<close>

text \<open>
  A query source is the merge of one record iterator per volume; the planner intersects, excludes
  and filters such sources.
\<close>

abbreviation sourceNext :: "globalRecordIterator globalMergeIterator nextFn" where
  "sourceNext \<equiv> mergeNext recordNext"

abbreviation sourceSeekGE :: "globalRecordIterator globalMergeIterator seekFn" where
  "sourceSeekGE \<equiv> mergeSeekGE recordNext recordSeekGE"

abbreviation sourceRemaining :: "globalRecordIterator globalMergeIterator \<Rightarrow> globalRecordID list" where
  "sourceRemaining \<equiv> mergeRemaining recordRemaining"

interpretation source: seek_iterator sourceNext records.mergeOk sourceRemaining sourceSeekGE "\<lambda>it t. True"
  by (rule records.merge_seek_iterator)

interpretation sources: intersection_pair
  sourceNext records.mergeOk sourceRemaining sourceSeekGE "\<lambda>it t. True"
  sourceNext records.mergeOk sourceRemaining sourceSeekGE "\<lambda>it t. True"
  by unfold_locales

interpretation lazyIntersection: next_iterator
  "interNext sourceNext sourceSeekGE sourceNext sourceSeekGE" sources.interOk sources.interRemaining
  by (rule sources.inter_next_iterator)

interpretation lazyExclusion: next_iterator
  "exclNext sourceNext sourceNext sourceSeekGE" sources.exclOk sources.exclRemaining
  by (rule sources.excl_next_iterator)

interpretation typeFiltered: seek_iterator
  "typeFilterNext volumes kind sourceNext" "optOk records.mergeOk"
  "optRemaining (filterRemaining (typeKeep volumes kind) sourceRemaining)"
  "typeFilterSeekGE volumes kind sourceNext sourceSeekGE" "optSeekable (\<lambda>it t. True)" for volumes kind
  unfolding typeFilterNext_def typeFilterSeekGE_def by (rule source.filter_seek_iterator)

interpretation unhidden: seek_iterator
  "hiddenNext snapshots sourceNext" "optOk records.mergeOk"
  "optRemaining (filterRemaining (\<lambda>gid. \<not> globalHiddenContains snapshots gid) sourceRemaining)"
  "hiddenSeekGE snapshots sourceNext sourceSeekGE" "optSeekable (\<lambda>it t. True)" for snapshots
  by (rule source.hidden_seek_iterator)

definition idSet :: "globalRecordIterator list \<Rightarrow> globalRecordID set" where
  "idSet cs = (\<Union>c\<in>set cs. set (recordRemaining c))"

lemma source_of_volumes:
  assumes "\<forall>c\<in>set cs. recordOk c"
  obtains a where "newGlobalMergeIterator recordNext (map Some cs) = Some a" "records.mergeOk a"
    "sourceRemaining a = sorted_list_of_set (idSet cs)" "finite (idSet cs)"
proof -
  obtain a where a: "newGlobalMergeIterator recordNext (map Some cs) = Some a" "records.mergeOk a"
    "set (sourceRemaining a) = (\<Union>c\<in>{c. Some c \<in> set (map Some cs)}. set (recordRemaining c))"
    using records.newGlobalMergeIterator_exact [of "map Some cs"] assms by auto
  then have set: "set (sourceRemaining a) = idSet cs" by (auto simp: idSet_def)
  then have "sourceRemaining a = sorted_list_of_set (idSet cs)"
    using ascending_sorted [OF source.ordered [OF a(2)]] by simp
  moreover have "finite (idSet cs)" using set by (metis List.finite_set)
  ultimately show thesis using a that by blast
qed

lemma set_operations_sorted:
  assumes "finite A" "finite B"
  shows "interList (sorted_list_of_set A) (sorted_list_of_set B) = sorted_list_of_set (A \<inter> B)"
    and "diffList (sorted_list_of_set A) (sorted_list_of_set B) = sorted_list_of_set (A - B)"
    and "unionList (sorted_list_of_set A) (sorted_list_of_set B) = sorted_list_of_set (A \<union> B)"
  using assms
  by (auto simp: interList_def diffList_def unionList_def intro!: strict_sorted_equal ascending_filter)

text \<open>
  C11: The set operations of the global query engine return, and are exact: for sources merged
  from any well-formed per-volume posting lists, \<open>intersectGlobalIterators\<close>,
  \<open>unionGlobalIterators\<close>, \<open>excludeGlobalIterator\<close> and \<open>collectGlobalIterator\<close> terminate and
  return the intersection, union, difference and the whole set of record IDs in ascending order
  without duplicates, cut at \<open>limit\<close> when it is positive.
\<close>

theorem global_set_operations_exact:
  assumes "\<forall>c \<in> set cs \<union> set ds. recordOk c"
  shows "\<exists>a b. newGlobalMergeIterator recordNext (map Some cs) = Some a \<and>
    newGlobalMergeIterator recordNext (map Some ds) = Some b \<and>
    intersectGlobalIterators sourceNext sourceSeekGE sourceNext sourceSeekGE (Some a) (Some b) limit =
      Some (limited limit (sorted_list_of_set (idSet cs \<inter> idSet ds))) \<and>
    unionGlobalIterators sourceNext sourceNext (Some a) (Some b) limit =
      Some (limited limit (sorted_list_of_set (idSet cs \<union> idSet ds))) \<and>
    excludeGlobalIterator sourceNext sourceNext sourceSeekGE (Some a) (Some b) limit =
      Some (limited limit (sorted_list_of_set (idSet cs - idSet ds))) \<and>
    collectGlobalIterator sourceNext (Some a) limit = Some (limited limit (sorted_list_of_set (idSet cs)))"
proof -
  obtain a where a: "newGlobalMergeIterator recordNext (map Some cs) = Some a" "records.mergeOk a"
    "sourceRemaining a = sorted_list_of_set (idSet cs)" "finite (idSet cs)"
    using source_of_volumes [of cs] assms by auto
  obtain b where b: "newGlobalMergeIterator recordNext (map Some ds) = Some b" "records.mergeOk b"
    "sourceRemaining b = sorted_list_of_set (idSet ds)" "finite (idSet ds)"
    using source_of_volumes [of ds] assms by auto
  note ok = a(2) b(2) and sorted = set_operations_sorted [OF a(4) b(4)]
  show ?thesis
    using a(1,3) b(1,3) sources.intersect_exact [OF ok] sources.union_exact [OF ok]
      sources.exclude_exact [OF ok] source.collect_exact [OF a(2)] sorted
    by (intro exI [of _ a] exI [of _ b]) simp
qed

definition exampleA :: "globalRecordIterator list" where
  "exampleA = [newGlobalRecordIterator 0 [1, 5], newGlobalRecordIterator 1 [2]]"

definition exampleB :: "globalRecordIterator list" where
  "exampleB = [newGlobalRecordIterator 0 [5, 7], newGlobalRecordIterator 1 [2, 3]]"

lemmas example_defs = exampleA_def exampleB_def newGlobalRecordIterator_def recordOk_def recordRemaining_def idSet_def

theorem global_set_operations_exact_witness:
  "\<exists>a b. newGlobalMergeIterator recordNext (map Some exampleA) = Some a \<and>
    newGlobalMergeIterator recordNext (map Some exampleB) = Some b \<and>
    intersectGlobalIterators sourceNext sourceSeekGE sourceNext sourceSeekGE (Some a) (Some b) 0 =
      Some [GlobalRecordID 0 5, GlobalRecordID 1 2]"
proof -
  have "\<forall>c \<in> set exampleA \<union> set exampleB. recordOk c" by (simp add: example_defs)
  note global_set_operations_exact [OF this, of 0]
  moreover have "idSet exampleA \<inter> idSet exampleB = {GlobalRecordID 0 5, GlobalRecordID 1 2}"
    by (auto simp: example_defs)
  moreover have "sorted_list_of_set {GlobalRecordID 0 5, GlobalRecordID 1 2} = [GlobalRecordID 0 5, GlobalRecordID 1 2]"
    by (rule strict_sorted_equal) simp_all
  ultimately show ?thesis by (auto simp: limited_def)
qed

text \<open>
  C35: The lazy operators are exact for a query of two sources: collecting a
  \<open>globalIntersectionIterator\<close> or a \<open>globalExclusionIterator\<close> over merged sources (also with no
  excluded source) terminates with the intersection or the difference in ascending order, cut at
  \<open>limit\<close>.
\<close>

theorem lazy_set_iterators_exact:
  assumes "\<forall>c \<in> set cs \<union> set ds. recordOk c"
  shows "\<exists>a b. newGlobalMergeIterator recordNext (map Some cs) = Some a \<and>
    newGlobalMergeIterator recordNext (map Some ds) = Some b \<and>
    collectGlobalIterator (interNext sourceNext sourceSeekGE sourceNext sourceSeekGE)
      (Some (newGlobalIntersectionIterator (Some a) (Some b))) limit =
      Some (limited limit (sorted_list_of_set (idSet cs \<inter> idSet ds))) \<and>
    collectGlobalIterator (exclNext sourceNext sourceNext sourceSeekGE)
      (Some (newGlobalExclusionIterator (Some a) (Some b))) limit =
      Some (limited limit (sorted_list_of_set (idSet cs - idSet ds))) \<and>
    collectGlobalIterator (exclNext sourceNext sourceNext sourceSeekGE)
      (Some (newGlobalExclusionIterator (Some a) None)) limit =
      Some (limited limit (sorted_list_of_set (idSet cs)))"
proof -
  obtain a where a: "newGlobalMergeIterator recordNext (map Some cs) = Some a" "records.mergeOk a"
    "sourceRemaining a = sorted_list_of_set (idSet cs)" "finite (idSet cs)"
    using source_of_volumes [of cs] assms by auto
  obtain b where b: "newGlobalMergeIterator recordNext (map Some ds) = Some b" "records.mergeOk b"
    "sourceRemaining b = sorted_list_of_set (idSet ds)" "finite (idSet ds)"
    using source_of_volumes [of ds] assms by auto
  let ?i = "newGlobalIntersectionIterator (Some a) (Some b)"
  let ?e = "\<lambda>b. newGlobalExclusionIterator (Some a) b"
  have "sources.interOk ?i" "sources.exclOk (?e (Some b))" "sources.exclOk (?e None)"
    using a b by (simp_all add: sources.interOk_def sources.exclOk_def optOk_def
        newGlobalIntersectionIterator_def newGlobalExclusionIterator_def)
  note collects = lazyIntersection.collect_exact [OF this(1)] lazyExclusion.collect_exact [OF this(2)]
    lazyExclusion.collect_exact [OF this(3)]
  have "sources.interRemaining ?i = sorted_list_of_set (idSet cs \<inter> idSet ds)"
    "sources.exclRemaining (?e (Some b)) = sorted_list_of_set (idSet cs - idSet ds)"
    "sources.exclRemaining (?e None) = sorted_list_of_set (idSet cs)"
    using a b set_operations_sorted [OF a(4) b(4)]
    by (simp_all add: sources.interRemaining_def sources.exclRemaining_def optRemaining_def diffList_def
        newGlobalIntersectionIterator_def newGlobalExclusionIterator_def)
  with collects a(1) b(1) show ?thesis by (intro exI [of _ a] exI [of _ b]) simp
qed

theorem lazy_set_iterators_exact_witness:
  "\<exists>a b. newGlobalMergeIterator recordNext (map Some exampleA) = Some a \<and>
    newGlobalMergeIterator recordNext (map Some exampleB) = Some b \<and>
    collectGlobalIterator (exclNext sourceNext sourceNext sourceSeekGE)
      (Some (newGlobalExclusionIterator (Some a) (Some b))) 0 = Some [GlobalRecordID 0 1]"
proof -
  have "\<forall>c \<in> set exampleA \<union> set exampleB. recordOk c" by (simp add: example_defs)
  note lazy_set_iterators_exact [OF this, of 0]
  moreover have "idSet exampleA - idSet exampleB = {GlobalRecordID 0 1}" by (auto simp: example_defs)
  ultimately show ?thesis by (auto simp: limited_def)
qed

text \<open>
  An intersection of three sources can lose results. The sources hold the records 1 and 5,
  1 and 5, and 5 of volume 0; record 5 is in all three, the planner's nested iterator
  \<open>(a \<inter> b) \<inter> c\<close> returns nothing. \<open>SeekGE\<close> of the inner intersection seeks its sources past the
  identifiers it had already taken from them.
\<close>

theorem nested_intersection_loses_result:
  "collectGlobalIterator
     (interNext (interNext recordNext recordSeekGE recordNext recordSeekGE)
        (interSeekGE recordNext recordSeekGE recordNext recordSeekGE) recordNext recordSeekGE)
     (Some (newGlobalIntersectionIterator
        (Some (newGlobalIntersectionIterator (Some (newGlobalRecordIterator 0 [1, 5]))
          (Some (newGlobalRecordIterator 0 [1, 5]))))
        (Some (newGlobalRecordIterator 0 [5])))) 0 = Some []"
  by code_simp

lemma searchHit_mem: "ascending xs \<Longrightarrow> searchHit xs x \<longleftrightarrow> x \<in> set xs"
  using sortSearch_mem [of xs x] by (simp add: searchHit_def Let_def)

lemma toInt32_id: "0 \<le> n \<Longrightarrow> n < 2 ^ 31 \<Longrightarrow> toInt32 n = n"
  by (simp add: toInt32_def signed_take_bit_int_eq_self)

lemma hiddenContains_mem:
  assumes "ascending (tombstone h)" "ascending (shadowed h)" "0 \<le> n" "n < 2 ^ 31"
  shows "hiddenContains h n \<longleftrightarrow> n \<in> set (tombstone h) \<union> set (shadowed h)"
  using assms by (simp add: hiddenContains_def toInt32_id searchHit_mem)

text \<open>
  C36: The overlay filter is exact, also after a seek: \<open>SeekGE\<close> of the hidden filter over a merged
  source and then \<open>Next\<close> until the end return exactly the records of the source that are at or
  after the target and that no overlay tombstones or shadows, in ascending order.
\<close>

theorem hidden_filter_seek_exact:
  assumes "\<forall>c \<in> set cs. recordOk c \<and> itVolume c \<ge> 0 \<and> itVolume c < int (length hs) \<and> (\<forall>x\<in>set (itIds c). x < 2 ^ 31)"
    and "\<forall>h \<in> set hs. ascending (tombstone h) \<and> ascending (shadowed h)"
  shows "\<exists>a v a' rest. newGlobalMergeIterator recordNext (map Some cs) = Some a \<and>
    hiddenSeekGE (map Some hs) sourceNext sourceSeekGE (Some a) t = Some (v, a') \<and>
    collectGlobalIterator (hiddenNext (map Some hs) sourceNext) (Some a') 0 = Some rest \<and>
    (case v of None \<Rightarrow> [] | Some x \<Rightarrow> x # rest) =
      sorted_list_of_set {x \<in> idSet cs. t \<le> x \<and>
        local x \<notin> set (tombstone (hs ! nat (volume x))) \<union> set (shadowed (hs ! nat (volume x)))}"
proof -
  let ?keep = "\<lambda>gid. \<not> globalHiddenContains (map Some hs) gid"
  let ?rem = "optRemaining (filterRemaining ?keep sourceRemaining)"
  obtain a where a: "newGlobalMergeIterator recordNext (map Some cs) = Some a" "records.mergeOk a"
    "sourceRemaining a = sorted_list_of_set (idSet cs)" "finite (idSet cs)"
    using source_of_volumes [of cs] assms by auto
  obtain v a' where s: "hiddenSeekGE (map Some hs) sourceNext sourceSeekGE (Some a) t = Some (v, a')"
    "unhidden.held (map Some hs) v a'" "buffer ?rem v a' = dropWhile (\<lambda>x. x < t) (?rem (Some a))"
    using unhidden.seek_held [of "Some a" t "map Some hs"] a(2) by (auto simp: opt_defs)
  have "collectGlobalIterator (hiddenNext (map Some hs) sourceNext) (Some a') 0 = Some (?rem a')"
    using unhidden.collect_exact [OF unhidden.held_ok [OF s(2)], where limit = 0] by (simp add: limited_def)
  moreover have "?keep x \<longleftrightarrow> local x \<notin> set (tombstone (hs ! nat (volume x))) \<union> set (shadowed (hs ! nat (volume x)))"
    if x: "x \<in> idSet cs" for x
  proof -
    obtain c where c: "c \<in> set cs" "volume x = itVolume c" "local x \<in> set (itIds c)"
      using x by (auto simp: idSet_def recordRemaining_def dest: in_set_dropD)
    then have "0 \<le> local x" "local x < 2 ^ 31" "0 \<le> volume x" "nat (volume x) < length hs"
      "\<not> int (length hs) \<le> volume x"
      using assms(1) by (auto simp: recordOk_def)
    then show ?thesis using assms(2)
      by (simp add: globalHiddenContains_def hiddenContains_mem)
  qed
  then have "dropWhile (\<lambda>x. x < t) (?rem (Some a)) = sorted_list_of_set {x \<in> idSet cs. t \<le> x \<and>
      local x \<notin> set (tombstone (hs ! nat (volume x))) \<union> set (shadowed (hs ! nat (volume x)))}"
    using a(3,4) by (intro strict_sorted_equal)
      (auto simp: optRemaining_def filterRemaining_def ascending_filter ascending_dropWhile set_dropWhile_ascending)
  ultimately show ?thesis using a(1) s(1,3)
    by (intro exI [of _ a] exI [of _ v] exI [of _ a'] exI [of _ "?rem a'"]) (simp add: buffer_def)
qed

theorem hidden_filter_seek_exact_witness:
  "\<exists>a v a' rest. newGlobalMergeIterator recordNext (map Some exampleA) = Some a \<and>
    hiddenSeekGE (map Some [\<lparr>tombstone = [5], shadowed = []\<rparr>, \<lparr>tombstone = [], shadowed = []\<rparr>])
      sourceNext sourceSeekGE (Some a) (GlobalRecordID 0 3) = Some (v, a') \<and>
    (case v of None \<Rightarrow> [] | Some x \<Rightarrow> x # rest) = [GlobalRecordID 1 2]"
proof -
  let ?hs = "[\<lparr>tombstone = [5], shadowed = []\<rparr>, \<lparr>tombstone = [], shadowed = []\<rparr>] :: hiddenBaseIDs list"
  have "{x \<in> idSet exampleA. GlobalRecordID 0 3 \<le> x \<and>
      local x \<notin> set (tombstone (?hs ! nat (volume x))) \<union> set (shadowed (?hs ! nat (volume x)))} = {GlobalRecordID 1 2}"
    by (auto simp: example_defs)
  with hidden_filter_seek_exact [of exampleA ?hs "GlobalRecordID 0 3"] show ?thesis
    by (simp add: example_defs) blast
qed

end
