(* ===== verification/Packed.thy ===== *)
theory Packed
  imports Records
begin

text \<open>
  The packed record store (\<open>packed_records.go\<close>, \<open>newPackedRecords\<close> in \<open>service_state.go\<close>): the
  compact records of a volume as parallel arrays, with names in a blob, modes and deletion flags
  in bitsets, unusual modes and large sizes in sorted side arrays, and parent references derived
  from the parent's index where they agree with it.

  A Go slice that the code distinguishes from nil (\<open>Size32\<close>, \<open>ModUnix\<close>) is a list, nil being
  \<open>[]\<close>: the code makes these slices with one entry per record, and a store has at least one record.
  \<open>toLower\<close> is \<open>strings.ToLower\<close>.

  The store refines the list of its records: packing and reading back returns the records, and
  \<open>Set\<close> and \<open>Append\<close> update and extend that list, as the locale \<open>record_store\<close> demands.
\<close>

section \<open>State\<close>

record PackedRecords =
  FRNs :: "u64 list"
  ParentFRNExtras :: "nat \<Rightarrow> u64 option"
  Parents :: "int list"
  NameOffs :: "u32 list"
  NameLens :: "u16 list"
  LowerOffs :: "u32 list"
  DirBits :: "u64 list"
  ModeExtraIDs :: "u32 list"
  ModeExtraValues :: "u32 list"
  Size32 :: "u32 list"
  Size64IDs :: "u32 list"
  Size64Values :: "int list"
  ModUnixs :: "int list"
  DeletedBits :: "u64 list"
  NameBlob :: string
  LowerBlob :: string

definition packedSize64Sentinel :: u32 where
  "packedSize64Sentinel = - 1"

definition packedLowerSameAsName :: u32 where
  "packedLowerSameAsName = - 1"

definition packedLen :: "PackedRecords \<Rightarrow> nat" where
  "packedLen p = length (FRNs p)"

section \<open>Sorted side arrays\<close>

text \<open>The binary search that the mode and size side arrays share.\<close>

definition sideIndex :: "u32 list \<Rightarrow> u32 \<Rightarrow> nat" where
  "sideIndex ids x = sortSearch (length ids) (\<lambda>j. ids ! j \<ge> x)"

definition sideLookup :: "u32 list \<Rightarrow> 'a list \<Rightarrow> u32 \<Rightarrow> 'a option" where
  "sideLookup ids vals x =
    (let j = sideIndex ids x
     in if j < length ids \<and> ids ! j = x \<and> j < length vals then Some (vals ! j) else None)"

definition insertAt :: "nat \<Rightarrow> 'a \<Rightarrow> 'a list \<Rightarrow> 'a list" where
  "insertAt j v xs = take j xs @ v # drop j xs"

definition removeAt :: "nat \<Rightarrow> 'a list \<Rightarrow> 'a list" where
  "removeAt j xs = take j xs @ drop (j + 1) xs"

definition sideUpsert :: "u32 list \<Rightarrow> 'a list \<Rightarrow> u32 \<Rightarrow> 'a \<Rightarrow> u32 list \<times> 'a list" where
  "sideUpsert ids vals x v =
    (let j = sideIndex ids x
     in if j < length ids \<and> ids ! j = x then (ids, vals[j := v])
        else (insertAt j x ids, insertAt j v vals))"

definition sideRemove :: "u32 list \<Rightarrow> 'a list \<Rightarrow> u32 \<Rightarrow> u32 list \<times> 'a list" where
  "sideRemove ids vals x =
    (let j = sideIndex ids x
     in if j \<ge> length ids \<or> ids ! j \<noteq> x then (ids, vals) else (removeAt j ids, removeAt j vals))"

section \<open>Reading\<close>

definition parentFRNAt :: "PackedRecords \<Rightarrow> nat \<Rightarrow> u64" where
  "parentFRNAt p i =
    (if i \<ge> length (FRNs p) then 0
     else case ParentFRNExtras p i of
       Some value \<Rightarrow> value
     | None \<Rightarrow>
         let parent = Parents p ! i
         in if parent \<ge> 0 \<and> parent < int (length (FRNs p)) then FRNs p ! nat parent else FRNs p ! i)"

definition sizeAt :: "PackedRecords \<Rightarrow> nat \<Rightarrow> int" where
  "sizeAt p i =
    (if i \<ge> length (Size32 p) then 0
     else
       let value = Size32 p ! i
       in if value \<noteq> packedSize64Sentinel then uint value
          else case sideLookup (Size64IDs p) (Size64Values p) (of_nat i) of Some v \<Rightarrow> v | None \<Rightarrow> 0)"

definition modUnixAt :: "PackedRecords \<Rightarrow> nat \<Rightarrow> int" where
  "modUnixAt p i = (if i \<ge> length (ModUnixs p) then 0 else ModUnixs p ! i)"

definition deletedAt :: "PackedRecords \<Rightarrow> nat \<Rightarrow> bool" where
  "deletedAt p i = (if i div 64 \<ge> length (DeletedBits p) then False else bitsetTest (DeletedBits p) i)"

definition modeAt :: "PackedRecords \<Rightarrow> nat \<Rightarrow> u32" where
  "modeAt p i =
    (case sideLookup (ModeExtraIDs p) (ModeExtraValues p) (of_nat i) of
      Some v \<Rightarrow> v
    | None \<Rightarrow>
        if i div 64 \<ge> length (DirBits p) then 0
        else if bitsetTest (DirBits p) i then modeDir else 0)"

definition nameAt :: "PackedRecords \<Rightarrow> nat \<Rightarrow> string" where
  "nameAt p i =
    (if i \<ge> length (NameOffs p) then []
     else
       let off = unat (NameOffs p ! i); len = unat (NameLens p ! i)
       in if off + len > length (NameBlob p) then [] else take len (drop off (NameBlob p)))"

definition lowerNameAt :: "(string \<Rightarrow> string) \<Rightarrow> PackedRecords \<Rightarrow> nat \<Rightarrow> string" where
  "lowerNameAt toLower p i =
    (if i \<ge> length (LowerOffs p) then []
     else
       let off = LowerOffs p ! i
       in if off = packedLowerSameAsName then nameAt p i
          else
            let len = unat (NameLens p ! i)
            in if unat off + len > length (LowerBlob p) then toLower (nameAt p i)
               else take len (drop (unat off) (LowerBlob p)))"

definition packedAt :: "PackedRecords \<Rightarrow> int \<Rightarrow> CompactRecord" where
  "packedAt p k =
    (if k < 0 \<or> k \<ge> int (length (FRNs p)) then zeroRecord
     else
       let i = nat k
       in \<lparr>FRN = FRNs p ! i, ParentFRN = parentFRNAt p i, Parent = Parents p ! i, Name = nameAt p i,
           NameOff = NameOffs p ! i, NameLen = NameLens p ! i, Mode = modeAt p i, Size = sizeAt p i,
           ModUnix = modUnixAt p i, Deleted = deletedAt p i\<rparr>)"

section \<open>Writing\<close>

definition setParentFRN :: "nat \<Rightarrow> u64 \<Rightarrow> PackedRecords \<Rightarrow> PackedRecords" where
  "setParentFRN i parentFRN p =
    (if i \<ge> length (FRNs p) then p
     else
       let parent = Parents p ! i;
           derived = (if parent \<ge> 0 \<and> parent < int (length (FRNs p)) then FRNs p ! nat parent else FRNs p ! i)
       in if parentFRN = derived then p\<lparr>ParentFRNExtras := (ParentFRNExtras p)(i := None)\<rparr>
          else p\<lparr>ParentFRNExtras := (ParentFRNExtras p)(i := Some parentFRN)\<rparr>)"

text \<open>A bitset long enough for bit \<open>i\<close>.\<close>

definition growBits :: "u64 list \<Rightarrow> nat \<Rightarrow> u64 list" where
  "growBits bits i = (if i div 64 \<ge> length bits then bits @ replicate (i div 64 + 1 - length bits) 0 else bits)"

definition setBit :: "u64 list \<Rightarrow> nat \<Rightarrow> bool \<Rightarrow> u64 list" where
  "setBit bits i value = (if value then bitsetSet bits i else bitsetClear bits i)"

definition setDeleted :: "nat \<Rightarrow> bool \<Rightarrow> PackedRecords \<Rightarrow> PackedRecords" where
  "setDeleted i value p =
    (if i \<ge> length (FRNs p) then p else p\<lparr>DeletedBits := setBit (growBits (DeletedBits p) i) i value\<rparr>)"

definition upsertModeExtra :: "nat \<Rightarrow> u32 \<Rightarrow> PackedRecords \<Rightarrow> PackedRecords" where
  "upsertModeExtra i value p =
    (let (ids, vals) = sideUpsert (ModeExtraIDs p) (ModeExtraValues p) (of_nat i) value
     in p\<lparr>ModeExtraIDs := ids, ModeExtraValues := vals\<rparr>)"

definition removeModeExtra :: "nat \<Rightarrow> PackedRecords \<Rightarrow> PackedRecords" where
  "removeModeExtra i p =
    (let (ids, vals) = sideRemove (ModeExtraIDs p) (ModeExtraValues p) (of_nat i)
     in p\<lparr>ModeExtraIDs := ids, ModeExtraValues := vals\<rparr>)"

definition setMode :: "nat \<Rightarrow> u32 \<Rightarrow> PackedRecords \<Rightarrow> PackedRecords" where
  "setMode i mode p =
    (if i \<ge> length (FRNs p) then p
     else
       let p1 = p\<lparr>DirBits := setBit (growBits (DirBits p) i) i (isDirMode mode)\<rparr>
       in if mode = 0 \<or> mode = modeDir then removeModeExtra i p1 else upsertModeExtra i mode p1)"

definition upsertSize64 :: "nat \<Rightarrow> int \<Rightarrow> PackedRecords \<Rightarrow> PackedRecords" where
  "upsertSize64 i value p =
    (let (ids, vals) = sideUpsert (Size64IDs p) (Size64Values p) (of_nat i) value
     in p\<lparr>Size64IDs := ids, Size64Values := vals\<rparr>)"

definition setSize :: "nat \<Rightarrow> int \<Rightarrow> PackedRecords \<Rightarrow> PackedRecords" where
  "setSize i value p =
    (if i \<ge> length (FRNs p) then p
     else if Size32 p = [] \<and> value = 0 then p
     else
       let p1 = (if Size32 p = [] then p\<lparr>Size32 := replicate (length (FRNs p)) 0\<rparr> else p)
       in if value \<ge> 0 \<and> value < uint packedSize64Sentinel then p1\<lparr>Size32 := (Size32 p1)[i := of_int value]\<rparr>
          else upsertSize64 i value (p1\<lparr>Size32 := (Size32 p1)[i := packedSize64Sentinel]\<rparr>))"

definition setModUnix :: "nat \<Rightarrow> int \<Rightarrow> PackedRecords \<Rightarrow> PackedRecords" where
  "setModUnix i value p =
    (if i \<ge> length (FRNs p) then p
     else if ModUnixs p = [] \<and> value = 0 then p
     else
       let p1 = (if ModUnixs p = [] then p\<lparr>ModUnixs := replicate (length (FRNs p)) 0\<rparr> else p)
       in p1\<lparr>ModUnixs := (ModUnixs p1)[i := value]\<rparr>)"

definition maxNameBytes :: nat where
  "maxNameBytes = 65535"

definition setName :: "nat \<Rightarrow> string \<Rightarrow> PackedRecords \<Rightarrow> PackedRecords" where
  "setName i name0 p =
    (if i \<ge> length (NameOffs p) then p
     else
       let name = (if length name0 > maxNameBytes then take maxNameBytes name0 else name0)
       in p\<lparr>NameOffs := (NameOffs p)[i := of_nat (length (NameBlob p))],
           NameLens := (NameLens p)[i := of_nat (length name)], NameBlob := NameBlob p @ name\<rparr>)"

definition setLowerName :: "(string \<Rightarrow> string) \<Rightarrow> nat \<Rightarrow> string \<Rightarrow> PackedRecords \<Rightarrow> PackedRecords" where
  "setLowerName toLower i name p =
    (if i \<ge> length (LowerOffs p) then p
     else
       let lower0 = toLower name;
           lower = (if length lower0 > maxNameBytes then take maxNameBytes lower0 else lower0)
       in if lower = name then p\<lparr>LowerOffs := (LowerOffs p)[i := packedLowerSameAsName]\<rparr>
          else p\<lparr>LowerOffs := (LowerOffs p)[i := of_nat (length (LowerBlob p))], LowerBlob := LowerBlob p @ lower\<rparr>)"

definition packedSet :: "(string \<Rightarrow> string) \<Rightarrow> int \<Rightarrow> CompactRecord \<Rightarrow> PackedRecords \<Rightarrow> PackedRecords" where
  "packedSet toLower k r p =
    (if k < 0 \<or> k \<ge> int (length (FRNs p)) then p
     else
       let i = nat k;
           p1 = setParentFRN i (ParentFRN r) (p\<lparr>FRNs := (FRNs p)[i := FRN r], Parents := (Parents p)[i := Parent r]\<rparr>);
           p2 = (if Name r \<noteq> nameAt p1 i then setLowerName toLower i (Name r) (setName i (Name r) p1) else p1)
       in setDeleted i (Deleted r) (setModUnix i (ModUnix r) (setSize i (Size r) (setMode i (Mode r) p2))))"

text \<open>The store after the pushes of \<open>Append\<close>, before the new record's remaining fields are written.\<close>

definition pushed :: "CompactRecord \<Rightarrow> PackedRecords \<Rightarrow> PackedRecords" where
  "pushed r p =
    (let n = length (FRNs p);
         p1 = p\<lparr>FRNs := FRNs p @ [FRN r], Parents := Parents p @ [Parent r], NameOffs := NameOffs p @ [0],
             NameLens := NameLens p @ [0], LowerOffs := LowerOffs p @ [0]\<rparr>;
         need = (n + 1 + 63) div 64;
         p2 = (if length (DirBits p1) < need then p1\<lparr>DirBits := DirBits p1 @ [0]\<rparr> else p1);
         p3 = (if Size32 p2 \<noteq> [] then setSize n (Size r) (p2\<lparr>Size32 := Size32 p2 @ [0]\<rparr>)
               else if Size r \<noteq> 0 then setSize n (Size r) (p2\<lparr>Size32 := replicate (n + 1) 0\<rparr>)
               else p2);
         p4 = (if ModUnixs p3 \<noteq> [] then p3\<lparr>ModUnixs := ModUnixs p3 @ [ModUnix r]\<rparr>
               else if ModUnix r \<noteq> 0 then p3\<lparr>ModUnixs := (replicate (n + 1) 0)[n := ModUnix r]\<rparr>
               else p3)
     in if length (DeletedBits p4) < need then p4\<lparr>DeletedBits := DeletedBits p4 @ [0]\<rparr> else p4)"

definition packedAppend :: "(string \<Rightarrow> string) \<Rightarrow> CompactRecord \<Rightarrow> PackedRecords \<Rightarrow> PackedRecords" where
  "packedAppend toLower r p =
    (let n = length (FRNs p)
     in setMode n (Mode r) (setDeleted n (Deleted r) (setParentFRN n (ParentFRN r)
          (setLowerName toLower n (Name r) (setName n (Name r) (pushed r p))))))"

section \<open>Packing\<close>

text \<open>The deduplicating writers; \<open>refs\<close> maps a name already stored to its place.\<close>

type_synonym nameRefs = "string \<Rightarrow> (u32 \<times> u16) option"

definition setNameDedup :: "nat \<Rightarrow> string \<Rightarrow> PackedRecords \<times> nameRefs \<Rightarrow> PackedRecords \<times> nameRefs" where
  "setNameDedup i name0 pr =
    (case pr of (p, refs) \<Rightarrow>
      if i \<ge> length (NameOffs p) then (p, refs)
      else
        let name = (if length name0 > maxNameBytes then take maxNameBytes name0 else name0)
        in case refs name of
             Some (off, len) \<Rightarrow> (p\<lparr>NameOffs := (NameOffs p)[i := off], NameLens := (NameLens p)[i := len]\<rparr>, refs)
           | None \<Rightarrow>
               let off = of_nat (length (NameBlob p)); len = of_nat (length name)
               in (p\<lparr>NameOffs := (NameOffs p)[i := off], NameLens := (NameLens p)[i := len],
                     NameBlob := NameBlob p @ name\<rparr>, refs(name := Some (off, len))))"

definition setLowerNameDedup ::
  "(string \<Rightarrow> string) \<Rightarrow> nat \<Rightarrow> string \<Rightarrow> PackedRecords \<times> nameRefs \<Rightarrow> PackedRecords \<times> nameRefs" where
  "setLowerNameDedup toLower i name pr =
    (case pr of (p, refs) \<Rightarrow>
      if i \<ge> length (LowerOffs p) then (p, refs)
      else
        let lower0 = toLower name;
            lower = (if length lower0 > maxNameBytes then take maxNameBytes lower0 else lower0)
        in if lower = name then (p\<lparr>LowerOffs := (LowerOffs p)[i := packedLowerSameAsName]\<rparr>, refs)
           else case refs lower of
             Some (off, len) \<Rightarrow> (p\<lparr>LowerOffs := (LowerOffs p)[i := off]\<rparr>, refs)
           | None \<Rightarrow>
               let off = of_nat (length (LowerBlob p))
               in (p\<lparr>LowerOffs := (LowerOffs p)[i := off], LowerBlob := LowerBlob p @ lower\<rparr>,
                   refs(lower := Some (off, of_nat (length lower)))))"

definition packStep ::
  "(string \<Rightarrow> string) \<Rightarrow> CompactRecord list \<Rightarrow> PackedRecords \<times> nameRefs \<times> nameRefs \<Rightarrow> nat \<Rightarrow>
   PackedRecords \<times> nameRefs \<times> nameRefs" where
  "packStep toLower rs acc i =
    (case acc of (p, nameRefs, lowerRefs) \<Rightarrow>
      let r = rs ! i;
          p0 = p\<lparr>FRNs := (FRNs p)[i := FRN r], Parents := (Parents p)[i := Parent r]\<rparr>;
          (p1, nameRefs') = setNameDedup i (Name r) (p0, nameRefs);
          (p2, lowerRefs') = setLowerNameDedup toLower i (Name r) (p1, lowerRefs);
          p3 = setMode i (Mode r) p2;
          p4 = (if Size32 p3 \<noteq> [] then setSize i (Size r) p3 else p3);
          p5 = (if ModUnixs p4 \<noteq> [] then p4\<lparr>ModUnixs := (ModUnixs p4)[i := ModUnix r]\<rparr> else p4)
      in (setDeleted i (Deleted r) p5, nameRefs', lowerRefs'))"

definition emptyPacked :: "CompactRecord list \<Rightarrow> PackedRecords" where
  "emptyPacked rs =
    (let n = length rs; hasSize = list_ex (\<lambda>r. Size r \<noteq> 0) rs; hasModUnix = list_ex (\<lambda>r. ModUnix r \<noteq> 0) rs
     in \<lparr>FRNs = replicate n 0, ParentFRNExtras = (\<lambda>i. None), Parents = replicate n 0, NameOffs = replicate n 0,
         NameLens = replicate n 0, LowerOffs = replicate n 0, DirBits = replicate ((n + 63) div 64) 0,
         ModeExtraIDs = [], ModeExtraValues = [], Size32 = (if hasSize then replicate n 0 else []),
         Size64IDs = [], Size64Values = [], ModUnixs = (if hasModUnix then replicate n 0 else []),
         DeletedBits = replicate ((n + 63) div 64) 0, NameBlob = [], LowerBlob = []\<rparr>)"

definition newPackedRecords :: "(string \<Rightarrow> string) \<Rightarrow> CompactRecord list \<Rightarrow> PackedRecords option" where
  "newPackedRecords toLower rs =
    (if rs = [] then None
     else
       let n = length rs;
           (p, refs) = foldl (packStep toLower rs) (emptyPacked rs, (\<lambda>s. None), (\<lambda>s. None)) [0..<n]
       in Some (foldl (\<lambda>p i. setParentFRN i (ParentFRN (rs ! i)) p) p [0..<n]))"

text \<open>\<open>repackCompactRecords\<close>: unpack every record and pack them again.\<close>

definition repackCompactRecords :: "(string \<Rightarrow> string) \<Rightarrow> PackedRecords \<Rightarrow> PackedRecords option" where
  "repackCompactRecords toLower p = newPackedRecords toLower (map (\<lambda>i. packedAt p (int i)) [0..<packedLen p])"

section \<open>The side arrays are finite maps\<close>

definition sideOk :: "nat \<Rightarrow> u32 list \<Rightarrow> 'a list \<Rightarrow> bool" where
  "sideOk n ids vals \<longleftrightarrow> sorted_wrt (<) ids \<and> length ids = length vals \<and> (\<forall>x\<in>set ids. unat x < n)"

definition sideMap :: "u32 list \<Rightarrow> 'a list \<Rightarrow> u32 \<Rightarrow> 'a option" where
  "sideMap ids vals = map_of (zip ids vals)"

lemma sideIndex_found: "sorted_wrt (<) ids \<Longrightarrow> i < length ids \<Longrightarrow> sideIndex ids (ids ! i) = i"
  unfolding sideIndex_def by (rule sortSearch_at)

lemma sideIndex_split:
  assumes "sorted_wrt (<) ids"
  shows "sideIndex ids x \<le> length ids" "\<forall>y\<in>set (take (sideIndex ids x) ids). y < x"
    "\<forall>y\<in>set (drop (sideIndex ids x) ids). x \<le> y"
proof -
  have mono: "monoUpTo (\<lambda>j. ids ! j \<ge> x) (length ids)"
    using assms by (intro monoUpTo_ge) (simp add: strict_sorted_imp_sorted)
  show le: "sideIndex ids x \<le> length ids" unfolding sideIndex_def by (rule sortSearch_le [OF mono])
  have below: "ids ! i < x" if "i < sideIndex ids x" for i
    using that le sortSearch_iff [OF mono, of i] by (simp add: sideIndex_def)
  have above: "x \<le> ids ! i" if "sideIndex ids x \<le> i" "i < length ids" for i
    using that sortSearch_iff [OF mono, of i] by (simp add: sideIndex_def)
  show "\<forall>y\<in>set (take (sideIndex ids x) ids). y < x"
    using below by (auto simp: in_set_conv_nth)
  show "\<forall>y\<in>set (drop (sideIndex ids x) ids). x \<le> y"
    using above by (auto simp: in_set_conv_nth)
qed

lemma sideIndex_hit:
  assumes "sorted_wrt (<) ids"
  shows "sideIndex ids x < length ids \<and> ids ! sideIndex ids x = x \<longleftrightarrow> x \<in> set ids"
  using sideIndex_found [OF assms] by (auto simp: in_set_conv_nth)

lemma sideLookup_map:
  assumes "sideOk n ids vals"
  shows "sideLookup ids vals x = sideMap ids vals x"
proof (cases "x \<in> set ids")
  case True
  then obtain i where "i < length ids" "x = ids ! i" by (auto simp: in_set_conv_nth)
  then show ?thesis using assms sideIndex_found [of ids i]
    by (simp add: sideLookup_def sideMap_def sideOk_def map_of_zip_nth strict_sorted_iff)
next
  case False
  moreover have "sideMap ids vals x = None"
    using False assms by (simp add: sideMap_def sideOk_def map_of_zip_is_None)
  ultimately show ?thesis using assms sideIndex_hit [of ids x]
    by (auto simp: sideLookup_def sideOk_def Let_def)
qed

lemma sideMap_append:
  "length A = length U \<Longrightarrow> sideMap (A @ B) (U @ V) = sideMap B V ++ sideMap A U"
  by (simp add: sideMap_def)

lemma sideMap_miss: "length A = length U \<Longrightarrow> x \<notin> set A \<Longrightarrow> sideMap A U x = None"
  by (simp add: sideMap_def map_of_zip_is_None)

lemma sideMap_update:
  assumes "distinct ids" "length ids = length vals" "j < length ids"
  shows "sideMap ids (vals[j := v]) = (sideMap ids vals)(ids ! j \<mapsto> v)"
proof (rule ext)
  fix x
  show "sideMap ids (vals[j := v]) x = ((sideMap ids vals)(ids ! j \<mapsto> v)) x"
  proof (cases "x \<in> set ids")
    case True
    then obtain k where "k < length ids" "x = ids ! k" by (auto simp: in_set_conv_nth)
    with assms show ?thesis by (auto simp: sideMap_def map_of_zip_nth nth_eq_iff_index_eq nth_list_update)
  next
    case False
    with assms show ?thesis by (auto simp: sideMap_miss)
  qed
qed

lemma sideUpsert_map:
  assumes "sideOk n ids vals" "sideUpsert ids vals x v = (ids', vals')" "unat x < n"
  shows "sideOk n ids' vals' \<and> sideMap ids' vals' = (sideMap ids vals)(x \<mapsto> v)"
proof -
  let ?j = "sideIndex ids x"
  have ok: "sorted_wrt (<) ids" "length ids = length vals" "\<forall>x\<in>set ids. unat x < n"
    using assms(1) by (simp_all add: sideOk_def)
  note split = sideIndex_split [OF ok(1), of x]
  show ?thesis
  proof (cases "?j < length ids \<and> ids ! ?j = x")
    case True
    with assms(2) have new: "ids' = ids" "vals' = vals[?j := v]" by (auto simp: sideUpsert_def Let_def)
    have "sideMap ids' vals' = (sideMap ids vals)(ids ! ?j \<mapsto> v)"
      unfolding new using ok True by (intro sideMap_update) (auto simp: strict_sorted_iff)
    with True ok new show ?thesis by (simp add: sideOk_def)
  next
    case False
    let ?A = "take ?j ids" and ?B = "drop ?j ids" and ?U = "take ?j vals" and ?V = "drop ?j vals"
    have new: "ids' = ?A @ x # ?B" "vals' = ?U @ v # ?V"
      using False assms(2) by (auto simp: sideUpsert_def insertAt_def Let_def)
    have x: "x \<notin> set ids" using False sideIndex_hit [OF ok(1)] by blast
    then have lt: "\<forall>y\<in>set ?B. x < y" using split(3) by (metis in_set_dropD order.not_eq_order_implies_strict)
    have "sorted_wrt (<) (?A @ ?B)" using ok(1) by simp
    then have "sorted_wrt (<) ids'" using split(2) lt unfolding new sorted_wrt_append
      by (auto intro: less_trans)
    moreover have "\<forall>y\<in>set ids'. unat y < n" using ok(3) assms(3) unfolding new
      by (auto dest: in_set_takeD in_set_dropD)
    moreover have "sideMap ids' vals' = (sideMap ids vals)(x \<mapsto> v)"
    proof -
      have "sideMap (?A @ x # ?B) (?U @ v # ?V) = sideMap (x # ?B) (v # ?V) ++ sideMap ?A ?U"
        by (rule sideMap_append) (simp add: ok(2))
      moreover have "sideMap ids vals = sideMap ?B ?V ++ sideMap ?A ?U"
        using sideMap_append [of ?A ?U ?B ?V] ok(2) by simp
      moreover have "sideMap ?A ?U x = None"
        using x ok(2) by (intro sideMap_miss) (auto dest: in_set_takeD)
      ultimately show ?thesis unfolding new by (auto simp: fun_eq_iff sideMap_def map_add_def split: option.split)
    qed
    ultimately show ?thesis using ok(2) split(1) unfolding sideOk_def by (simp add: new)
  qed
qed

lemma sideRemove_map:
  assumes "sideOk n ids vals" "sideRemove ids vals x = (ids', vals')"
  shows "sideOk n ids' vals' \<and> sideMap ids' vals' = (sideMap ids vals)(x := None)"
proof -
  let ?j = "sideIndex ids x"
  have ok: "sorted_wrt (<) ids" "length ids = length vals" "\<forall>x\<in>set ids. unat x < n"
    using assms(1) by (simp_all add: sideOk_def)
  show ?thesis
  proof (cases "?j < length ids \<and> ids ! ?j = x")
    case True
    let ?A = "take ?j ids" and ?B = "drop (?j + 1) ids" and ?U = "take ?j vals" and ?V = "drop (?j + 1) vals"
    have new: "ids' = ?A @ ?B" "vals' = ?U @ ?V"
      using True assms(2) by (auto simp: sideRemove_def removeAt_def Let_def)
    have ids: "ids = ?A @ x # ?B" "vals = ?U @ vals ! ?j # ?V"
      using True ok(2) id_take_nth_drop [of ?j ids] id_take_nth_drop [of ?j vals] by simp_all
    then have "distinct (?A @ x # ?B)" "sorted_wrt (<) (?A @ x # ?B)"
      using ok(1) strict_sorted_iff by metis+
    then have x: "x \<notin> set ?A" "x \<notin> set ?B" "sorted_wrt (<) ids'"
      unfolding new sorted_wrt_append by auto
    have len: "length ?A = length ?U" "length ?B = length ?V" using ok(2) by simp_all
    have "sideMap (?A @ x # ?B) (?U @ vals ! ?j # ?V) = sideMap (x # ?B) (vals ! ?j # ?V) ++ sideMap ?A ?U"
      by (rule sideMap_append [OF len(1)])
    moreover have "sideMap ids' vals' = sideMap ?B ?V ++ sideMap ?A ?U"
      unfolding new by (rule sideMap_append [OF len(1)])
    ultimately have "sideMap ids' vals' = (sideMap ids vals)(x := None)"
      using sideMap_miss [OF len(1) x(1)] sideMap_miss [OF len(2) x(2)] ids
      by (auto simp: fun_eq_iff sideMap_def map_add_def split: option.split)
    moreover have "\<forall>y\<in>set ids'. unat y < n" using ok(3) unfolding new by (auto dest: in_set_takeD in_set_dropD)
    ultimately show ?thesis using x(3) len unfolding sideOk_def by (simp add: new)
  next
    case False
    then have "x \<notin> set ids" using sideIndex_hit [OF ok(1)] by blast
    then have "sideMap ids vals x = None" using sideMap_miss ok(2) by metis
    moreover have "ids' = ids" "vals' = vals" using False assms(2) by (auto simp: sideRemove_def Let_def split: if_splits)
    ultimately show ?thesis using assms(1) by auto
  qed
qed

section \<open>Bits\<close>

lemma length_growBits: "i div 64 < length (growBits bits i)"
  by (simp add: growBits_def)

lemma bitsetTest_grow: "bitsetTest (growBits bits i) j \<longleftrightarrow> bitsetTest bits j"
  by (auto simp: growBits_def bitsetTest_iff nth_append)

lemma bitsetTest_setBit:
  "bitsetTest (setBit (growBits bits i) i v) j \<longleftrightarrow> (if j = i then v else bitsetTest bits j)"
  using length_growBits [of i bits]
  by (simp add: setBit_def bitsetTest_set bitsetTest_clear bitsetTest_grow)

section \<open>The parts of a store\<close>

text \<open>Each part of the invariant speaks of the arrays of one group of fields, so that a writer is
  judged by the part it touches.\<close>

definition namesOk :: "PackedRecords \<Rightarrow> bool" where
  "namesOk p \<longleftrightarrow> length (NameOffs p) = length (FRNs p) \<and> length (NameLens p) = length (FRNs p) \<and>
     list_all2 (\<lambda>off len. unat off + unat len \<le> length (NameBlob p)) (NameOffs p) (NameLens p)"

definition lowersOk :: "PackedRecords \<Rightarrow> bool" where
  "lowersOk p \<longleftrightarrow> length (LowerOffs p) = length (FRNs p)"

definition modesOk :: "PackedRecords \<Rightarrow> bool" where
  "modesOk p \<longleftrightarrow> length (FRNs p) < 2 ^ 32 \<and> sideOk (length (FRNs p)) (ModeExtraIDs p) (ModeExtraValues p)"

definition sizesOk :: "PackedRecords \<Rightarrow> bool" where
  "sizesOk p \<longleftrightarrow> length (FRNs p) < 2 ^ 32 \<and> sideOk (length (FRNs p)) (Size64IDs p) (Size64Values p) \<and>
     (Size32 p = [] \<or> length (Size32 p) = length (FRNs p))"

definition timesOk :: "PackedRecords \<Rightarrow> bool" where
  "timesOk p \<longleftrightarrow> ModUnixs p = [] \<or> length (ModUnixs p) = length (FRNs p)"

definition parentsOk :: "PackedRecords \<Rightarrow> bool" where
  "parentsOk p \<longleftrightarrow> length (Parents p) = length (FRNs p) \<and> (\<forall>i. length (FRNs p) \<le> i \<longrightarrow> ParentFRNExtras p i = None)"

definition packedInv :: "PackedRecords \<Rightarrow> bool" where
  "packedInv p \<longleftrightarrow> namesOk p \<and> lowersOk p \<and> modesOk p \<and> sizesOk p \<and> timesOk p \<and> parentsOk p"

lemmas parts = namesOk_def lowersOk_def modesOk_def sizesOk_def timesOk_def parentsOk_def

lemmas readers = parentFRNAt_def sizeAt_def modUnixAt_def deletedAt_def modeAt_def nameAt_def lowerNameAt_def

lemmas writers = setParentFRN_def setDeleted_def setMode_def removeModeExtra_def upsertModeExtra_def
  setSize_def upsertSize64_def setModUnix_def setName_def setLowerName_def Let_def

named_theorems frame \<open>what a writer leaves unchanged\<close>

lemma setParentFRN_frame [frame]:
  "FRNs (setParentFRN i v p) = FRNs p" "Parents (setParentFRN i v p) = Parents p"
  "NameOffs (setParentFRN i v p) = NameOffs p" "NameLens (setParentFRN i v p) = NameLens p"
  "LowerOffs (setParentFRN i v p) = LowerOffs p" "NameBlob (setParentFRN i v p) = NameBlob p"
  "LowerBlob (setParentFRN i v p) = LowerBlob p" "Size32 (setParentFRN i v p) = Size32 p"
  "Size64IDs (setParentFRN i v p) = Size64IDs p" "Size64Values (setParentFRN i v p) = Size64Values p"
  "ModUnixs (setParentFRN i v p) = ModUnixs p" "DirBits (setParentFRN i v p) = DirBits p"
  "ModeExtraIDs (setParentFRN i v p) = ModeExtraIDs p" "ModeExtraValues (setParentFRN i v p) = ModeExtraValues p"
  "DeletedBits (setParentFRN i v p) = DeletedBits p"
  by (simp_all add: writers)

lemma setDeleted_frame [frame]:
  "FRNs (setDeleted i v p) = FRNs p" "Parents (setDeleted i v p) = Parents p"
  "ParentFRNExtras (setDeleted i v p) = ParentFRNExtras p"
  "NameOffs (setDeleted i v p) = NameOffs p" "NameLens (setDeleted i v p) = NameLens p"
  "LowerOffs (setDeleted i v p) = LowerOffs p" "NameBlob (setDeleted i v p) = NameBlob p"
  "LowerBlob (setDeleted i v p) = LowerBlob p" "Size32 (setDeleted i v p) = Size32 p"
  "Size64IDs (setDeleted i v p) = Size64IDs p" "Size64Values (setDeleted i v p) = Size64Values p"
  "ModUnixs (setDeleted i v p) = ModUnixs p" "DirBits (setDeleted i v p) = DirBits p"
  "ModeExtraIDs (setDeleted i v p) = ModeExtraIDs p" "ModeExtraValues (setDeleted i v p) = ModeExtraValues p"
  by (simp_all add: writers)

lemma setMode_frame [frame]:
  "FRNs (setMode i v p) = FRNs p" "Parents (setMode i v p) = Parents p"
  "ParentFRNExtras (setMode i v p) = ParentFRNExtras p"
  "NameOffs (setMode i v p) = NameOffs p" "NameLens (setMode i v p) = NameLens p"
  "LowerOffs (setMode i v p) = LowerOffs p" "NameBlob (setMode i v p) = NameBlob p"
  "LowerBlob (setMode i v p) = LowerBlob p" "Size32 (setMode i v p) = Size32 p"
  "Size64IDs (setMode i v p) = Size64IDs p" "Size64Values (setMode i v p) = Size64Values p"
  "ModUnixs (setMode i v p) = ModUnixs p" "DeletedBits (setMode i v p) = DeletedBits p"
  by (simp_all add: writers split: prod.split)

lemma setSize_frame [frame]:
  "FRNs (setSize i v p) = FRNs p" "Parents (setSize i v p) = Parents p"
  "ParentFRNExtras (setSize i v p) = ParentFRNExtras p"
  "NameOffs (setSize i v p) = NameOffs p" "NameLens (setSize i v p) = NameLens p"
  "LowerOffs (setSize i v p) = LowerOffs p" "NameBlob (setSize i v p) = NameBlob p"
  "LowerBlob (setSize i v p) = LowerBlob p" "ModUnixs (setSize i v p) = ModUnixs p"
  "DirBits (setSize i v p) = DirBits p" "ModeExtraIDs (setSize i v p) = ModeExtraIDs p"
  "ModeExtraValues (setSize i v p) = ModeExtraValues p" "DeletedBits (setSize i v p) = DeletedBits p"
  by (simp_all add: writers split: prod.split)

lemma setModUnix_frame [frame]:
  "FRNs (setModUnix i v p) = FRNs p" "Parents (setModUnix i v p) = Parents p"
  "ParentFRNExtras (setModUnix i v p) = ParentFRNExtras p"
  "NameOffs (setModUnix i v p) = NameOffs p" "NameLens (setModUnix i v p) = NameLens p"
  "LowerOffs (setModUnix i v p) = LowerOffs p" "NameBlob (setModUnix i v p) = NameBlob p"
  "LowerBlob (setModUnix i v p) = LowerBlob p" "Size32 (setModUnix i v p) = Size32 p"
  "Size64IDs (setModUnix i v p) = Size64IDs p" "Size64Values (setModUnix i v p) = Size64Values p"
  "DirBits (setModUnix i v p) = DirBits p" "ModeExtraIDs (setModUnix i v p) = ModeExtraIDs p"
  "ModeExtraValues (setModUnix i v p) = ModeExtraValues p" "DeletedBits (setModUnix i v p) = DeletedBits p"
  by (simp_all add: writers)

lemma setName_frame [frame]:
  "FRNs (setName i v p) = FRNs p" "Parents (setName i v p) = Parents p"
  "ParentFRNExtras (setName i v p) = ParentFRNExtras p" "LowerOffs (setName i v p) = LowerOffs p"
  "LowerBlob (setName i v p) = LowerBlob p" "Size32 (setName i v p) = Size32 p"
  "Size64IDs (setName i v p) = Size64IDs p" "Size64Values (setName i v p) = Size64Values p"
  "ModUnixs (setName i v p) = ModUnixs p" "DirBits (setName i v p) = DirBits p"
  "ModeExtraIDs (setName i v p) = ModeExtraIDs p" "ModeExtraValues (setName i v p) = ModeExtraValues p"
  "DeletedBits (setName i v p) = DeletedBits p"
  by (simp_all add: writers)

lemma setLowerName_frame [frame]:
  "FRNs (setLowerName t i v p) = FRNs p" "Parents (setLowerName t i v p) = Parents p"
  "ParentFRNExtras (setLowerName t i v p) = ParentFRNExtras p"
  "NameOffs (setLowerName t i v p) = NameOffs p" "NameLens (setLowerName t i v p) = NameLens p"
  "NameBlob (setLowerName t i v p) = NameBlob p" "Size32 (setLowerName t i v p) = Size32 p"
  "Size64IDs (setLowerName t i v p) = Size64IDs p" "Size64Values (setLowerName t i v p) = Size64Values p"
  "ModUnixs (setLowerName t i v p) = ModUnixs p" "DirBits (setLowerName t i v p) = DirBits p"
  "ModeExtraIDs (setLowerName t i v p) = ModeExtraIDs p" "ModeExtraValues (setLowerName t i v p) = ModeExtraValues p"
  "DeletedBits (setLowerName t i v p) = DeletedBits p" "length (LowerOffs (setLowerName t i v p)) = length (LowerOffs p)"
  by (simp_all add: writers)

section \<open>What each writer does to the field it writes\<close>

lemma deletedAt_test: "deletedAt p i \<longleftrightarrow> bitsetTest (DeletedBits p) i"
  by (simp add: deletedAt_def bitsetTest_def)

lemma deletedAt_setDeleted:
  "i < length (FRNs p) \<Longrightarrow> deletedAt (setDeleted i v p) j \<longleftrightarrow> (if j = i then v else deletedAt p j)"
  by (simp add: deletedAt_test setDeleted_def bitsetTest_setBit)

lemma modUnixAt_setModUnix:
  assumes "timesOk p" "i < length (FRNs p)"
  shows "modUnixAt (setModUnix i v p) j = (if j = i then v else modUnixAt p j) \<and> timesOk (setModUnix i v p)"
  using assms by (auto simp: modUnixAt_def setModUnix_def timesOk_def Let_def nth_list_update)

lemma modeAt_map:
  assumes "modesOk p"
  shows "modeAt p i = (case sideMap (ModeExtraIDs p) (ModeExtraValues p) (of_nat i) of
    Some v \<Rightarrow> v | None \<Rightarrow> if bitsetTest (DirBits p) i then modeDir else 0)"
  using assms sideLookup_map [of "length (FRNs p)" "ModeExtraIDs p" "ModeExtraValues p" "of_nat i"]
  by (simp add: modesOk_def modeAt_def bitsetTest_def split: option.split)

lemma of_nat_u32_eq: "i < 2 ^ 32 \<Longrightarrow> j < 2 ^ 32 \<Longrightarrow> (of_nat i :: u32) = of_nat j \<longleftrightarrow> i = j"
  by (metis unat_of_nat_u32)

lemma modeAt_setMode:
  assumes "modesOk p" "i < length (FRNs p)" "j < 2 ^ 32"
  shows "modeAt (setMode i v p) j = (if j = i then v else modeAt p j) \<and> modesOk (setMode i v p)"
proof -
  let ?n = "length (FRNs p)"
  have n: "i < 2 ^ 32" "unat (of_nat i :: u32) < ?n" "sideOk ?n (ModeExtraIDs p) (ModeExtraValues p)"
    using assms by (simp_all add: modesOk_def unat_of_nat_u32)
  have dir: "isDirMode 0 = False" "isDirMode modeDir = True" by (simp_all add: isDirMode_def modeDir_def)
  obtain ids vals where u: "(if v = 0 \<or> v = modeDir then sideRemove (ModeExtraIDs p) (ModeExtraValues p) (of_nat i)
      else sideUpsert (ModeExtraIDs p) (ModeExtraValues p) (of_nat i) v) = (ids, vals)" by fastforce
  have q: "setMode i v p = p\<lparr>DirBits := setBit (growBits (DirBits p) i) i (isDirMode v),
      ModeExtraIDs := ids, ModeExtraValues := vals\<rparr>"
    using u assms(2) by (auto simp: setMode_def removeModeExtra_def upsertModeExtra_def Let_def split: if_splits)
  have m: "sideOk ?n ids vals \<and> sideMap ids vals = (sideMap (ModeExtraIDs p) (ModeExtraValues p))
      (of_nat i := (if v = 0 \<or> v = modeDir then None else Some v))"
    using u sideRemove_map [OF n(3), of "of_nat i" ids vals] sideUpsert_map [OF n(3) _ n(2), of v ids vals]
    by (cases "v = 0 \<or> v = modeDir") simp_all
  then have ok: "modesOk (setMode i v p)" using assms(1) by (simp add: q modesOk_def)
  show ?thesis unfolding modeAt_map [OF ok] modeAt_map [OF assms(1)]
    using m ok dir of_nat_u32_eq [OF assms(3) n(1)] by (auto simp: q bitsetTest_setBit)
qed

lemma sizeAt_map:
  assumes "sizesOk p"
  shows "sizeAt p i = (if i \<ge> length (Size32 p) then 0
    else if Size32 p ! i \<noteq> packedSize64Sentinel then uint (Size32 p ! i)
    else case sideMap (Size64IDs p) (Size64Values p) (of_nat i) of Some v \<Rightarrow> v | None \<Rightarrow> 0)"
  using assms sideLookup_map [of "length (FRNs p)" "Size64IDs p" "Size64Values p" "of_nat i"]
  by (simp add: sizesOk_def sizeAt_def Let_def)

lemma small_size:
  assumes "0 \<le> v" "v < uint packedSize64Sentinel"
  shows "uint (of_int v :: u32) = v" "(of_int v :: u32) \<noteq> packedSize64Sentinel"
proof -
  have "v < 2 ^ 32" using assms(2) uint_bounded [of packedSize64Sentinel] by simp
  with assms(1) show "uint (of_int v :: u32) = v" by (simp add: uint_word_of_int)
  with assms(2) show "(of_int v :: u32) \<noteq> packedSize64Sentinel" by auto
qed

lemma sizeAt_setSize:
  assumes "sizesOk p" "i < length (FRNs p)" "j < length (FRNs p)"
  shows "sizeAt (setSize i v p) j = (if j = i then v else sizeAt p j) \<and> sizesOk (setSize i v p)"
proof (cases "Size32 p = [] \<and> v = 0")
  case True
  then show ?thesis using assms by (simp add: setSize_def sizeAt_def)
next
  case False
  let ?n = "length (FRNs p)"
  define s where "s = (if Size32 p = [] then replicate ?n 0 else Size32 p)"
  have n: "i < 2 ^ 32" "j < 2 ^ 32" "unat (of_nat i :: u32) < ?n" "sideOk ?n (Size64IDs p) (Size64Values p)"
    "length s = ?n"
    using assms by (auto simp: sizesOk_def unat_of_nat_u32 s_def)
  have old: "sizeAt p j = (if s ! j \<noteq> packedSize64Sentinel then uint (s ! j)
      else case sideMap (Size64IDs p) (Size64Values p) (of_nat j) of Some v \<Rightarrow> v | None \<Rightarrow> 0)"
    using assms by (auto simp: sizeAt_map sizesOk_def packedSize64Sentinel_def s_def)
  show ?thesis
  proof (cases "0 \<le> v \<and> v < uint packedSize64Sentinel")
    case True
    then have q: "setSize i v p = p\<lparr>Size32 := s[i := of_int v]\<rparr>"
      using assms(2) False by (simp add: setSize_def Let_def s_def)
    have ok: "sizesOk (setSize i v p)" using assms(1) n(5) by (simp add: q sizesOk_def)
    have "sizeAt (setSize i v p) j = (if j = i then v else sizeAt p j)"
      unfolding old sizeAt_map [OF ok] unfolding q using n(5) assms small_size [of v] True by (simp add: nth_list_update)
    with ok show ?thesis by simp
  next
    case big: False
    obtain ids vals where u: "sideUpsert (Size64IDs p) (Size64Values p) (of_nat i) v = (ids, vals)" by fastforce
    have "setSize i v p = upsertSize64 i v (p\<lparr>Size32 := s[i := packedSize64Sentinel]\<rparr>)"
      unfolding setSize_def Let_def if_not_P [OF False] if_not_P [OF big] s_def using assms(2) by simp
    then have q: "setSize i v p = p\<lparr>Size32 := s[i := packedSize64Sentinel], Size64IDs := ids, Size64Values := vals\<rparr>"
      using u by (simp add: upsertSize64_def)
    have m: "sideOk ?n ids vals \<and> sideMap ids vals = (sideMap (Size64IDs p) (Size64Values p))(of_nat i \<mapsto> v)"
      using sideUpsert_map [OF n(4) u n(3)] .
    then have ok: "sizesOk (setSize i v p)" using assms(1) n(5) by (simp add: q sizesOk_def)
    have "sizeAt (setSize i v p) j = (if j = i then v else sizeAt p j)"
      unfolding old sizeAt_map [OF ok] unfolding q using n(5) assms m of_nat_u32_eq [OF n(2) n(1)] by (simp add: nth_list_update)
    with ok show ?thesis by simp
  qed
qed

lemma namesOkD: "namesOk p \<Longrightarrow> j < length (FRNs p) \<Longrightarrow> unat (NameOffs p ! j) + unat (NameLens p ! j) \<le> length (NameBlob p)"
  by (simp add: namesOk_def list_all2_conv_all_nth)

lemma nameAt_in_range:
  "namesOk p \<Longrightarrow> j < length (FRNs p) \<Longrightarrow>
   nameAt p j = take (unat (NameLens p ! j)) (drop (unat (NameOffs p ! j)) (NameBlob p))"
  using namesOkD [of p j] by (simp add: nameAt_def Let_def namesOk_def)

lemma unat_short: "length s \<le> maxNameBytes \<Longrightarrow> unat (of_nat (length s) :: u16) = length s"
  by (simp add: maxNameBytes_def unat_of_nat)

text \<open>A slice of the blob stays the same when the blob grows.\<close>

lemma slice_stable: "a + k \<le> length b \<Longrightarrow> take k (drop a (b @ x)) = take k (drop a b)"
  by (simp add: drop_append)

text \<open>Pointing a record at a slice of a grown blob: what \<open>setName\<close> and \<open>setNameDedup\<close> both do.\<close>

lemma nameAt_point:
  assumes "namesOk p" "i < length (FRNs p)" "unat off + unat len \<le> length (NameBlob p @ x)"
  defines "q \<equiv> p\<lparr>NameOffs := (NameOffs p)[i := off], NameLens := (NameLens p)[i := len], NameBlob := NameBlob p @ x\<rparr>"
  shows "namesOk q"
    "j < length (FRNs p) \<Longrightarrow> nameAt q j = (if j = i then take (unat len) (drop (unat off) (NameBlob p @ x)) else nameAt p j)"
proof -
  have range: "unat (NameOffs p ! j) + unat (NameLens p ! j) \<le> length (NameBlob p)" if "j < length (FRNs p)" for j
    using that assms(1) by (rule namesOkD [rotated])
  show q: "namesOk q"
    unfolding namesOk_def list_all2_conv_all_nth q_def
    using assms range by (auto simp: namesOk_def nth_list_update trans_le_add1)
  show "nameAt q j = (if j = i then take (unat len) (drop (unat off) (NameBlob p @ x)) else nameAt p j)"
    if j: "j < length (FRNs p)"
    using j assms nameAt_in_range [OF q] nameAt_in_range [OF assms(1) j] slice_stable [OF range [OF j], of x]
    by (simp add: q_def nth_list_update namesOk_def)
qed

lemma nameAt_setName:
  assumes "namesOk p" "i < length (FRNs p)" "j < length (FRNs p)" "length s \<le> maxNameBytes"
    "length (NameBlob p) < 2 ^ 32"
  shows "nameAt (setName i s p) j = (if j = i then s else nameAt p j) \<and> namesOk (setName i s p)"
proof -
  let ?off = "of_nat (length (NameBlob p)) :: u32" and ?len = "of_nat (length s) :: u16"
  have w: "unat ?off = length (NameBlob p)" "unat ?len = length s"
    using assms(4,5) by (simp_all add: unat_of_nat_u32 unat_short)
  have "setName i s p = p\<lparr>NameOffs := (NameOffs p)[i := ?off], NameLens := (NameLens p)[i := ?len], NameBlob := NameBlob p @ s\<rparr>"
    using assms by (simp add: setName_def Let_def namesOk_def)
  then show ?thesis using nameAt_point [OF assms(1,2), of ?off ?len s] assms(3) w by simp
qed

lemma parentFRNAt_setParentFRN:
  assumes "parentsOk p" "i < length (FRNs p)" "j < length (FRNs p)"
  shows "parentFRNAt (setParentFRN i v p) j = (if j = i then v else parentFRNAt p j) \<and> parentsOk (setParentFRN i v p)"
  using assms by (auto simp: parentFRNAt_def setParentFRN_def parentsOk_def Let_def split: option.split)

section \<open>What each writer leaves of the other fields\<close>

lemma nameAt_frame [frame]:
  "nameAt (setParentFRN i w p) = nameAt p" "nameAt (setDeleted i d p) = nameAt p" "nameAt (setMode i m p) = nameAt p"
  "nameAt (setSize i z p) = nameAt p" "nameAt (setModUnix i z p) = nameAt p" "nameAt (setLowerName t i s p) = nameAt p"
  unfolding fun_eq_iff nameAt_def frame by (rule allI, rule refl)+

lemma modeAt_frame [frame]:
  "modeAt (setParentFRN i w p) = modeAt p" "modeAt (setDeleted i d p) = modeAt p" "modeAt (setSize i z p) = modeAt p"
  "modeAt (setModUnix i z p) = modeAt p" "modeAt (setName i s p) = modeAt p" "modeAt (setLowerName t i s p) = modeAt p"
  unfolding fun_eq_iff modeAt_def frame by (rule allI, rule refl)+

lemma sizeAt_frame [frame]:
  "sizeAt (setParentFRN i w p) = sizeAt p" "sizeAt (setDeleted i d p) = sizeAt p" "sizeAt (setMode i m p) = sizeAt p"
  "sizeAt (setModUnix i z p) = sizeAt p" "sizeAt (setName i s p) = sizeAt p" "sizeAt (setLowerName t i s p) = sizeAt p"
  unfolding fun_eq_iff sizeAt_def frame by (rule allI, rule refl)+

lemma modUnixAt_frame [frame]:
  "modUnixAt (setParentFRN i w p) = modUnixAt p" "modUnixAt (setDeleted i d p) = modUnixAt p"
  "modUnixAt (setMode i m p) = modUnixAt p" "modUnixAt (setSize i z p) = modUnixAt p"
  "modUnixAt (setName i s p) = modUnixAt p" "modUnixAt (setLowerName t i s p) = modUnixAt p"
  unfolding fun_eq_iff modUnixAt_def frame by (rule allI, rule refl)+

lemma deletedAt_frame [frame]:
  "deletedAt (setParentFRN i w p) = deletedAt p" "deletedAt (setMode i m p) = deletedAt p"
  "deletedAt (setSize i z p) = deletedAt p" "deletedAt (setModUnix i z p) = deletedAt p"
  "deletedAt (setName i s p) = deletedAt p" "deletedAt (setLowerName t i s p) = deletedAt p"
  unfolding fun_eq_iff deletedAt_def frame by (rule allI, rule refl)+

lemma parentFRNAt_frame [frame]:
  "parentFRNAt (setDeleted i d p) = parentFRNAt p" "parentFRNAt (setMode i m p) = parentFRNAt p"
  "parentFRNAt (setSize i z p) = parentFRNAt p" "parentFRNAt (setModUnix i z p) = parentFRNAt p"
  "parentFRNAt (setName i s p) = parentFRNAt p" "parentFRNAt (setLowerName t i s p) = parentFRNAt p"
  unfolding fun_eq_iff parentFRNAt_def frame by (rule allI, rule refl)+

lemma parts_frame [frame]:
  "namesOk (setParentFRN i w p) = namesOk p" "namesOk (setDeleted i d p) = namesOk p" "namesOk (setMode i m p) = namesOk p"
  "namesOk (setSize i z p) = namesOk p" "namesOk (setModUnix i z p) = namesOk p" "namesOk (setLowerName t i s p) = namesOk p"
  "modesOk (setParentFRN i w p) = modesOk p" "modesOk (setDeleted i d p) = modesOk p" "modesOk (setSize i z p) = modesOk p"
  "modesOk (setModUnix i z p) = modesOk p" "modesOk (setName i s p) = modesOk p" "modesOk (setLowerName t i s p) = modesOk p"
  "sizesOk (setParentFRN i w p) = sizesOk p" "sizesOk (setDeleted i d p) = sizesOk p" "sizesOk (setMode i m p) = sizesOk p"
  "sizesOk (setModUnix i z p) = sizesOk p" "sizesOk (setName i s p) = sizesOk p" "sizesOk (setLowerName t i s p) = sizesOk p"
  "timesOk (setParentFRN i w p) = timesOk p" "timesOk (setDeleted i d p) = timesOk p" "timesOk (setMode i m p) = timesOk p"
  "timesOk (setSize i z p) = timesOk p" "timesOk (setName i s p) = timesOk p" "timesOk (setLowerName t i s p) = timesOk p"
  "parentsOk (setDeleted i d p) = parentsOk p" "parentsOk (setMode i m p) = parentsOk p" "parentsOk (setSize i z p) = parentsOk p"
  "parentsOk (setModUnix i z p) = parentsOk p" "parentsOk (setName i s p) = parentsOk p"
  "parentsOk (setLowerName t i s p) = parentsOk p"
  by (simp_all add: parts frame)

lemma lowersOk_frame [frame]:
  "lowersOk (setParentFRN i w p) = lowersOk p" "lowersOk (setDeleted i d p) = lowersOk p" "lowersOk (setMode i m p) = lowersOk p"
  "lowersOk (setSize i z p) = lowersOk p" "lowersOk (setModUnix i z p) = lowersOk p"
  "lowersOk (setName i s p) = lowersOk p" "lowersOk (setLowerName t i s p) = lowersOk p"
  by (simp_all add: parts frame)

section \<open>The records a store holds\<close>

text \<open>A record without its place in the name blob, and the list of records of a store.\<close>

definition normal :: "CompactRecord \<Rightarrow> CompactRecord" where
  "normal r = r\<lparr>NameOff := 0, NameLen := 0\<rparr>"

definition contents :: "PackedRecords \<Rightarrow> CompactRecord list" where
  "contents p = map (\<lambda>i. normal (packedAt p (int i))) [0..<packedLen p]"

lemma length_contents [simp]: "length (contents p) = length (FRNs p)"
  by (simp add: contents_def packedLen_def)

lemma contents_nth:
  "i < length (FRNs p) \<Longrightarrow> contents p ! i =
    \<lparr>FRN = FRNs p ! i, ParentFRN = parentFRNAt p i, Parent = Parents p ! i, Name = nameAt p i, NameOff = 0,
     NameLen = 0, Mode = modeAt p i, Size = sizeAt p i, ModUnix = modUnixAt p i, Deleted = deletedAt p i\<rparr>"
  by (simp add: contents_def packedLen_def packedAt_def normal_def Let_def)

lemma normal_eq:
  "normal r = \<lparr>FRN = FRN r, ParentFRN = ParentFRN r, Parent = Parent r, Name = Name r, NameOff = 0,
     NameLen = 0, Mode = Mode r, Size = Size r, ModUnix = ModUnix r, Deleted = Deleted r\<rparr>"
  by (simp add: normal_def)

text \<open>The lower-case names are right: each is the name itself or a slice of the lower-case blob.\<close>

definition lowerRight :: "(string \<Rightarrow> string) \<Rightarrow> PackedRecords \<Rightarrow> nat \<Rightarrow> bool" where
  "lowerRight toLower p i \<longleftrightarrow>
    (if LowerOffs p ! i = packedLowerSameAsName then toLower (nameAt p i) = nameAt p i
     else unat (LowerOffs p ! i) + unat (NameLens p ! i) \<le> length (LowerBlob p) \<and>
       take (unat (NameLens p ! i)) (drop (unat (LowerOffs p ! i)) (LowerBlob p)) = toLower (nameAt p i))"

lemma lowerRight_lowerNameAt:
  "lowerRight toLower p i \<Longrightarrow> lowersOk p \<Longrightarrow> i < length (FRNs p) \<Longrightarrow> lowerNameAt toLower p i = toLower (nameAt p i)"
  by (auto simp: lowerRight_def lowerNameAt_def lowersOk_def Let_def split: if_splits)

lemma lowerRight_frame [frame]:
  "lowerRight t (setParentFRN i w p) = lowerRight t p" "lowerRight t (setDeleted i d p) = lowerRight t p"
  "lowerRight t (setMode i m p) = lowerRight t p" "lowerRight t (setSize i z p) = lowerRight t p"
  "lowerRight t (setModUnix i z p) = lowerRight t p"
  unfolding fun_eq_iff lowerRight_def frame by (rule allI, rule refl)+

text \<open>A name fits when the code stores it whole and can address it.\<close>

definition fits :: "(string \<Rightarrow> string) \<Rightarrow> string \<Rightarrow> PackedRecords \<Rightarrow> bool" where
  "fits toLower s p \<longleftrightarrow> length s \<le> maxNameBytes \<and> length (NameBlob p) < 2 ^ 32 \<and>
     length (LowerBlob p) < 2 ^ 32 - 1 \<and> length (toLower s) = length s"

lemma addressable:
  assumes "k < 2 ^ 32 - 1"
  shows "(of_nat k :: u32) \<noteq> packedLowerSameAsName" "unat (of_nat k :: u32) = k"
proof -
  show k: "unat (of_nat k :: u32) = k" using assms by (intro unat_of_nat_u32) simp
  have "unat packedLowerSameAsName = 2 ^ 32 - 1" by (simp add: packedLowerSameAsName_def unsigned_minus_1_eq_mask mask_eq_exp_minus_1)
  with k assms show "(of_nat k :: u32) \<noteq> packedLowerSameAsName" by (metis less_irrefl)
qed

lemma setNames_at:
  assumes "namesOk p" "lowersOk p" "fits toLower s p" "i < length (FRNs p)" "j < length (FRNs p)"
  defines "q \<equiv> setLowerName toLower i s (setName i s p)"
  shows "namesOk q \<and> nameAt q j = (if j = i then s else nameAt p j) \<and>
    (j = i \<or> lowerRight toLower p j \<longrightarrow> lowerRight toLower q j)"
proof -
  have name: "nameAt (setName i s p) j = (if j = i then s else nameAt p j) \<and> namesOk (setName i s p)"
    using assms(3) by (intro nameAt_setName [OF assms(1,4,5)]) (simp_all add: fits_def)
  have low: "length (toLower s) \<le> maxNameBytes" "length (LowerBlob p) < 2 ^ 32 - 1" using assms(3) by (simp_all add: fits_def)
  have len: "unat (NameLens q ! j) = (if j = i then length s else unat (NameLens p ! j))"
    using assms unat_short [of s] by (simp add: frame setName_def Let_def namesOk_def nth_list_update fits_def)
  have q: "LowerOffs q = (LowerOffs p)[i := if toLower s = s then packedLowerSameAsName else of_nat (length (LowerBlob p))]"
    "LowerBlob q = LowerBlob p @ (if toLower s = s then [] else toLower s)"
    using low(1) assms(2,4) by (auto simp: q_def frame setLowerName_def Let_def lowersOk_def)
  have nq: "nameAt q = nameAt (setName i s p)" by (simp add: q_def frame)
  have "lowerRight toLower q j" if "j = i \<or> lowerRight toLower p j"
    using that name len addressable [OF low(2)] assms(2-5) slice_stable [of "unat (LowerOffs p ! j)" "unat (NameLens p ! j)" "LowerBlob p"]
    by (auto simp: lowerRight_def q nq nth_list_update lowersOk_def fits_def)
  with name show ?thesis by (simp add: q_def frame)
qed

lemma contents_eqI:
  assumes "length (FRNs q) = length rs"
    "\<And>j. j < length rs \<Longrightarrow> FRNs q ! j = FRN (rs ! j) \<and> parentFRNAt q j = ParentFRN (rs ! j) \<and>
      Parents q ! j = Parent (rs ! j) \<and> nameAt q j = Name (rs ! j) \<and> modeAt q j = Mode (rs ! j) \<and>
      sizeAt q j = Size (rs ! j) \<and> modUnixAt q j = ModUnix (rs ! j) \<and> (deletedAt q j \<longleftrightarrow> Deleted (rs ! j))"
  shows "contents q = map normal rs"
  using assms by (intro nth_equalityI) (auto simp: contents_nth normal_eq)

lemma contents_fields:
  assumes "j < length (FRNs p)"
  shows "FRN (contents p ! j) = FRNs p ! j" "ParentFRN (contents p ! j) = parentFRNAt p j"
    "Parent (contents p ! j) = Parents p ! j" "Name (contents p ! j) = nameAt p j" "Mode (contents p ! j) = modeAt p j"
    "Size (contents p ! j) = sizeAt p j" "ModUnix (contents p ! j) = modUnixAt p j"
    "Deleted (contents p ! j) = deletedAt p j" "normal (contents p ! j) = contents p ! j"
  using assms by (simp_all add: contents_nth normal_def)

lemma map_normal_contents [simp]: "map normal (contents p) = contents p"
  by (intro nth_equalityI) (simp_all add: contents_fields)

text \<open>The last four writers of \<open>Set\<close>.\<close>

lemma setRest_at:
  fixes d :: bool and m :: u32 and z t :: int
  assumes "modesOk p" "sizesOk p" "timesOk p" "i < length (FRNs p)" "j < length (FRNs p)"
  defines "q \<equiv> setDeleted i d (setModUnix i t (setSize i z (setMode i m p)))"
  shows "modesOk q \<and> sizesOk q \<and> timesOk q \<and> modeAt q j = (if j = i then m else modeAt p j) \<and>
    sizeAt q j = (if j = i then z else sizeAt p j) \<and> modUnixAt q j = (if j = i then t else modUnixAt p j) \<and>
    deletedAt q j = (if j = i then d else deletedAt p j)"
proof -
  have "j < 2 ^ 32" using assms(1,5) by (simp add: modesOk_def)
  then show ?thesis
    using assms(1-5) modeAt_setMode [of p i j m] sizeAt_setSize [of "setMode i m p" i j z]
      modUnixAt_setModUnix [of "setSize i z (setMode i m p)" i t j]
      deletedAt_setDeleted [of i "setModUnix i t (setSize i z (setMode i m p))" d j]
    by (simp add: q_def frame)
qed

text \<open>Storing the reference number a record already has changes no other record's derived parent.\<close>

lemma setParents_at:
  fixes w :: u64 and k :: int
  assumes "parentsOk p" "i < length (FRNs p)" "j < length (FRNs p)" "f = FRNs p ! i"
  defines "p0 \<equiv> p\<lparr>FRNs := (FRNs p)[i := f], Parents := (Parents p)[i := k]\<rparr>"
  shows "FRNs (setParentFRN i w p0) = FRNs p \<and> parentsOk (setParentFRN i w p0) \<and>
    parentFRNAt (setParentFRN i w p0) j = (if j = i then w else parentFRNAt p j)"
proof -
  have p0: "p0 = p\<lparr>Parents := (Parents p)[i := k]\<rparr>" using assms(4) by (simp add: p0_def)
  have ok: "parentsOk p0" using assms(1) by (simp add: p0 parentsOk_def)
  have "parentFRNAt p0 j = parentFRNAt p j" if "j \<noteq> i"
    using that by (simp add: p0 parentFRNAt_def Let_def split: option.split)
  with parentFRNAt_setParentFRN [OF ok, of i j w] assms(2,3) show ?thesis by (simp add: frame p0)
qed

lemma packedSet_at:
  assumes "packedInv p" "i < length (FRNs p)" "FRN r = FRNs p ! i" "Name r = nameAt p i \<or> fits toLower (Name r) p"
  defines "q \<equiv> packedSet toLower (int i) r p"
  shows "packedInv q \<and> contents q = (contents p)[i := normal r] \<and>
    (\<forall>j<length (FRNs p). lowerRight toLower p j \<longrightarrow> lowerRight toLower q j)"
proof -
  define p0 where "p0 = p\<lparr>FRNs := (FRNs p)[i := FRN r], Parents := (Parents p)[i := Parent r]\<rparr>"
  define p1 where "p1 = setParentFRN i (ParentFRN r) p0"
  define p2 where "p2 = (if Name r \<noteq> nameAt p1 i then setLowerName toLower i (Name r) (setName i (Name r) p1) else p1)"
  have inv: "namesOk p" "lowersOk p" "modesOk p" "sizesOk p" "timesOk p" "parentsOk p"
    using assms(1) by (simp_all add: packedInv_def)
  have q: "q = setDeleted i (Deleted r) (setModUnix i (ModUnix r) (setSize i (Size r) (setMode i (Mode r) p2)))"
    using assms(2) by (simp add: q_def packedSet_def p2_def p1_def p0_def Let_def)
  have p0: "p0 = p\<lparr>Parents := (Parents p)[i := Parent r]\<rparr>" using assms(3) by (simp add: p0_def)
  have same: "namesOk p1 = namesOk p" "lowersOk p1 = lowersOk p" "modesOk p1 = modesOk p" "sizesOk p1 = sizesOk p"
    "timesOk p1 = timesOk p" "fits toLower s p1 = fits toLower s p" "nameAt p1 = nameAt p" "modeAt p1 = modeAt p"
    "sizeAt p1 = sizeAt p" "modUnixAt p1 = modUnixAt p" "deletedAt p1 = deletedAt p" "lowerRight toLower p1 = lowerRight toLower p"
    "FRNs p1 = FRNs p" "Parents p1 = (Parents p)[i := Parent r]" for s
    by (simp_all add: p1_def frame p0 parts readers fits_def lowerRight_def fun_eq_iff Let_def)
  have par: "parentsOk p1 \<and> parentFRNAt p1 j = (if j = i then ParentFRN r else parentFRNAt p j)" if "j < length (FRNs p)" for j
    using setParents_at [OF inv(6) assms(2) that assms(3)] by (simp add: p1_def p0_def)
  have names: "namesOk p2 \<and> nameAt p2 j = (if j = i then Name r else nameAt p j) \<and>
      (lowerRight toLower p j \<longrightarrow> lowerRight toLower p2 j)" if "j < length (FRNs p)" for j
    using setNames_at [of p1 toLower "Name r" i j] inv assms(2,4) that by (auto simp: p2_def same)
  have keep: "modesOk p2 = modesOk p" "sizesOk p2 = sizesOk p" "timesOk p2 = timesOk p" "lowersOk p2 = lowersOk p"
    "parentsOk p2 = parentsOk p1" "FRNs p2 = FRNs p" "Parents p2 = (Parents p)[i := Parent r]"
    "parentFRNAt p2 = parentFRNAt p1" "modeAt p2 = modeAt p" "sizeAt p2 = sizeAt p" "modUnixAt p2 = modUnixAt p"
    "deletedAt p2 = deletedAt p"
    by (simp_all add: p2_def frame same)
  have rest: "modesOk q \<and> sizesOk q \<and> timesOk q \<and> modeAt q j = (if j = i then Mode r else modeAt p j) \<and>
      sizeAt q j = (if j = i then Size r else sizeAt p j) \<and> modUnixAt q j = (if j = i then ModUnix r else modUnixAt p j) \<and>
      deletedAt q j = (if j = i then Deleted r else deletedAt p j)" if "j < length (FRNs p)" for j
    using setRest_at [of p2 i j "Deleted r" "ModUnix r" "Size r" "Mode r"] inv assms(2) that by (simp add: q keep)
  have kept: "FRNs q = FRNs p" "Parents q = (Parents p)[i := Parent r]" "parentFRNAt q = parentFRNAt p1" "nameAt q = nameAt p2"
    "lowerRight toLower q = lowerRight toLower p2" "namesOk q = namesOk p2" "lowersOk q = lowersOk p" "parentsOk q = parentsOk p1"
    by (simp_all add: q frame keep)
  have "packedInv q" using rest [OF assms(2)] names [OF assms(2)] par [OF assms(2)] inv by (simp add: packedInv_def kept)
  moreover have "length (Parents p) = length (FRNs p)" using inv(6) by (simp add: parentsOk_def)
  then have "contents q = map normal ((contents p)[i := r])"
    by (intro contents_eqI) (use par names rest assms(2,3) in \<open>simp_all add: kept contents_fields nth_list_update\<close>)
  ultimately show ?thesis using names by (simp add: kept map_update)
qed

lemma sideOk_mono: "sideOk n ids vals \<Longrightarrow> n \<le> m \<Longrightarrow> sideOk m ids vals"
  by (auto simp: sideOk_def)

lemma bitsetTest_push: "bitsetTest (bits @ [0]) j \<longleftrightarrow> bitsetTest bits j"
  by (auto simp: bitsetTest_iff nth_append)

lemma modeAt_test:
  "modeAt p i = (case sideLookup (ModeExtraIDs p) (ModeExtraValues p) (of_nat i) of
    Some v \<Rightarrow> v | None \<Rightarrow> if bitsetTest (DirBits p) i then modeDir else 0)"
  by (simp add: modeAt_def bitsetTest_def split: option.split)

lemma appendSize_at:
  fixes z :: int
  assumes "sizesOk p" "length (FRNs p) + 1 < 2 ^ 32" "length (FRNs q) = length (FRNs p) + 1" "Size32 q = Size32 p"
    "Size64IDs q = Size64IDs p" "Size64Values q = Size64Values p" "j \<le> length (FRNs p)"
  defines "n \<equiv> length (FRNs p)"
  defines "q' \<equiv> if Size32 q \<noteq> [] then setSize n z (q\<lparr>Size32 := Size32 q @ [0]\<rparr>)
    else if z \<noteq> 0 then setSize n z (q\<lparr>Size32 := replicate (n + 1) 0\<rparr>) else q"
  shows "sizesOk q' \<and> sizeAt q' j = (if j = n then z else sizeAt p j)"
proof -
  have p: "Size32 p = [] \<or> length (Size32 p) = n" "sideOk (n + 1) (Size64IDs p) (Size64Values p)"
    using assms(1) sideOk_mono [of n _ _ "n + 1"] by (auto simp: sizesOk_def n_def)
  define b where "b = q\<lparr>Size32 := (if Size32 q \<noteq> [] then Size32 q @ [0] else replicate (n + 1) 0)\<rparr>"
  have ok: "sizesOk b" using assms(2-6) p by (auto simp: sizesOk_def b_def n_def)
  have old: "sizeAt b j = sizeAt p j" if "j < n"
    using that p assms(3-6) by (auto simp: sizeAt_def b_def nth_append packedSize64Sentinel_def Let_def simp del: replicate_Suc)
  have new: "sizesOk (setSize n z b) \<and> sizeAt (setSize n z b) j = (if j = n then z else sizeAt b j)"
    using sizeAt_setSize [OF ok, of n j z] assms(3,7) by (simp add: b_def n_def)
  show ?thesis
  proof (cases "Size32 q = [] \<and> z = 0")
    case True
    then show ?thesis using assms(2-7) p by (auto simp: q'_def sizesOk_def sizeAt_def n_def)
  next
    case False
    then have "q' = setSize n z b" by (auto simp: q'_def b_def)
    then show ?thesis using new old assms(7) by (auto simp: n_def)
  qed
qed

lemma appendTime_at:
  fixes t :: int
  assumes "timesOk p" "length (FRNs q) = length (FRNs p) + 1" "ModUnixs q = ModUnixs p" "j \<le> length (FRNs p)"
  defines "n \<equiv> length (FRNs p)"
  defines "q' \<equiv> if ModUnixs q \<noteq> [] then q\<lparr>ModUnixs := ModUnixs q @ [t]\<rparr>
    else if t \<noteq> 0 then q\<lparr>ModUnixs := (replicate (n + 1) 0)[n := t]\<rparr> else q"
  shows "timesOk q' \<and> modUnixAt q' j = (if j = n then t else modUnixAt p j)"
  using assms by (auto simp: timesOk_def modUnixAt_def nth_append nth_list_update simp del: replicate_Suc)

lemma appendParent_at:
  assumes "parentsOk p" "FRNs q = FRNs p @ [f]" "Parents q = Parents p @ [k]" "ParentFRNExtras q = ParentFRNExtras p"
    "int (length (FRNs p)) \<notin> set (Parents p)"
  shows "parentsOk q \<and> (j < length (FRNs p) \<longrightarrow> parentFRNAt q j = parentFRNAt p j)"
proof -
  have "Parents p ! j \<noteq> int (length (FRNs p))" if "j < length (FRNs p)"
    using that assms(1,5) by (metis nth_mem parentsOk_def)
  then show ?thesis using assms(1-4)
    by (auto simp: parentsOk_def parentFRNAt_def nth_append Let_def nat_less_iff split: option.split)
qed

lemma pushed_at:
  fixes r :: CompactRecord
  assumes "packedInv p" "length (FRNs p) + 1 < 2 ^ 32" "int (length (FRNs p)) \<notin> set (Parents p)"
  defines "n \<equiv> length (FRNs p)" and "q \<equiv> pushed r p"
  shows "FRNs q = FRNs p @ [FRN r]" "Parents q = Parents p @ [Parent r]" "NameBlob q = NameBlob p" "LowerBlob q = LowerBlob p"
    "packedInv q" "j < n \<Longrightarrow> nameAt q j = nameAt p j" "j < n \<Longrightarrow> lowerRight toLower p j \<Longrightarrow> lowerRight toLower q j"
    "j < n \<Longrightarrow> modeAt q j = modeAt p j" "j < n \<Longrightarrow> deletedAt q j = deletedAt p j" "j < n \<Longrightarrow> parentFRNAt q j = parentFRNAt p j"
    "j \<le> n \<Longrightarrow> sizeAt q j = (if j = n then Size r else sizeAt p j)"
    "j \<le> n \<Longrightarrow> modUnixAt q j = (if j = n then ModUnix r else modUnixAt p j)"
proof -
  have inv: "namesOk p" "lowersOk p" "modesOk p" "sizesOk p" "timesOk p" "parentsOk p"
    using assms(1) by (simp_all add: packedInv_def)
  define need where "need = (n + 1 + 63) div 64"
  define p1 where "p1 = p\<lparr>FRNs := FRNs p @ [FRN r], Parents := Parents p @ [Parent r], NameOffs := NameOffs p @ [0],
             NameLens := NameLens p @ [0], LowerOffs := LowerOffs p @ [0]\<rparr>"
  define p2 where "p2 = (if length (DirBits p1) < need then p1\<lparr>DirBits := DirBits p1 @ [0]\<rparr> else p1)"
  define p3 where "p3 = (if Size32 p2 \<noteq> [] then setSize n (Size r) (p2\<lparr>Size32 := Size32 p2 @ [0]\<rparr>)
               else if Size r \<noteq> 0 then setSize n (Size r) (p2\<lparr>Size32 := replicate (n + 1) 0\<rparr>) else p2)"
  define p4 where "p4 = (if ModUnixs p3 \<noteq> [] then p3\<lparr>ModUnixs := ModUnixs p3 @ [ModUnix r]\<rparr>
               else if ModUnix r \<noteq> 0 then p3\<lparr>ModUnixs := (replicate (n + 1) 0)[n := ModUnix r]\<rparr> else p3)"
  have q: "q = (if length (DeletedBits p4) < need then p4\<lparr>DeletedBits := DeletedBits p4 @ [0]\<rparr> else p4)"
    by (simp only: q_def pushed_def Let_def n_def need_def p1_def p2_def p3_def p4_def)
  have p1: "length (FRNs p1) = n + 1" by (simp add: p1_def n_def)
  have f2: "FRNs p2 = FRNs p1" "Size32 p2 = Size32 p" "Size64IDs p2 = Size64IDs p" "Size64Values p2 = Size64Values p"
    "ModUnixs p2 = ModUnixs p" "Parents p2 = Parents p1" "ParentFRNExtras p2 = ParentFRNExtras p" "NameOffs p2 = NameOffs p1"
    "NameLens p2 = NameLens p1" "LowerOffs p2 = LowerOffs p1" "NameBlob p2 = NameBlob p" "LowerBlob p2 = LowerBlob p"
    "ModeExtraIDs p2 = ModeExtraIDs p" "ModeExtraValues p2 = ModeExtraValues p" "DeletedBits p2 = DeletedBits p"
    by (simp_all add: p2_def p1_def)
  have f3: "FRNs p3 = FRNs p1" "ModUnixs p3 = ModUnixs p" "Parents p3 = Parents p1" "ParentFRNExtras p3 = ParentFRNExtras p"
    "NameOffs p3 = NameOffs p1" "NameLens p3 = NameLens p1" "LowerOffs p3 = LowerOffs p1" "NameBlob p3 = NameBlob p"
    "LowerBlob p3 = LowerBlob p" "ModeExtraIDs p3 = ModeExtraIDs p" "ModeExtraValues p3 = ModeExtraValues p"
    "DeletedBits p3 = DeletedBits p" "DirBits p3 = DirBits p2"
    by (simp_all add: p3_def frame f2)
  have fq: "FRNs q = FRNs p1" "Parents q = Parents p1" "ParentFRNExtras q = ParentFRNExtras p"
    "NameOffs q = NameOffs p1" "NameLens q = NameLens p1" "LowerOffs q = LowerOffs p1" "NameBlob q = NameBlob p"
    "LowerBlob q = LowerBlob p" "ModeExtraIDs q = ModeExtraIDs p" "ModeExtraValues q = ModeExtraValues p"
    "DirBits q = DirBits p2" "Size32 q = Size32 p3" "Size64IDs q = Size64IDs p3" "Size64Values q = Size64Values p3"
    "ModUnixs q = ModUnixs p4" "length (FRNs p4) = n + 1"
    by (simp_all add: q p4_def f3 p1)
  show "FRNs q = FRNs p @ [FRN r]" "Parents q = Parents p @ [Parent r]" "NameBlob q = NameBlob p" "LowerBlob q = LowerBlob p"
    by (simp_all add: fq p1_def)
  have size: "sizesOk p3 \<and> (j \<le> n \<longrightarrow> sizeAt p3 j = (if j = n then Size r else sizeAt p j))" for j
    using appendSize_at [OF inv(4) assms(2), of p2 _ "Size r", folded n_def, folded p3_def] f2 p1 by auto
  have time: "timesOk p4 \<and> (j \<le> n \<longrightarrow> modUnixAt p4 j = (if j = n then ModUnix r else modUnixAt p j))" for j
    using appendTime_at [OF inv(5), of p3 _ "ModUnix r", folded n_def, folded p4_def] f3 p1 by auto
  have par: "parentsOk q \<and> (j < n \<longrightarrow> parentFRNAt q j = parentFRNAt p j)" for j
    using appendParent_at [OF inv(6) _ _ _ assms(3), of q "FRN r" "Parent r" j] by (simp add: fq p1_def n_def)
  have names: "namesOk q" using inv(1) by (simp add: namesOk_def fq p1_def list_all2_appendI)
  show nameAt: "nameAt q j = nameAt p j" if "j < n" for j
    using that nameAt_in_range [OF names, of j] nameAt_in_range [OF inv(1), of j] inv(1)
    by (simp add: fq p1_def n_def nth_append namesOk_def)
  show "lowerRight toLower q j" if "j < n" "lowerRight toLower p j"
    using that inv(1,2) nameAt [OF that(1)] by (simp add: lowerRight_def fq p1_def n_def nth_append namesOk_def lowersOk_def)
  show "modeAt q j = modeAt p j" by (simp add: modeAt_test fq p2_def p1_def bitsetTest_push)
  show "deletedAt q j = deletedAt p j" by (simp add: deletedAt_test q p4_def f3 bitsetTest_push)
  show "j < n \<Longrightarrow> parentFRNAt q j = parentFRNAt p j" using par by simp
  have sizeq: "sizeAt q = sizeAt p3" "sizesOk q = sizesOk p3" "modUnixAt q = modUnixAt p4" "timesOk q = timesOk p4"
    unfolding fun_eq_iff sizeAt_def modUnixAt_def sizesOk_def timesOk_def fq f3 p1 by simp_all
  show "j \<le> n \<Longrightarrow> sizeAt q j = (if j = n then Size r else sizeAt p j)"
    "j \<le> n \<Longrightarrow> modUnixAt q j = (if j = n then ModUnix r else modUnixAt p j)"
    using size time by (simp_all add: sizeq)
  have "modesOk q" using inv(3) assms(2) sideOk_mono [of n _ _ "n + 1"] by (simp add: modesOk_def fq p1 n_def)
  then show "packedInv q" using names inv(2) size time par by (simp add: packedInv_def sizeq lowersOk_def fq p1_def)
qed

lemma packedAppend_at:
  assumes "packedInv p" "length (FRNs p) + 1 < 2 ^ 32" "int (length (FRNs p)) \<notin> set (Parents p)" "fits toLower (Name r) p"
  defines "q \<equiv> packedAppend toLower r p"
  shows "packedInv q \<and> contents q = contents p @ [normal r] \<and>
    (\<forall>j\<le>length (FRNs p). j = length (FRNs p) \<or> lowerRight toLower p j \<longrightarrow> lowerRight toLower q j)"
proof -
  define n where "n = length (FRNs p)"
  define p5 where "p5 = pushed r p"
  define p6 where "p6 = setLowerName toLower n (Name r) (setName n (Name r) p5)"
  note push = pushed_at [OF assms(1-3), where r = r, folded p5_def n_def]
  have q: "q = setMode n (Mode r) (setDeleted n (Deleted r) (setParentFRN n (ParentFRN r) p6))"
    by (simp add: q_def packedAppend_def n_def p5_def p6_def Let_def)
  have n: "length (FRNs p5) = n + 1" "n < length (FRNs p5)" by (simp_all add: push n_def)
  have inv: "namesOk p5" "lowersOk p5" "modesOk p5" "sizesOk p5" "timesOk p5" "parentsOk p5"
    using push(5) by (simp_all add: packedInv_def)
  have fit: "fits toLower (Name r) p5" using assms(4) by (simp add: fits_def push)
  have names: "namesOk p6 \<and> nameAt p6 j = (if j = n then Name r else nameAt p j) \<and>
      (j = n \<or> lowerRight toLower p j \<longrightarrow> lowerRight toLower p6 j)" if "j \<le> n" for j
    using setNames_at [OF inv(1,2) fit n(2), of j] that push(6,7) [of j] n(1) by (auto simp: p6_def)
  have par: "parentsOk (setParentFRN n (ParentFRN r) p6) \<and>
      parentFRNAt (setParentFRN n (ParentFRN r) p6) j = (if j = n then ParentFRN r else parentFRNAt p j)" if "j \<le> n" for j
    using parentFRNAt_setParentFRN [of p6 n j "ParentFRN r"] inv(6) n that push(10) [of j] by (simp add: p6_def frame)
  have mode: "modesOk q \<and> modeAt q j = (if j = n then Mode r else modeAt p j)" if "j \<le> n" for j
    using modeAt_setMode [of "setDeleted n (Deleted r) (setParentFRN n (ParentFRN r) p6)" n j "Mode r"] inv(3) n that push(8) [of j]
      assms(2) by (simp add: q p6_def frame n_def)
  have del: "deletedAt q j = (if j = n then Deleted r else deletedAt p j)" if "j \<le> n" for j
    using deletedAt_setDeleted [of n "setParentFRN n (ParentFRN r) p6" "Deleted r" j] n that push(9) [of j]
    by (simp add: q p6_def frame)
  have kept: "FRNs q = FRNs p @ [FRN r]" "Parents q = Parents p @ [Parent r]" "nameAt q = nameAt p6"
    "parentFRNAt q = parentFRNAt (setParentFRN n (ParentFRN r) p6)" "sizeAt q = sizeAt p5" "modUnixAt q = modUnixAt p5"
    "lowerRight toLower q = lowerRight toLower p6" "namesOk q = namesOk p6" "lowersOk q = lowersOk p5" "sizesOk q = sizesOk p5"
    "timesOk q = timesOk p5" "parentsOk q = parentsOk (setParentFRN n (ParentFRN r) p6)"
    by (simp_all add: q p6_def frame push)
  have lenP: "length (Parents p) = length (FRNs p)" using assms(1) by (simp add: packedInv_def parentsOk_def)
  have "packedInv q" using names [of n] par [of n] mode [of n] inv by (simp add: packedInv_def kept)
  moreover have "contents q = map normal (contents p @ [r])"
  proof (rule contents_eqI)
    fix j assume "j < length (contents p @ [r])"
    then have j: "j \<le> n" by (simp add: n_def)
    show "FRNs q ! j = FRN ((contents p @ [r]) ! j) \<and> parentFRNAt q j = ParentFRN ((contents p @ [r]) ! j) \<and>
      Parents q ! j = Parent ((contents p @ [r]) ! j) \<and> nameAt q j = Name ((contents p @ [r]) ! j) \<and>
      modeAt q j = Mode ((contents p @ [r]) ! j) \<and> sizeAt q j = Size ((contents p @ [r]) ! j) \<and>
      modUnixAt q j = ModUnix ((contents p @ [r]) ! j) \<and> (deletedAt q j \<longleftrightarrow> Deleted ((contents p @ [r]) ! j))"
      using j par [OF j] names [OF j] mode [OF j] del [OF j] push(11,12) [OF j] lenP
      by (simp add: kept nth_append n_def contents_fields)
  qed (simp add: kept)
  ultimately show ?thesis using names by (simp add: kept n_def)
qed

section \<open>Packing a list of records\<close>

text \<open>A string is placed at an offset of a blob; the references a deduplicating writer keeps point at
  their names.\<close>

definition placed :: "string \<Rightarrow> u32 \<Rightarrow> string \<Rightarrow> bool" where
  "placed blob off s \<longleftrightarrow> unat off + length s \<le> length blob \<and> take (length s) (drop (unat off) blob) = s"

definition refsOk :: "nameRefs \<Rightarrow> string \<Rightarrow> bool" where
  "refsOk refs blob \<longleftrightarrow> (\<forall>s off len. refs s = Some (off, len) \<longrightarrow> unat len = length s \<and> placed blob off s)"

lemma placed_grow: "placed blob off s \<Longrightarrow> placed (blob @ x) off s"
  by (simp add: placed_def)

lemma placed_new: "unat off = length blob \<Longrightarrow> placed (blob @ s) off s"
  by (simp add: placed_def)

lemma refsOk_extend:
  "refsOk refs blob \<Longrightarrow> unat off = length blob \<Longrightarrow> unat len = length s \<Longrightarrow> refsOk (refs(s := Some (off, len))) (blob @ s)"
  by (auto simp: refsOk_def placed_grow placed_new)

lemma setNameDedup_shape:
  assumes "namesOk p" "i < length (FRNs p)" "length s \<le> maxNameBytes" "length (NameBlob p) < 2 ^ 32" "refsOk refs (NameBlob p)"
  obtains off len x refs' where
    "setNameDedup i s (p, refs) = (p\<lparr>NameOffs := (NameOffs p)[i := off], NameLens := (NameLens p)[i := len], NameBlob := NameBlob p @ x\<rparr>, refs')"
    "unat len = length s" "placed (NameBlob p @ x) off s" "refsOk refs' (NameBlob p @ x)" "length x \<le> length s"
proof (cases "refs s")
  case None
  let ?off = "of_nat (length (NameBlob p)) :: u32" and ?len = "of_nat (length s) :: u16"
  have w: "unat ?off = length (NameBlob p)" "unat ?len = length s" using assms(3,4) by (simp_all add: unat_of_nat_u32 unat_short)
  show ?thesis
    by (rule that [where off = ?off and len = ?len and x = s and refs' = "refs(s := Some (?off, ?len))"])
      (use None assms w in \<open>auto simp: setNameDedup_def Let_def namesOk_def placed_new refsOk_extend\<close>)
next
  case (Some ref)
  then obtain off len where ref: "refs s = Some (off, len)" by (cases ref) auto
  with assms(5) have "unat len = length s" "placed (NameBlob p) off s" unfolding refsOk_def by blast+
  with ref assms show ?thesis by (intro that [where off = off and len = len and x = "[]" and refs' = refs]) (auto simp: setNameDedup_def Let_def namesOk_def)
qed

lemma setLowerNameDedup_shape:
  assumes "lowersOk p" "i < length (FRNs p)" "length s \<le> maxNameBytes" "length (toLower s) = length s"
    "length (LowerBlob p) + length s < 2 ^ 32 - 1" "refsOk refs (LowerBlob p)"
  obtains off x refs' where
    "setLowerNameDedup toLower i s (p, refs) = (p\<lparr>LowerOffs := (LowerOffs p)[i := off], LowerBlob := LowerBlob p @ x\<rparr>, refs')"
    "if off = packedLowerSameAsName then toLower s = s else placed (LowerBlob p @ x) off (toLower s)"
    "refsOk refs' (LowerBlob p @ x)" "length x \<le> length s"
proof -
  let ?off = "of_nat (length (LowerBlob p)) :: u32"
  consider "toLower s = s" | "toLower s \<noteq> s" "refs (toLower s) = None" | off len where "toLower s \<noteq> s" "refs (toLower s) = Some (off, len)"
    by (cases "refs (toLower s)") auto
  then show ?thesis
  proof cases
    case 1
    with assms show ?thesis
      by (intro that [where off = packedLowerSameAsName and x = "[]" and refs' = refs]) (auto simp: setLowerNameDedup_def Let_def lowersOk_def)
  next
    case 2
    have w: "unat ?off = length (LowerBlob p)" "?off \<noteq> packedLowerSameAsName" "unat (of_nat (length (toLower s)) :: u16) = length (toLower s)"
      using assms(3-5) by (simp_all add: addressable unat_short)
    show ?thesis
      by (rule that [where off = ?off and x = "toLower s" and refs' = "refs(toLower s := Some (?off, of_nat (length (toLower s))))"])
        (use 2 w assms refsOk_extend [OF assms(6) w(1,3)] in \<open>auto simp: setLowerNameDedup_def Let_def lowersOk_def placed_new\<close>)
  next
    case 3
    then have at: "placed (LowerBlob p) off (toLower s)" using assms(6) unfolding refsOk_def by blast
    then have "unat off < 2 ^ 32 - 1" using assms(4,5) unfolding placed_def by linarith
    then have "off \<noteq> packedLowerSameAsName" using addressable(1) [of "unat off"] by simp
    with 3 assms at show ?thesis
      by (intro that [where off = off and x = "[]" and refs' = refs]) (auto simp: setLowerNameDedup_def Let_def lowersOk_def)
  qed
qed

lemma setSize_absent: "Size32 p = [] \<Longrightarrow> setSize i 0 p = p"
  by (simp add: setSize_def)

lemma setModUnix_absent: "ModUnixs p = [] \<Longrightarrow> setModUnix i 0 p = p"
  by (simp add: setModUnix_def)

lemma setSize_absent_iff: "Size32 p = [] \<longrightarrow> v = 0 \<Longrightarrow> Size32 (setSize i v p) = [] \<longleftrightarrow> Size32 p = []"
  by (auto simp: setSize_def upsertSize64_def Let_def split: prod.split)

lemma setModUnix_absent_iff: "ModUnixs p = [] \<longrightarrow> v = 0 \<Longrightarrow> ModUnixs (setModUnix i v p) = [] \<longleftrightarrow> ModUnixs p = []"
  by (auto simp: setModUnix_def Let_def)

text \<open>Without sizes or times in the store, the records have none, so packing writes them as \<open>Set\<close> does.\<close>

lemma packStep_tail:
  assumes "i < length (FRNs p)" "Size32 p = [] \<longrightarrow> z = 0" "ModUnixs p = [] \<longrightarrow> t = 0"
  shows "(let p4 = (if Size32 p \<noteq> [] then setSize i z p else p);
              p5 = (if ModUnixs p4 \<noteq> [] then p4\<lparr>ModUnixs := (ModUnixs p4)[i := t]\<rparr> else p4) in p5) = setModUnix i t (setSize i z p)"
  using assms by (auto simp: setSize_absent setModUnix_absent frame setModUnix_def Let_def)

definition packedUpTo :: "(string \<Rightarrow> string) \<Rightarrow> CompactRecord list \<Rightarrow> nat \<Rightarrow> PackedRecords \<times> nameRefs \<times> nameRefs \<Rightarrow> bool" where
  "packedUpTo toLower rs k acc \<longleftrightarrow> (case acc of (p, nrefs, lrefs) \<Rightarrow>
     packedInv p \<and> length (FRNs p) = length rs \<and> refsOk nrefs (NameBlob p) \<and> refsOk lrefs (LowerBlob p) \<and>
     length (NameBlob p) \<le> sum_list (map (length \<circ> Name) (take k rs)) \<and>
     length (LowerBlob p) \<le> sum_list (map (length \<circ> Name) (take k rs)) \<and>
     (Size32 p = [] \<longrightarrow> (\<forall>r\<in>set rs. Size r = 0)) \<and> (ModUnixs p = [] \<longrightarrow> (\<forall>r\<in>set rs. ModUnix r = 0)) \<and>
     (\<forall>j<k. FRNs p ! j = FRN (rs ! j) \<and> Parents p ! j = Parent (rs ! j) \<and> nameAt p j = Name (rs ! j) \<and>
       modeAt p j = Mode (rs ! j) \<and> sizeAt p j = Size (rs ! j) \<and> modUnixAt p j = ModUnix (rs ! j) \<and>
       (deletedAt p j \<longleftrightarrow> Deleted (rs ! j)) \<and> lowerRight toLower p j))"

text \<open>The records a store can hold: every name can be stored whole and lower-casing keeps its length,
  all names together fit the blobs, and record numbers fit 32 bits.\<close>

definition packable :: "(string \<Rightarrow> string) \<Rightarrow> CompactRecord list \<Rightarrow> bool" where
  "packable toLower rs \<longleftrightarrow> rs \<noteq> [] \<and> length rs < 2 ^ 32 \<and> sum_list (map (length \<circ> Name) rs) < 2 ^ 32 - 1 \<and>
     list_all (\<lambda>r. length (Name r) \<le> maxNameBytes \<and> length (toLower (Name r)) = length (Name r)) rs"

lemma packedUpTo_start:
  assumes "packable toLower rs"
  shows "packedUpTo toLower rs 0 (emptyPacked rs, (\<lambda>s. None), (\<lambda>s. None))"
  using assms by (auto simp: packedUpTo_def emptyPacked_def packedInv_def parts sideOk_def refsOk_def Let_def packable_def
      list_ex_iff list_all2_conv_all_nth)

lemma sum_take_Suc: "k < length rs \<Longrightarrow> sum_list (map f (take (Suc k) rs)) = sum_list (map f (take k rs)) + f (rs ! k)"
  for f :: "'a \<Rightarrow> nat"
  by (simp add: take_Suc_conv_app_nth)

lemma sum_take_le: "sum_list (map f (take k rs)) \<le> sum_list (map f rs)" for f :: "'a \<Rightarrow> nat"
  by (metis append_take_drop_id le_add1 map_append sum_list_append)

lemma packNames_at:
  fixes f :: u64 and k :: int
  assumes "packedInv p" "i < length (FRNs p)" "unat len = length s" "placed (NameBlob p @ x) off s"
    "if loff = packedLowerSameAsName then toLower s = s else placed (LowerBlob p @ y) loff (toLower s)" "length (toLower s) = length s"
    "j < length (FRNs p)"
  defines "q \<equiv> p\<lparr>FRNs := (FRNs p)[i := f], Parents := (Parents p)[i := k], NameOffs := (NameOffs p)[i := off],
    NameLens := (NameLens p)[i := len], NameBlob := NameBlob p @ x, LowerOffs := (LowerOffs p)[i := loff], LowerBlob := LowerBlob p @ y\<rparr>"
  shows "packedInv q \<and> nameAt q j = (if j = i then s else nameAt p j) \<and> (j = i \<or> lowerRight toLower p j \<longrightarrow> lowerRight toLower q j) \<and>
    modeAt q = modeAt p \<and> sizeAt q = sizeAt p \<and> modUnixAt q = modUnixAt p \<and> deletedAt q = deletedAt p"
proof -
  define c where "c = p\<lparr>NameOffs := (NameOffs p)[i := off], NameLens := (NameLens p)[i := len], NameBlob := NameBlob p @ x\<rparr>"
  have inv: "namesOk p" "lowersOk p" using assms(1) by (simp_all add: packedInv_def)
  have off: "unat off + unat len \<le> length (NameBlob p @ x)" using assms(3,4) by (simp add: placed_def)
  have c: "namesOk c" "nameAt c j = (if j = i then s else nameAt p j)"
    using nameAt_point [OF inv(1) assms(2) off] assms(3,4,7) by (simp_all add: c_def placed_def)
  have qc: "namesOk q = namesOk c" "nameAt q = nameAt c" by (simp_all add: q_def c_def namesOk_def nameAt_def fun_eq_iff Let_def)
  have others: "modeAt q = modeAt p" "sizeAt q = sizeAt p" "modUnixAt q = modUnixAt p" "deletedAt q = deletedAt p"
    by (simp_all add: q_def readers fun_eq_iff Let_def)
  have "packedInv q" using assms(1) c(1) qc(1) by (simp add: packedInv_def q_def parts)
  moreover have "lowerRight toLower q j" if "j = i \<or> lowerRight toLower p j"
  proof -
    have qf: "LowerOffs q = (LowerOffs p)[i := loff]" "LowerBlob q = LowerBlob p @ y" "NameLens q = (NameLens p)[i := len]"
      "nameAt q j = (if j = i then s else nameAt p j)" "length (LowerOffs p) = length (FRNs p)" "length (NameLens p) = length (FRNs p)"
      using c(2) inv by (simp_all add: q_def qc(2) [unfolded q_def] lowersOk_def namesOk_def)
    show ?thesis
    proof (cases "j = i")
      case True
      with assms(2,3,5,6) qf(4) show ?thesis by (simp add: lowerRight_def qf(1-3,5,6) placed_def split: if_splits)
    next
      case False
      with that show ?thesis by (auto simp: lowerRight_def qf)
    qed
  qed
  ultimately show ?thesis using c(2) others by (simp add: qc(2))
qed

lemma packStep_upTo:
  assumes "packable toLower rs" "i < length rs" "packedUpTo toLower rs i acc"
  shows "packedUpTo toLower rs (Suc i) (packStep toLower rs acc i)"
proof -
  obtain p nrefs lrefs where acc: "acc = (p, nrefs, lrefs)" by (cases acc) auto
  define r where "r = rs ! i"
  let ?sum = "\<lambda>k. sum_list (map (length \<circ> Name) (take k rs))"
  have r: "r \<in> set rs" "length (Name r) \<le> maxNameBytes" "length (toLower (Name r)) = length (Name r)"
    using assms(1,2) by (auto simp: packable_def r_def list_all_iff)
  have up: "packedInv p" "length (FRNs p) = length rs" "refsOk nrefs (NameBlob p)" "refsOk lrefs (LowerBlob p)"
    "length (NameBlob p) \<le> ?sum i" "length (LowerBlob p) \<le> ?sum i"
    "Size32 p = [] \<longrightarrow> (\<forall>r\<in>set rs. Size r = 0)" "ModUnixs p = [] \<longrightarrow> (\<forall>r\<in>set rs. ModUnix r = 0)"
    using assms(3) by (simp_all add: packedUpTo_def acc)
  have earlier: "FRNs p ! j = FRN (rs ! j) \<and> Parents p ! j = Parent (rs ! j) \<and> nameAt p j = Name (rs ! j) \<and>
       modeAt p j = Mode (rs ! j) \<and> sizeAt p j = Size (rs ! j) \<and> modUnixAt p j = ModUnix (rs ! j) \<and>
       (deletedAt p j \<longleftrightarrow> Deleted (rs ! j)) \<and> lowerRight toLower p j" if "j < i" for j
    using assms(3) that by (simp add: packedUpTo_def acc)
  have room: "?sum (Suc i) = ?sum i + length (Name r)" "?sum (Suc i) < 2 ^ 32 - 1"
    using assms(1,2) sum_take_le [of "length \<circ> Name" "Suc i" rs] by (simp_all add: sum_take_Suc r_def packable_def)
  define p0 where "p0 = p\<lparr>FRNs := (FRNs p)[i := FRN r], Parents := (Parents p)[i := Parent r]\<rparr>"
  have ok0: "namesOk p0" "i < length (FRNs p0)" "length (NameBlob p0) < 2 ^ 32" "refsOk nrefs (NameBlob p0)"
    using up assms(2) room by (simp_all add: p0_def packedInv_def namesOk_def)
  obtain off len x nrefs' where name:
    "setNameDedup i (Name r) (p0, nrefs) = (p0\<lparr>NameOffs := (NameOffs p0)[i := off], NameLens := (NameLens p0)[i := len], NameBlob := NameBlob p0 @ x\<rparr>, nrefs')"
    "unat len = length (Name r)" "placed (NameBlob p0 @ x) off (Name r)" "refsOk nrefs' (NameBlob p0 @ x)" "length x \<le> length (Name r)"
    by (rule setNameDedup_shape [OF ok0(1,2) r(2) ok0(3,4)])
  define p1 where "p1 = p0\<lparr>NameOffs := (NameOffs p0)[i := off], NameLens := (NameLens p0)[i := len], NameBlob := NameBlob p0 @ x\<rparr>"
  have ok1: "lowersOk p1" "i < length (FRNs p1)" "length (LowerBlob p1) + length (Name r) < 2 ^ 32 - 1" "refsOk lrefs (LowerBlob p1)"
    using up assms(2) room by (simp_all add: p1_def p0_def packedInv_def lowersOk_def)
  obtain loff y lrefs' where low:
    "setLowerNameDedup toLower i (Name r) (p1, lrefs) = (p1\<lparr>LowerOffs := (LowerOffs p1)[i := loff], LowerBlob := LowerBlob p1 @ y\<rparr>, lrefs')"
    "if loff = packedLowerSameAsName then toLower (Name r) = Name r else placed (LowerBlob p1 @ y) loff (toLower (Name r))"
    "refsOk lrefs' (LowerBlob p1 @ y)" "length y \<le> length (Name r)"
    by (rule setLowerNameDedup_shape [where toLower = toLower, OF ok1(1,2) r(2,3) ok1(3,4)])
  define p2 where "p2 = p1\<lparr>LowerOffs := (LowerOffs p1)[i := loff], LowerBlob := LowerBlob p1 @ y\<rparr>"
  have p2: "p2 = p\<lparr>FRNs := (FRNs p)[i := FRN r], Parents := (Parents p)[i := Parent r], NameOffs := (NameOffs p)[i := off],
    NameLens := (NameLens p)[i := len], NameBlob := NameBlob p @ x, LowerOffs := (LowerOffs p)[i := loff], LowerBlob := LowerBlob p @ y\<rparr>"
    by (simp add: p2_def p1_def p0_def)
  define q where "q = setDeleted i (Deleted r) (setModUnix i (ModUnix r) (setSize i (Size r) (setMode i (Mode r) p2)))"
  have none: "Size32 (setMode i (Mode r) p2) = [] \<longrightarrow> Size r = 0" "ModUnixs (setMode i (Mode r) p2) = [] \<longrightarrow> ModUnix r = 0"
    using up(7,8) r(1) by (auto simp: frame p2)
  have step: "packStep toLower rs acc i = (q, nrefs', lrefs')"
  proof -
    have "i < length (FRNs (setMode i (Mode r) p2))" using assms(2) up(2) by (simp add: frame p2)
    note tail = packStep_tail [OF this none, unfolded Let_def]
    show ?thesis
      by (simp only: packStep_def acc prod.case Let_def r_def [symmetric] p0_def [symmetric] name(1) p1_def [symmetric]
            low(1) p2_def [symmetric] tail q_def)
  qed
  have blobs: "NameBlob p0 = NameBlob p" "LowerBlob p1 = LowerBlob p" by (simp_all add: p1_def p0_def)
  have at2: "packedInv p2 \<and> nameAt p2 j = (if j = i then Name r else nameAt p j) \<and>
      (j = i \<or> lowerRight toLower p j \<longrightarrow> lowerRight toLower p2 j) \<and>
      modeAt p2 = modeAt p \<and> sizeAt p2 = sizeAt p \<and> modUnixAt p2 = modUnixAt p \<and> deletedAt p2 = deletedAt p" if "j < length rs" for j
    unfolding p2 using assms(2) that up(2)
    by (intro packNames_at [where toLower = toLower, OF up(1) _ name(2) name(3) [unfolded blobs] low(2) [unfolded blobs] r(3)])
      simp_all
  then have inv2: "namesOk p2" "lowersOk p2" "modesOk p2" "sizesOk p2" "timesOk p2" "parentsOk p2"
    using assms(2) by (auto simp: packedInv_def)
  have rest: "modesOk q \<and> sizesOk q \<and> timesOk q \<and> modeAt q j = (if j = i then Mode r else modeAt p2 j) \<and>
    sizeAt q j = (if j = i then Size r else sizeAt p2 j) \<and> modUnixAt q j = (if j = i then ModUnix r else modUnixAt p2 j) \<and>
    deletedAt q j = (if j = i then Deleted r else deletedAt p2 j)" if "j < length rs" for j
    unfolding q_def using that assms(2) up(2) by (intro setRest_at inv2) (simp_all add: p2)
  have kept: "FRNs q = (FRNs p)[i := FRN r]" "Parents q = (Parents p)[i := Parent r]" "nameAt q = nameAt p2"
    "lowerRight toLower q = lowerRight toLower p2" "namesOk q = namesOk p2" "lowersOk q = lowersOk p2" "parentsOk q = parentsOk p2"
    "NameBlob q = NameBlob p @ x" "LowerBlob q = LowerBlob p @ y"
    by (simp_all add: q_def frame) (simp_all add: p2)
  have empty: "Size32 q = [] \<longleftrightarrow> Size32 p = []" "ModUnixs q = [] \<longleftrightarrow> ModUnixs p = []"
    using setSize_absent_iff [OF none(1), of i] setModUnix_absent_iff [of "setSize i (Size r) (setMode i (Mode r) p2)" "ModUnix r" i] none(2)
    by (simp_all add: q_def frame p2)
  have fields: "FRNs q ! j = FRN (rs ! j) \<and> Parents q ! j = Parent (rs ! j) \<and> nameAt q j = Name (rs ! j) \<and>
       modeAt q j = Mode (rs ! j) \<and> sizeAt q j = Size (rs ! j) \<and> modUnixAt q j = ModUnix (rs ! j) \<and>
       (deletedAt q j \<longleftrightarrow> Deleted (rs ! j)) \<and> lowerRight toLower q j" if "j < Suc i" for j
  proof -
    have len: "length (Parents p) = length rs" using up(1,2) by (simp add: packedInv_def parentsOk_def)
    show ?thesis using that assms(2) at2 [of j] rest [of j] earlier [of j] up(2) len
      by (cases "j = i") (simp_all add: kept r_def)
  qed
  show ?thesis unfolding step packedUpTo_def prod.case
    using fields rest [OF assms(2)] inv2 name(4,5) low(3,4) up(2,5-8) room(1)
    by (simp add: packedInv_def kept empty p1_def p0_def)
qed

lemma packAll:
  assumes "packable toLower rs" "k \<le> length rs"
  shows "packedUpTo toLower rs k (foldl (packStep toLower rs) (emptyPacked rs, (\<lambda>s. None), (\<lambda>s. None)) [0..<k])"
  using assms(2) by (induction k) (simp_all add: packedUpTo_start packStep_upTo assms(1))

text \<open>The second pass writes the parent references and nothing else.\<close>

lemma packParents:
  fixes f :: "nat \<Rightarrow> u64"
  assumes "packedInv p" "k \<le> length (FRNs p)"
  defines "q \<equiv> foldl (\<lambda>p i. setParentFRN i (f i) p) p [0..<k]"
  shows "packedInv q \<and> FRNs q = FRNs p \<and> Parents q = Parents p \<and> nameAt q = nameAt p \<and> modeAt q = modeAt p \<and>
    sizeAt q = sizeAt p \<and> modUnixAt q = modUnixAt p \<and> deletedAt q = deletedAt p \<and> lowerRight toLower q = lowerRight toLower p \<and>
    (\<forall>j<k. parentFRNAt q j = f j)"
  unfolding q_def using assms(2)
proof (induction k)
  case (Suc k)
  let ?q = "foldl (\<lambda>p i. setParentFRN i (f i) p) p [0..<k]"
  have IH: "packedInv ?q" "FRNs ?q = FRNs p" "\<forall>j<k. parentFRNAt ?q j = f j" using Suc by simp_all
  then have par: "parentFRNAt (setParentFRN k (f k) ?q) j = (if j = k then f k else parentFRNAt ?q j) \<and> parentsOk (setParentFRN k (f k) ?q)"
    if "j < length (FRNs p)" for j
    using that Suc.prems by (intro parentFRNAt_setParentFRN) (simp_all add: packedInv_def)
  then show ?case using Suc IH par [of k] by (auto simp: frame packedInv_def less_Suc_eq)
qed (simp add: assms(1))

lemma newPackedRecords_at:
  assumes "packable toLower rs"
  obtains p where "newPackedRecords toLower rs = Some p" "packedInv p" "contents p = map normal rs"
    "\<forall>j<length rs. lowerNameAt toLower p j = toLower (Name (rs ! j))"
proof -
  obtain p nrefs lrefs where fold:
    "foldl (packStep toLower rs) (emptyPacked rs, (\<lambda>s. None), (\<lambda>s. None)) [0..<length rs] = (p, nrefs, lrefs)" by (metis prod_cases3)
  have up: "packedUpTo toLower rs (length rs) (p, nrefs, lrefs)" using packAll [OF assms, of "length rs"] fold by simp
  define q where "q = foldl (\<lambda>p i. setParentFRN i (ParentFRN (rs ! i)) p) p [0..<length rs]"
  have len: "packedInv p" "length (FRNs p) = length rs" using up by (simp_all add: packedUpTo_def)
  note par = packParents [OF len(1), of "length rs" "\<lambda>i. ParentFRN (rs ! i)" toLower, folded q_def]
  have "newPackedRecords toLower rs = Some q"
    using assms by (simp add: newPackedRecords_def packable_def fold q_def Let_def)
  moreover have q: "packedInv q" "length (FRNs q) = length rs" using par len by simp_all
  moreover have "contents q = map normal rs"
    by (rule contents_eqI) (use par up len in \<open>simp_all add: packedUpTo_def\<close>)
  moreover have "lowerNameAt toLower q j = toLower (Name (rs ! j))" if "j < length rs" for j
  proof -
    have "lowerRight toLower q j" "nameAt q j = Name (rs ! j)" using that par up len by (simp_all add: packedUpTo_def)
    with q that show ?thesis by (simp add: lowerRight_lowerNameAt packedInv_def)
  qed
  ultimately show ?thesis using that by blast
qed

lemma packParents_blobs:
  "NameBlob (foldl (\<lambda>p i. setParentFRN i (f i) p) p is) = NameBlob p \<and>
   LowerBlob (foldl (\<lambda>p i. setParentFRN i (f i) p) p is) = LowerBlob p"
  by (induction "is" arbitrary: p) (simp_all add: frame)

lemma newPackedRecords_room:
  assumes "packable toLower rs" "newPackedRecords toLower rs = Some p"
  shows "length (NameBlob p) \<le> sum_list (map (length \<circ> Name) rs)" "length (LowerBlob p) \<le> sum_list (map (length \<circ> Name) rs)"
proof -
  obtain q nrefs lrefs where fold:
    "foldl (packStep toLower rs) (emptyPacked rs, (\<lambda>s. None), (\<lambda>s. None)) [0..<length rs] = (q, nrefs, lrefs)" by (metis prod_cases3)
  have "packedUpTo toLower rs (length rs) (q, nrefs, lrefs)" using packAll [OF assms(1), of "length rs"] fold by simp
  moreover have "NameBlob p = NameBlob q \<and> LowerBlob p = LowerBlob q"
    using assms packParents_blobs by (auto simp: newPackedRecords_def packable_def fold Let_def)
  ultimately show "length (NameBlob p) \<le> sum_list (map (length \<circ> Name) rs)" "length (LowerBlob p) \<le> sum_list (map (length \<circ> Name) rs)"
    by (simp_all add: packedUpTo_def)
qed

section \<open>The record store contract\<close>

text \<open>
  What the users of the records of an index rely on (\<open>compactRecord\<close>, \<open>setCompactRecord\<close>): a read returns the
  record last written, and a write that keeps the reference number and the name of a record replaces that
  record and no other. \<open>records\<close> is the list of records of a store.
\<close>

locale record_store =
  fixes valid :: "'s \<Rightarrow> bool" and records :: "'s \<Rightarrow> CompactRecord list"
    and get :: "'s \<Rightarrow> int \<Rightarrow> CompactRecord" and put :: "int \<Rightarrow> CompactRecord \<Rightarrow> 's \<Rightarrow> 's"
  assumes get_records: "valid s \<Longrightarrow> i < length (records s) \<Longrightarrow> normal (get s (int i)) = records s ! i"
    and put_records: "valid s \<Longrightarrow> i < length (records s) \<Longrightarrow> FRN r = FRN (records s ! i) \<Longrightarrow> Name r = Name (records s ! i) \<Longrightarrow>
      valid (put (int i) r s) \<and> records (put (int i) r s) = (records s)[i := normal r]"
begin

text \<open>Reading a record, marking it deleted and writing it back.\<close>

lemma put_deleted:
  assumes "valid s" "i < length (records s)"
  defines "s' \<equiv> put (int i) ((get s (int i))\<lparr>Deleted := True\<rparr>) s"
  shows "valid s'" "records s' = (records s)[i := (records s ! i)\<lparr>Deleted := True\<rparr>]"
proof -
  have r: "normal (get s (int i)) = records s ! i" by (rule get_records [OF assms(1,2)])
  have f: "FRN (get s (int i)) = FRN (records s ! i)" "Name (get s (int i)) = Name (records s ! i)"
    unfolding r [symmetric] by (simp_all add: normal_def)
  have n: "normal ((get s (int i))\<lparr>Deleted := True\<rparr>) = (records s ! i)\<lparr>Deleted := True\<rparr>"
    unfolding r [symmetric] by (simp add: normal_def)
  show "valid s'" "records s' = (records s)[i := (records s ! i)\<lparr>Deleted := True\<rparr>]"
    using put_records [OF assms(1,2), of "(get s (int i))\<lparr>Deleted := True\<rparr>"] f n by (simp_all add: s'_def)
qed

lemma get_deleted: "valid s \<Longrightarrow> i < length (records s) \<Longrightarrow> Deleted (get s (int i)) = Deleted (records s ! i)"
  using get_records [of s i] by (metis (no_types, lifting) CompactRecord.ext_inject CompactRecord.surjective normal_eq)

end

interpretation packed: record_store packedInv contents packedAt "packedSet toLower" for toLower
proof
  fix s i and r :: CompactRecord
  assume s: "packedInv s" "i < length (contents s)"
  then show "normal (packedAt s (int i)) = contents s ! i" by (simp add: contents_def packedLen_def)
  assume "FRN r = FRN (contents s ! i)" "Name r = Name (contents s ! i)"
  with s show "packedInv (packedSet toLower (int i) r s) \<and> contents (packedSet toLower (int i) r s) = (contents s)[i := normal r]"
    using packedSet_at [of s i r toLower] by (simp add: contents_fields)
qed

section \<open>Properties\<close>

definition exampleRecords :: "CompactRecord list" where
  "exampleRecords =
    [zeroRecord\<lparr>FRN := 5, ParentFRN := 5, Parent := - 1, Name := ''Root'', Mode := modeDir\<rparr>,
     zeroRecord\<lparr>FRN := 9, ParentFRN := 5, Parent := 0, Name := ''a.TXT'', Mode := 0x1A4, Size := 5000000000, ModUnix := 17\<rparr>,
     zeroRecord\<lparr>FRN := 12, ParentFRN := 77, Parent := 0, Name := ''a.TXT'', Size := 3, Deleted := True\<rparr>]"

lemma example_packable: "packable lowerASCII exampleRecords"
  by (simp add: packable_def exampleRecords_def maxNameBytes_def zeroRecord_def)

text \<open>C34: packing a list of records and reading the store back returns every record, and every lower-case
  name, when the names fit the name blob and lower-casing keeps their length.\<close>

theorem newPackedRecords_roundtrip:
  assumes "packable toLower rs"
  shows "\<exists>p. newPackedRecords toLower rs = Some p \<and> packedInv p \<and>
    map (\<lambda>i. normal (packedAt p (int i))) [0..<packedLen p] = map normal rs \<and>
    map (lowerNameAt toLower p) [0..<packedLen p] = map (toLower \<circ> Name) rs"
proof -
  obtain p where p: "newPackedRecords toLower rs = Some p" "packedInv p" "contents p = map normal rs"
    "\<forall>j<length rs. lowerNameAt toLower p j = toLower (Name (rs ! j))" by (rule newPackedRecords_at [OF assms])
  then have "packedLen p = length rs" by (metis length_contents length_map packedLen_def)
  with p show ?thesis by (intro exI [of _ p]) (auto simp: contents_def intro: nth_equalityI)
qed

theorem newPackedRecords_roundtrip_witness:
  "packable lowerASCII exampleRecords \<and> (\<exists>p. newPackedRecords lowerASCII exampleRecords = Some p \<and> packedInv p \<and>
    map (\<lambda>i. normal (packedAt p (int i))) [0..<packedLen p] = map normal exampleRecords \<and>
    map (lowerNameAt lowerASCII p) [0..<packedLen p] = map (lowerASCII \<circ> Name) exampleRecords)"
  using newPackedRecords_roundtrip [OF example_packable] example_packable by blast

text \<open>C8: \<open>Set\<close> and \<open>Append\<close> refine the update and the extension of the list of records, for a record that keeps
  its reference number, and for a new record whose index no existing record names as its parent.\<close>

theorem packed_store_refines_list:
  assumes "packedInv p" "fits toLower (Name r) p"
  shows "(i < packedLen p \<and> FRN r = FRN (packedAt p (int i)) \<longrightarrow>
      packedInv (packedSet toLower (int i) r p) \<and> contents (packedSet toLower (int i) r p) = (contents p)[i := normal r]) \<and>
    (packedLen p + 1 < 2 ^ 32 \<and> int (packedLen p) \<notin> set (Parents p) \<longrightarrow>
      packedInv (packedAppend toLower r p) \<and> contents (packedAppend toLower r p) = contents p @ [normal r]) \<and>
    (i \<ge> packedLen p \<longrightarrow> packedSet toLower (int i) r p = p)"
  using packedSet_at [OF assms(1), of i r toLower] packedAppend_at [OF assms(1) _ _ assms(2)] assms(2)
  by (auto simp: packedLen_def packedAt_def packedSet_def)

definition exampleStore :: PackedRecords where
  "exampleStore = \<lparr>FRNs = [5, 9], ParentFRNExtras = (\<lambda>i. None), Parents = [- 1, 0], NameOffs = [0, 1], NameLens = [1, 1],
    LowerOffs = [packedLowerSameAsName, packedLowerSameAsName], DirBits = [1], ModeExtraIDs = [], ModeExtraValues = [],
    Size32 = [], Size64IDs = [], Size64Values = [], ModUnixs = [], DeletedBits = [0], NameBlob = ''ab'', LowerBlob = []\<rparr>"

definition exampleUpdate :: CompactRecord where
  "exampleUpdate = zeroRecord\<lparr>FRN := 9, ParentFRN := 5, Parent := 0, Name := ''C'', Size := 4294967295, ModUnix := - 3\<rparr>"

lemma example_store: "packedInv exampleStore" "fits lowerASCII (Name exampleUpdate) exampleStore"
  "packedLen exampleStore = 2" "Parents exampleStore = [- 1, 0]" "FRN exampleUpdate = FRN (packedAt exampleStore (int 1))"
  by (simp_all add: packedInv_def parts sideOk_def exampleStore_def fits_def exampleUpdate_def maxNameBytes_def packedLen_def packedAt_def)

theorem packed_store_refines_list_witness:
  "contents (packedSet lowerASCII 1 exampleUpdate exampleStore) = (contents exampleStore)[1 := normal exampleUpdate] \<and>
   contents (packedAppend lowerASCII exampleUpdate exampleStore) = contents exampleStore @ [normal exampleUpdate]"
  using packed_store_refines_list [OF example_store(1,2), of 1] example_store by simp

text \<open>repacking (unpacking every record and packing them again) returns a store with the same records.\<close>

theorem repackCompactRecords_preserves:
  assumes "packable toLower (contents p)"
  shows "\<exists>q. repackCompactRecords toLower p = Some q \<and> packedInv q \<and> contents q = contents p"
proof -
  let ?rs = "map (\<lambda>i. packedAt p (int i)) [0..<packedLen p]"
  have n: "contents p = map normal ?rs" by (simp add: contents_def)
  have "packable toLower ?rs"
    using assms unfolding n by (simp add: packable_def list_all_iff normal_def o_def)
  then obtain q where "newPackedRecords toLower ?rs = Some q" "packedInv q" "contents q = map normal ?rs"
    by (rule newPackedRecords_at)
  then show ?thesis unfolding n by (simp add: repackCompactRecords_def)
qed

theorem repackCompactRecords_preserves_witness:
  "\<exists>q. repackCompactRecords lowerASCII exampleStore = Some q \<and> packedInv q \<and> contents q = contents exampleStore"
proof (rule repackCompactRecords_preserves)
  show "packable lowerASCII (contents exampleStore)"
    by (simp add: packable_def contents_def packedLen_def exampleStore_def upt_rec normal_def packedAt_def nameAt_def maxNameBytes_def)
qed

text \<open>the parent reference of a record is derived from the stored number of its parent, so \<open>Set\<close> with a new
  reference number for a directory also changes the parent reference that its children read back.\<close>

theorem packedSet_changes_other_record:
  "packedInv exampleStore \<and> ParentFRN (packedAt exampleStore 1) = 5 \<and>
   ParentFRN (packedAt (packedSet lowerASCII 0 ((packedAt exampleStore 0)\<lparr>FRN := 6\<rparr>) exampleStore) 1) = 6"
proof -
  have "ParentFRN (packedAt exampleStore 1) = 5"
    by (simp add: exampleStore_def packedAt_def parentFRNAt_def)
  moreover have "ParentFRN (packedAt (packedSet lowerASCII 0 ((packedAt exampleStore 0)\<lparr>FRN := 6\<rparr>) exampleStore) 1) = 6"
    by code_simp
  ultimately show ?thesis using example_store(1) by simp
qed

text \<open>the lower-case name is read back with the length of the name, so it is cut when lower-casing lengthens
  the name, as \<open>strings.ToLower\<close> does for U+0130 (two bytes, mapped to U+0069 U+0307, three bytes).\<close>

theorem packed_lower_name_cut:
  assumes "packedInv p" "i < packedLen p" "toLower s \<noteq> s" "length s \<le> length (toLower s)" "length (toLower s) \<le> maxNameBytes"
    "length (LowerBlob p) < 2 ^ 32 - 1"
  shows "lowerNameAt toLower (setLowerName toLower i s (setName i s p)) i = take (length s) (toLower s)"
proof -
  define q where "q = setLowerName toLower i s (setName i s p)"
  have len: "length (LowerOffs p) = length (FRNs p)" "length (NameLens p) = length (FRNs p)" "length (NameOffs p) = length (FRNs p)"
    "i < length (FRNs p)"
    using assms(1,2) by (simp_all add: packedInv_def parts packedLen_def)
  have "LowerOffs q = (LowerOffs p)[i := of_nat (length (LowerBlob p))]" "LowerBlob q = LowerBlob p @ toLower s"
    using assms(3,5) len by (simp_all add: q_def setLowerName_def Let_def frame)
  moreover have "unat (NameLens q ! i) = length s"
    using assms(4,5) len unat_short [of s] by (simp add: q_def frame setName_def Let_def)
  ultimately have "lowerNameAt toLower q i = take (length s) (toLower s)"
    using addressable [OF assms(6)] len assms(4) by (simp add: lowerNameAt_def Let_def)
  then show ?thesis by (simp add: q_def)
qed

definition lowerDottedI :: "string \<Rightarrow> string" where
  "lowerDottedI s = (if s = map char_of [0xC4, 0xB0 :: nat] then map char_of [0x69, 0xCC, 0x87 :: nat] else s)"

theorem packed_lower_name_cut_witness:
  "let s = map char_of [0xC4, 0xB0 :: nat] in
   lowerNameAt lowerDottedI (setLowerName lowerDottedI 0 s (setName 0 s exampleStore)) 0 = map char_of [0x69, 0xCC :: nat]"
  using packed_lower_name_cut [OF example_store(1), of 0 lowerDottedI "map char_of [0xC4, 0xB0 :: nat]"]
  by (simp add: Let_def lowerDottedI_def packedLen_def exampleStore_def maxNameBytes_def)

end
