(* ===== verification/Subtree.thy ===== *)
theory Subtree
  imports Postings
begin

text \<open>
  The directory tree of a volume (\<open>service_state.go\<close>, \<open>index_format.go\<close>, \<open>planner_under.go\<close>): the
  child lists in compressed form, the depth-first subtree intervals, the per-subtree aggregates
  (recursive sizes and best ranks), and the descendant tests that the \<open>under:\<close> filters use.

  The lemmas show that the counting sort of \<open>buildCompactChildren\<close> yields for every record its
  children in ascending order, that the depth-first walk gives every record an interval of the
  order that holds exactly its descendants, and that the backward passes over the order aggregate
  over exactly those.
\<close>

section \<open>Child lists\<close>

text \<open>
  The volume of \<open>Postings\<close> with its child arrays. \<open>liveChildren\<close> is \<open>vol.children\<close>, nil or a map
  from a parent's file reference to its children in the iteration order.
\<close>

record treeVolume = coverageVolume +
  childOffsets :: "u32 list"
  childIDs :: "u32 list"
  rootIDs :: "u32 list"
  liveChildren :: "(u64 \<Rightarrow> int list) option"

text \<open>A record's parent, when it is another record of the volume.\<close>

definition parentOf :: "CompactRecord list \<Rightarrow> nat \<Rightarrow> nat option" where
  "parentOf rs rid =
    (let parent = Parent (rs ! rid)
     in if parent < 0 \<or> parent \<ge> int (length rs) \<or> parent = int rid then None else Some (nat parent))"

definition countStep :: "CompactRecord list \<Rightarrow> u32 list \<times> u32 list \<times> nat \<Rightarrow> nat \<Rightarrow> u32 list \<times> u32 list \<times> nat" where
  "countStep rs acc rid =
    (case acc of (roots, counts, tot) \<Rightarrow>
      (case parentOf rs rid of
        None \<Rightarrow> if \<not> Deleted (rs ! rid) then (roots @ [of_nat rid], counts, tot) else acc
      | Some parent \<Rightarrow> (roots, counts[parent + 1 := counts ! (parent + 1) + 1], tot + 1)))"

definition prefixSums :: "u32 list \<Rightarrow> u32 list" where
  "prefixSums counts = foldl (\<lambda>cs i. cs[i := cs ! i + cs ! (i - 1)]) counts [1..<length counts]"

definition placeStep :: "CompactRecord list \<Rightarrow> u32 list \<times> u32 list \<Rightarrow> nat \<Rightarrow> u32 list \<times> u32 list" where
  "placeStep rs acc rid =
    (case acc of (nexts, ids) \<Rightarrow>
      (case parentOf rs rid of
        None \<Rightarrow> acc
      | Some parent \<Rightarrow> (nexts[parent := nexts ! parent + 1], ids[unat (nexts ! parent) := of_nat rid])))"

definition childIDsForRecord :: "treeVolume \<Rightarrow> int \<Rightarrow> u32 list" where
  "childIDsForRecord vol rid =
    (if rid < 0 then []
     else
       let s = childOffsets vol ! nat rid; e = childOffsets vol ! (nat rid + 1)
       in if length (childOffsets vol) > nat rid + 1 \<and> s \<le> e \<and> unat e \<le> length (childIDs vol)
          then take (unat e - unat s) (drop (unat s) (childIDs vol))
          else case liveChildren vol of
            None \<Rightarrow> []
          | Some kids \<Rightarrow>
              if nat rid \<ge> length (recs vol) then []
              else map of_int (filter (\<lambda>c. c \<ge> 0) (kids (FRN (recs vol ! nat rid)))))"

section \<open>Subtree intervals\<close>

record walkState =
  wSeen :: "bool list"
  wOrder :: "u32 list"
  wStart :: "u32 list"
  wEnd :: "u32 list"

definition enter :: "nat \<Rightarrow> walkState \<Rightarrow> walkState" where
  "enter rid st = st\<lparr>wSeen := (wSeen st)[rid := True],
     wStart := (wStart st)[rid := of_nat (length (wOrder st))], wOrder := wOrder st @ [of_nat rid]\<rparr>"

definition leave :: "nat \<Rightarrow> walkState \<Rightarrow> walkState" where
  "leave rid st = st\<lparr>wEnd := (wEnd st)[rid := of_nat (length (wOrder st))]\<rparr>"

text \<open>
  The recursive closure \<open>walk\<close>, called on each record of a list in turn; \<open>seen\<close> has one entry
  per record.
\<close>

definition unseen :: "walkState \<Rightarrow> nat" where
  "unseen st = length (filter Not (wSeen st))"

function walk :: "(nat \<Rightarrow> nat list) \<Rightarrow> nat list \<Rightarrow> walkState \<Rightarrow> walkState" where
  "walk ch [] st = st"
| "walk ch (rid # ids) st =
    (if rid \<ge> length (wSeen st) \<or> wSeen st ! rid then walk ch ids st
     else walk ch ids (leave rid (walk ch (ch rid) (enter rid st))))"
  by pat_completeness auto

lemma unseen_leave [simp]: "unseen (leave rid st) = unseen st"
  by (simp add: unseen_def leave_def)

lemma length_filter_Not_update:
  "i < length s \<Longrightarrow> \<not> s ! i \<Longrightarrow> length (filter Not s) = Suc (length (filter Not (s[i := True])))"
  by (induction s arbitrary: i) (auto simp: nth_Cons split: nat.splits)

lemma unseen_enter:
  "rid < length (wSeen st) \<Longrightarrow> \<not> wSeen st ! rid \<Longrightarrow> unseen (enter rid st) < unseen st"
  using length_filter_Not_update [of rid "wSeen st"] by (simp add: unseen_def enter_def)

lemma walk_unseen: "walk_dom (ch, ids, st) \<Longrightarrow> unseen (walk ch ids st) \<le> unseen st"
proof (induction ch ids st rule: walk.pinduct)
  case (2 ch rid ids st)
  show ?case
  proof (cases "rid \<ge> length (wSeen st) \<or> wSeen st ! rid")
    case True
    with 2 show ?thesis by (simp add: walk.psimps)
  next
    case False
    with 2 have "unseen (walk ch ids (leave rid (walk ch (ch rid) (enter rid st)))) \<le> unseen (enter rid st)"
      by fastforce
    also have "\<dots> \<le> unseen st" using unseen_enter False by (simp add: less_imp_le)
    finally show ?thesis using 2 False by (simp add: walk.psimps)
  qed
qed (simp add: walk.psimps)

termination walk
proof (relation "measures [\<lambda>(ch, ids, st). unseen st, \<lambda>(ch, ids, st). length ids]")
  fix ch :: "nat \<Rightarrow> nat list" and rid ids and st :: walkState
  assume ok: "\<not> (rid \<ge> length (wSeen st) \<or> wSeen st ! rid)"
  show "((ch, ch rid, enter rid st), ch, rid # ids, st) \<in> measures [\<lambda>(ch, ids, st). unseen st, \<lambda>(ch, ids, st). length ids]"
    using unseen_enter ok by simp
  assume "walk_dom (ch, ch rid, enter rid st)"
  then have "unseen (walk ch (ch rid) (enter rid st)) < unseen st"
    using walk_unseen unseen_enter ok by (meson not_le order.strict_trans1)
  then show "((ch, ids, leave rid (walk ch (ch rid) (enter rid st))), ch, rid # ids, st) \<in>
      measures [\<lambda>(ch, ids, st). unseen st, \<lambda>(ch, ids, st). length ids]" by simp
qed simp_all

definition startWalk :: "nat \<Rightarrow> walkState" where
  "startWalk n = \<lparr>wSeen = replicate n False, wOrder = [], wStart = replicate n (- 1), wEnd = replicate n 0\<rparr>"

definition buildSubtreeRanges :: "treeVolume \<Rightarrow> treeVolume" where
  "buildSubtreeRanges vol =
    (if childOffsets vol = [] then vol
     else
       let n = length (recs vol);
           ch = (\<lambda>rid. map unat (childIDsForRecord vol (int rid)));
           st = walk ch [0..<n] (walk ch (map unat (rootIDs vol)) (startWalk n))
       in vol\<lparr>subtreeOrder := wOrder st, subtreeStart := wStart st, subtreeEnd := wEnd st\<rparr>)"

text \<open>\<open>intervalsEnabled\<close> is \<open>serviceSubtreeIntervalsEnabled()\<close>, read from the environment.\<close>

definition buildCompactChildren :: "bool \<Rightarrow> treeVolume \<Rightarrow> treeVolume" where
  "buildCompactChildren intervalsEnabled vol =
    (let rs = recs vol; n = length rs;
         (roots, counts, tot) = foldl (countStep rs) ([], replicate (n + 1) 0, 0) [0..<n]
     in if tot = 0 then vol\<lparr>rootIDs := roots\<rparr>
        else
          let offs = prefixSums counts;
              (nexts, ids) = foldl (placeStep rs) (take n offs, replicate tot 0) [0..<n];
              vol' = vol\<lparr>rootIDs := roots, childOffsets := offs, childIDs := ids\<rparr>
          in if intervalsEnabled then buildSubtreeRanges vol'
             else vol'\<lparr>subtreeOrder := [], subtreeStart := [], subtreeEnd := []\<rparr>)"

section \<open>Aggregates over subtrees\<close>

definition rankStep :: "treeVolume \<Rightarrow> u32 list \<Rightarrow> u32 list \<Rightarrow> u32 \<Rightarrow> u32 list" where
  "rankStep vol ranks best id32 =
    (let rid = unat id32 in
     if rid \<ge> length best then best
     else
       let best1 = (if \<not> Deleted (recs vol ! rid) then best[rid := ranks ! rid] else best)
       in foldl (\<lambda>b child32. let c = unat child32 in
            if c < length b \<and> b ! c < b ! rid then b[rid := b ! c] else b)
          best1 (childIDsForRecord vol (int rid)))"

definition buildSubtreeMinRanks :: "treeVolume \<Rightarrow> u32 list \<Rightarrow> u32 list" where
  "buildSubtreeMinRanks vol ranks =
    (if length ranks < length (recs vol) \<or> subtreeOrder vol = [] then []
     else foldl (rankStep vol ranks) (replicate (length (recs vol)) (- 1)) (rev (subtreeOrder vol)))"

definition ownBytes :: "CompactRecord \<Rightarrow> u64" where
  "ownBytes r = (if \<not> Deleted r \<and> \<not> isDirMode (Mode r) \<and> Size r > 0 then of_int (Size r) else 0)"

definition bytesStep :: "treeVolume \<Rightarrow> u64 list \<Rightarrow> u32 \<Rightarrow> u64 list" where
  "bytesStep vol bytes id32 =
    (let rid = unat id32 in
     if rid \<ge> length (recs vol) then bytes
     else bytes[rid := foldl (\<lambda>sum child32. let c = unat child32 in
            if c < length (recs vol) then sum + bytes ! c else sum)
          (ownBytes (recs vol ! rid)) (childIDsForRecord vol (int rid))])"

definition buildSubtreeBytes :: "treeVolume \<Rightarrow> u64 list" where
  "buildSubtreeBytes vol =
    (if subtreeOrder vol = [] then []
     else foldl (bytesStep vol) (replicate (length (recs vol)) 0) (rev (subtreeOrder vol)))"

section \<open>Descendant tests\<close>

text \<open>The climb along \<open>Parent\<close>; \<open>seen\<close> are the records already met, \<open>depth\<close> the turns left.\<close>

fun climb :: "CompactRecord list \<Rightarrow> int \<Rightarrow> nat \<Rightarrow> int list \<Rightarrow> int \<Rightarrow> bool" where
  "climb rs rootID 0 seen cur = False"
| "climb rs rootID (Suc depth) seen cur =
    (if cur = rootID then True
     else if cur < 0 \<or> cur \<ge> int (length rs) then False
     else if cur \<in> set seen then False
     else let parent = Parent (rs ! nat cur)
       in if parent < 0 then False else climb rs rootID depth (cur # seen) parent)"

definition isDescendantOrSelf :: "treeVolume \<Rightarrow> int \<Rightarrow> int \<Rightarrow> bool" where
  "isDescendantOrSelf vol rid rootID =
    (if rid \<ge> 0 \<and> rootID \<ge> 0 \<and> nat rid < length (subtreeStart vol) \<and> nat rootID < length (subtreeStart vol) \<and>
        subtreeStart vol ! nat rootID \<noteq> - 1 \<and> subtreeStart vol ! nat rid \<noteq> - 1
     then subtreeStart vol ! nat rid \<ge> subtreeStart vol ! nat rootID \<and>
       subtreeStart vol ! nat rid < subtreeEnd vol ! nat rootID
     else climb (recs vol) rootID 1024 [] rid)"

fun climbAny :: "CompactRecord list \<Rightarrow> int list \<Rightarrow> nat \<Rightarrow> int \<Rightarrow> bool" where
  "climbAny rs roots 0 cur = False"
| "climbAny rs roots (Suc depth) cur =
    (if cur < 0 \<or> cur \<ge> int (length rs) then False
     else if cur \<in> set roots then True
     else let parent = Parent (rs ! nat cur)
       in if parent < 0 \<or> parent = cur then False else climbAny rs roots depth parent)"

definition isDescendantOrSelfAnyFast :: "treeVolume \<Rightarrow> int \<Rightarrow> int list \<Rightarrow> bool" where
  "isDescendantOrSelfAnyFast vol rid roots =
    (if rid < 0 \<or> roots = [] then False else climbAny (recs vol) roots 1024 rid)"

section \<open>The child arrays hold the children\<close>

definition kidsBelow :: "CompactRecord list \<Rightarrow> nat \<Rightarrow> nat \<Rightarrow> nat list" where
  "kidsBelow rs k p = filter (\<lambda>i. parentOf rs i = Some p) [0..<k]"

abbreviation kids :: "CompactRecord list \<Rightarrow> nat \<Rightarrow> nat list" where
  "kids rs \<equiv> kidsBelow rs (length rs)"

definition offsetOf :: "CompactRecord list \<Rightarrow> nat \<Rightarrow> nat" where
  "offsetOf rs p = (\<Sum>q<p. length (kids rs q))"

lemma kidsBelow_Suc: "kidsBelow rs (Suc k) p = kidsBelow rs k p @ (if parentOf rs k = Some p then [k] else [])"
  by (simp add: kidsBelow_def)

lemma kidsBelow_0 [simp]: "kidsBelow rs 0 p = []"
  by (simp add: kidsBelow_def)

lemma kidsBelow_le: "k \<le> n \<Longrightarrow> length (kidsBelow rs k p) \<le> length (kidsBelow rs n p)"
  by (induction n) (auto simp: le_Suc_eq kidsBelow_Suc)

lemma parentOf_less: "parentOf rs i = Some p \<Longrightarrow> p < length rs"
  by (auto simp: parentOf_def Let_def nat_less_iff split: if_splits)

definition liveRoots :: "CompactRecord list \<Rightarrow> nat \<Rightarrow> nat list" where
  "liveRoots rs k = filter (\<lambda>i. parentOf rs i = None \<and> \<not> Deleted (rs ! i)) [0..<k]"

lemma countStep_fold:
  "foldl (countStep rs) ([], 0 # replicate (length rs) 0, 0) [0..<k] =
    (map of_nat (liveRoots rs k), 0 # map (\<lambda>p. of_nat (length (kidsBelow rs k p))) [0..<length rs],
     length (filter (\<lambda>i. parentOf rs i \<noteq> None) [0..<k]))"
proof (induction k)
  case 0
  have "map (\<lambda>p. 0) [0..<length rs] = replicate (length rs) (0 :: u32)" by (rule nth_equalityI) simp_all
  then show ?case by (simp add: liveRoots_def)
next
  case (Suc k)
  let ?f = "\<lambda>k. map (\<lambda>p. of_nat (length (kidsBelow rs k p)) :: u32) [0..<length rs]"
  have "(?f k)[p := ?f k ! p + 1] = ?f (Suc k)" if "parentOf rs k = Some p" for p
    using that parentOf_less [OF that] by (intro nth_equalityI) (auto simp: nth_list_update kidsBelow_Suc)
  moreover have "?f k ! p = of_nat (length (kidsBelow rs k p))" if "parentOf rs k = Some p" for p
    using parentOf_less [OF that] by simp
  moreover have "?f k = ?f (Suc k)" if "parentOf rs k = None"
    using that by (simp add: kidsBelow_Suc)
  ultimately show ?case using Suc
    by (cases "parentOf rs k") (simp_all add: countStep_def liveRoots_def)
qed

lemma prefixSums_fold:
  assumes "1 \<le> k" "k \<le> length cs"
  shows "length (foldl (\<lambda>cs i. cs[i := cs ! i + cs ! (i - 1)]) cs [1..<k]) = length cs \<and>
    (\<forall>i<length cs. foldl (\<lambda>cs i. cs[i := cs ! i + cs ! (i - 1)]) cs [1..<k] ! i =
      (if i < k then sum_list (take (i + 1) cs) else cs ! i :: u32))"
  using assms
proof (induction k rule: dec_induct)
  case base
  then show ?case by (cases cs) auto
next
  case (step k)
  have "sum_list (take (Suc k) cs) = cs ! k + sum_list (take k cs)"
    using step by (simp add: take_Suc_conv_app_nth)
  moreover have "[1..<Suc k] = [1..<k] @ [k]" using step by simp
  ultimately show ?case using step by (auto simp: nth_list_update less_Suc_eq)
qed

lemma prefixSums_nth:
  "cs \<noteq> [] \<Longrightarrow> length (prefixSums cs) = length cs \<and>
    (\<forall>i<length cs. prefixSums cs ! i = sum_list (take (i + 1) cs))"
  using prefixSums_fold [of "length cs" cs] by (cases cs) (auto simp: prefixSums_def)

lemma childOffsets_nth:
  assumes "i \<le> length rs"
  shows "prefixSums (0 # map (\<lambda>p. of_nat (length (kids rs p))) [0..<length rs]) ! i = of_nat (offsetOf rs i)"
proof -
  have "sum_list (map (\<lambda>p. of_nat (length (kids rs p)) :: u32) [0..<i]) = of_nat (offsetOf rs i)"
    by (induction i) (simp_all add: offsetOf_def)
  moreover have "take i (map (\<lambda>p. of_nat (length (kids rs p)) :: u32) [0..<length rs]) =
      map (\<lambda>p. of_nat (length (kids rs p))) [0..<i]"
    using assms by (simp add: take_map)
  ultimately show ?thesis using prefixSums_nth assms by simp
qed

lemma offset_total: "offsetOf rs (length rs) = length (filter (\<lambda>i. parentOf rs i \<noteq> None) [0..<length rs])"
proof -
  have "(\<Sum>q<length rs. length (kidsBelow rs k q)) = length (filter (\<lambda>i. parentOf rs i \<noteq> None) [0..<k])" for k
  proof (induction k)
    case (Suc k)
    have "(\<Sum>q<length rs. length (kidsBelow rs (Suc k) q)) =
        (\<Sum>q<length rs. length (kidsBelow rs k q)) + (\<Sum>q<length rs. if parentOf rs k = Some q then 1 else 0)"
      by (simp add: kidsBelow_Suc flip: sum.distrib) (rule sum.cong, auto)
    moreover have "(\<Sum>q<length rs. if parentOf rs k = Some q then 1 else 0 :: nat) = (if parentOf rs k = None then 0 else 1)"
      using parentOf_less [of rs k] by (cases "parentOf rs k") (auto simp: sum.delta')
    ultimately show ?case using Suc by auto
  qed simp
  then show ?thesis by (simp add: offsetOf_def)
qed

lemma offset_mono: "p \<le> q \<Longrightarrow> offsetOf rs p \<le> offsetOf rs q"
  unfolding offsetOf_def by (rule sum_mono2) auto

lemma offset_Suc: "offsetOf rs (Suc p) = offsetOf rs p + length (kids rs p)"
  by (simp add: offsetOf_def)

lemma offset_le: "offsetOf rs (length rs) \<le> length rs"
  unfolding offset_total by (rule order_trans [OF length_filter_le]) simp

text \<open>The slots of two parents do not overlap.\<close>

lemma slots_disjoint:
  assumes "j < length (kids rs p)" "i < length (kids rs q)" "p \<noteq> q"
  shows "offsetOf rs p + j \<noteq> offsetOf rs q + i"
proof (cases "p < q")
  case True
  then have "offsetOf rs (Suc p) \<le> offsetOf rs q" by (intro offset_mono) simp
  with assms show ?thesis by (simp add: offset_Suc)
next
  case False
  with assms(3) have "offsetOf rs (Suc q) \<le> offsetOf rs p" by (intro offset_mono) simp
  with assms show ?thesis by (simp add: offset_Suc)
qed

lemma placeStep_fold:
  assumes "k \<le> length rs" "length rs < 2 ^ 32" "length offs = length rs" "length ids = offsetOf rs (length rs)"
    and "\<forall>p<length rs. offs ! p = of_nat (offsetOf rs p)"
  shows "case foldl (placeStep rs) (offs, ids) [0..<k] of (nexts, out) \<Rightarrow>
    length nexts = length rs \<and> length out = length ids \<and>
    (\<forall>p<length rs. nexts ! p = of_nat (offsetOf rs p + length (kidsBelow rs k p)) \<and>
      (\<forall>j<length (kidsBelow rs k p). out ! (offsetOf rs p + j) = of_nat (kidsBelow rs k p ! j)))"
  using assms(1)
proof (induction k)
  case 0
  then show ?case using assms by simp
next
  case (Suc k)
  obtain nexts out where fold: "foldl (placeStep rs) (offs, ids) [0..<k] = (nexts, out)" by fastforce
  with Suc have IH: "length nexts = length rs" "length out = length ids"
    "\<forall>p<length rs. nexts ! p = of_nat (offsetOf rs p + length (kidsBelow rs k p)) \<and>
      (\<forall>j<length (kidsBelow rs k p). out ! (offsetOf rs p + j) = of_nat (kidsBelow rs k p ! j))" by auto
  show ?case
  proof (cases "parentOf rs k")
    case None
    then have "placeStep rs (nexts, out) k = (nexts, out)" by (simp add: placeStep_def)
    with None fold IH show ?thesis by (simp add: kidsBelow_Suc)
  next
    case (Some p)
    let ?pos = "offsetOf rs p + length (kidsBelow rs k p)"
    have p: "p < length rs" using parentOf_less [OF Some] .
    have "length (kidsBelow rs (Suc k) p) \<le> length (kids rs p)" using Suc.prems by (rule kidsBelow_le)
    then have less: "length (kidsBelow rs k p) < length (kids rs p)" using Some by (simp add: kidsBelow_Suc)
    have "offsetOf rs (Suc p) \<le> offsetOf rs (length rs)" using p by (intro offset_mono) simp
    then have pos: "?pos < length ids" using less assms(4) by (simp add: offset_Suc)
    then have "unat (of_nat ?pos :: u32) = ?pos"
      using assms(2,4) offset_le [of rs] by (intro unat_of_nat_u32) simp
    moreover have "nexts ! p = of_nat ?pos" using IH(3) p by blast
    ultimately have "unat (nexts ! p) = ?pos" by metis
    then have step: "foldl (placeStep rs) (offs, ids) [0..<Suc k] =
        (nexts[p := nexts ! p + 1], out[?pos := of_nat k])"
      using fold Some by (simp add: placeStep_def)
    have other: "offsetOf rs q + j \<noteq> ?pos" if "q \<noteq> p" "j < length (kidsBelow rs k q)" for q j
      using slots_disjoint [of j rs q "length (kidsBelow rs k p)" p] that less
        kidsBelow_le [of k "length rs" rs q] Suc.prems by simp
    show ?thesis
      unfolding step using IH p pos Some
      by (auto simp: nth_list_update kidsBelow_Suc nth_append less_Suc_eq) (metis other)
  qed
qed

text \<open>What \<open>buildCompactChildren\<close> leaves in the child arrays.\<close>

definition childArrays :: "treeVolume \<Rightarrow> bool" where
  "childArrays vol \<longleftrightarrow> length (recs vol) < 2 ^ 32 \<and>
    length (childOffsets vol) = length (recs vol) + 1 \<and>
    length (childIDs vol) = offsetOf (recs vol) (length (recs vol)) \<and>
    (\<forall>p \<le> length (recs vol). childOffsets vol ! p = of_nat (offsetOf (recs vol) p)) \<and>
    (\<forall>p < length (recs vol). \<forall>j < length (kids (recs vol) p).
      childIDs vol ! (offsetOf (recs vol) p + j) = of_nat (kids (recs vol) p ! j)) \<and>
    rootIDs vol = map of_nat (liveRoots (recs vol) (length (recs vol)))"

lemma unat_offset: "p \<le> length rs \<Longrightarrow> length rs < 2 ^ 32 \<Longrightarrow> unat (of_nat (offsetOf rs p) :: u32) = offsetOf rs p"
  using offset_mono [of p "length rs" rs] offset_le [of rs] by (simp add: unat_of_nat_u32)

lemma childIDsForRecord_exact:
  assumes "childArrays vol" "p < length (recs vol)"
  shows "childIDsForRecord vol (int p) = map of_nat (kids (recs vol) p)"
proof -
  let ?rs = "recs vol"
  note c = assms(1) [unfolded childArrays_def]
  have o: "unat (childOffsets vol ! p) = offsetOf ?rs p" "unat (childOffsets vol ! (p + 1)) = offsetOf ?rs (Suc p)"
    using c assms(2) unat_offset [of p ?rs] unat_offset [of "Suc p" ?rs] by simp_all
  have le: "offsetOf ?rs (Suc p) \<le> length (childIDs vol)"
    using c assms(2) offset_mono [of "Suc p" "length ?rs" ?rs] by simp
  have "take (length (kids ?rs p)) (drop (offsetOf ?rs p) (childIDs vol)) = map of_nat (kids ?rs p)"
    using c assms(2) le by (intro nth_equalityI) (auto simp: offset_Suc)
  moreover have "childOffsets vol ! p \<le> childOffsets vol ! (p + 1)"
    using o by (simp add: word_le_nat_alt offset_Suc)
  ultimately show ?thesis using c assms(2) o le
    by (simp add: childIDsForRecord_def Let_def offset_Suc)
qed

lemma childArrays_built:
  fixes vol :: treeVolume
  assumes "length (recs vol) < 2 ^ 32" "\<exists>i < length (recs vol). parentOf (recs vol) i \<noteq> None"
  obtains vol' where "childArrays vol'" "recs vol' = recs vol"
    "buildCompactChildren True vol = buildSubtreeRanges vol'"
    "buildCompactChildren False vol = vol'\<lparr>subtreeOrder := [], subtreeStart := [], subtreeEnd := []\<rparr>"
proof -
  let ?rs = "recs vol" and ?n = "length (recs vol)"
  let ?offs = "prefixSums (0 # map (\<lambda>p. of_nat (length (kids ?rs p))) [0..<?n])"
  have len: "length ?offs = ?n + 1" using prefixSums_nth [of "0 # map (\<lambda>p. of_nat (length (kids ?rs p))) [0..<?n]"] by simp
  have tot: "offsetOf ?rs ?n \<noteq> 0"
    using assms(2) unfolding offset_total by (auto simp: filter_empty_conv)
  obtain nexts ids where fold: "foldl (placeStep ?rs) (take ?n ?offs, replicate (offsetOf ?rs ?n) 0) [0..<?n] = (nexts, ids)"
    by fastforce
  have "\<forall>p<?n. take ?n ?offs ! p = of_nat (offsetOf ?rs p)" by (simp add: childOffsets_nth)
  with placeStep_fold [of ?n ?rs "take ?n ?offs" "replicate (offsetOf ?rs ?n) 0"] assms(1) len fold
  have ids: "length ids = offsetOf ?rs ?n"
    "\<forall>p<?n. \<forall>j<length (kids ?rs p). ids ! (offsetOf ?rs p + j) = of_nat (kids ?rs p ! j)"
    by auto
  let ?vol = "vol\<lparr>rootIDs := map of_nat (liveRoots ?rs ?n), childOffsets := ?offs, childIDs := ids\<rparr>"
  have "childArrays ?vol"
    using assms(1) len ids by (simp add: childArrays_def childOffsets_nth del: of_nat_sum)
  moreover have "buildCompactChildren en vol = (if en then buildSubtreeRanges ?vol
      else ?vol\<lparr>subtreeOrder := [], subtreeStart := [], subtreeEnd := []\<rparr>)" for en
    using tot fold by (simp add: buildCompactChildren_def Let_def countStep_fold offset_total del: upt_Suc)
  ultimately show thesis using that [of ?vol] by simp
qed

section \<open>Descendants\<close>

definition anc :: "CompactRecord list \<Rightarrow> (nat \<times> nat) set" where
  "anc rs = {(i, p). i < length rs \<and> parentOf rs i = Some p}"

definition desc :: "CompactRecord list \<Rightarrow> nat \<Rightarrow> nat set" where
  "desc rs p = {i. i < length rs \<and> (i, p) \<in> (anc rs)\<^sup>*}"

lemma single_valued_anc: "single_valued (anc rs)"
  by (auto simp: anc_def single_valued_def)

lemma finite_desc [simp]: "finite (desc rs p)"
  by (rule finite_subset [of _ "{..<length rs}"]) (auto simp: desc_def)

lemma set_kids: "set (kids rs p) = {i. (i, p) \<in> anc rs}"
  by (auto simp: kidsBelow_def anc_def)

lemma distinct_kids: "distinct (kids rs p)"
  by (simp add: kidsBelow_def)

lemma desc_kids:
  assumes "p < length rs"
  shows "desc rs p = insert p (\<Union>c\<in>set (kids rs p). desc rs c)"
proof -
  have "(i, p) \<in> (anc rs)\<^sup>* \<longleftrightarrow> i = p \<or> (\<exists>c. (i, c) \<in> (anc rs)\<^sup>* \<and> (c, p) \<in> anc rs)" for i
    by (metis rtrancl.simps)
  with assms show ?thesis by (auto simp: desc_def set_kids)
qed

lemma desc_self: "p < length rs \<Longrightarrow> p \<in> desc rs p"
  by (simp add: desc_def)

lemma desc_not_parent:
  assumes "acyclic (anc rs)" "c \<in> set (kids rs p)"
  shows "p \<notin> desc rs c"
  using assms by (auto simp: desc_def set_kids acyclic_def dest: rtrancl_into_trancl1)

lemma desc_disjoint:
  assumes "acyclic (anc rs)" "c \<in> set (kids rs p)" "d \<in> set (kids rs p)" "c \<noteq> d"
  shows "desc rs c \<inter> desc rs d = {}"
proof (rule ccontr)
  assume "\<not> ?thesis"
  then obtain i where "(i, c) \<in> (anc rs)\<^sup>*" "(i, d) \<in> (anc rs)\<^sup>*" by (auto simp: desc_def)
  then have "(c, d) \<in> (anc rs)\<^sup>* \<or> (d, c) \<in> (anc rs)\<^sup>*"
    by (rule single_valued_confluent [OF single_valued_anc])
  moreover have False if "(x, y) \<in> (anc rs)\<^sup>*" "(x, p) \<in> anc rs" "(y, p) \<in> anc rs" "x \<noteq> y" for x y
  proof -
    from that(1,4) obtain z where "(x, z) \<in> anc rs" "(z, y) \<in> (anc rs)\<^sup>*"
      by (meson converse_rtranclE)
    then have "(p, y) \<in> (anc rs)\<^sup>*" using that(2) single_valued_anc by (metis single_valuedD)
    with that(3) assms(1) show False by (meson acyclic_def rtrancl_into_trancl1)
  qed
  ultimately show False using assms(2-4) by (auto simp: set_kids)
qed

section \<open>The walk gives every record the interval of its descendants\<close>

definition spans :: "CompactRecord list \<Rightarrow> walkState \<Rightarrow> nat \<Rightarrow> bool" where
  "spans rs st i \<longleftrightarrow> (\<exists>k. wStart st ! i = of_nat k \<and> wEnd st ! i = of_nat (k + card (desc rs i)) \<and>
    k + card (desc rs i) \<le> length (wOrder st) \<and> wOrder st ! k = of_nat i \<and>
    set (take (card (desc rs i)) (drop k (wOrder st))) = of_nat ` desc rs i)"

definition sized :: "nat \<Rightarrow> walkState \<Rightarrow> bool" where
  "sized n st \<longleftrightarrow> length (wSeen st) = n \<and> length (wStart st) = n \<and> length (wEnd st) = n"

text \<open>From \<open>st\<close> to \<open>st'\<close> the walk has added exactly \<open>new\<close>, with their intervals.\<close>

definition walked :: "CompactRecord list \<Rightarrow> walkState \<Rightarrow> nat list \<Rightarrow> walkState \<Rightarrow> bool" where
  "walked rs st new st' \<longleftrightarrow> wOrder st' = wOrder st @ map of_nat new \<and> distinct new \<and>
    sized (length rs) st' \<and> (\<forall>i<length rs. wSeen st' ! i \<longleftrightarrow> wSeen st ! i \<or> i \<in> set new) \<and>
    (\<forall>i<length rs. i \<notin> set new \<longrightarrow> wStart st' ! i = wStart st ! i \<and> wEnd st' ! i = wEnd st ! i) \<and>
    (\<forall>i\<in>set new. spans rs st' i)"

definition fresh :: "CompactRecord list \<Rightarrow> nat list \<Rightarrow> walkState \<Rightarrow> bool" where
  "fresh rs xs st \<longleftrightarrow> distinct xs \<and> (\<forall>x\<in>set xs. x < length rs \<and> (\<forall>i\<in>desc rs x. \<not> wSeen st ! i)) \<and>
    (\<forall>x\<in>set xs. \<forall>y\<in>set xs. x \<noteq> y \<longrightarrow> desc rs x \<inter> desc rs y = {}) \<and> sized (length rs) st"

lemma spans_mono:
  assumes "spans rs st i" "wOrder st' = wOrder st @ zs" "wStart st' ! i = wStart st ! i" "wEnd st' ! i = wEnd st ! i"
    and "i < length rs"
  shows "spans rs st' i"
proof -
  obtain k where k: "wStart st ! i = of_nat k" "wEnd st ! i = of_nat (k + card (desc rs i))"
    "k + card (desc rs i) \<le> length (wOrder st)" "wOrder st ! k = of_nat i"
    "set (take (card (desc rs i)) (drop k (wOrder st))) = of_nat ` desc rs i"
    using assms(1) by (auto simp: spans_def)
  moreover have "card (desc rs i) > 0" using desc_self [OF assms(5)] by (auto simp: card_gt_0_iff)
  ultimately show ?thesis using assms(2-4)
    unfolding spans_def by (intro exI [of _ k]) (simp add: nth_append)
qed

lemma desc_bound: "i \<in> desc rs p \<Longrightarrow> i < length rs"
  by (simp add: desc_def)

lemma enter_sel [simp]:
  "wSeen (enter rid st) = (wSeen st)[rid := True]" "wEnd (enter rid st) = wEnd st"
  "wStart (enter rid st) = (wStart st)[rid := of_nat (length (wOrder st))]"
  "wOrder (enter rid st) = wOrder st @ [of_nat rid]"
  by (simp_all add: enter_def)

lemma leave_sel [simp]:
  "wSeen (leave rid st) = wSeen st" "wOrder (leave rid st) = wOrder st" "wStart (leave rid st) = wStart st"
  "wEnd (leave rid st) = (wEnd st)[rid := of_nat (length (wOrder st))]"
  by (simp_all add: leave_def)

lemma fresh_enter:
  assumes "acyclic (anc rs)" "fresh rs (rid # ids) st"
  shows "fresh rs (kids rs rid) (enter rid st)"
proof -
  have rid: "rid < length rs" using assms(2) by (simp add: fresh_def)
  have sub: "desc rs c \<subseteq> desc rs rid - {rid}" if "c \<in> set (kids rs rid)" for c
    using desc_kids [OF rid] desc_not_parent [OF assms(1) that] that by blast
  moreover have "c < length rs" if "c \<in> set (kids rs rid)" for c using that by (simp add: kidsBelow_def)
  ultimately show ?thesis
    using assms(2) rid distinct_kids desc_disjoint [OF assms(1)]
    unfolding fresh_def by (auto simp: enter_def sized_def nth_list_update) blast
qed

lemma walked_node:
  assumes "acyclic (anc rs)" "fresh rs (rid # ids) st"
    and "walked rs (enter rid st) new1 st1" "set new1 = (\<Union>c\<in>set (kids rs rid). desc rs c)"
  shows "walked rs st (rid # new1) (leave rid st1) \<and> set (rid # new1) = desc rs rid"
proof -
  have rid: "rid < length rs" and sz: "sized (length rs) st" using assms(2) by (simp_all add: fresh_def)
  have set: "set (rid # new1) = desc rs rid" using desc_kids [OF rid] assms(4) by simp
  have notin: "rid \<notin> set new1" using assms(1,4) desc_not_parent by auto
  have dist: "distinct (rid # new1)" using assms(3) notin by (simp add: walked_def)
  have card: "card (desc rs rid) = Suc (length new1)" using distinct_card [OF dist] set by simp
  have order: "wOrder st1 = wOrder st @ map of_nat (rid # new1)"
    using assms(3) by (simp add: walked_def enter_def)
  have start: "wStart st1 ! rid = of_nat (length (wOrder st))"
    using assms(3) notin rid sz by (simp add: walked_def enter_def sized_def)
  have sz1: "sized (length rs) st1" using assms(3) by (simp add: walked_def)
  have "spans rs (leave rid st1) rid"
    unfolding spans_def
    using order start sz1 rid card set
    by (intro exI [of _ "length (wOrder st)"]) (simp add: leave_def sized_def image_Un flip: set)
  moreover have "spans rs (leave rid st1) i" if "i \<in> set new1" for i
  proof (rule spans_mono [where st = st1 and zs = "[]"])
    show "spans rs st1 i" using assms(3) that by (simp add: walked_def)
    have "i \<noteq> rid" using that notin by blast
    then show "wEnd (leave rid st1) ! i = wEnd st1 ! i" by (simp add: leave_def)
    show "i < length rs" using set that desc_bound by (metis list.set_intros(2))
  qed (simp_all add: leave_def)
  ultimately have sp: "\<forall>i\<in>set (rid # new1). spans rs (leave rid st1) i" by simp
  have "wSeen st1 ! i \<longleftrightarrow> wSeen st ! i \<or> i \<in> set (rid # new1)" if "i < length rs" for i
    using assms(3) that sz by (cases "i = rid") (auto simp: walked_def sized_def)
  moreover have "wStart st1 ! i = wStart st ! i \<and> wEnd (leave rid st1) ! i = wEnd st ! i"
    if "i < length rs" "i \<notin> set (rid # new1)" for i
    using assms(3) that by (auto simp: walked_def)
  ultimately have "walked rs st (rid # new1) (leave rid st1)"
    using order dist sz1 sp unfolding walked_def by (simp add: sized_def)
  with set show ?thesis by blast
qed

lemma walked_append:
  assumes "walked rs st new1 st1" "walked rs st1 new2 st2" "set new1 \<inter> set new2 = {}" "set new1 \<subseteq> {..<length rs}"
  shows "walked rs st (new1 @ new2) st2"
proof -
  have "spans rs st2 i" if "i \<in> set new1" for i
  proof (rule spans_mono [where st = st1 and zs = "map of_nat new2"])
    show "i < length rs" using assms(4) that by auto
    moreover have "i \<notin> set new2" using assms(3) that by auto
    ultimately show "wStart st2 ! i = wStart st1 ! i" "wEnd st2 ! i = wEnd st1 ! i"
      using assms(2) by (simp_all add: walked_def)
  qed (use assms that in \<open>simp_all add: walked_def\<close>)
  then show ?thesis using assms unfolding walked_def by auto
qed

lemma fresh_rest:
  assumes "fresh rs (rid # ids) st" "walked rs st new st'" "set new = desc rs rid"
  shows "fresh rs ids st'"
proof -
  have "\<not> wSeen st' ! i" if x: "x \<in> set ids" and i: "i \<in> desc rs x" for x i
  proof -
    have "x \<noteq> rid" using assms(1) x by (auto simp: fresh_def)
    then have "desc rs x \<inter> desc rs rid = {}" using assms(1) x by (simp add: fresh_def)
    then have "i \<notin> set new" using assms(3) i by auto
    moreover have "\<not> wSeen st ! i" using assms(1) x i by (simp add: fresh_def)
    ultimately show ?thesis using assms(2) desc_bound [OF i] by (simp add: walked_def)
  qed
  with assms(1,2) show ?thesis by (simp add: fresh_def walked_def)
qed

lemma walk_exact:
  assumes "acyclic (anc rs)" "\<forall>p<length rs. ch p = kids rs p"
  shows "fresh rs xs st \<Longrightarrow> \<exists>new. walked rs st new (walk ch xs st) \<and> set new = (\<Union>x\<in>set xs. desc rs x)"
  using assms
proof (induction ch xs st rule: walk.induct)
  case (1 ch st)
  then show ?case by (intro exI [of _ "[]"]) (auto simp: walked_def fresh_def)
next
  case (2 ch rid ids st)
  have rid: "rid < length rs" "\<not> wSeen st ! rid" "length (wSeen st) = length rs"
    using 2(4) desc_self by (auto simp: fresh_def sized_def)
  then have ok: "\<not> (rid \<ge> length (wSeen st) \<or> wSeen st ! rid)" by simp
  have ch: "ch rid = kids rs rid" using 2(6) rid by simp
  obtain new1 where new1: "walked rs (enter rid st) new1 (walk ch (ch rid) (enter rid st))"
    "set new1 = (\<Union>c\<in>set (kids rs rid). desc rs c)"
    using 2(2) [OF ok _ 2(5,6)] fresh_enter [OF 2(5,4)] ch by auto
  let ?st = "leave rid (walk ch (ch rid) (enter rid st))"
  from walked_node [OF 2(5,4) new1] have node: "walked rs st (rid # new1) ?st" "set (rid # new1) = desc rs rid"
    by blast+
  obtain new2 where new2: "walked rs ?st new2 (walk ch ids ?st)" "set new2 = (\<Union>x\<in>set ids. desc rs x)"
    using 2(3) [OF ok fresh_rest [OF 2(4) node] 2(5,6)] by blast
  have "set (rid # new1) \<inter> set new2 = {}" using 2(4) node(2) new2(2) unfolding fresh_def by auto
  moreover have "set (rid # new1) \<subseteq> {..<length rs}" using node(2) desc_bound by auto
  ultimately have "walked rs st ((rid # new1) @ new2) (walk ch ids ?st)"
    using walked_append node(1) new2(1) by blast
  moreover have "walk ch (rid # ids) st = walk ch ids ?st" using ok by simp
  ultimately show ?case using node(2) new2(2)
    by (intro exI [of _ "(rid # new1) @ new2"]) auto
qed

section \<open>The built volume\<close>

text \<open>Every record reaches a live root along its parents; such a forest has no cycle.\<close>

definition rooted :: "CompactRecord list \<Rightarrow> bool" where
  "rooted rs \<longleftrightarrow> (\<forall>i<length rs. \<exists>r\<in>set (liveRoots rs (length rs)). (i, r) \<in> (anc rs)\<^sup>*)"

lemma liveRoots_no_parent: "r \<in> set (liveRoots rs n) \<Longrightarrow> (r, p) \<notin> anc rs"
  by (simp add: liveRoots_def anc_def)

lemma cycle_follows:
  assumes "(x, y) \<in> (anc rs)\<^sup>*" "(x, x) \<in> (anc rs)\<^sup>+"
  shows "(y, y) \<in> (anc rs)\<^sup>+"
  using assms
proof (induction rule: rtrancl_induct)
  case (step y z)
  then obtain w where "(y, w) \<in> anc rs" "(w, y) \<in> (anc rs)\<^sup>*" by (meson tranclD)
  then show ?case using step single_valued_anc by (metis rtrancl_into_trancl1 single_valuedD)
qed

lemma rooted_acyclic:
  assumes "rooted rs"
  shows "acyclic (anc rs)"
proof (unfold acyclic_def, intro allI notI)
  fix x assume x: "(x, x) \<in> (anc rs)\<^sup>+"
  then have "x < length rs" by (auto simp: anc_def dest: tranclD)
  with assms obtain r where r: "r \<in> set (liveRoots rs (length rs))" "(x, r) \<in> (anc rs)\<^sup>*"
    by (auto simp: rooted_def)
  from cycle_follows [OF r(2) x] show False using liveRoots_no_parent [OF r(1)] by (meson tranclD)
qed

lemma roots_disjoint:
  assumes "r \<in> set (liveRoots rs n)" "q \<in> set (liveRoots rs n)" "r \<noteq> q"
  shows "desc rs r \<inter> desc rs q = {}"
proof (rule ccontr)
  assume "\<not> ?thesis"
  then obtain i where "(i, r) \<in> (anc rs)\<^sup>*" "(i, q) \<in> (anc rs)\<^sup>*" by (auto simp: desc_def)
  then have "(r, q) \<in> (anc rs)\<^sup>* \<or> (q, r) \<in> (anc rs)\<^sup>*"
    by (rule single_valued_confluent [OF single_valued_anc])
  with assms(3) show False using liveRoots_no_parent assms(1,2) by (metis converse_rtranclE)
qed

lemma walk_all_seen: "\<forall>x\<in>set xs. x < length (wSeen st) \<longrightarrow> wSeen st ! x \<Longrightarrow> walk ch xs st = st"
  by (induction xs) auto

text \<open>The subtree arrays of a volume: a depth-first order with the interval of every record.\<close>

definition subtreeArrays :: "treeVolume \<Rightarrow> nat list \<Rightarrow> bool" where
  "subtreeArrays vol ord \<longleftrightarrow> subtreeOrder vol = map of_nat ord \<and> distinct ord \<and> set ord = {..<length (recs vol)} \<and>
    length (subtreeStart vol) = length (recs vol) \<and> length (subtreeEnd vol) = length (recs vol) \<and>
    (\<forall>i<length (recs vol). \<exists>k. subtreeStart vol ! i = of_nat k \<and>
      subtreeEnd vol ! i = of_nat (k + card (desc (recs vol) i)) \<and>
      k + card (desc (recs vol) i) \<le> length ord \<and> ord ! k = i \<and>
      set (take (card (desc (recs vol) i)) (drop k ord)) = desc (recs vol) i)"

lemma inj_of_nat_u32: "inj_on (of_nat :: nat \<Rightarrow> u32) {i. i < 2 ^ 32}"
  by (rule inj_onI) (metis mem_Collect_eq unat_of_nat_u32)

lemma subtreeArrays_built:
  assumes "childArrays vol" "rooted (recs vol)"
  shows "\<exists>ord. subtreeArrays (buildSubtreeRanges vol) ord \<and> childArrays (buildSubtreeRanges vol) \<and>
    recs (buildSubtreeRanges vol) = recs vol"
proof -
  let ?rs = "recs vol" and ?n = "length (recs vol)"
  define ch where "ch = (\<lambda>rid. map unat (childIDsForRecord vol (int rid)))"
  note ac = rooted_acyclic [OF assms(2)]
  have small: "?n < 2 ^ 32" using assms(1) by (simp add: childArrays_def)
  have unat: "map unat (map of_nat xs :: u32 list) = xs" if "set xs \<subseteq> {..<?n}" for xs
    using that small by (auto simp: unat_of_nat_u32 intro!: map_idI)
  have kids: "\<forall>p<?n. ch p = kids ?rs p"
    using childIDsForRecord_exact [OF assms(1)] unat by (simp add: ch_def) (simp add: kidsBelow_def subset_eq)
  have roots: "map unat (rootIDs vol) = liveRoots ?rs ?n"
    using assms(1) unat [of "liveRoots ?rs ?n"] by (auto simp: childArrays_def liveRoots_def)
  have "\<forall>x\<in>set (liveRoots ?rs ?n). \<forall>y\<in>set (liveRoots ?rs ?n). x \<noteq> y \<longrightarrow> desc ?rs x \<inter> desc ?rs y = {}"
    using roots_disjoint by blast
  moreover have "distinct (liveRoots ?rs ?n)" "\<forall>x\<in>set (liveRoots ?rs ?n). x < ?n"
    by (simp_all add: liveRoots_def)
  ultimately have "fresh ?rs (liveRoots ?rs ?n) (startWalk ?n)"
    unfolding fresh_def by (auto simp: startWalk_def sized_def dest: desc_bound)
  from walk_exact [OF ac kids this] obtain ord where ord: "walked ?rs (startWalk ?n) ord (walk ch (liveRoots ?rs ?n) (startWalk ?n))"
    "set ord = (\<Union>x\<in>set (liveRoots ?rs ?n). desc ?rs x)" by blast
  define st where "st = walk ch (liveRoots ?rs ?n) (startWalk ?n)"
  have set: "set ord = {..<?n}" using ord(2) assms(2) by (auto simp: rooted_def desc_def)
  note w = ord(1) [folded st_def, unfolded walked_def]
  have "walk ch [0..<?n] st = st"
    using w set by (intro walk_all_seen) (simp add: sized_def)
  then have built: "buildSubtreeRanges vol = vol\<lparr>subtreeOrder := wOrder st, subtreeStart := wStart st, subtreeEnd := wEnd st\<rparr>"
    using assms(1) roots by (auto simp: buildSubtreeRanges_def childArrays_def Let_def ch_def st_def)
  have "\<exists>k. wStart st ! i = of_nat k \<and> wEnd st ! i = of_nat (k + card (desc ?rs i)) \<and>
      k + card (desc ?rs i) \<le> length ord \<and> ord ! k = i \<and> set (take (card (desc ?rs i)) (drop k ord)) = desc ?rs i"
    if i: "i < ?n" for i
  proof -
    have order: "wOrder st = map of_nat ord" using w by (simp add: startWalk_def)
    have "spans ?rs st i" using w set i by simp
    then obtain k where k: "wStart st ! i = of_nat k" "wEnd st ! i = of_nat (k + card (desc ?rs i))"
      "k + card (desc ?rs i) \<le> length ord" "map of_nat ord ! k = (of_nat i :: u32)"
      "(of_nat :: nat \<Rightarrow> u32) ` set (take (card (desc ?rs i)) (drop k ord)) = of_nat ` desc ?rs i"
      unfolding spans_def order by (auto simp: take_map drop_map)
    have "0 < card (desc ?rs i)" using desc_self [OF i] by (auto simp: card_gt_0_iff)
    then have "k < length ord" using k(3) by linarith
    then have "ord ! k < ?n" using nth_mem [of k ord] set by simp
    then have "ord ! k \<in> {i. i < 2 ^ 32}" "i \<in> {i. i < 2 ^ 32}" using small i by simp_all
    then have "ord ! k = i" using k(4) \<open>k < length ord\<close> inj_onD [OF inj_of_nat_u32] by simp
    moreover have "set (take (card (desc ?rs i)) (drop k ord)) \<subseteq> set ord"
      using set_take_subset set_drop_subset by (rule order_trans)
    then have "set (take (card (desc ?rs i)) (drop k ord)) \<subseteq> {i. i < 2 ^ 32}" using set small by auto
    moreover have "desc ?rs i \<subseteq> {i. i < 2 ^ 32}" using small by (auto dest: desc_bound)
    ultimately have "ord ! k = i \<and> set (take (card (desc ?rs i)) (drop k ord)) = desc ?rs i"
      using k(5) inj_on_image_eq_iff [OF inj_of_nat_u32] by blast
    then show ?thesis using k(1-3) by blast
  qed
  then have "subtreeArrays (buildSubtreeRanges vol) ord"
    unfolding subtreeArrays_def built using w set by (simp add: startWalk_def sized_def)
  moreover have "childArrays (buildSubtreeRanges vol)" using assms(1) unfolding built childArrays_def by simp
  ultimately show ?thesis by (auto simp: built)
qed

section \<open>Descendant tests\<close>

lemma nth_in_slice:
  assumes "distinct ord" "i < length ord"
  shows "ord ! i \<in> set (take m (drop k ord)) \<longleftrightarrow> k \<le> i \<and> i < k + m"
proof
  assume "ord ! i \<in> set (take m (drop k ord))"
  then obtain j where j: "j < m" "k + j < length ord" "ord ! i = ord ! (k + j)"
    by (auto simp: in_set_conv_nth)
  with assms have "i = k + j" by (simp add: nth_eq_iff_index_eq)
  with j show "k \<le> i \<and> i < k + m" by simp
next
  assume "k \<le> i \<and> i < k + m"
  with assms(2) show "ord ! i \<in> set (take m (drop k ord))"
    by (auto simp: in_set_conv_nth intro!: exI [of _ "i - k"])
qed

lemma isDescendantOrSelf_interval:
  assumes "subtreeArrays vol ord" "length (recs vol) < 2 ^ 32" "i < length (recs vol)" "r < length (recs vol)"
  shows "isDescendantOrSelf vol (int i) (int r) \<longleftrightarrow> (i, r) \<in> (anc (recs vol))\<^sup>*"
proof -
  note a = assms(1) [unfolded subtreeArrays_def]
  have len: "length ord = length (recs vol)" using a distinct_card [of ord] by simp
  obtain k where k: "subtreeStart vol ! i = of_nat k" "k + card (desc (recs vol) i) \<le> length ord" "ord ! k = i"
    using a assms(3) by blast
  obtain l where l: "subtreeStart vol ! r = of_nat l" "subtreeEnd vol ! r = of_nat (l + card (desc (recs vol) r))"
    "l + card (desc (recs vol) r) \<le> length ord" "set (take (card (desc (recs vol) r)) (drop l ord)) = desc (recs vol) r"
    using a assms(4) by blast
  have pos: "0 < card (desc (recs vol) i)" "0 < card (desc (recs vol) r)"
    using desc_self assms(3,4) by (auto simp: card_gt_0_iff)
  then have "k < length ord" "l < length ord" using k(2) l(3) by linarith+
  then have u: "unat (of_nat k :: u32) = k" "unat (of_nat l :: u32) = l"
    "unat (of_nat (l + card (desc (recs vol) r)) :: u32) = l + card (desc (recs vol) r)"
    using assms(2) l(3) len by (intro unat_of_nat_u32; linarith)+
  have "of_nat j \<noteq> (- 1 :: u32)" if "j < length ord" for j
  proof
    assume "of_nat j = (- 1 :: u32)"
    then have "unat (of_nat j :: u32) = unat (- 1 :: u32)" by simp
    moreover have "unat (of_nat j :: u32) = j" using that len assms(2) by (intro unat_of_nat_u32) simp
    moreover have "unat (- 1 :: u32) = 2 ^ 32 - 1" by (simp add: unsigned_minus_1_eq_mask mask_eq_exp_minus_1)
    ultimately show False using that len assms(2) by simp
  qed
  then have "isDescendantOrSelf vol (int i) (int r) \<longleftrightarrow> l \<le> k \<and> k < l + card (desc (recs vol) r)"
    using a assms(3,4) k(1) l(1,2) u \<open>k < length ord\<close> \<open>l < length ord\<close>
    unfolding isDescendantOrSelf_def by (simp add: word_le_nat_alt word_less_nat_alt del: of_nat_add)
  also have "\<dots> \<longleftrightarrow> i \<in> desc (recs vol) r"
    using nth_in_slice [of ord k "card (desc (recs vol) r)" l] a \<open>k < length ord\<close> k(3) l(4) by simp
  finally show ?thesis using assms(3) by (simp add: desc_def)
qed

lemma climb_exact:
  assumes "acyclic (anc rs)" "r < length rs"
  shows "cur < length rs \<Longrightarrow> \<forall>s\<in>set seen. \<exists>i. s = int i \<and> (i, cur) \<in> (anc rs)\<^sup>+ \<Longrightarrow>
    climb rs (int r) d seen (int cur) \<longleftrightarrow> (\<exists>k<d. (cur, r) \<in> anc rs ^^ k)"
proof (induction d arbitrary: seen cur)
  case (Suc d)
  have unseen: "int cur \<notin> set seen" using Suc.prems(2) assms(1) by (auto simp: acyclic_def)
  have split: "(\<exists>k<Suc d. (cur, r) \<in> anc rs ^^ k) \<longleftrightarrow> cur = r \<or> (\<exists>p. (cur, p) \<in> anc rs \<and> (\<exists>k<d. (p, r) \<in> anc rs ^^ k))"
    by (auto simp: less_Suc_eq_0_disj relpow_Suc_D2 dest: relpow_Suc_D2 intro: relpow_Suc_I2)
  let ?parent = "Parent (rs ! cur)"
  show ?case
  proof (cases "parentOf rs cur")
    case None
    then have "\<not> climb rs (int r) d (int cur # seen) ?parent" if "?parent \<ge> 0" "cur \<noteq> r"
      using that assms(2) by (cases d) (auto simp: parentOf_def Let_def split: if_splits)
    moreover have "(cur, p) \<notin> anc rs" for p using None by (simp add: anc_def)
    ultimately show ?thesis using Suc.prems(1) unseen split by (auto simp: Let_def)
  next
    case (Some p)
    then have p: "(cur, p) \<in> anc rs" "?parent = int p" "p < length rs"
      using Suc.prems(1) parentOf_less by (auto simp: anc_def parentOf_def Let_def split: if_splits)
    have "\<forall>s\<in>set (int cur # seen). \<exists>i. s = int i \<and> (i, p) \<in> (anc rs)\<^sup>+"
      using Suc.prems(2) p(1) by (auto intro: trancl_into_trancl)
    then have "climb rs (int r) d (int cur # seen) (int p) \<longleftrightarrow> (\<exists>k<d. (p, r) \<in> anc rs ^^ k)"
      using Suc.IH [OF p(3)] by simp
    moreover have "(cur, q) \<in> anc rs \<longleftrightarrow> q = p" for q using p(1) Some by (auto simp: anc_def)
    ultimately show ?thesis using Suc.prems(1) unseen split p(2) by (simp add: Let_def)
  qed
qed simp

lemma climbAny_exact:
  assumes "cur < length rs"
  shows "climbAny rs (map int roots) d (int cur) \<longleftrightarrow> (\<exists>r\<in>set roots. \<exists>k<d. (cur, r) \<in> anc rs ^^ k)"
  using assms
proof (induction d arbitrary: cur)
  case (Suc d)
  have split: "(\<exists>k<Suc d. (cur, r) \<in> anc rs ^^ k) \<longleftrightarrow> cur = r \<or> (\<exists>p. (cur, p) \<in> anc rs \<and> (\<exists>k<d. (p, r) \<in> anc rs ^^ k))" for r
    by (auto simp: less_Suc_eq_0_disj relpow_Suc_D2 dest: relpow_Suc_D2 intro: relpow_Suc_I2)
  let ?parent = "Parent (rs ! cur)"
  show ?case
  proof (cases "parentOf rs cur")
    case None
    then have "?parent < 0 \<or> ?parent = int cur \<or> \<not> climbAny rs (map int roots) d ?parent"
      by (cases d) (auto simp: parentOf_def Let_def split: if_splits)
    moreover have "(cur, p) \<notin> anc rs" for p using None by (simp add: anc_def)
    ultimately show ?thesis using Suc.prems split by (auto simp: Let_def)
  next
    case (Some p)
    then have p: "(cur, p) \<in> anc rs" "?parent = int p" "p < length rs" "p \<noteq> cur"
      using Suc.prems parentOf_less by (auto simp: anc_def parentOf_def Let_def split: if_splits)
    moreover have "(cur, q) \<in> anc rs \<longleftrightarrow> q = p" for q using p(1) Some by (auto simp: anc_def)
    ultimately show ?thesis using Suc split by (auto simp: Let_def)
  qed
qed simp

section \<open>Aggregates\<close>

text \<open>A pass over the order from its end, which combines a record's own value with its children's.\<close>

locale subtree_aggregate = comm_monoid_set f z
  for f :: "'a \<Rightarrow> 'a \<Rightarrow> 'a" and z :: 'a
begin

lemma foldl_combine: "foldl f x xs = f x (foldl f z xs)"
proof (induction xs arbitrary: x)
  case (Cons y xs)
  show ?case using Cons [of "f x y"] Cons [of "f z y"] by (simp add: assoc)
qed simp

lemma foldl_kids:
  assumes "\<forall>c\<in>set cs. \<forall>d\<in>set cs. c \<noteq> d \<longrightarrow> D c \<inter> D d = {}" "distinct cs" "\<forall>c\<in>set cs. finite (D c)"
  shows "foldl f z (map (\<lambda>c. F own (D c)) cs) = F own (\<Union>c\<in>set cs. D c)"
  using assms
proof (induction cs)
  case (Cons c cs)
  have "D c \<inter> (\<Union>d\<in>set cs. D d) = {}" using Cons.prems by auto
  then have "F own (D c \<union> (\<Union>d\<in>set cs. D d)) = f (F own (D c)) (F own (\<Union>d\<in>set cs. D d))"
    using Cons.prems by (intro union_disjoint) auto
  with Cons show ?case using foldl_combine [of "F own (D c)"] by simp
qed simp

lemma aggregate_node:
  assumes "acyclic (anc rs)" "p < length rs"
  shows "foldl f (own p) (map (\<lambda>c. F own (desc rs c)) (kids rs p)) = F own (desc rs p)"
proof -
  have "\<forall>c\<in>set (kids rs p). \<forall>d\<in>set (kids rs p). c \<noteq> d \<longrightarrow> desc rs c \<inter> desc rs d = {}"
    using desc_disjoint [OF assms(1)] by blast
  then have "foldl f z (map (\<lambda>c. F own (desc rs c)) (kids rs p)) = F own (\<Union>c\<in>set (kids rs p). desc rs c)"
    by (intro foldl_kids distinct_kids) auto
  moreover have "p \<notin> (\<Union>c\<in>set (kids rs p). desc rs c)" using desc_not_parent [OF assms(1)] by blast
  ultimately show ?thesis
    using foldl_combine [of "own p"] desc_kids [OF assms(2)] by simp
qed

lemma aggregate_exact:
  assumes "acyclic (anc rs)" "distinct ord" "set ord = {..<length rs}"
    and "\<forall>xs p ys. ord = xs @ p # ys \<longrightarrow> set (kids rs p) \<subseteq> set ys"
    and "\<forall>vals p. length vals = length rs \<and> p < length rs \<and> vals ! p = init ! p \<longrightarrow>
      step vals p = vals[p := foldl f (own p) (map (\<lambda>c. vals ! c) (kids rs p))]"
    and "length init = length rs"
  shows "length (foldl step init (rev ord)) = length rs \<and> (\<forall>p<length rs. foldl step init (rev ord) ! p = F own (desc rs p))"
proof -
  have "ord = xs @ ys \<Longrightarrow> length (foldl step init (rev ys)) = length rs \<and>
      (\<forall>p\<in>set ys. foldl step init (rev ys) ! p = F own (desc rs p)) \<and>
      (\<forall>p<length rs. p \<notin> set ys \<longrightarrow> foldl step init (rev ys) ! p = init ! p)" for xs ys
  proof (induction ys arbitrary: xs)
    case (Cons p ys)
    let ?vals = "foldl step init (rev ys)"
    have IH: "length ?vals = length rs" "\<forall>p\<in>set ys. ?vals ! p = F own (desc rs p)"
      "\<forall>p<length rs. p \<notin> set ys \<longrightarrow> ?vals ! p = init ! p"
      using Cons.IH [of "xs @ [p]"] Cons.prems by simp_all
    have p: "p < length rs" "p \<notin> set ys" using assms(2,3) Cons.prems by auto
    have "set (kids rs p) \<subseteq> set ys" using assms(4) Cons.prems by blast
    then have "map (\<lambda>c. ?vals ! c) (kids rs p) = map (\<lambda>c. F own (desc rs c)) (kids rs p)" using IH(2) by auto
    moreover have "step ?vals p = ?vals[p := foldl f (own p) (map (\<lambda>c. ?vals ! c) (kids rs p))]"
      using assms(5) IH(1,3) p by simp
    ultimately have "step ?vals p = ?vals[p := F own (desc rs p)]"
      using aggregate_node [OF assms(1) p(1), of own] by (simp only:)
    with IH p show ?case by (auto simp: nth_list_update)
  qed (simp add: assms(6))
  from this [of "[]" ord] assms(3) show ?thesis by simp
qed

end

interpretation bytesTotal: subtree_aggregate "(+) :: u64 \<Rightarrow> u64 \<Rightarrow> u64" 0
  by unfold_locales

interpretation bestRank: subtree_aggregate "min :: u32 \<Rightarrow> u32 \<Rightarrow> u32" "- 1"
  by unfold_locales (auto simp: ac_simps min_def)

lemma bestRank_Min: "finite A \<Longrightarrow> A \<noteq> {} \<Longrightarrow> bestRank.F g A = Min (g ` A)"
  by (induction A rule: finite_ne_induct) simp_all

lemma bytesTotal_sum: "comm_monoid_set.F (+) (0 :: u64) g A = sum g A"
  by (simp add: sum_def)

lemma preorder_kids:
  assumes "subtreeArrays vol ord" "acyclic (anc (recs vol))" "ord = xs @ p # ys"
  shows "set (kids (recs vol) p) \<subseteq> set ys"
proof
  fix c assume c: "c \<in> set (kids (recs vol) p)"
  note a = assms(1) [unfolded subtreeArrays_def]
  have p: "p < length (recs vol)" using a assms(3) by auto
  obtain k where k: "k + card (desc (recs vol) p) \<le> length ord" "ord ! k = p"
    "set (take (card (desc (recs vol) p)) (drop k ord)) = desc (recs vol) p"
    using a p by blast
  have "0 < card (desc (recs vol) p)" using desc_self [OF p] by (auto simp: card_gt_0_iff)
  then have "k < length ord" using k(1) by linarith
  then have "k = length xs" using k(2) a assms(3) nth_eq_iff_index_eq [of ord k "length xs"] by simp
  then have "desc (recs vol) p \<subseteq> set (p # ys)" using k(3) assms(3) set_take_subset by fastforce
  moreover have "c \<in> desc (recs vol) p" "c \<noteq> p"
    using c desc_kids [OF p] desc_self desc_not_parent [OF assms(2) c] by (auto simp: kidsBelow_def)
  ultimately show "c \<in> set ys" by auto
qed

lemma bytesStep_node:
  assumes "childArrays vol" "p < length (recs vol)"
  shows "bytesStep vol bytes (of_nat p) =
    bytes[p := foldl (+) (ownBytes (recs vol ! p)) (map (\<lambda>c. bytes ! c) (kids (recs vol) p))]"
proof -
  have n: "length (recs vol) < 2 ^ 32" using assms(1) by (simp add: childArrays_def)
  have "foldl (\<lambda>sum child32. let c = unat child32 in if c < length (recs vol) then sum + bytes ! c else sum) x (map of_nat cs :: u32 list) =
      foldl (+) x (map (\<lambda>c. bytes ! c) cs)" if "set cs \<subseteq> {..<length (recs vol)}" for x cs
    using that n by (induction cs arbitrary: x) (auto simp: unat_of_nat_u32)
  moreover have "set (kids (recs vol) p) \<subseteq> {..<length (recs vol)}" by (auto simp: kidsBelow_def)
  ultimately show ?thesis using assms n
    by (simp add: bytesStep_def unat_of_nat_u32 childIDsForRecord_exact)
qed

lemma rankStep_node:
  assumes "childArrays vol" "p < length (recs vol)" "length best = length (recs vol)" "best ! p = - 1"
  shows "rankStep vol ranks best (of_nat p) =
    best[p := foldl min (if Deleted (recs vol ! p) then - 1 else ranks ! p) (map (\<lambda>c. best ! c) (kids (recs vol) p))]"
proof -
  have n: "length (recs vol) < 2 ^ 32" using assms(1) by (simp add: childArrays_def)
  let ?g = "\<lambda>b child32. let c = unat child32 in if c < length b \<and> b ! c < b ! p then b[p := b ! c] else b"
  have loop: "foldl ?g (best[p := v]) (map of_nat cs :: u32 list) = best[p := foldl min v (map (\<lambda>c. best ! c) cs)]"
    if "set cs \<subseteq> {..<length (recs vol)} - {p}" for v cs
    using that
  proof (induction cs arbitrary: v)
    case (Cons c cs)
    have "?g (best[p := v]) (of_nat c :: u32) = best[p := min v (best ! c)]"
      using Cons.prems assms(2,3) n by (auto simp: unat_of_nat_u32 min_def not_less)
    with Cons show ?case by simp
  qed simp
  have "set (kids (recs vol) p) \<subseteq> {..<length (recs vol)} - {p}"
    by (auto simp: kidsBelow_def parentOf_def Let_def split: if_splits)
  note loop [OF this]
  moreover have "(if \<not> Deleted (recs vol ! p) then best[p := ranks ! p] else best) =
      best[p := (if Deleted (recs vol ! p) then - 1 else ranks ! p)]"
    using assms(4) list_update_id [of best p] by simp
  ultimately show ?thesis using assms n
    by (simp add: rankStep_def unat_of_nat_u32 childIDsForRecord_exact)
qed

text \<open>A volume whose records are a forest with at least one child, before the tree is built.\<close>

definition treeReady :: "treeVolume \<Rightarrow> bool" where
  "treeReady vol \<longleftrightarrow> length (recs vol) < 2 ^ 32 \<and> rooted (recs vol) \<and>
    (\<exists>i < length (recs vol). parentOf (recs vol) i \<noteq> None)"

lemma treeReady_built:
  assumes "treeReady vol"
  obtains ord where "subtreeArrays (buildCompactChildren True vol) ord" "childArrays (buildCompactChildren True vol)"
    "recs (buildCompactChildren True vol) = recs vol" "acyclic (anc (recs vol))" "ord \<noteq> []"
proof -
  have "length (recs vol) < 2 ^ 32" "\<exists>i < length (recs vol). parentOf (recs vol) i \<noteq> None"
    using assms by (simp_all add: treeReady_def)
  from childArrays_built [OF this] obtain vol' where v: "childArrays vol'" "recs vol' = recs vol"
    "buildCompactChildren True vol = buildSubtreeRanges vol'" by blast
  obtain ord where ord: "subtreeArrays (buildSubtreeRanges vol') ord" "childArrays (buildSubtreeRanges vol')"
    "recs (buildSubtreeRanges vol') = recs vol'"
    using subtreeArrays_built [OF v(1)] v(2) assms by (auto simp: treeReady_def)
  moreover have "acyclic (anc (recs vol))" using rooted_acyclic assms by (simp add: treeReady_def)
  moreover have "ord \<noteq> []" using ord assms v(2) by (auto simp: subtreeArrays_def treeReady_def)
  ultimately show thesis using that v by simp
qed

section \<open>Properties\<close>

text \<open>A directory, a directory in it, and a file of seven bytes in that.\<close>

definition exampleTree :: treeVolume where
  "exampleTree = \<lparr>recs = [zeroRecord\<lparr>Parent := - 1, Mode := modeDir\<rparr>, zeroRecord\<lparr>Mode := modeDir\<rparr>,
       zeroRecord\<lparr>Parent := 1, Size := 7\<rparr>],
     subtreeOrder = [], subtreeStart = [], subtreeEnd = [], childOffsets = [], childIDs = [], rootIDs = [],
     liveChildren = None\<rparr>"

lemma example_parents:
  "parentOf (recs exampleTree) 0 = None" "parentOf (recs exampleTree) (Suc 0) = Some 0"
  "parentOf (recs exampleTree) 2 = Some (Suc 0)" "parentOf (recs exampleTree) (Suc (Suc 0)) = Some (Suc 0)"
  "length (recs exampleTree) = 3"
  by (simp_all add: parentOf_def exampleTree_def zeroRecord_def)

lemma less_3: "i < (3 :: nat) \<longleftrightarrow> i = 0 \<or> i = Suc 0 \<or> i = 2"
  by linarith

lemma example_anc: "(i, p) \<in> anc (recs exampleTree) \<longleftrightarrow> i = Suc 0 \<and> p = 0 \<or> i = 2 \<and> p = Suc 0"
  unfolding anc_def by (auto simp: example_parents less_3)

lemma example_ready: "treeReady exampleTree"
proof -
  have "0 \<in> set (liveRoots (recs exampleTree) 3)"
    using example_parents(1) by (simp add: liveRoots_def) (simp add: exampleTree_def zeroRecord_def)
  moreover have "(i, 0) \<in> (anc (recs exampleTree))\<^sup>*" if "i < 3" for i
  proof -
    have "(Suc 0, 0) \<in> (anc (recs exampleTree))\<^sup>*" "(2, Suc 0) \<in> anc (recs exampleTree)"
      by (auto simp: example_anc)
    then show ?thesis using that by (auto simp: less_3 intro: converse_rtrancl_into_rtrancl)
  qed
  ultimately have "rooted (recs exampleTree)" by (auto simp: rooted_def example_parents)
  moreover have "\<exists>i < length (recs exampleTree). parentOf (recs exampleTree) i \<noteq> None"
    using example_parents by (intro exI [of _ 2]) simp
  ultimately show ?thesis by (simp add: treeReady_def example_parents)
qed

text \<open>
  C32: The child arrays are exact: after \<open>buildCompactChildren\<close>, in either mode, the offsets and IDs
  of the counting sort give every record exactly the records whose parent it is, in ascending
  order, and the root list holds exactly the live records without a parent in the volume.
\<close>

theorem buildCompactChildren_exact:
  assumes "length (recs vol) < 2 ^ 32" "\<exists>i < length (recs vol). parentOf (recs vol) i \<noteq> None" "p < length (recs vol)"
  shows "childIDsForRecord (buildCompactChildren False vol) (int p) =
      map of_nat (filter (\<lambda>i. parentOf (recs vol) i = Some p) [0..<length (recs vol)]) \<and>
    rootIDs (buildCompactChildren False vol) =
      map of_nat (filter (\<lambda>i. parentOf (recs vol) i = None \<and> \<not> Deleted (recs vol ! i)) [0..<length (recs vol)])"
proof -
  obtain vol' where v: "childArrays vol'" "recs vol' = recs vol"
    "buildCompactChildren False vol = vol'\<lparr>subtreeOrder := [], subtreeStart := [], subtreeEnd := []\<rparr>"
    using childArrays_built [OF assms(1,2)] by blast
  then have "childArrays (buildCompactChildren False vol)" "recs (buildCompactChildren False vol) = recs vol"
    by (simp_all add: childArrays_def)
  with childIDsForRecord_exact [OF this(1)] assms(3) show ?thesis
    by (simp add: childArrays_def kidsBelow_def liveRoots_def)
qed

theorem buildCompactChildren_exact_witness:
  "childIDsForRecord (buildCompactChildren False exampleTree) 0 = [1]"
proof -
  have "filter (\<lambda>i. parentOf (recs exampleTree) i = Some 0) [0..<length (recs exampleTree)] = [1]"
    by (simp add: example_parents upt_rec)
  with buildCompactChildren_exact [of exampleTree 0] example_ready show ?thesis
    by (simp add: treeReady_def example_parents)
qed



text \<open>
  Without intervals the climb along the parents decides the same relation for chains of
  fewer than 1024 records, and \<open>isDescendantOrSelfAnyFast\<close> does so for a list of roots.
\<close>

theorem parent_climb_exact:
  assumes "rooted (recs vol)" "subtreeStart vol = []" "i < length (recs vol)" "r < length (recs vol)" "roots \<noteq> []"
  shows "(isDescendantOrSelf vol (int i) (int r) \<longleftrightarrow> (\<exists>k<1024. (i, r) \<in> anc (recs vol) ^^ k)) \<and>
    (isDescendantOrSelfAnyFast vol (int i) (map int roots) \<longleftrightarrow> (\<exists>q\<in>set roots. \<exists>k<1024. (i, q) \<in> anc (recs vol) ^^ k))"
  using climb_exact [OF rooted_acyclic [OF assms(1)] assms(4,3), of "[]" 1024]
    climbAny_exact [OF assms(3), of roots 1024] assms(2,5)
  by (simp add: isDescendantOrSelf_def isDescendantOrSelfAnyFast_def)

theorem parent_climb_exact_witness: "isDescendantOrSelf exampleTree 1 0"
proof -
  have "\<exists>k<1024. (Suc 0, 0) \<in> anc (recs exampleTree) ^^ k"
    by (intro exI [of _ 1]) (simp add: example_anc)
  moreover have "rooted (recs exampleTree)" "subtreeStart exampleTree = []"
    using example_ready by (simp_all add: treeReady_def exampleTree_def)
  ultimately show ?thesis
    using parent_climb_exact [of exampleTree "Suc 0" 0 "[0]"] by (simp add: example_parents del: relpow.simps)
qed

text \<open>
  C33: The backward passes aggregate over whole subtrees: the recursive size of a record is the
  sum, modulo \<open>2^64\<close>, of the sizes of the live files among its descendants, and its best rank is
  the least rank of a live descendant (\<open>2^32 - 1\<close> when there is none).
\<close>

theorem subtree_aggregates_exact:
  assumes "treeReady vol" "p < length (recs vol)" "length ranks = length (recs vol)"
  shows "buildSubtreeBytes (buildCompactChildren True vol) ! p = (\<Sum>i\<in>desc (recs vol) p. ownBytes (recs vol ! i)) \<and>
    buildSubtreeMinRanks (buildCompactChildren True vol) ranks ! p =
      Min ((\<lambda>i. if Deleted (recs vol ! i) then - 1 else ranks ! i) ` desc (recs vol) p)"
proof -
  define w where "w = buildCompactChildren True vol"
  obtain ord where b: "subtreeArrays w ord" "childArrays w" "recs w = recs vol" "acyclic (anc (recs vol))" "ord \<noteq> []"
    using treeReady_built [OF assms(1)] unfolding w_def by blast
  have order: "subtreeOrder w = map of_nat ord" "distinct ord" "set ord = {..<length (recs vol)}"
    using b(1,3) by (simp_all add: subtreeArrays_def)
  have pre: "\<forall>xs p ys. ord = xs @ p # ys \<longrightarrow> set (kids (recs vol) p) \<subseteq> set ys"
    using preorder_kids [OF b(1)] b(3,4) by simp
  have fold: "foldl step init (rev (subtreeOrder w)) = foldl (\<lambda>v p. step v (of_nat p)) init (rev ord)"
    for step :: "'b \<Rightarrow> u32 \<Rightarrow> 'b" and init
    by (simp add: order(1) rev_map foldl_map)
  have ne: "subtreeOrder w \<noteq> []" using b(5) order(1) by simp
  have "\<forall>vals q. length vals = length (recs vol) \<and> q < length (recs vol) \<and> vals ! q = replicate (length (recs vol)) 0 ! q \<longrightarrow>
      bytesStep w vals (of_nat q) = vals[q := foldl (+) (ownBytes (recs vol ! q)) (map (\<lambda>c. vals ! c) (kids (recs vol) q))]"
    using bytesStep_node [OF b(2)] b(3) by simp
  from bytesTotal.aggregate_exact [OF b(4) order(2,3) pre this] have "buildSubtreeBytes w ! p = (\<Sum>i\<in>desc (recs vol) p. ownBytes (recs vol ! i))"
    using assms(2) b(3) ne by (simp add: buildSubtreeBytes_def fold bytesTotal_sum)
  moreover have "\<forall>vals q. length vals = length (recs vol) \<and> q < length (recs vol) \<and> vals ! q = replicate (length (recs vol)) (- 1) ! q \<longrightarrow>
      rankStep w ranks vals (of_nat q) = vals[q := foldl min (if Deleted (recs vol ! q) then - 1 else ranks ! q)
        (map (\<lambda>c. vals ! c) (kids (recs vol) q))]"
    using rankStep_node [OF b(2)] b(3) by simp
  from bestRank.aggregate_exact [OF b(4) order(2,3) pre this] have "buildSubtreeMinRanks w ranks ! p =
      bestRank.F (\<lambda>i. if Deleted (recs vol ! i) then - 1 else ranks ! i) (desc (recs vol) p)"
    using assms(2,3) b(3) ne by (simp add: buildSubtreeMinRanks_def fold)
  moreover have "desc (recs vol) p \<noteq> {}" using desc_self [OF assms(2)] by blast
  ultimately show ?thesis using bestRank_Min [OF finite_desc] by (simp add: w_def)
qed

theorem subtree_aggregates_exact_witness:
  "buildSubtreeBytes (buildCompactChildren True exampleTree) ! 2 = 7"
proof -
  have "(i, 2) \<in> (anc (recs exampleTree))\<^sup>* \<longleftrightarrow> i = 2" for i
    by (auto simp: example_anc elim: rtranclE)
  then have "desc (recs exampleTree) 2 = {2}" by (auto simp: desc_def example_parents)
  moreover have "ownBytes (recs exampleTree ! 2) = 7"
    by (simp add: exampleTree_def ownBytes_def zeroRecord_def isDirMode_def)
  ultimately show ?thesis
    using subtree_aggregates_exact [OF example_ready, of 2 "[0, 0, 0]"] by (simp add: example_parents)
qed

end
