(* ===== verification/RecordStore.thy ===== *)
theory RecordStore
  imports Packed Subtree
begin

text \<open>
  The records of an index behind one interface (\<open>search_compact.go\<close>: \<open>compactRecordCount\<close>, \<open>compactRecord\<close>,
  \<open>compactDeletedAt\<close>, \<open>setCompactRecord\<close>, \<open>appendCompactRecord\<close>; \<open>packed_records.go\<close>: \<open>packCompactRecords\<close>, \<open>markDeleted\<close>).

  An index holds its records mapped from a file, packed, or as a slice; a mapped store is read-only and stands
  here for the records it decodes. Deleting a directory marks its live subtree, which is proved once for every
  store that keeps the \<open>record_store\<close> contract.
\<close>

section \<open>State and operations\<close>

record Index =
  MMapRecords :: "CompactRecord list option"
  PackedRecs :: "PackedRecords option"
  PlainRecords :: "CompactRecord list option"

definition plain :: "Index \<Rightarrow> CompactRecord list" where
  "plain idx = (case PlainRecords idx of None \<Rightarrow> [] | Some rs \<Rightarrow> rs)"

definition recordAt :: "CompactRecord list \<Rightarrow> int \<Rightarrow> CompactRecord" where
  "recordAt rs i = (if i < 0 \<or> i \<ge> int (length rs) then zeroRecord else rs ! nat i)"

definition compactRecordCount :: "Index \<Rightarrow> nat" where
  "compactRecordCount idx =
    (case MMapRecords idx of
      Some m \<Rightarrow> length m
    | None \<Rightarrow> (case PackedRecs idx of Some p \<Rightarrow> packedLen p | None \<Rightarrow> length (plain idx)))"

definition compactRecord :: "Index \<Rightarrow> int \<Rightarrow> CompactRecord" where
  "compactRecord idx i =
    (case MMapRecords idx of
      Some m \<Rightarrow> recordAt m i
    | None \<Rightarrow> (case PackedRecs idx of Some p \<Rightarrow> packedAt p i | None \<Rightarrow> recordAt (plain idx) i))"

definition compactDeletedAt :: "Index \<Rightarrow> nat \<Rightarrow> bool" where
  "compactDeletedAt idx i =
    (case MMapRecords idx of
      Some m \<Rightarrow> Deleted (recordAt m (int i))
    | None \<Rightarrow>
        (case PackedRecs idx of
          Some p \<Rightarrow> deletedAt p i
        | None \<Rightarrow> if i \<ge> length (plain idx) then False else Deleted (plain idx ! i)))"

definition setCompactRecord :: "(string \<Rightarrow> string) \<Rightarrow> int \<Rightarrow> CompactRecord \<Rightarrow> Index \<Rightarrow> Index" where
  "setCompactRecord toLower i r idx =
    (if MMapRecords idx \<noteq> None then idx
     else
       let idx1 = (case PackedRecs idx of Some p \<Rightarrow> idx\<lparr>PackedRecs := Some (packedSet toLower i r p)\<rparr> | None \<Rightarrow> idx)
       in if i \<ge> 0 \<and> i < int (length (plain idx1))
          then idx1\<lparr>PlainRecords := map_option (\<lambda>rs. rs[nat i := r]) (PlainRecords idx1)\<rparr> else idx1)"

definition appendCompactRecord :: "(string \<Rightarrow> string) \<Rightarrow> CompactRecord \<Rightarrow> Index \<Rightarrow> int \<times> Index" where
  "appendCompactRecord toLower r idx =
    (if MMapRecords idx \<noteq> None then (- 1, idx)
     else
       let rid = compactRecordCount idx;
           idx1 = (case PackedRecs idx of Some p \<Rightarrow> idx\<lparr>PackedRecs := Some (packedAppend toLower r p)\<rparr> | None \<Rightarrow> idx);
           idx2 = (if PackedRecs idx1 = None \<or> PlainRecords idx1 \<noteq> None
                   then idx1\<lparr>PlainRecords := Some (plain idx1 @ [r])\<rparr> else idx1)
       in (int rid, idx2))"

definition packCompactRecords :: "(string \<Rightarrow> string) \<Rightarrow> bool \<Rightarrow> Index \<Rightarrow> Index" where
  "packCompactRecords toLower dropRecords idx =
    (if PackedRecs idx \<noteq> None \<or> MMapRecords idx \<noteq> None then idx
     else
       let idx1 = idx\<lparr>PackedRecs := newPackedRecords toLower (plain idx)\<rparr>
       in if dropRecords then idx1\<lparr>PlainRecords := None\<rparr> else idx1)"

text \<open>\<open>markDeleted\<close>: without a child map the record alone; otherwise the live subtree, with an explicit stack whose
  top is the end of the list.\<close>

partial_function (option) markLoop ::
  "nat \<Rightarrow> ('s \<Rightarrow> int \<Rightarrow> CompactRecord) \<Rightarrow> (int \<Rightarrow> CompactRecord \<Rightarrow> 's \<Rightarrow> 's) \<Rightarrow> (int \<Rightarrow> u32 list) \<Rightarrow> int list \<Rightarrow> 's \<Rightarrow> 's option" where
  "markLoop count get put offspring stack s =
    (if stack = [] then Some s
     else
       let cur = last stack; stack' = butlast stack
       in if cur < 0 \<or> cur \<ge> int count then markLoop count get put offspring stack' s
          else
            let r = get s cur
            in if Deleted r then markLoop count get put offspring stack' s
               else markLoop count get put offspring (stack' @ map uint (offspring cur)) (put cur (r\<lparr>Deleted := True\<rparr>) s))"

declare markLoop.simps [code]

definition markDeleted :: "(string \<Rightarrow> string) \<Rightarrow> treeVolume \<Rightarrow> int \<Rightarrow> Index \<Rightarrow> Index option" where
  "markDeleted toLower vol rid idx =
    (if rid < 0 \<or> rid \<ge> int (compactRecordCount idx) then Some idx
     else if liveChildren vol = None
     then Some (setCompactRecord toLower rid ((compactRecord idx rid)\<lparr>Deleted := True\<rparr>) idx)
     else markLoop (compactRecordCount idx) compactRecord (setCompactRecord toLower) (childIDsForRecord vol) [rid] idx)"

section \<open>The subtree of live records\<close>

inductive_set doomed :: "CompactRecord list \<Rightarrow> (int \<Rightarrow> u32 list) \<Rightarrow> nat \<Rightarrow> nat set"
  for rs offspring rid where
    start: "rid < length rs \<Longrightarrow> \<not> Deleted (rs ! rid) \<Longrightarrow> rid \<in> doomed rs offspring rid"
  | child: "i \<in> doomed rs offspring rid \<Longrightarrow> c \<in> set (offspring (int i)) \<Longrightarrow> unat c < length rs \<Longrightarrow> \<not> Deleted (rs ! unat c) \<Longrightarrow>
      unat c \<in> doomed rs offspring rid"

definition marked :: "nat set \<Rightarrow> CompactRecord list \<Rightarrow> CompactRecord list" where
  "marked D rs = map (\<lambda>i. if i \<in> D then (rs ! i)\<lparr>Deleted := True\<rparr> else rs ! i) [0..<length rs]"

lemma length_marked [simp]: "length (marked D rs) = length rs"
  by (simp add: marked_def)

lemma marked_nth: "i < length rs \<Longrightarrow> marked D rs ! i = (if i \<in> D then (rs ! i)\<lparr>Deleted := True\<rparr> else rs ! i)"
  by (simp add: marked_def)

lemma marked_insert: "i < length rs \<Longrightarrow> (marked D rs)[i := (marked D rs ! i)\<lparr>Deleted := True\<rparr>] = marked (insert i D) rs"
  by (rule nth_equalityI) (auto simp: marked_nth nth_list_update)

lemma marked_empty [simp]: "marked {} rs = rs"
  by (simp add: marked_def map_nth)

lemma doomed_live: "i \<in> doomed rs offspring rid \<Longrightarrow> i < length rs \<and> \<not> Deleted (rs ! i)"
  by (induction rule: doomed.induct) simp_all

text \<open>The state of the loop: \<open>D\<close> is marked, and whatever must still be marked hangs below the stack.\<close>

definition frontier :: "CompactRecord list \<Rightarrow> (int \<Rightarrow> u32 list) \<Rightarrow> nat \<Rightarrow> nat set \<Rightarrow> int list \<Rightarrow> bool" where
  "frontier rs offspring rid D stack \<longleftrightarrow> D \<subseteq> doomed rs offspring rid \<and>
     (\<forall>i\<in>insert rid {unat c | c i. i \<in> D \<and> c \<in> set (offspring (int i))}. i < length rs \<and> \<not> Deleted (rs ! i) \<longrightarrow> i \<in> D \<or> int i \<in> set stack) \<and>
     (\<forall>k\<in>set stack. 0 \<le> k \<and> nat k < length rs \<and> \<not> Deleted (rs ! nat k) \<longrightarrow> nat k \<in> doomed rs offspring rid)"

lemma frontier_done: "frontier rs offspring rid D [] \<Longrightarrow> D = doomed rs offspring rid"
proof
  assume f: "frontier rs offspring rid D []"
  then show "D \<subseteq> doomed rs offspring rid" by (simp add: frontier_def)
  show "doomed rs offspring rid \<subseteq> D"
  proof
    fix i assume "i \<in> doomed rs offspring rid"
    then show "i \<in> D"
    proof (induction rule: doomed.induct)
      case (child i c)
      then have "unat c \<in> insert rid {unat c | c i. i \<in> D \<and> c \<in> set (offspring (int i))}" by blast
      with f child show ?case unfolding frontier_def by auto
    qed (use f in \<open>auto simp: frontier_def\<close>)
  qed
qed

lemma frontier_pop:
  assumes "frontier rs offspring rid D (stack @ [cur])"
    "\<not> (0 \<le> cur \<and> nat cur < length rs \<and> \<not> Deleted (rs ! nat cur)) \<or> nat cur \<in> D"
  shows "frontier rs offspring rid D stack"
proof -
  have keep: "int i \<in> set stack" if "int i \<in> set (stack @ [cur])" "i < length rs" "\<not> Deleted (rs ! i)" "i \<notin> D" for i
    using that assms(2) by auto
  have f: "D \<subseteq> doomed rs offspring rid"
    "\<forall>i\<in>insert rid {unat c | c i. i \<in> D \<and> c \<in> set (offspring (int i))}. i < length rs \<and> \<not> Deleted (rs ! i) \<longrightarrow> i \<in> D \<or> int i \<in> set (stack @ [cur])"
    "\<forall>k\<in>set (stack @ [cur]). 0 \<le> k \<and> nat k < length rs \<and> \<not> Deleted (rs ! nat k) \<longrightarrow> nat k \<in> doomed rs offspring rid"
    using assms(1) unfolding frontier_def by blast+
  have "\<forall>i\<in>insert rid {unat c | c i. i \<in> D \<and> c \<in> set (offspring (int i))}. i < length rs \<and> \<not> Deleted (rs ! i) \<longrightarrow> i \<in> D \<or> int i \<in> set stack"
    using f(2) keep by blast
  with f(1,3) show ?thesis by (simp add: frontier_def)
qed

lemma frontier_push:
  assumes "frontier rs offspring rid D (stack @ [int cur])" "cur < length rs" "\<not> Deleted (rs ! cur)"
  shows "frontier rs offspring rid (insert cur D) (stack @ map uint (offspring (int cur)))"
proof -
  have cur: "cur \<in> doomed rs offspring rid" using assms by (auto simp: frontier_def)
  have new: "nat (uint c) \<in> doomed rs offspring rid"
    if "c \<in> set (offspring (int cur))" "nat (uint c) < length rs" "\<not> Deleted (rs ! nat (uint c))" for c
    using doomed.child [OF cur that(1)] that(2,3) by simp
  have "i \<in> insert cur D \<or> int i \<in> set (stack @ map uint (offspring (int cur)))"
    if "i \<in> insert rid {unat c | c i. i \<in> insert cur D \<and> c \<in> set (offspring (int i))}" "i < length rs" "\<not> Deleted (rs ! i)" for i
  proof (cases "i \<in> insert rid {unat c | c i. i \<in> D \<and> c \<in> set (offspring (int i))}")
    case True
    with assms(1) that(2,3) show ?thesis unfolding frontier_def by auto
  next
    case False
    with that(1) obtain c where "c \<in> set (offspring (int cur))" "i = unat c" by auto
    then show ?thesis by auto
  qed
  then show ?thesis using assms(1) cur new unfolding frontier_def by auto
qed

context record_store
begin

lemma markLoop_exact:
  assumes "valid s" "records s = marked D rs" "frontier rs offspring rid D stack" "D \<subseteq> {..<length rs}"
  shows "\<exists>s'. markLoop (length rs) get put offspring stack s = Some s' \<and> valid s' \<and>
    records s' = marked (doomed rs offspring rid) rs"
  using assms
proof (induction "(card ({..<length rs} - D), length stack)" arbitrary: s D stack rule: wf_induct_rule [OF wf_lex_prod [OF wf_less_than wf_less_than]])
  case (1 D stack s)
  show ?case
  proof (cases "stack = []")
    case True
    with 1 frontier_done show ?thesis by (subst markLoop.simps) auto
  next
    case False
    define cur where "cur = last stack"
    define rest where "rest = butlast stack"
    have stack: "stack = rest @ [cur]" using False by (simp add: cur_def rest_def)
    have pop: ?thesis if "markLoop (length rs) get put offspring stack s = markLoop (length rs) get put offspring rest s"
      "frontier rs offspring rid D rest"
      using 1(1) [of D rest s] that 1(2-) by (simp add: stack)
    show ?thesis
    proof (cases "cur < 0 \<or> cur \<ge> int (length rs)")
      case True
      have "frontier rs offspring rid D rest"
        using 1(4) True by (intro frontier_pop [of rs offspring rid D rest cur]) (auto simp: stack)
      with True show ?thesis
        by (intro pop) (subst markLoop.simps, auto simp: False cur_def [symmetric] rest_def [symmetric])
    next
      case in_range: False
      define i where "i = nat cur"
      have i: "cur = int i" "i < length rs" using in_range by (simp_all add: i_def nat_less_iff)
      have del: "Deleted (get s cur) \<longleftrightarrow> i \<in> D \<or> Deleted (rs ! i)"
        using get_deleted [OF 1(2), of i] 1(3) i by (simp add: marked_nth)
      show ?thesis
      proof (cases "Deleted (get s cur)")
        case True
        have "frontier rs offspring rid D rest"
          using 1(4) True del by (intro frontier_pop [of rs offspring rid D rest cur]) (auto simp: stack i_def)
        with True in_range show ?thesis
          by (intro pop) (subst markLoop.simps, auto simp: False cur_def [symmetric] rest_def [symmetric])
      next
        case live: False
        let ?s = "put cur ((get s cur)\<lparr>Deleted := True\<rparr>) s"
        have put: "valid ?s" "records ?s = marked (insert i D) rs"
          using put_deleted [OF 1(2), of i] 1(3) i marked_insert [of i rs D] by simp_all
        have "frontier rs offspring rid (insert i D) (rest @ map uint (offspring cur))"
          using frontier_push [of rs offspring rid D rest i] 1(4) i live del by (simp add: stack)
        moreover have "card ({..<length rs} - insert i D) < card ({..<length rs} - D)"
          using i(2) live del by (intro psubset_card_mono) auto
        moreover have "insert i D \<subseteq> {..<length rs}" using 1(5) i(2) by simp
        ultimately have "\<exists>s'. markLoop (length rs) get put offspring (rest @ map uint (offspring cur)) ?s = Some s' \<and> valid s' \<and>
            records s' = marked (doomed rs offspring rid) rs"
          using 1(1) [of "insert i D" "rest @ map uint (offspring cur)" ?s] put by simp
        moreover have "markLoop (length rs) get put offspring stack s =
            markLoop (length rs) get put offspring (rest @ map uint (offspring cur)) ?s"
          using in_range live by (subst markLoop.simps) (simp add: False cur_def [symmetric] rest_def [symmetric])
        ultimately show ?thesis by simp
      qed
    qed
  qed
qed

end

section \<open>An index is a record store\<close>

definition indexValid :: "Index \<Rightarrow> bool" where
  "indexValid idx \<longleftrightarrow> MMapRecords idx = None \<and> (case PackedRecs idx of Some p \<Rightarrow> packedInv p | None \<Rightarrow> True)"

definition indexRecords :: "Index \<Rightarrow> CompactRecord list" where
  "indexRecords idx = (case PackedRecs idx of Some p \<Rightarrow> contents p | None \<Rightarrow> map normal (plain idx))"

lemma length_indexRecords: "indexValid idx \<Longrightarrow> length (indexRecords idx) = compactRecordCount idx"
  by (simp add: indexValid_def indexRecords_def compactRecordCount_def packedLen_def split: option.split)

lemma index_store: "record_store indexValid indexRecords compactRecord (setCompactRecord toLower)"
proof
  fix idx :: Index and i and r :: CompactRecord
  assume v: "indexValid idx" "i < length (indexRecords idx)"
  then have n: "MMapRecords idx = None" by (simp add: indexValid_def)
  show "normal (compactRecord idx (int i)) = indexRecords idx ! i"
  proof (cases "PackedRecs idx")
    case (Some p)
    with v n show ?thesis using packed.get_records [of p i] by (simp add: compactRecord_def indexRecords_def indexValid_def)
  qed (use v n in \<open>simp add: compactRecord_def indexRecords_def recordAt_def\<close>)
  assume r: "FRN r = FRN (indexRecords idx ! i)" "Name r = Name (indexRecords idx ! i)"
  show "indexValid (setCompactRecord toLower (int i) r idx) \<and>
      indexRecords (setCompactRecord toLower (int i) r idx) = (indexRecords idx)[i := normal r]"
  proof (cases "PackedRecs idx")
    case (Some p)
    with v r have "packedInv (packedSet toLower (int i) r p) \<and> contents (packedSet toLower (int i) r p) = (contents p)[i := normal r]"
      using packed.put_records [of p i r toLower] by (simp add: indexRecords_def indexValid_def)
    with Some n show ?thesis by (simp add: setCompactRecord_def indexValid_def indexRecords_def Let_def)
  next
    case None
    with v n show ?thesis
      by (auto simp: setCompactRecord_def indexValid_def indexRecords_def Let_def plain_def map_update split: option.splits)
  qed
qed

interpretation index: record_store indexValid indexRecords compactRecord "setCompactRecord toLower" for toLower
  by (rule index_store)

section \<open>Properties\<close>


definition exampleIndex :: Index where
  "exampleIndex = \<lparr>MMapRecords = None, PackedRecs = None, PlainRecords = Some exampleRecords\<rparr>"

definition exampleVolumeTree :: treeVolume where
  "exampleVolumeTree = exampleTree\<lparr>childOffsets := [0, 2, 2, 2], childIDs := [1, 2], liveChildren := Some (\<lambda>frn. [])\<rparr>"

lemma example_index: "indexValid exampleIndex" "compactRecordCount exampleIndex = 3" "indexRecords exampleIndex = map normal exampleRecords"
  by (simp_all add: indexValid_def compactRecordCount_def exampleIndex_def indexRecords_def plain_def exampleRecords_def)


text \<open>packing the records of an index changes neither its records nor what appending a record does to them.\<close>

theorem index_packing_keeps_records:
  fixes dropRecords :: bool
  assumes "MMapRecords idx = None" "PackedRecs idx = None" "packable toLower (plain idx @ [r])" "plain idx \<noteq> []"
    "int (length (plain idx)) \<notin> set (map Parent (plain idx))"
  defines "after \<equiv> packCompactRecords toLower dropRecords idx"
  shows "indexValid after \<and> indexRecords after = indexRecords idx \<and>
    indexRecords (snd (appendCompactRecord toLower r after)) = indexRecords (snd (appendCompactRecord toLower r idx)) \<and>
    fst (appendCompactRecord toLower r after) = fst (appendCompactRecord toLower r idx)"
proof -
  let ?rs = "plain idx"
  have ok: "packable toLower ?rs" using assms(3,4) by (auto simp: packable_def)
  then obtain p where p: "newPackedRecords toLower ?rs = Some p" "packedInv p" "contents p = map normal ?rs"
    using newPackedRecords_at by metis
  have "fits toLower (Name r) p"
    using newPackedRecords_room [OF ok p(1)] assms(3) by (simp add: packable_def fits_def)
  moreover have len: "length (FRNs p) = length ?rs" using p(3) by (metis length_contents length_map)
  moreover have "set (Parents p) = set (map Parent ?rs)"
  proof -
    have "Parents p = map Parent (contents p)"
      using p(2) by (intro nth_equalityI) (simp_all add: packedInv_def parentsOk_def contents_fields)
    then show ?thesis by (simp add: p(3) normal_def)
  qed
  ultimately have app: "contents (packedAppend toLower r p) = map normal ?rs @ [normal r]"
    using packedAppend_at [OF p(2), of toLower r] assms(3,5) p(3) by (simp add: packable_def)
  have "after = (if dropRecords then idx\<lparr>PackedRecs := Some p, PlainRecords := None\<rparr> else idx\<lparr>PackedRecs := Some p\<rparr>)"
    using assms(1,2) p(1) by (simp add: after_def packCompactRecords_def Let_def)
  then show ?thesis using assms(1,2) p app len
    by (simp add: indexValid_def indexRecords_def appendCompactRecord_def compactRecordCount_def packedLen_def Let_def plain_def)
qed

theorem index_packing_keeps_records_witness:
  "indexRecords (packCompactRecords lowerASCII True exampleIndex) = indexRecords exampleIndex"
proof -
  have "packable lowerASCII (plain exampleIndex @ [zeroRecord])"
    by (simp add: packable_def exampleIndex_def plain_def exampleRecords_def maxNameBytes_def zeroRecord_def)
  then show ?thesis
    using index_packing_keeps_records [of exampleIndex lowerASCII zeroRecord True]
    by (simp add: exampleIndex_def plain_def exampleRecords_def zeroRecord_def)
qed

end
