(* ===== verification/ByteOrder.thy ===== *)
theory ByteOrder
  imports Prelude
begin

text \<open>
  The byte order of the files: \<open>binary.LittleEndian\<close> numbers, Go strings as bytes, and tables of
  records of one size.
\<close>

section \<open>Little-endian numbers and strings\<close>

fun putUint :: "nat \<Rightarrow> 'a :: len word \<Rightarrow> bytes" where
  "putUint 0 w = []"
| "putUint (Suc n) w = ucast w # putUint n (drop_bit 8 w)"

fun getUint :: "bytes \<Rightarrow> 'a :: len word" where
  "getUint [] = 0"
| "getUint (b # bs) = ucast b OR push_bit 8 (getUint bs)"

definition strBytes :: "string \<Rightarrow> bytes" where
  "strBytes s = map (\<lambda>c. of_nat (of_char c)) s"

definition bytesStr :: "bytes \<Rightarrow> string" where
  "bytesStr bs = map (\<lambda>b. char_of (unat b)) bs"

text \<open>\<open>binary.LittleEndian.Uint32(data[off:])\<close> and its kin, for an offset within the data.\<close>

definition uintAt :: "nat \<Rightarrow> bytes \<Rightarrow> nat \<Rightarrow> 'a :: len word" where
  "uintAt n data off = getUint (take n (drop off data))"

section \<open>Numbers and strings survive encoding\<close>

lemma length_putUint [simp]: "length (putUint n w) = n"
  by (induction n w rule: putUint.induct) simp_all

lemma getUint_putUint_take: "getUint (putUint n w) = (take_bit (8 * n) w :: 'a :: len word)"
proof (induction n w rule: putUint.induct)
  case (2 n w)
  have "(ucast (ucast w :: u8) OR push_bit 8 (take_bit (8 * n) (drop_bit 8 w)) :: 'a word) = take_bit (8 * Suc n) w"
    by (rule bit_eqI) (auto simp: bit_simps)
  with 2 show ?case by simp
qed simp

lemma getUint_put [simp]:
  "getUint (putUint 8 (w :: u64)) = w" "getUint (putUint 4 (v :: u32)) = v" "getUint (putUint 2 (u :: u16)) = u"
  by (simp_all add: getUint_putUint_take take_bit_word_eq_self)

lemma bit_getUint: "bit (getUint bs :: 'a :: len word) k \<Longrightarrow> k < 8 * length bs"
proof (induction bs arbitrary: k)
  case (Cons b bs)
  then have "bit b k \<or> 8 \<le> k \<and> bit (getUint bs :: 'a word) (k - 8)" by (auto simp: bit_simps)
  then show ?case using Cons.IH [of "k - 8"] bit_imp_le_length [of b k] by auto
qed simp

lemma putUint_getUint:
  "8 * length bs \<le> LENGTH('a) \<Longrightarrow> putUint (length bs) (getUint bs :: 'a :: len word) = bs"
proof (induction bs)
  case (Cons b bs)
  let ?g = "getUint bs :: 'a word"
  have "ucast (ucast b OR push_bit 8 ?g) = b"
    using Cons.prems by (intro bit_word_eqI) (auto simp: bit_simps)
  moreover have "drop_bit 8 (ucast b OR push_bit 8 ?g) = ?g"
  proof (rule bit_word_eqI)
    fix k assume "k < LENGTH('a)"
    have "k + 8 < LENGTH('a)" if "bit ?g k"
      using bit_getUint [OF that] Cons.prems by simp
    then show "bit (drop_bit 8 (ucast b OR push_bit 8 ?g)) k = bit ?g k"
      by (auto simp: bit_simps dest: bit_imp_le_length)
  qed
  ultimately show ?case using Cons by simp
qed simp

lemma strBytes_inverse [simp]: "bytesStr (strBytes s) = s"
  by (simp add: strBytes_def bytesStr_def o_def unat_of_nat)

lemma bytesStr_inverse [simp]: "strBytes (bytesStr bs) = bs"
proof -
  have "of_nat (unat b mod 256) = b" for b :: u8
    using unsigned_less [of b, where ?'a = nat] by simp
  then show ?thesis by (simp add: strBytes_def bytesStr_def o_def)
qed

lemma length_strBytes [simp]: "length (strBytes s) = length s" "length (bytesStr bs) = length bs"
  by (simp_all add: strBytes_def bytesStr_def)

lemma put_take [simp]:
  "8 \<le> length p \<Longrightarrow> putUint 8 (getUint (take 8 p) :: u64) = take 8 p"
  "4 \<le> length p \<Longrightarrow> putUint 4 (getUint (take 4 p) :: u32) = take 4 p"
  "2 \<le> length p \<Longrightarrow> putUint 2 (getUint (take 2 p) :: u16) = take 2 p"
  using putUint_getUint [of "take 8 p", where 'a = 64] putUint_getUint [of "take 4 p", where 'a = 32]
    putUint_getUint [of "take 2 p", where 'a = 16]
  by (simp_all del: putUint.simps)

lemma putUint_first: "0 < n \<Longrightarrow> putUint n w ! 0 = ucast w"
  by (cases n) simp_all

lemma putUint_four:
  "putUint 4 w = [ucast w, ucast (drop_bit 8 w), ucast (drop_bit 8 (drop_bit 8 w)), ucast (drop_bit 8 (drop_bit 8 (drop_bit 8 w)))]"
proof -
  have "(4 :: nat) = Suc (Suc (Suc (Suc 0)))" by simp
  then show ?thesis by (simp only: putUint.simps)
qed

section \<open>Tables of records of one size\<close>

lemma table_drop:
  assumes "\<And>x. length (enc x) = k"
  shows "drop (k * i) (concat (map enc xs) @ rest) = concat (map enc (drop i xs)) @ (if i \<le> length xs then rest else drop (k * (i - length xs)) rest)"
proof (induction xs arbitrary: i)
  case (Cons x xs)
  show ?case
  proof (cases i)
    case (Suc j)
    with Cons [of j] show ?thesis by (simp add: assms)
  qed simp
qed simp

lemma table_at:
  assumes "\<And>x. length (enc x) = k" "i < length xs"
  shows "drop (length pre + k * i + j) (pre @ concat (map enc xs) @ rest) =
    drop j (enc (xs ! i) @ concat (map enc (drop (Suc i) xs)) @ rest)"
proof -
  have "drop (k * i) (concat (map enc xs) @ rest) = enc (xs ! i) @ concat (map enc (drop (Suc i) xs)) @ rest"
    using table_drop [of enc k i xs rest, OF assms(1)] assms(2) by (simp add: Cons_nth_drop_Suc [symmetric])
  moreover have "drop (length pre + k * i + j) (pre @ concat (map enc xs) @ rest) = drop j (drop (k * i) (concat (map enc xs) @ rest))"
  proof -
    have "drop (length pre + k * i + j) (pre @ r) = drop j (drop (k * i) r)" for r
      by (simp add: drop_drop add.commute add.left_commute)
    then show ?thesis .
  qed
  ultimately show ?thesis by simp
qed

lemma table_length: "(\<And>x. length (enc x) = k) \<Longrightarrow> length (concat (map enc xs)) = k * length xs"
  by (induction xs) simp_all

end
