(* ===== verification/WAL.thy ===== *)
theory WAL
  imports ByteOrder
begin

text \<open>
  The write-ahead log of a volume (\<open>service_state.go\<close>: \<open>replayWALWithLimit\<close>, \<open>replayBinaryWAL\<close>,
  \<open>readWALFramesAfter\<close>, \<open>rewriteWAL\<close>, \<open>appendWAL\<close>, the frame and batch codecs, \<open>removeWAL\<close>).

  A file is \<open>None\<close> when it does not exist and its bytes otherwise. A signed 64-bit number is its bit
  pattern, compared by \<open>sint\<close>. Replaying returns the batches it applies, in order; what applying one does
  to the volume is the overlay's business. The file system is taken to carry out the writes it is given;
  a write cut short by a crash is a prefix of the bytes it was to append.

  The batch decoder accepts exactly the encoder's output; replaying a log applies exactly the batches past
  the checkpoint; a torn tail and a damaged frame cost only what follows the last whole frame; and
  compacting the log keeps what replaying it yields.
\<close>

section \<open>Checksum\<close>

text \<open>\<open>crc32.ChecksumIEEE\<close>: the reflected CRC-32 with polynomial \<open>0xEDB88320\<close>, one bit at a time.\<close>

definition crcBit :: "u32 \<Rightarrow> u32" where
  "crcBit s = (if bit s 0 then drop_bit 1 s XOR 0xEDB88320 else drop_bit 1 s)"

definition crcByte :: "u32 \<Rightarrow> u8 \<Rightarrow> u32" where
  "crcByte s b = (crcBit ^^ 8) (s XOR ucast b)"

definition checksumIEEE :: "bytes \<Rightarrow> u32" where
  "checksumIEEE p = NOT (foldl crcByte (NOT 0) p)"

section \<open>Batches\<close>

record usnChange =
  cFRN :: u64
  cParentFRN :: u64
  cUSN :: u64
  cReason :: u32
  cAttr :: u32
  cName :: string

record walBatch =
  NextUSN :: u64
  Changes :: "usnChange list"

datatype walError = EOF | UnexpectedEOF | InvalidLength | CrcMismatch | FrameTooSmall | TruncatedChange
  | TruncatedName | TrailingBytes | NameTooLarge | StaleIndex | JSONError

definition walMagicV1 :: bytes where
  "walMagicV1 = strBytes ''SWAL1''"

fun encodeChanges :: "usnChange list \<Rightarrow> walError + bytes" where
  "encodeChanges [] = Inr []"
| "encodeChanges (change # cs) =
    (if length (cName change) > 65535 then Inl NameTooLarge
     else case encodeChanges cs of
       Inl e \<Rightarrow> Inl e
     | Inr rest \<Rightarrow>
         Inr (putUint 8 (cFRN change) @ putUint 8 (cParentFRN change) @ putUint 8 (cUSN change) @
              putUint 4 (cReason change) @ putUint 4 (cAttr change) @
              putUint 2 (of_nat (length (cName change)) :: u16) @ strBytes (cName change) @ rest))"

definition encodeBinaryWALBatch :: "u64 \<Rightarrow> usnChange list \<Rightarrow> walError + bytes" where
  "encodeBinaryWALBatch nextUSN changes =
    (case encodeChanges changes of
      Inl e \<Rightarrow> Inl e
    | Inr body \<Rightarrow> Inr (putUint 8 nextUSN @ putUint 4 (of_nat (length changes) :: u32) @ body))"

text \<open>The fields of one change, from the payload's remaining bytes.\<close>

definition changeHead :: "bytes \<Rightarrow> usnChange" where
  "changeHead p = \<lparr>cFRN = getUint (take 8 p), cParentFRN = getUint (take 8 (drop 8 p)),
     cUSN = getUint (take 8 (drop 16 p)), cReason = getUint (take 4 (drop 24 p)), cAttr = getUint (take 4 (drop 28 p)), cName = []\<rparr>"

fun decodeChanges :: "nat \<Rightarrow> bytes \<Rightarrow> walError + usnChange list" where
  "decodeChanges 0 p = (if p = [] then Inr [] else Inl TrailingBytes)"
| "decodeChanges (Suc count) p =
    (if length p < 34 then Inl TruncatedChange
     else
       let nameLen = unat (getUint (take 2 (drop 32 p)) :: u16); p' = drop 34 p
       in if nameLen > length p' then Inl TruncatedName
          else case decodeChanges count (drop nameLen p') of
            Inl e \<Rightarrow> Inl e
          | Inr cs \<Rightarrow> Inr ((changeHead p)\<lparr>cName := bytesStr (take nameLen p')\<rparr> # cs))"

definition decodeBinaryWALBatch :: "bytes \<Rightarrow> walError + walBatch" where
  "decodeBinaryWALBatch payload =
    (if length payload < 12 then Inl FrameTooSmall
     else case decodeChanges (unat (getUint (take 4 (drop 8 payload)) :: u32)) (drop 12 payload) of
       Inl e \<Rightarrow> Inl e
     | Inr cs \<Rightarrow> Inr \<lparr>NextUSN = getUint (take 8 payload), Changes = cs\<rparr>)"

section \<open>Reading frames\<close>

text \<open>\<open>io.ReadFull\<close>.\<close>

definition readFull :: "nat \<Rightarrow> bytes \<Rightarrow> walError + bytes \<times> bytes" where
  "readFull n bs =
    (if n \<le> length bs then Inr (take n bs, drop n bs) else if bs = [] then Inl EOF else Inl UnexpectedEOF)"

definition maxFrame :: u32 where
  "maxFrame = 64 * 1024 * 1024"

text \<open>The payload behind an eight-byte header, checked and decoded.\<close>

definition frameBody :: "bytes \<Rightarrow> bytes \<Rightarrow> walError + walBatch \<times> bytes" where
  "frameBody header r =
    (let len = getUint (take 4 header) :: u32; wantCRC = getUint (drop 4 header) :: u32
     in if len = 0 \<or> len > maxFrame then Inl InvalidLength
        else case readFull (unat len) r of
          Inl e \<Rightarrow> Inl e
        | Inr (payload, rest) \<Rightarrow>
            if checksumIEEE payload \<noteq> wantCRC then Inl CrcMismatch
            else case decodeBinaryWALBatch payload of Inl e \<Rightarrow> Inl e | Inr batch \<Rightarrow> Inr (batch, rest))"

lemma readFull_length: "readFull n bs = Inr (x, y) \<Longrightarrow> length bs = n + length y"
  by (auto simp: readFull_def split: if_splits)

lemma frameBody_length: "frameBody h r = Inr (b, rest) \<Longrightarrow> length rest \<le> length r"
  by (auto simp: frameBody_def Let_def dest: readFull_length split: if_splits sum.splits)

function replayBinaryWAL :: "bytes \<Rightarrow> u64 \<Rightarrow> walBatch list \<Rightarrow> walBatch list \<times> u64 \<times> walError option" where
  "replayBinaryWAL r checkpoint applied =
    (case readFull 8 r of
      Inl e \<Rightarrow> (applied, checkpoint, if e = EOF \<or> e = UnexpectedEOF \<and> applied = [] then None else Some e)
    | Inr (header, r1) \<Rightarrow>
        (case frameBody header r1 of
          Inl e \<Rightarrow> (applied, checkpoint, Some e)
        | Inr (batch, r2) \<Rightarrow>
            if sint (NextUSN batch) \<le> sint checkpoint then replayBinaryWAL r2 checkpoint applied
            else replayBinaryWAL r2 (NextUSN batch) (applied @ [batch])))"
  by pat_completeness auto
termination
  by (relation "measure (\<lambda>(r, c, a). length r)") (auto dest!: readFull_length frameBody_length)

function framesAfterLoop :: "bytes \<Rightarrow> u64 \<Rightarrow> walBatch list \<Rightarrow> walBatch list \<times> walError option" where
  "framesAfterLoop r checkpoint frames =
    (case readFull 8 r of
      Inl e \<Rightarrow> (frames, if e = EOF \<or> e = UnexpectedEOF then None else Some e)
    | Inr (header, r1) \<Rightarrow>
        (case frameBody header r1 of
          Inl e \<Rightarrow> (frames, Some e)
        | Inr (batch, r2) \<Rightarrow>
            if sint (NextUSN batch) \<le> sint checkpoint then framesAfterLoop r2 checkpoint frames
            else framesAfterLoop r2 checkpoint (frames @ [batch])))"
  by pat_completeness auto
termination
  by (relation "measure (\<lambda>(r, c, a). length r)") (auto dest!: readFull_length frameBody_length)

declare replayBinaryWAL.simps [simp del] framesAfterLoop.simps [simp del]

definition readWALFramesAfter :: "bytes option \<Rightarrow> u64 \<Rightarrow> walBatch list \<times> walError option" where
  "readWALFramesAfter file checkpoint =
    (case file of
      None \<Rightarrow> ([], None)
    | Some bs \<Rightarrow>
        if take (length walMagicV1) bs \<noteq> walMagicV1 then ([], None)
        else framesAfterLoop (drop (length walMagicV1) bs) checkpoint [])"

text \<open>The legacy log is JSON; \<open>decodeJSON\<close> is the sequence of batches that \<open>encoding/json\<close> reads from it and
  the error that ends it, if any.\<close>

fun replayBatches :: "walBatch list \<Rightarrow> u64 \<Rightarrow> walBatch list \<Rightarrow> walBatch list \<times> u64" where
  "replayBatches [] checkpoint applied = (applied, checkpoint)"
| "replayBatches (batch # bs) checkpoint applied =
    (if sint (NextUSN batch) \<le> sint checkpoint then replayBatches bs checkpoint applied
     else replayBatches bs (NextUSN batch) (applied @ [batch]))"

definition replayWALWithLimit ::
  "(bytes \<Rightarrow> walBatch list \<times> walError option) \<Rightarrow> int \<Rightarrow> bytes option \<Rightarrow> u64 \<Rightarrow> walBatch list \<times> u64 \<times> walError option" where
  "replayWALWithLimit decodeJSON maxBytes file checkpoint =
    (case file of
      None \<Rightarrow> ([], checkpoint, None)
    | Some bs \<Rightarrow>
        if maxBytes > 0 \<and> int (length bs) > maxBytes then ([], checkpoint, Some StaleIndex)
        else if take (length walMagicV1) bs = walMagicV1
        then replayBinaryWAL (drop (length walMagicV1) bs) checkpoint []
        else
          let (batches, err) = decodeJSON bs; (applied, c) = replayBatches batches checkpoint []
          in (applied, c, err))"

section \<open>Writing\<close>

definition appendBinaryWALFrame :: "bytes \<Rightarrow> u64 \<Rightarrow> usnChange list \<Rightarrow> bytes \<times> walError option" where
  "appendBinaryWALFrame f nextUSN changes =
    (let f1 = (if length f = 0 then f @ walMagicV1 else f)
     in case encodeBinaryWALBatch nextUSN changes of
          Inl e \<Rightarrow> (f1, Some e)
        | Inr payload \<Rightarrow>
            (f1 @ putUint 4 (of_nat (length payload) :: u32) @ putUint 4 (checksumIEEE payload) @ payload, None))"

definition appendWAL :: "bytes option \<Rightarrow> u64 \<Rightarrow> usnChange list \<Rightarrow> bytes option \<times> walError option" where
  "appendWAL file nextUSN changes =
    (if changes = [] then (file, None)
     else
       let (f, err) = appendBinaryWALFrame (case file of None \<Rightarrow> [] | Some bs \<Rightarrow> bs) nextUSN changes
       in (Some f, err))"

fun writeFrames :: "bytes \<Rightarrow> walBatch list \<Rightarrow> bytes \<times> walError option" where
  "writeFrames f [] = (f, None)"
| "writeFrames f (frame # frames) =
    (case appendBinaryWALFrame f (NextUSN frame) (Changes frame) of
      (f1, Some e) \<Rightarrow> (f1, Some e)
    | (f1, None) \<Rightarrow> writeFrames f1 frames)"

text \<open>The log is replaced by renaming a temporary file, and kept when writing that file fails.\<close>

definition rewriteWAL :: "bytes option \<Rightarrow> walBatch list \<Rightarrow> bytes option \<times> walError option" where
  "rewriteWAL file frames =
    (case writeFrames walMagicV1 frames of
      (f, Some e) \<Rightarrow> (file, Some e)
    | (f, None) \<Rightarrow> (Some f, None))"

definition removeWAL :: "bytes option \<Rightarrow> bytes option" where
  "removeWAL file = None"

section \<open>The batch codec\<close>

definition encodable :: "usnChange list \<Rightarrow> bool" where
  "encodable cs \<longleftrightarrow> length cs < 2 ^ 32 \<and> list_all (\<lambda>c. length (cName c) \<le> 65535) cs"

lemma encodeChanges_ok: "(\<exists>p. encodeChanges cs = Inr p) \<longleftrightarrow> list_all (\<lambda>c. length (cName c) \<le> 65535) cs"
  by (induction cs) (auto split: sum.splits)

lemma decode_encode_changes: "encodeChanges cs = Inr p \<Longrightarrow> decodeChanges (length cs) p = Inr cs"
proof (induction cs arbitrary: p)
  case (Cons c cs)
  then obtain rest where rest: "encodeChanges cs = Inr rest" "length (cName c) \<le> 65535"
    by (auto split: if_splits sum.splits)
  have "unat (of_nat (length (cName c)) :: u16) = length (cName c)" using rest(2) by (simp add: unat_of_nat)
  with Cons rest show ?case by (auto simp: changeHead_def Let_def)
qed simp

lemma take_take_drop: "take m p @ take n (drop m p) = take (m + n) p"
  by (simp add: take_add)

lemma change_bytes:
  assumes "34 \<le> length p"
  shows "putUint 8 (cFRN (changeHead p)) @ putUint 8 (cParentFRN (changeHead p)) @ putUint 8 (cUSN (changeHead p)) @
    putUint 4 (cReason (changeHead p)) @ putUint 4 (cAttr (changeHead p)) @ putUint 2 (getUint (take 2 (drop 32 p)) :: u16) = take 34 p"
proof -
  have "take 8 p @ take 8 (drop 8 p) @ take 8 (drop 16 p) @ take 4 (drop 24 p) @ take 4 (drop 28 p) @ take 2 (drop 32 p) = take 34 p"
    using take_take_drop [of 8 p 8] take_take_drop [of 16 p 8] take_take_drop [of 24 p 4] take_take_drop [of 28 p 4]
      take_take_drop [of 32 p 2] by (simp flip: append_assoc)
  then show ?thesis using assms by (simp add: changeHead_def del: putUint.simps)
qed

lemma encode_decode_changes: "decodeChanges n p = Inr cs \<Longrightarrow> length cs = n \<and> encodeChanges cs = Inr p"
proof (induction n p arbitrary: cs rule: decodeChanges.induct)
  case (1 p)
  then show ?case by (simp split: if_splits)
next
  case (2 n p)
  let ?len = "getUint (take 2 (drop 32 p)) :: u16" and ?q = "drop 34 p"
  from 2(2) obtain ds where len: "34 \<le> length p" "unat ?len \<le> length ?q"
    and ds: "decodeChanges n (drop (unat ?len) ?q) = Inr ds"
    and cs: "cs = (changeHead p)\<lparr>cName := bytesStr (take (unat ?len) ?q)\<rparr> # ds"
    by (auto simp: Let_def not_less split: if_splits sum.splits)
  have IH: "length ds = n" "encodeChanges ds = Inr (drop (unat ?len) ?q)"
    using 2(1) [OF _ refl refl _ ds] len by auto
  have short: "unat ?len \<le> 65535" using unsigned_less [of ?len, where ?'a = nat] by simp
  have "take 34 p @ take (unat ?len) ?q @ drop (unat ?len) ?q = p" by (simp only: append_take_drop_id)
  with change_bytes [OF len(1)] IH short len(2) show ?case
    by (simp add: cs min_absorb2 del: putUint.simps flip: append_assoc)
qed

lemma encode_decode_batch:
  "decodeBinaryWALBatch payload = Inr b \<longleftrightarrow>
   encodeBinaryWALBatch (NextUSN b) (Changes b) = Inr payload \<and> length (Changes b) < 2 ^ 32"
proof
  assume "decodeBinaryWALBatch payload = Inr b"
  then obtain cs where p: "12 \<le> length payload"
    "decodeChanges (unat (getUint (take 4 (drop 8 payload)) :: u32)) (drop 12 payload) = Inr cs"
    and b: "b = \<lparr>NextUSN = getUint (take 8 payload), Changes = cs\<rparr>"
    by (auto simp: decodeBinaryWALBatch_def not_less split: if_splits sum.splits)
  note cs = encode_decode_changes [OF p(2)]
  have "take 8 payload @ take 4 (drop 8 payload) @ drop 12 payload = payload"
    using take_take_drop [of 8 payload 4] by (simp flip: append_assoc)
  with p cs show "encodeBinaryWALBatch (NextUSN b) (Changes b) = Inr payload \<and> length (Changes b) < 2 ^ 32"
    using unsigned_less [of "getUint (take 4 (drop 8 payload)) :: u32", where ?'a = nat]
    by (simp add: encodeBinaryWALBatch_def b del: putUint.simps)
next
  assume "encodeBinaryWALBatch (NextUSN b) (Changes b) = Inr payload \<and> length (Changes b) < 2 ^ 32"
  then show "decodeBinaryWALBatch payload = Inr b"
    using decode_encode_changes [of "Changes b"]
    by (auto simp: encodeBinaryWALBatch_def decodeBinaryWALBatch_def unat_of_nat_u32 split: sum.splits simp del: putUint.simps)
qed

section \<open>Frames\<close>

definition walFrame :: "bytes \<Rightarrow> bytes" where
  "walFrame payload = putUint 4 (of_nat (length payload) :: u32) @ putUint 4 (checksumIEEE payload) @ payload"

definition payloadOf :: "walBatch \<Rightarrow> bytes" where
  "payloadOf b = (case encodeBinaryWALBatch (NextUSN b) (Changes b) of Inl e \<Rightarrow> [] | Inr p \<Rightarrow> p)"

definition frameOf :: "walBatch \<Rightarrow> bytes" where
  "frameOf b = walFrame (payloadOf b)"

text \<open>The batches the readers accept: encodable, and of at most 64 MiB.\<close>

definition loggable :: "walBatch \<Rightarrow> bool" where
  "loggable b \<longleftrightarrow> encodable (Changes b) \<and> length (payloadOf b) \<le> 64 * 1024 * 1024"

lemma encodable_payload: "encodable (Changes b) \<Longrightarrow> encodeBinaryWALBatch (NextUSN b) (Changes b) = Inr (payloadOf b)"
  using encodeChanges_ok [of "Changes b"] by (auto simp: payloadOf_def encodable_def encodeBinaryWALBatch_def)

lemma decode_payload: "encodable (Changes b) \<Longrightarrow> decodeBinaryWALBatch (payloadOf b) = Inr b"
  using encodable_payload [of b] encode_decode_batch [of "payloadOf b" b] by (simp add: encodable_def)

lemma length_payload: "encodable (Changes b) \<Longrightarrow> 12 \<le> length (payloadOf b)"
  using decode_payload [of b] by (auto simp: decodeBinaryWALBatch_def not_less split: if_splits)

text \<open>The header of a payload that fits, and what the readers make of the bytes behind it.\<close>

definition framed :: "bytes \<Rightarrow> bool" where
  "framed payload \<longleftrightarrow> payload \<noteq> [] \<and> length payload \<le> 64 * 1024 * 1024"

lemma frame_header:
  fixes crc :: u32
  assumes "framed payload"
  defines "h \<equiv> putUint 4 (of_nat (length payload) :: u32) @ putUint 4 crc"
  shows "readFull 8 (h @ r) = Inr (h, r)"
    "frameBody h r = (case readFull (length payload) r of Inl e \<Rightarrow> Inl e | Inr (p, rest) \<Rightarrow>
       if checksumIEEE p \<noteq> crc then Inl CrcMismatch
       else case decodeBinaryWALBatch p of Inl e \<Rightarrow> Inl e | Inr batch \<Rightarrow> Inr (batch, rest))"
proof -
  let ?n = "of_nat (length payload) :: u32"
  have n: "unat ?n = length payload" using assms(1) by (intro unat_of_nat_u32) (simp add: framed_def)
  then have "?n \<noteq> 0" "\<not> ?n > maxFrame"
    using assms(1) by (auto simp: framed_def maxFrame_def word_less_nat_alt)
  with n show "frameBody h r = (case readFull (length payload) r of Inl e \<Rightarrow> Inl e | Inr (p, rest) \<Rightarrow>
       if checksumIEEE p \<noteq> crc then Inl CrcMismatch
       else case decodeBinaryWALBatch p of Inl e \<Rightarrow> Inl e | Inr batch \<Rightarrow> Inr (batch, rest))"
    by (simp add: frameBody_def h_def Let_def del: putUint.simps)
qed (simp add: readFull_def h_def del: putUint.simps)

lemma loggable_framed: "loggable b \<Longrightarrow> framed (payloadOf b)"
  using length_payload [of b] by (auto simp: loggable_def framed_def)

lemma frame_read:
  assumes "loggable b"
  obtains h r where "readFull 8 (frameOf b @ rest) = Inr (h, r)" "frameBody h r = Inr (b, rest)"
proof -
  let ?p = "payloadOf b"
  note f = frame_header [OF loggable_framed [OF assms]]
  have "readFull (length ?p) (?p @ rest) = Inr (?p, rest)" by (simp add: readFull_def)
  then have "frameBody (putUint 4 (of_nat (length ?p) :: u32) @ putUint 4 (checksumIEEE ?p)) (?p @ rest) = Inr (b, rest)"
    using f(2) decode_payload [of b] assms by (simp add: loggable_def)
  moreover have "readFull 8 (frameOf b @ rest) = Inr (putUint 4 (of_nat (length ?p) :: u32) @ putUint 4 (checksumIEEE ?p), ?p @ rest)"
    using f(1) [of "checksumIEEE ?p" "?p @ rest"] by (simp only: frameOf_def walFrame_def append_assoc)
  ultimately show ?thesis using that by blast
qed

text \<open>What either reader decodes is loggable.\<close>

lemma frameBody_loggable:
  assumes "frameBody h r = Inr (b, rest)"
  shows "loggable b"
proof -
  obtain p where p: "readFull (unat (getUint (take 4 h) :: u32)) r = Inr (p, rest)" "\<not> (getUint (take 4 h) :: u32) > maxFrame"
    and d: "decodeBinaryWALBatch p = Inr b"
    using assms by (auto simp: frameBody_def Let_def split: if_splits sum.splits)
  have e: "encodeBinaryWALBatch (NextUSN b) (Changes b) = Inr p" "length (Changes b) < 2 ^ 32"
    using d by (simp_all add: encode_decode_batch)
  then have "encodable (Changes b)" "payloadOf b = p"
    using encodeChanges_ok [of "Changes b"]
    by (auto simp: encodable_def payloadOf_def encodeBinaryWALBatch_def split: sum.splits)
  moreover have "length p \<le> 64 * 1024 * 1024"
    using p by (auto simp: readFull_def maxFrame_def word_less_nat_alt split: if_splits)
  ultimately show ?thesis by (simp add: loggable_def)
qed

section \<open>Any loop over the frames of a log\<close>

text \<open>
  The two readers share one shape: read a header, check and decode the frame, pass the batch to a step, and
  stop on an error, which may be treated differently when it struck the header.
\<close>

locale frame_loop =
  fixes loop :: "bytes \<Rightarrow> 's \<Rightarrow> 'r" and step :: "'s \<Rightarrow> walBatch \<Rightarrow> 's" and stop :: "bool \<Rightarrow> walError \<Rightarrow> 's \<Rightarrow> 'r"
  assumes unfold_loop: "loop r s = (case readFull 8 r of
      Inl e \<Rightarrow> stop True e s
    | Inr (h, r1) \<Rightarrow> (case frameBody h r1 of Inl e \<Rightarrow> stop False e s | Inr (b, r2) \<Rightarrow> loop r2 (step s b)))"
begin

lemma loop_frame: "loggable b \<Longrightarrow> loop (frameOf b @ rest) s = loop rest (step s b)"
  by (subst unfold_loop) (auto elim!: frame_read [of b rest])

lemma loop_frames: "list_all loggable bs \<Longrightarrow> loop (concat (map frameOf bs) @ rest) s = loop rest (foldl step s bs)"
  by (induction bs arbitrary: s) (simp_all add: loop_frame)

lemma loop_end: "loop [] s = stop True EOF s"
  by (subst unfold_loop) (simp add: readFull_def)

text \<open>A frame cut short stops the loop with what came before it.\<close>

lemma loop_torn:
  assumes "loggable b" "k < length (frameOf b)"
  shows "loop (take k (frameOf b)) s =
    (if k < 8 then stop True (if k = 0 then EOF else UnexpectedEOF) s
     else stop False (if k = 8 then EOF else UnexpectedEOF) s)"
proof (cases "k < 8")
  case True
  with assms(2) have "readFull 8 (take k (frameOf b)) = Inl (if k = 0 then EOF else UnexpectedEOF)"
    by (auto simp: readFull_def)
  with True show ?thesis by (subst unfold_loop) simp
next
  case False
  let ?p = "payloadOf b" and ?crc = "checksumIEEE (payloadOf b)"
  let ?h = "putUint 4 (of_nat (length ?p) :: u32) @ putUint 4 ?crc"
  note f = frame_header [OF loggable_framed [OF assms(1)], of ?crc]
  have k: "take k (frameOf b) = ?h @ take (k - 8) ?p" "k - 8 < length ?p"
    using False assms(2) by (simp_all add: frameOf_def walFrame_def del: putUint.simps)
  have "readFull (length ?p) (take (k - 8) ?p) = Inl (if k = 8 then EOF else UnexpectedEOF)"
    using k(2) False by (auto simp: readFull_def)
  then show ?thesis using False f(1) [of "take (k - 8) ?p"] f(2) [of "take (k - 8) ?p"]
    by (subst unfold_loop) (simp add: k(1) del: putUint.simps append_assoc)
qed

text \<open>A payload of the right length and another checksum stops the loop.\<close>

lemma loop_damaged:
  assumes "framed p" "length p' = length p" "checksumIEEE p' \<noteq> checksumIEEE p"
  shows "loop (putUint 4 (of_nat (length p) :: u32) @ putUint 4 (checksumIEEE p) @ p' @ rest) s = stop False CrcMismatch s"
proof -
  note f = frame_header [OF assms(1), of "checksumIEEE p" "p' @ rest"]
  have "readFull (length p) (p' @ rest) = Inr (p', rest)" using assms(2) by (simp add: readFull_def)
  with f assms(3) show ?thesis by (subst unfold_loop) (simp del: putUint.simps)
qed

end

definition replayStep :: "u64 \<times> walBatch list \<Rightarrow> walBatch \<Rightarrow> u64 \<times> walBatch list" where
  "replayStep s batch = (case s of (c, applied) \<Rightarrow>
    if sint (NextUSN batch) \<le> sint c then s else (NextUSN batch, applied @ [batch]))"

interpretation replay: frame_loop "\<lambda>r (c, applied). replayBinaryWAL r c applied" replayStep
  "\<lambda>header e (c, applied). (applied, c, if header \<and> (e = EOF \<or> e = UnexpectedEOF \<and> applied = []) then None else Some e)"
  by unfold_locales
    (auto simp: replayStep_def replayBinaryWAL.simps [of "_ :: bytes"] split: prod.split sum.split)

interpretation frames: frame_loop "\<lambda>r (c, fs). framesAfterLoop r c fs"
  "\<lambda>(c, fs) batch. (c, if sint (NextUSN batch) \<le> sint c then fs else fs @ [batch])"
  "\<lambda>header e (c, fs). (fs, if header \<and> (e = EOF \<or> e = UnexpectedEOF) then None else Some e)"
  by unfold_locales (auto simp: framesAfterLoop.simps [of "_ :: bytes"] split: prod.split sum.split)

section \<open>The checksum sees every damaged byte\<close>

lemma crcBit_low: "bit (crcBit s) 31 \<longleftrightarrow> bit s 0"
  by (auto simp: crcBit_def bit_simps dest: bit_imp_le_length)

lemma crcBit_inj: "inj crcBit"
proof (rule injI)
  fix s t assume eq: "crcBit s = crcBit t"
  then have low: "bit s 0 \<longleftrightarrow> bit t 0" by (metis crcBit_low)
  have "(w XOR v) XOR v = w" for v w :: u32 by (simp add: xor.assoc)
  with eq low have d: "drop_bit 1 s = drop_bit 1 t" unfolding crcBit_def by (metis (full_types))
  have "bit s k \<longleftrightarrow> bit t k" for k
  proof (cases k)
    case (Suc m)
    have "bit (drop_bit 1 s) m \<longleftrightarrow> bit (drop_bit 1 t) m" using d by simp
    then show ?thesis by (simp add: Suc bit_drop_bit_eq)
  qed (simp add: low)
  then show "s = t" by (simp add: bit_eq_iff)
qed

lemma crcByte_eq: "crcByte s b = crcByte t c \<longleftrightarrow> s XOR ucast b = t XOR ucast c"
  unfolding crcByte_def by (rule inj_eq [OF inj_fn [OF crcBit_inj]])

lemma xor_cancel: "x XOR z = y XOR z \<longleftrightarrow> x = y" for x y z :: u32
  by (auto simp: bit_eq_iff bit_xor_iff)

lemma crc_fold_inj: "foldl crcByte s p = foldl crcByte t p \<longleftrightarrow> s = t"
  by (induction p arbitrary: s t) (simp_all add: crcByte_eq xor_cancel)

lemma ucast_u8_inj: "(ucast b :: u32) = ucast c \<longleftrightarrow> b = c" for b c :: u8
proof
  assume "(ucast b :: u32) = ucast c"
  moreover have "(ucast (ucast x :: u32) :: u8) = x" for x by (rule bit_word_eqI) (simp add: bit_simps)
  ultimately show "b = c" by metis
qed simp

lemma checksum_sees_byte:
  assumes "k < length p" "x \<noteq> p ! k"
  shows "checksumIEEE (p[k := x]) \<noteq> checksumIEEE p"
proof
  let ?s = "foldl crcByte (NOT 0) (take k p)"
  assume "checksumIEEE (p[k := x]) = checksumIEEE p"
  then have eq: "foldl crcByte (NOT 0) (p[k := x]) = foldl crcByte (NOT 0) p"
    unfolding checksumIEEE_def by (metis bit.double_compl)
  have p: "p = take k p @ p ! k # drop (Suc k) p" "p[k := x] = take k p @ x # drop (Suc k) p"
    using assms(1) by (simp_all add: id_take_nth_drop upd_conv_take_nth_drop)
  have "crcByte ?s x = crcByte ?s (p ! k)"
    using eq unfolding p(2) by (subst (asm) (3) p(1)) (simp add: crc_fold_inj)
  then have "x = p ! k" by (metis crcByte_eq xor.commute xor_cancel ucast_u8_inj)
  with assms(2) show False by simp
qed

section \<open>Writing and reading back\<close>

lemma appendBinaryWALFrame_frame:
  "encodable (Changes b) \<Longrightarrow>
   appendBinaryWALFrame f (NextUSN b) (Changes b) = ((if f = [] then walMagicV1 else f) @ frameOf b, None)"
  by (simp add: appendBinaryWALFrame_def encodable_payload frameOf_def walFrame_def del: putUint.simps)

lemma walMagic_nonempty: "walMagicV1 \<noteq> []"
  by (simp add: walMagicV1_def strBytes_def)

lemma writeFrames_all:
  "list_all loggable bs \<Longrightarrow> f \<noteq> [] \<Longrightarrow> writeFrames f bs = (f @ concat (map frameOf bs), None)"
  by (induction bs arbitrary: f) (simp_all add: appendBinaryWALFrame_frame loggable_def)

text \<open>The log after appending batches one by one.\<close>

definition appendAll :: "bytes option \<Rightarrow> walBatch list \<Rightarrow> bytes option" where
  "appendAll file bs = foldl (\<lambda>f b. fst (appendWAL f (NextUSN b) (Changes b))) file bs"

definition logBytes :: "walBatch list \<Rightarrow> bytes" where
  "logBytes bs = walMagicV1 @ concat (map frameOf bs)"

lemma appendAll_log:
  assumes "list_all (\<lambda>b. loggable b \<and> Changes b \<noteq> []) cs"
  shows "appendAll (Some (logBytes bs)) cs = Some (logBytes (bs @ cs))"
  using assms
proof (induction cs arbitrary: bs)
  case (Cons c cs)
  have "fst (appendWAL (Some (logBytes bs)) (NextUSN c) (Changes c)) = Some (logBytes (bs @ [c]))"
    using Cons.prems walMagic_nonempty
    by (simp add: appendWAL_def appendBinaryWALFrame_frame loggable_def logBytes_def)
  with Cons show ?case by (simp add: appendAll_def)
qed (simp add: appendAll_def)

lemma appendAll_new:
  assumes "list_all (\<lambda>b. loggable b \<and> Changes b \<noteq> []) cs" "cs \<noteq> []"
  shows "appendAll None cs = Some (logBytes cs)"
proof (cases cs)
  case (Cons c ds)
  have "fst (appendWAL None (NextUSN c) (Changes c)) = Some (logBytes [c])"
    using assms(1) Cons by (simp add: appendWAL_def appendBinaryWALFrame_frame loggable_def logBytes_def)
  then have "appendAll None cs = appendAll (Some (logBytes [c])) ds" by (simp add: appendAll_def Cons)
  then show ?thesis using appendAll_log [of ds "[c]"] assms(1) Cons by simp
qed (use assms in simp)

lemma framesAfter_fold:
  "foldl (\<lambda>(c, fs) batch. (c, if sint (NextUSN batch) \<le> sint c then fs else fs @ [batch])) (c, fs) bs =
   (c, fs @ filter (\<lambda>b. sint c < sint (NextUSN b)) bs)"
  by (induction bs arbitrary: fs) (auto simp: not_le)

lemma replay_fold: "foldl replayStep (c, applied) bs = (case replayBatches bs c applied of (a, c') \<Rightarrow> (c', a))"
  by (induction bs arbitrary: c applied) (auto simp: replayStep_def)

lemma framesAfterLoop_log:
  "list_all loggable bs \<Longrightarrow>
   framesAfterLoop (concat (map frameOf bs) @ rest) c [] = framesAfterLoop rest c (filter (\<lambda>b. sint c < sint (NextUSN b)) bs)"
  using frames.loop_frames [of bs rest "(c, [])"] by (simp add: framesAfter_fold)

lemma replayBinaryWAL_log:
  "list_all loggable bs \<Longrightarrow> replayBatches bs c [] = (applied, c') \<Longrightarrow>
   replayBinaryWAL (concat (map frameOf bs) @ rest) c [] = replayBinaryWAL rest c' applied"
  using replay.loop_frames [of bs rest "(c, [])"] by (simp add: replay_fold)

text \<open>Batches with growing numbers are all past the checkpoint or not applied.\<close>

lemma replayBatches_ascending:
  assumes "sorted_wrt (\<lambda>a b. sint (NextUSN a) < sint (NextUSN b)) bs"
  shows "fst (replayBatches bs c applied) = applied @ filter (\<lambda>b. sint c < sint (NextUSN b)) bs"
  using assms
proof (induction bs arbitrary: c applied)
  case (Cons b bs)
  have "filter (\<lambda>d. sint (NextUSN b) < sint (NextUSN d)) bs = filter (\<lambda>d. sint c < sint (NextUSN d)) bs" if "sint c < sint (NextUSN b)"
    using Cons.prems that by (intro filter_cong refl) auto
  with Cons show ?case by (auto simp: not_le)
qed simp

lemma replayBatches_checkpoint:
  "replayBatches bs c applied = (a, c') \<Longrightarrow>
   \<exists>new. a = applied @ new \<and> c' = (if new = [] then c else NextUSN (last new))"
proof (induction bs arbitrary: c applied)
  case (Cons b bs)
  show ?case
  proof (cases "sint (NextUSN b) \<le> sint c")
    case False
    then obtain new where "a = (applied @ [b]) @ new" "c' = (if new = [] then NextUSN b else NextUSN (last new))"
      using Cons by fastforce
    then show ?thesis by (intro exI [of _ "b # new"]) auto
  qed (use Cons in auto)
qed simp

lemma framesAfterLoop_loggable: "list_all loggable fs \<Longrightarrow> list_all loggable (fst (framesAfterLoop r c fs))"
proof (induction r c fs rule: framesAfterLoop.induct)
  case (1 r c fs)
  show ?case
  proof (cases "readFull 8 r")
    case (Inr hr)
    obtain h r1 where hr: "hr = (h, r1)" by (cases hr)
    show ?thesis
    proof (cases "frameBody h r1")
      case ok: (Inr br)
      obtain b r2 where br: "br = (b, r2)" by (cases br)
      have "loggable b" using ok br frameBody_loggable by simp
      with 1 Inr hr ok br show ?thesis by (subst framesAfterLoop.simps) simp
    qed (use 1 Inr hr in \<open>simp add: framesAfterLoop.simps [of r]\<close>)
  qed (use 1 in \<open>simp add: framesAfterLoop.simps [of r]\<close>)
qed

lemma readWALFramesAfter_loggable: "list_all loggable (fst (readWALFramesAfter file c))"
  using framesAfterLoop_loggable [of "[]"] by (auto simp: readWALFramesAfter_def split: option.split)

section \<open>Properties\<close>

definition exampleBatch :: walBatch where
  "exampleBatch = \<lparr>NextUSN = 5, Changes = [\<lparr>cFRN = 7, cParentFRN = 5, cUSN = 3, cReason = 0x100, cAttr = 0x20, cName = ''a''\<rparr>]\<rparr>"

lemma example_loggable: "loggable exampleBatch" "Changes exampleBatch \<noteq> []" "NextUSN exampleBatch = 5"
  "length (payloadOf exampleBatch) = 47"
  by (simp_all add: loggable_def encodable_def payloadOf_def encodeBinaryWALBatch_def exampleBatch_def del: putUint.simps)

text \<open>C23: the batch decoder accepts exactly the bytes the encoder writes, and returns the batch they encode.\<close>

theorem wal_batch_codec_exact:
  "decodeBinaryWALBatch payload = Inr b \<longleftrightarrow>
   encodeBinaryWALBatch (NextUSN b) (Changes b) = Inr payload \<and> length (Changes b) < 2 ^ 32"
  by (rule encode_decode_batch)

text \<open>C22: a log built by appending batches to an absent file yields, on replay, every batch past the checkpoint,
  in order and without an error, and the reader of frames the same; the volume's checkpoint moves to the last
  batch applied.\<close>

theorem wal_replay_exact:
  fixes c :: u64
  assumes "list_all (\<lambda>b. loggable b \<and> Changes b \<noteq> []) bs" "bs \<noteq> []"
    "sorted_wrt (\<lambda>a b. sint (NextUSN a) < sint (NextUSN b)) bs"
  defines "file \<equiv> appendAll None bs" and "later \<equiv> filter (\<lambda>b. sint c < sint (NextUSN b)) bs"
  shows "replayWALWithLimit decodeJSON 0 file c = (later, if later = [] then c else NextUSN (last later), None) \<and>
    readWALFramesAfter file c = (later, None)"
proof -
  have good: "list_all loggable bs" using assms(1) by (auto simp: list_all_iff)
  have log: "file = Some (logBytes bs)" unfolding file_def by (rule appendAll_new [OF assms(1,2)])
  obtain applied c' where r: "replayBatches bs c [] = (applied, c')" by fastforce
  have "applied = later" using replayBatches_ascending [OF assms(3), of c "[]"] r by (simp add: later_def)
  moreover have "c' = (if applied = [] then c else NextUSN (last applied))"
    using replayBatches_checkpoint [OF r] by auto
  moreover have "replayBinaryWAL (concat (map frameOf bs)) c [] = replayBinaryWAL [] c' applied"
    using replayBinaryWAL_log [OF good r, of "[]"] by simp
  moreover have "framesAfterLoop (concat (map frameOf bs)) c [] = framesAfterLoop [] c later"
    using framesAfterLoop_log [OF good, of "[]" c] by (simp add: later_def)
  ultimately show ?thesis using replay.loop_end [of "(c', applied)"] frames.loop_end [of "(c, later)"]
    by (simp add: log replayWALWithLimit_def readWALFramesAfter_def logBytes_def)
qed

theorem wal_replay_exact_witness:
  "replayWALWithLimit (\<lambda>bs. ([], Some JSONError)) 0 (appendAll None [exampleBatch]) 2 = ([exampleBatch], 5, None)"
  using wal_replay_exact [of "[exampleBatch]" "\<lambda>bs. ([], Some JSONError)" 2] example_loggable by simp

text \<open>C24: a log whose last frame was cut short yields every whole frame before it; the frame reader reports an error
  only when the cut is behind the header.\<close>

theorem wal_torn_tail:
  fixes c :: u64
  assumes "list_all loggable bs" "loggable b" "k < length (frameOf b)"
  defines "file \<equiv> Some (logBytes bs @ take k (frameOf b))" and "err \<equiv> Some (if k = 8 then EOF else UnexpectedEOF)"
  shows "readWALFramesAfter file c = (filter (\<lambda>b. sint c < sint (NextUSN b)) bs, if k < 8 then None else err) \<and>
    replayWALWithLimit decodeJSON 0 file c =
      (case replayBatches bs c [] of (applied, c') \<Rightarrow>
        (applied, c', if k = 0 \<or> k < 8 \<and> applied = [] then None else err))"
proof -
  obtain applied c' where r: "replayBatches bs c [] = (applied, c')" by fastforce
  show ?thesis
    using framesAfterLoop_log [OF assms(1), of "take k (frameOf b)" c] replayBinaryWAL_log [OF assms(1) r, of "take k (frameOf b)"]
      frames.loop_torn [OF assms(2,3), of "(c, filter (\<lambda>b. sint c < sint (NextUSN b)) bs)"]
      replay.loop_torn [OF assms(2,3), of "(c', applied)"] r
    by (simp add: file_def err_def readWALFramesAfter_def replayWALWithLimit_def logBytes_def)
qed

theorem wal_torn_tail_witness:
  "readWALFramesAfter (Some (logBytes [exampleBatch] @ take 20 (frameOf exampleBatch))) 2 = ([exampleBatch], Some UnexpectedEOF)"
  using wal_torn_tail [of "[exampleBatch]" exampleBatch 20 2] example_loggable
  by (simp add: frameOf_def walFrame_def del: putUint.simps)

text \<open>folding the log into the index keeps the batches that were readable: the log rewritten with the frames
  read from any file, damaged or not, yields exactly those frames, without an error.\<close>

theorem wal_compaction_keeps_frames:
  "let frames = fst (readWALFramesAfter file foldCheckpoint); (file', err) = rewriteWAL file frames
   in err = None \<and> readWALFramesAfter file' c = (filter (\<lambda>b. sint c < sint (NextUSN b)) frames, None) \<and>
      replayWALWithLimit decodeJSON 0 file' c = (case replayBatches frames c [] of (applied, c') \<Rightarrow> (applied, c', None))"
proof -
  define fs where "fs = fst (readWALFramesAfter file foldCheckpoint)"
  have good: "list_all loggable fs" unfolding fs_def by (rule readWALFramesAfter_loggable)
  have log: "rewriteWAL file fs = (Some (logBytes fs), None)"
    using writeFrames_all [OF good walMagic_nonempty] by (simp add: rewriteWAL_def logBytes_def)
  obtain applied c' where r: "replayBatches fs c [] = (applied, c')" by fastforce
  show ?thesis
    using framesAfterLoop_log [OF good, of "[]" c] replayBinaryWAL_log [OF good r, of "[]"] r
      frames.loop_end [of "(c, filter (\<lambda>b. sint c < sint (NextUSN b)) fs)"] replay.loop_end [of "(c', applied)"]
    unfolding Let_def fs_def [symmetric] log prod.case
    by (simp add: readWALFramesAfter_def replayWALWithLimit_def logBytes_def)
qed

text \<open>C25: changing any one byte of a frame's payload is detected: both readers stop at that frame with a checksum
  error and yield the frames before it.\<close>

theorem wal_damage_detected:
  fixes c :: u64 and rest :: bytes
  assumes "list_all loggable bs" "loggable b" "k < length (payloadOf b)" "x \<noteq> payloadOf b ! k"
  defines "file \<equiv> Some (logBytes bs @ take 8 (frameOf b) @ (payloadOf b)[k := x] @ rest)"
  shows "readWALFramesAfter file c = (filter (\<lambda>b. sint c < sint (NextUSN b)) bs, Some CrcMismatch) \<and>
    replayWALWithLimit decodeJSON 0 file c =
      (case replayBatches bs c [] of (applied, c') \<Rightarrow> (applied, c', Some CrcMismatch))"
proof -
  obtain applied c' where r: "replayBatches bs c [] = (applied, c')" by fastforce
  let ?p = "payloadOf b" and ?p' = "(payloadOf b)[k := x]"
  let ?d = "putUint 4 (of_nat (length ?p) :: u32) @ putUint 4 (checksumIEEE ?p) @ ?p' @ rest"
  have log: "file = Some (logBytes bs @ ?d)"
    by (simp add: file_def frameOf_def walFrame_def del: putUint.simps)
  have bad: "framed ?p" "length ?p' = length ?p" "checksumIEEE ?p' \<noteq> checksumIEEE ?p"
    using assms loggable_framed checksum_sees_byte by simp_all
  show ?thesis
    using framesAfterLoop_log [OF assms(1), of ?d c] replayBinaryWAL_log [OF assms(1) r, of ?d] r
      frames.loop_damaged [OF bad, of rest "(c, filter (\<lambda>b. sint c < sint (NextUSN b)) bs)"]
      replay.loop_damaged [OF bad, of rest "(c', applied)"]
    by (simp add: log readWALFramesAfter_def replayWALWithLimit_def logBytes_def del: putUint.simps)
qed

theorem wal_damage_detected_witness:
  "readWALFramesAfter (Some (logBytes [exampleBatch] @ take 8 (frameOf exampleBatch) @
     (payloadOf exampleBatch)[0 := 6] @ [])) 2 = ([exampleBatch], Some CrcMismatch)"
proof -
  have "payloadOf exampleBatch ! 0 = 5"
    by (simp add: payloadOf_def encodeBinaryWALBatch_def exampleBatch_def nth_append putUint_first del: putUint.simps)
  then show ?thesis using wal_damage_detected [of "[exampleBatch]" exampleBatch 0 6 "[]" 2] example_loggable by simp
qed

text \<open>a log whose only frame lost its header but for some bytes is replayed without an error, so it stays in
  place; a batch appended behind those bytes can then not be read back.\<close>

theorem wal_torn_header_hides_later_frames:
  "let torn = Some (walMagicV1 @ [47]) in
   replayWALWithLimit (\<lambda>bs. ([], Some JSONError)) 0 torn 2 = ([], 2, None) \<and>
   fst (readWALFramesAfter (fst (appendWAL torn (NextUSN exampleBatch) (Changes exampleBatch))) 2) = []"
proof -
  let ?p = "payloadOf exampleBatch" and ?torn = "walMagicV1 @ [47]"
  define r where "r = 47 # frameOf exampleBatch"
  have len: "putUint 4 (47 :: u32) = [47, 0, 0, 0]" by (simp add: putUint_four)
  have r: "r = [47, 47, 0, 0] @ 0 # putUint 4 (checksumIEEE ?p) @ ?p" "length r = 56"
    using example_loggable(4) by (simp_all add: r_def frameOf_def walFrame_def len del: putUint.simps)
  have "getUint (take 4 (take 8 r)) = (12079 :: u32)" unfolding r(1) by simp
  then have "frameBody (take 8 r) (drop 8 r) = Inl UnexpectedEOF"
    using r(2) by (simp add: frameBody_def Let_def maxFrame_def readFull_def)
  then have "fst (framesAfterLoop r 2 []) = []"
    using r(2) by (simp add: framesAfterLoop.simps [of r] readFull_def)
  moreover have "fst (appendWAL (Some ?torn) (NextUSN exampleBatch) (Changes exampleBatch)) = Some (walMagicV1 @ r)"
    using example_loggable(1,2) by (simp add: appendWAL_def appendBinaryWALFrame_frame loggable_def r_def)
  moreover have "replayBinaryWAL [47] 2 [] = ([], 2, None)" by (simp add: replayBinaryWAL.simps readFull_def)
  ultimately show ?thesis by (simp add: Let_def replayWALWithLimit_def readWALFramesAfter_def)
qed

end
