(* ===== verification/PostingSection.thy ===== *)
theory PostingSection
  imports ByteOrder Trigrams
begin

text \<open>
  The gram posting section of an index file: its writer (\<open>index_format.go\<close>: \<open>encodeGramPostingSectionWithMetadata\<close>,
  \<open>appendPostingBlocks\<close>, \<open>writePostingBlockMetas\<close>, \<open>trigramPostingIDs\<close>) and its memory-mapped reader
  (\<open>index_mmap.go\<close>: \<open>gramPostingIterator\<close>, \<open>blockMetaAt\<close>, \<open>decodePostingBlock\<close>, \<open>nextBlock\<close>, \<open>containsID\<close>,
  \<open>gramPosting\<close>; \<open>postings.go\<close>: \<open>materializePostingBlockIterator\<close>).

  A posting is cut into blocks of 1024 record numbers, each delta-encoded and described by 28 bytes of metadata.
  Offsets are natural numbers: they are sums of 32-bit fields times small constants, so the code's overflow checks on
  64-bit integers never fire and are left out. The block cache in front of the decoder is the theory \<open>PostingCache\<close>.

  Reading a gram of a written section returns its posting, and the membership test agrees with it while decoding at most
  one block.
\<close>

section \<open>Writing\<close>

record postingBlockMeta =
  mOffset :: u64
  mLength :: u32
  mCount :: u32
  mMinID :: u32
  mMaxID :: u32
  mMinRank :: u32

record gramPostingEntry =
  eKey :: u32
  eCount :: u32
  eFirstBlock :: u32
  eBlockCount :: u32

definition extRankOf :: "u32 \<Rightarrow> u32 list \<Rightarrow> u32" where
  "extRankOf rid ranks = (if unat rid \<ge> length ranks then rid else ranks ! unat rid)"

definition minRankOf :: "u32 list \<Rightarrow> u32 list \<Rightarrow> u32" where
  "minRankOf ranks chunk =
    (let m = foldl (\<lambda>m rid. let rank = extRankOf rid ranks in if rank < m then rank else m) (- 1) chunk
     in if m = - 1 then 0 else m)"

definition blockSize :: nat where
  "blockSize = 1024"

function chunksOf :: "'a list \<Rightarrow> 'a list list" where
  "chunksOf ids = (if ids = [] then [] else take blockSize ids # chunksOf (drop blockSize ids))"
  by pat_completeness auto
termination
  by (relation "measure length") (simp_all add: blockSize_def)

declare chunksOf.simps [simp del]

definition addBlock :: "u32 list \<Rightarrow> postingBlockMeta list \<times> bytes \<Rightarrow> u32 list \<Rightarrow> postingBlockMeta list \<times> bytes" where
  "addBlock ranks st chunk =
    (case st of (blocks, blob) \<Rightarrow>
      let encoded = encodeDeltaUvarint32 chunk
      in (blocks @ [\<lparr>mOffset = of_nat (length blob), mLength = of_nat (length encoded), mCount = of_nat (length chunk),
                     mMinID = hd chunk, mMaxID = last chunk, mMinRank = minRankOf ranks chunk\<rparr>],
          blob @ encoded))"

definition appendPostingBlocks :: "u32 list \<Rightarrow> u32 list \<Rightarrow> postingBlockMeta list \<times> bytes \<Rightarrow> postingBlockMeta list \<times> bytes" where
  "appendPostingBlocks ranks ids st = foldl (addBlock ranks) st (chunksOf ids)"

definition trigramPostingIDs :: "compressedTrigramIndex \<Rightarrow> u32 \<Rightarrow> u32 list" where
  "trigramPostingIDs ti gram =
    (let out = concat (map (\<lambda>seg. if count (postingForGram seg gram) = 0 then [] else segmentIds seg gram) (segments ti))
     in if out = [] then [] else uniqueSortedUint32s (sort out))"

definition addEntry :: "compressedTrigramIndex \<Rightarrow> u32 list \<Rightarrow> gramPostingEntry list \<times> postingBlockMeta list \<times> bytes \<Rightarrow> u32 \<Rightarrow>
    gramPostingEntry list \<times> postingBlockMeta list \<times> bytes" where
  "addEntry ti ranks st key =
    (case st of (entries, blocks, blob) \<Rightarrow>
      let ids = trigramPostingIDs ti key
      in if ids = [] then st
         else
           let (blocks', blob') = appendPostingBlocks ranks ids (blocks, blob)
           in (entries @ [\<lparr>eKey = key, eCount = of_nat (length ids), eFirstBlock = of_nat (length blocks),
                          eBlockCount = of_nat (length blocks') - of_nat (length blocks)\<rparr>], blocks', blob'))"

definition putEntry :: "gramPostingEntry \<Rightarrow> bytes" where
  "putEntry e = putUint 4 (eKey e) @ putUint 4 (eCount e) @ putUint 4 (eFirstBlock e) @ putUint 4 (eBlockCount e)"

definition putMeta :: "postingBlockMeta \<Rightarrow> bytes" where
  "putMeta b = putUint 8 (mOffset b) @ putUint 4 (mLength b) @ putUint 4 (mCount b) @ putUint 4 (mMinID b) @
     putUint 4 (mMaxID b) @ putUint 4 (mMinRank b)"

definition writePostingBlockMetas :: "postingBlockMeta list \<Rightarrow> bytes" where
  "writePostingBlockMetas blocks = concat (map putMeta blocks)"

definition omittedTail :: "compressedTrigramIndex \<Rightarrow> u32 \<Rightarrow> bytes" where
  "omittedTail ti metadataMagic =
    (if gramCountsComplete ti
     then putUint 4 metadataMagic @ putUint 4 (of_nat (length (omitted ti)) :: u32) @
       concat (map (\<lambda>gram. putUint 4 gram @ putUint 4 (of_nat (countForGram ti gram) :: u32)) (sort (omitted ti)))
     else [])"

definition encodeGramPostingSectionWithMetadata :: "compressedTrigramIndex \<Rightarrow> u32 list \<Rightarrow> u32 \<Rightarrow> bytes" where
  "encodeGramPostingSectionWithMetadata ti ranks metadataMagic =
    (let keys = sort (map fst (filter (\<lambda>(gram, n). n > 0) (countPairs ti)));
         (entries, blocks, blob) = foldl (addEntry ti ranks) ([], [], []) keys
     in if entries = [] \<and> omitted ti = [] then []
        else putUint 4 (of_nat (length entries) :: u32) @ putUint 4 (0 :: u32) @ putUint 4 (of_nat (length blocks) :: u32) @
          putUint 4 (of_nat (length blob) :: u32) @ concat (map putEntry entries) @ writePostingBlockMetas blocks @ blob @
          omittedTail ti metadataMagic)"

section \<open>Reading\<close>

record postingBlockIterator =
  pData :: bytes
  pNext :: nat
  pEnd :: nat
  pMetaStart :: nat
  pBlobStart :: nat
  pBlobLen :: nat

definition gramPostingIterator :: "bytes \<Rightarrow> u32 \<Rightarrow> (postingBlockIterator \<times> nat) option" where
  "gramPostingIterator dat gram =
    (if length dat < 16 then None
     else
       let entryCount = unat (uintAt 4 dat 0 :: u32); keyBlobLen = unat (uintAt 4 dat 4 :: u32);
           blockCount = unat (uintAt 4 dat 8 :: u32); blockBlobLen = unat (uintAt 4 dat 12 :: u32)
       in if entryCount = 0 \<or> keyBlobLen \<noteq> 0 \<or> 16 + entryCount * 16 > length dat then None
          else
            let metaStart = 16 + entryCount * 16; blobStart = metaStart + blockCount * 28
            in if blobStart > length dat \<or> blobStart + blockBlobLen > length dat then None
               else
                 let i = sortSearch entryCount (\<lambda>i. (uintAt 4 dat (16 + i * 16) :: u32) \<ge> gram); off = 16 + i * 16
                 in if i \<ge> entryCount \<or> (uintAt 4 dat off :: u32) \<noteq> gram then None
                    else
                      let n = unat (uintAt 4 dat (off + 4) :: u32); firstBlock = unat (uintAt 4 dat (off + 8) :: u32);
                          entryBlockCount = unat (uintAt 4 dat (off + 12) :: u32)
                      in if n = 0 \<or> entryBlockCount = 0 \<or> firstBlock + entryBlockCount > blockCount then None
                         else Some (\<lparr>pData = dat, pNext = firstBlock, pEnd = firstBlock + entryBlockCount,
                                     pMetaStart = metaStart, pBlobStart = blobStart, pBlobLen = blockBlobLen\<rparr>, n))"

definition blockMetaAt :: "postingBlockIterator \<Rightarrow> nat \<Rightarrow> postingBlockMeta option" where
  "blockMetaAt it k =
    (if k \<ge> pEnd it then None
     else
       let off = pMetaStart it + k * 28; dat = pData it
       in if off + 28 > length dat then None
          else Some \<lparr>mOffset = uintAt 8 dat off, mLength = uintAt 4 dat (off + 8), mCount = uintAt 4 dat (off + 12),
                     mMinID = uintAt 4 dat (off + 16), mMaxID = uintAt 4 dat (off + 20), mMinRank = uintAt 4 dat (off + 24)\<rparr>)"

text \<open>\<open>decodePostingBlock\<close> without its cache.\<close>

definition decodePostingBlock :: "bytes \<Rightarrow> nat \<Rightarrow> nat \<Rightarrow> nat \<Rightarrow> nat \<Rightarrow> u32 list option" where
  "decodePostingBlock dat k metaStart blobStart blobLen =
    (let off = metaStart + k * 28
     in if off + 28 > length dat then None
        else
          let blockOffset = unat (uintAt 8 dat off :: u64); blockLength = unat (uintAt 4 dat (off + 8) :: u32);
              n = unat (uintAt 4 dat (off + 12) :: u32)
          in if blockOffset + blockLength > blobLen then None
             else Some (decodeDeltaUvarint32 (take blockLength (drop (blobStart + blockOffset) dat)) n))"

definition blockAt :: "postingBlockIterator \<Rightarrow> nat \<Rightarrow> (u32 list \<times> postingBlockMeta) option" where
  "blockAt it k =
    (case blockMetaAt it k of
      None \<Rightarrow> None
    | Some b \<Rightarrow>
        map_option (\<lambda>ids. (ids, b)) (decodePostingBlock (pData it) k (pMetaStart it) (pBlobStart it) (pBlobLen it)))"

definition nextBlock :: "postingBlockIterator \<Rightarrow> (u32 list \<times> postingBlockMeta) option \<times> postingBlockIterator" where
  "nextBlock it = (if pNext it \<ge> pEnd it then (None, it) else (blockAt it (pNext it), it\<lparr>pNext := pNext it + 1\<rparr>))"

function materializeLoop :: "postingBlockIterator \<Rightarrow> u32 list \<Rightarrow> u32 list" where
  "materializeLoop it out =
    (if pNext it < pEnd it
     then case nextBlock it of
            (None, it') \<Rightarrow> []
          | (Some (ids, b), it') \<Rightarrow> materializeLoop it' (out @ ids)
     else out)"
  by pat_completeness auto
termination
  by (relation "measure (\<lambda>(it, out). pEnd it - pNext it)") (auto simp: nextBlock_def split: if_splits)

declare materializeLoop.simps [simp del]

definition materializePostingBlockIterator :: "postingBlockIterator \<Rightarrow> nat \<Rightarrow> u32 list" where
  "materializePostingBlockIterator it n = (if n = 0 then [] else materializeLoop it [])"

definition gramPosting :: "bytes \<Rightarrow> u32 \<Rightarrow> u32 list" where
  "gramPosting dat gram =
    (case gramPostingIterator dat gram of None \<Rightarrow> [] | Some (it, n) \<Rightarrow> materializePostingBlockIterator it n)"

text \<open>The binary search of \<open>containsID\<close> over the largest record number of each block.\<close>

function containsSearch :: "postingBlockIterator \<Rightarrow> u32 \<Rightarrow> nat \<Rightarrow> nat \<Rightarrow> nat option" where
  "containsSearch it target lo hi =
    (if lo < hi
     then (let mid = lo + (hi - lo) div 2
           in case blockMetaAt it mid of
                None \<Rightarrow> None
              | Some b \<Rightarrow> if target \<le> mMaxID b then containsSearch it target lo mid else containsSearch it target (mid + 1) hi)
     else Some lo)"
  by pat_completeness auto
termination
  by (relation "measure (\<lambda>(it, target, lo, hi). hi - lo)") auto

declare containsSearch.simps [simp del]

text \<open>Found, valid, the block looked at (or -1), and whether it was decoded.\<close>

definition containsID :: "postingBlockIterator \<Rightarrow> u32 \<Rightarrow> bool \<times> bool \<times> int \<times> bool" where
  "containsID it target =
    (if pNext it \<ge> pEnd it then (False, True, - 1, False)
     else case containsSearch it target (pNext it) (pEnd it) of
       None \<Rightarrow> (False, False, - 1, False)
     | Some lo \<Rightarrow>
         if lo \<ge> pEnd it then (False, True, - 1, False)
         else case blockMetaAt it lo of
           None \<Rightarrow> (False, False, - 1, False)
         | Some b \<Rightarrow>
             if target < mMinID b \<or> target > mMaxID b then (False, True, int lo, False)
             else case blockAt it lo of
               None \<Rightarrow> (False, False, int lo, False)
             | Some (ids, b) \<Rightarrow>
                 let pos = sortSearch (length ids) (\<lambda>i. ids ! i \<ge> target)
                 in (pos < length ids \<and> ids ! pos = target, True, int lo, True))"

section \<open>Blocks\<close>

lemma concat_chunksOf [simp]: "concat (chunksOf ids) = ids"
  by (induction ids rule: chunksOf.induct) (subst chunksOf.simps, simp)

lemma chunksOf_nonempty: "c \<in> set (chunksOf ids) \<Longrightarrow> c \<noteq> [] \<and> length c \<le> blockSize"
proof (induction ids rule: chunksOf.induct)
  case (1 ids)
  then show ?case by (subst (asm) (2) chunksOf.simps) (auto simp: blockSize_def split: if_splits)
qed

lemma chunksOf_eq_Nil [simp]: "chunksOf ids = [] \<longleftrightarrow> ids = []"
  by (subst chunksOf.simps) simp

definition metaOf :: "u32 list \<Rightarrow> nat \<Rightarrow> u32 list \<Rightarrow> postingBlockMeta" where
  "metaOf ranks off chunk = \<lparr>mOffset = of_nat off, mLength = of_nat (length (encodeDeltaUvarint32 chunk)),
     mCount = of_nat (length chunk), mMinID = hd chunk, mMaxID = last chunk, mMinRank = minRankOf ranks chunk\<rparr>"

fun metasFrom :: "u32 list \<Rightarrow> nat \<Rightarrow> u32 list list \<Rightarrow> postingBlockMeta list" where
  "metasFrom ranks off [] = []"
| "metasFrom ranks off (c # cs) = metaOf ranks off c # metasFrom ranks (off + length (encodeDeltaUvarint32 c)) cs"

definition blobOf :: "u32 list list \<Rightarrow> bytes" where
  "blobOf cs = concat (map encodeDeltaUvarint32 cs)"

lemma length_metasFrom [simp]: "length (metasFrom ranks off cs) = length cs"
  by (induction ranks off cs rule: metasFrom.induct) simp_all

lemma metasFrom_append: "metasFrom ranks off (cs @ ds) = metasFrom ranks off cs @ metasFrom ranks (off + length (blobOf cs)) ds"
  by (induction ranks off cs rule: metasFrom.induct) (simp_all add: blobOf_def add.assoc)

lemma metasFrom_nth:
  assumes "k < length cs"
  shows "metasFrom ranks 0 cs ! k = metaOf ranks (length (blobOf (take k cs))) (cs ! k)"
proof -
  have "metasFrom ranks 0 cs = metasFrom ranks 0 (take k cs @ cs ! k # drop (Suc k) cs)"
    using assms by (simp add: id_take_nth_drop [symmetric])
  then show ?thesis using assms by (simp add: metasFrom_append nth_append)
qed

lemma foldl_addBlock: "foldl (addBlock ranks) (bs, blob) cs = (bs @ metasFrom ranks (length blob) cs, blob @ blobOf cs)"
  by (induction cs arbitrary: bs blob) (simp_all add: addBlock_def metaOf_def blobOf_def Let_def)

text \<open>The postings of a section: the keys with at least one record number, in key order.\<close>

definition postsOf :: "compressedTrigramIndex \<Rightarrow> u32 list \<Rightarrow> (u32 \<times> u32 list) list" where
  "postsOf ti keys = filter (\<lambda>p. snd p \<noteq> []) (map (\<lambda>k. (k, trigramPostingIDs ti k)) keys)"

definition allChunks :: "(u32 \<times> u32 list) list \<Rightarrow> u32 list list" where
  "allChunks posts = concat (map (chunksOf \<circ> snd) posts)"

fun entriesFrom :: "nat \<Rightarrow> (u32 \<times> u32 list) list \<Rightarrow> gramPostingEntry list" where
  "entriesFrom n [] = []"
| "entriesFrom n (p # ps) = \<lparr>eKey = fst p, eCount = of_nat (length (snd p)), eFirstBlock = of_nat n,
     eBlockCount = of_nat (length (chunksOf (snd p)))\<rparr> # entriesFrom (n + length (chunksOf (snd p))) ps"

lemma length_entriesFrom [simp]: "length (entriesFrom n ps) = length ps"
  by (induction n ps rule: entriesFrom.induct) simp_all

lemma entriesFrom_nth:
  "i < length ps \<Longrightarrow> entriesFrom n ps ! i = \<lparr>eKey = fst (ps ! i), eCount = of_nat (length (snd (ps ! i))),
     eFirstBlock = of_nat (n + length (allChunks (take i ps))), eBlockCount = of_nat (length (chunksOf (snd (ps ! i))))\<rparr>"
proof (induction n ps arbitrary: i rule: entriesFrom.induct)
  case (2 n p ps)
  then show ?case by (cases i) (simp_all add: allChunks_def add.assoc)
qed simp

lemma addEntry_posts:
  "addEntry ti ranks (es, bs, blob) k =
    (if trigramPostingIDs ti k = [] then (es, bs, blob)
     else (es @ entriesFrom (length bs) [(k, trigramPostingIDs ti k)],
       bs @ metasFrom ranks (length blob) (chunksOf (trigramPostingIDs ti k)), blob @ blobOf (chunksOf (trigramPostingIDs ti k))))"
  by (simp add: addEntry_def appendPostingBlocks_def foldl_addBlock Let_def)

lemma postsOf_Cons:
  "postsOf ti (k # keys) = (if trigramPostingIDs ti k = [] then postsOf ti keys else (k, trigramPostingIDs ti k) # postsOf ti keys)"
  by (simp add: postsOf_def)

lemma foldl_addEntry:
  "foldl (addEntry ti ranks) (es, bs, blob) keys =
    (es @ entriesFrom (length bs) (postsOf ti keys), bs @ metasFrom ranks (length blob) (allChunks (postsOf ti keys)),
     blob @ blobOf (allChunks (postsOf ti keys)))"
proof (induction keys arbitrary: es bs blob)
  case (Cons k keys)
  then show ?case
    by (simp add: addEntry_posts postsOf_Cons metasFrom_append allChunks_def blobOf_def)
qed (simp add: postsOf_def allChunks_def blobOf_def)

section \<open>The layout of a section\<close>

definition sectionBytes :: "u32 list \<Rightarrow> (u32 \<times> u32 list) list \<Rightarrow> bytes \<Rightarrow> bytes" where
  "sectionBytes ranks posts rest =
    (let cs = allChunks posts
     in putUint 4 (of_nat (length posts) :: u32) @ putUint 4 (0 :: u32) @ putUint 4 (of_nat (length cs) :: u32) @
        putUint 4 (of_nat (length (blobOf cs)) :: u32) @ concat (map putEntry (entriesFrom 0 posts)) @
        concat (map putMeta (metasFrom ranks 0 cs)) @ blobOf cs @ rest)"

lemma encode_section:
  "encodeGramPostingSectionWithMetadata ti ranks magic =
    (let posts = postsOf ti (sort (map fst (filter (\<lambda>(gram, n). n > 0) (countPairs ti))))
     in if posts = [] \<and> omitted ti = [] then [] else sectionBytes ranks posts (omittedTail ti magic))"
proof -
  have "entriesFrom 0 ps = [] \<longleftrightarrow> ps = []" for ps by (cases ps) simp_all
  then show ?thesis
    by (simp add: encodeGramPostingSectionWithMetadata_def foldl_addEntry sectionBytes_def writePostingBlockMetas_def Let_def
        del: putUint.simps)
qed

text \<open>A section whose counts fit their fields and whose keys ascend.\<close>

definition sectionFits :: "(u32 \<times> u32 list) list \<Rightarrow> bool" where
  "sectionFits posts \<longleftrightarrow> sorted_wrt (<) (map fst posts) \<and> length posts < 2 ^ 32 \<and> length (allChunks posts) < 2 ^ 32 \<and>
     length (blobOf (allChunks posts)) < 2 ^ 32 \<and>
     list_all (\<lambda>p. snd p \<noteq> [] \<and> length (snd p) < 2 ^ 32 \<and> sorted_wrt (<) (snd p)) posts"

lemma length_putEntry [simp]: "length (putEntry e) = 16"
  by (simp add: putEntry_def del: putUint.simps)

lemma length_putMeta [simp]: "length (putMeta b) = 28"
  by (simp add: putMeta_def del: putUint.simps)

lemma getEntry:
  "getUint (take 4 (putEntry e @ r)) = eKey e" "getUint (take 4 (drop 4 (putEntry e @ r))) = eCount e"
  "getUint (take 4 (drop 8 (putEntry e @ r))) = eFirstBlock e" "getUint (take 4 (drop 12 (putEntry e @ r))) = eBlockCount e"
  by (simp_all add: putEntry_def del: putUint.simps)

lemma getMeta:
  "getUint (take 8 (putMeta b @ r)) = mOffset b" "getUint (take 4 (drop 8 (putMeta b @ r))) = mLength b"
  "getUint (take 4 (drop 12 (putMeta b @ r))) = mCount b" "getUint (take 4 (drop 16 (putMeta b @ r))) = mMinID b"
  "getUint (take 4 (drop 20 (putMeta b @ r))) = mMaxID b" "getUint (take 4 (drop 24 (putMeta b @ r))) = mMinRank b"
  by (simp_all add: putMeta_def del: putUint.simps)

lemma section_header:
  fixes rest :: bytes and ranks :: "u32 list"
  assumes "sectionFits posts"
  defines "dat \<equiv> sectionBytes ranks posts rest" and "cs \<equiv> allChunks posts"
  shows "unat (uintAt 4 dat 0 :: u32) = length posts" "unat (uintAt 4 dat 4 :: u32) = 0"
    "unat (uintAt 4 dat 8 :: u32) = length cs" "unat (uintAt 4 dat 12 :: u32) = length (blobOf cs)"
    "length dat = 16 + length posts * 16 + length cs * 28 + length (blobOf cs) + length rest"
  using assms(1) unfolding sectionFits_def
  by (simp_all add: dat_def cs_def uintAt_def sectionBytes_def Let_def unat_of_nat_u32 table_length [where k = 16] table_length [where k = 28]
      del: putUint.simps)

lemma section_entry:
  fixes rest :: bytes and ranks :: "u32 list"
  assumes "i < length posts"
  defines "dat \<equiv> sectionBytes ranks posts rest" and "e \<equiv> entriesFrom 0 posts ! i"
  shows "uintAt 4 dat (16 + i * 16) = eKey e" "uintAt 4 dat (16 + i * 16 + 4) = eCount e"
    "uintAt 4 dat (16 + i * 16 + 8) = eFirstBlock e" "uintAt 4 dat (16 + i * 16 + 12) = eBlockCount e"
proof -
  define pre where "pre = putUint 4 (of_nat (length posts) :: u32) @ putUint 4 (0 :: u32) @
    putUint 4 (of_nat (length (allChunks posts)) :: u32) @ putUint 4 (of_nat (length (blobOf (allChunks posts))) :: u32)"
  define post where "post = concat (map putMeta (metasFrom ranks 0 (allChunks posts))) @ blobOf (allChunks posts) @ rest"
  have dat: "dat = pre @ concat (map putEntry (entriesFrom 0 posts)) @ post"
    by (simp only: dat_def sectionBytes_def Let_def pre_def post_def append_assoc)
  have pre: "length pre = 16" by (simp add: pre_def del: putUint.simps)
  have at: "drop (16 + i * 16 + j) dat = drop j (putEntry e @ concat (map putEntry (drop (Suc i) (entriesFrom 0 posts))) @ post)" for j
    using table_at [of putEntry 16 i "entriesFrom 0 posts" pre j post] assms(1) pre by (simp add: dat e_def mult.commute)
  show "uintAt 4 dat (16 + i * 16) = eKey e" "uintAt 4 dat (16 + i * 16 + 4) = eCount e"
    "uintAt 4 dat (16 + i * 16 + 8) = eFirstBlock e" "uintAt 4 dat (16 + i * 16 + 12) = eBlockCount e"
    using at [of 0] by (simp_all only: uintAt_def at add_0_right getEntry drop_0)
qed

lemma section_meta:
  fixes rest :: bytes and ranks :: "u32 list"
  assumes "k < length (allChunks posts)"
  defines "dat \<equiv> sectionBytes ranks posts rest" and "off \<equiv> 16 + length posts * 16 + k * 28"
    and "b \<equiv> metasFrom ranks 0 (allChunks posts) ! k"
  shows "uintAt 8 dat off = mOffset b" "uintAt 4 dat (off + 8) = mLength b" "uintAt 4 dat (off + 12) = mCount b"
    "uintAt 4 dat (off + 16) = mMinID b" "uintAt 4 dat (off + 20) = mMaxID b" "uintAt 4 dat (off + 24) = mMinRank b"
proof -
  define pre where "pre = putUint 4 (of_nat (length posts) :: u32) @ putUint 4 (0 :: u32) @
    putUint 4 (of_nat (length (allChunks posts)) :: u32) @ putUint 4 (of_nat (length (blobOf (allChunks posts))) :: u32) @
    concat (map putEntry (entriesFrom 0 posts))"
  let ?bs = "metasFrom ranks 0 (allChunks posts)" and ?post = "blobOf (allChunks posts) @ rest"
  have dat: "dat = pre @ concat (map putMeta ?bs) @ ?post"
    by (simp only: dat_def sectionBytes_def Let_def pre_def append_assoc)
  have pre: "length pre = 16 + length posts * 16"
    by (simp add: pre_def table_length [where k = 16] del: putUint.simps)
  have at: "drop (off + j) dat = drop j (putMeta b @ concat (map putMeta (drop (Suc k) ?bs)) @ ?post)" for j
    using table_at [of putMeta 28 k ?bs pre j ?post] assms(1) pre by (simp add: dat b_def off_def mult.commute)
  show "uintAt 8 dat off = mOffset b" "uintAt 4 dat (off + 8) = mLength b" "uintAt 4 dat (off + 12) = mCount b"
    "uintAt 4 dat (off + 16) = mMinID b" "uintAt 4 dat (off + 20) = mMaxID b" "uintAt 4 dat (off + 24) = mMinRank b"
    using at [of 0] by (simp_all only: uintAt_def at add_0_right getMeta drop_0)
qed

lemma section_blob:
  "drop (16 + length posts * 16 + length (allChunks posts) * 28 + n) (sectionBytes ranks posts rest) =
   drop n (blobOf (allChunks posts) @ rest)"
proof -
  define pre where "pre = putUint 4 (of_nat (length posts) :: u32) @ putUint 4 (0 :: u32) @
    putUint 4 (of_nat (length (allChunks posts)) :: u32) @ putUint 4 (of_nat (length (blobOf (allChunks posts))) :: u32) @
    concat (map putEntry (entriesFrom 0 posts)) @ concat (map putMeta (metasFrom ranks 0 (allChunks posts)))"
  have "sectionBytes ranks posts rest = pre @ (blobOf (allChunks posts) @ rest)"
    by (simp only: sectionBytes_def Let_def pre_def append_assoc)
  moreover have "length pre = 16 + length posts * 16 + length (allChunks posts) * 28"
    by (simp add: pre_def table_length [where k = 16] table_length [where k = 28] del: putUint.simps)
  ultimately show ?thesis by simp
qed

section \<open>Iterators over blocks\<close>

text \<open>An iterator presents the blocks \<open>cs\<close>: they can be read, and their metadata describe them.\<close>

definition presents :: "postingBlockIterator \<Rightarrow> u32 list list \<Rightarrow> bool" where
  "presents it cs \<longleftrightarrow> pEnd it = pNext it + length cs \<and>
    (\<forall>k<length cs. cs ! k \<noteq> [] \<and> (\<exists>b. blockMetaAt it (pNext it + k) = Some b \<and> blockAt it (pNext it + k) = Some (cs ! k, b) \<and>
      mMinID b = hd (cs ! k) \<and> mMaxID b = last (cs ! k) \<and> unat (mCount b) = length (cs ! k)))"

lemma blob_slice:
  assumes "k < length cs"
  shows "take (length (encodeDeltaUvarint32 (cs ! k))) (drop (length (blobOf (take k cs))) (blobOf cs @ rest)) = encodeDeltaUvarint32 (cs ! k)"
    "length (blobOf (take k cs)) + length (encodeDeltaUvarint32 (cs ! k)) \<le> length (blobOf cs)"
proof -
  have "blobOf cs = blobOf (take k cs @ cs ! k # drop (Suc k) cs)"
    using assms by (simp add: id_take_nth_drop [symmetric])
  then have cs: "blobOf cs = blobOf (take k cs) @ encodeDeltaUvarint32 (cs ! k) @ blobOf (drop (Suc k) cs)" by (simp add: blobOf_def)
  show "take (length (encodeDeltaUvarint32 (cs ! k))) (drop (length (blobOf (take k cs))) (blobOf cs @ rest)) = encodeDeltaUvarint32 (cs ! k)"
    "length (blobOf (take k cs)) + length (encodeDeltaUvarint32 (cs ! k)) \<le> length (blobOf cs)"
    unfolding cs by simp_all
qed

lemma allChunks_at:
  assumes "n < length posts" "k < length (chunksOf (snd (posts ! n)))"
  shows "length (allChunks (take n posts)) + k < length (allChunks posts)"
    "allChunks posts ! (length (allChunks (take n posts)) + k) = chunksOf (snd (posts ! n)) ! k"
    "length (allChunks (take n posts)) + length (chunksOf (snd (posts ! n))) \<le> length (allChunks posts)"
proof -
  have "allChunks posts = allChunks (take n posts @ posts ! n # drop (Suc n) posts)"
    using assms(1) by (simp add: id_take_nth_drop [symmetric])
  then have c: "allChunks posts = allChunks (take n posts) @ chunksOf (snd (posts ! n)) @ allChunks (drop (Suc n) posts)"
    by (simp add: allChunks_def)
  show "length (allChunks (take n posts)) + k < length (allChunks posts)"
    "allChunks posts ! (length (allChunks (take n posts)) + k) = chunksOf (snd (posts ! n)) ! k"
    "length (allChunks (take n posts)) + length (chunksOf (snd (posts ! n))) \<le> length (allChunks posts)"
    unfolding c using assms(2) by (simp_all add: nth_append)
qed

text \<open>Every block of a section reads back as the chunk it was written from.\<close>

lemma section_block:
  assumes "sectionFits posts" "k < length (allChunks posts)" "k < pEnd it"
    "pData it = sectionBytes ranks posts rest" "pMetaStart it = 16 + length posts * 16"
    "pBlobStart it = 16 + length posts * 16 + length (allChunks posts) * 28" "pBlobLen it = length (blobOf (allChunks posts))"
  defines "b \<equiv> metasFrom ranks 0 (allChunks posts) ! k"
  shows "blockMetaAt it k = Some b" "blockAt it k = Some (allChunks posts ! k, b)"
proof -
  let ?cs = "allChunks posts" and ?dat = "sectionBytes ranks posts rest"
  let ?c = "?cs ! k"
  note meta = section_meta [OF assms(2), of ranks rest, folded b_def]
  have fits: "16 + length posts * 16 + k * 28 + 28 \<le> length ?dat"
    using assms(2) section_header(5) [OF assms(1), of ranks rest] by simp
  then show m: "blockMetaAt it k = Some b"
    using assms(3-5) meta by (simp add: blockMetaAt_def Let_def)
  have b: "b = metaOf ranks (length (blobOf (take k ?cs))) ?c" using assms(2) by (simp add: b_def metasFrom_nth)
  note slice = blob_slice [OF assms(2)]
  have "length (blobOf ?cs) < 2 ^ 32" using assms(1) by (simp add: sectionFits_def)
  then have n: "unat (mOffset b) = length (blobOf (take k ?cs))" "unat (mLength b) = length (encodeDeltaUvarint32 ?c)"
    using slice(2) by (simp_all add: b metaOf_def unat_of_nat_u32 unat_of_nat)
  have "decodePostingBlock ?dat k (pMetaStart it) (pBlobStart it) (pBlobLen it) = Some ?c"
    using fits meta n slice section_blob [of posts "length (blobOf (take k ?cs))" ranks rest] decodeDelta_encodeDelta [of ?c]
    by (simp add: decodePostingBlock_def assms(5-7) Let_def)
  with m assms(4) show "blockAt it k = Some (?c, b)" by (simp add: blockAt_def)
qed

lemma section_key: "i < length posts \<Longrightarrow> uintAt 4 (sectionBytes ranks posts rest) (16 + i * 16) = map fst posts ! i"
  by (simp add: section_entry(1) entriesFrom_nth)

lemma section_search:
  "sortSearch (length posts) (\<lambda>i. (uintAt 4 (sectionBytes ranks posts rest) (16 + i * 16) :: u32) \<ge> gram) =
   sortSearch (length (map fst posts)) (\<lambda>i. map fst posts ! i \<ge> gram)"
  unfolding length_map by (rule sortSearch_cong) (simp add: section_key del: nth_map)

lemma section_iterator:
  assumes "sectionFits posts" "n < length posts"
  defines "ids \<equiv> snd (posts ! n)"
  obtains it where "gramPostingIterator (sectionBytes ranks posts rest) (fst (posts ! n)) = Some (it, length ids)"
    "presents it (chunksOf ids)"
proof -
  let ?dat = "sectionBytes ranks posts rest" and ?cs = "allChunks posts" and ?keys = "map fst posts"
  let ?first = "length (allChunks (take n posts))" and ?blocks = "length (chunksOf ids)"
  note hdr = section_header [OF assms(1), of ranks rest]
  have ids: "ids \<noteq> []" "length ids < 2 ^ 32" "length ?cs < 2 ^ 32" "sorted_wrt (<) ?keys"
    using assms(1,2) by (auto simp: sectionFits_def ids_def list_all_length)
  then have pos: "0 < ?blocks" "posts \<noteq> []" using assms(2) by auto
  have le: "?first + ?blocks \<le> length ?cs" using allChunks_at(3) [OF assms(2), of 0] pos by (simp add: ids_def)
  have e: "entriesFrom 0 posts ! n = \<lparr>eKey = fst (posts ! n), eCount = of_nat (length ids), eFirstBlock = of_nat ?first,
      eBlockCount = of_nat ?blocks\<rparr>"
    using entriesFrom_nth [OF assms(2), of 0] by (simp add: ids_def)
  have w: "unat (of_nat (length ids) :: u32) = length ids" "unat (of_nat ?first :: u32) = ?first"
    "unat (of_nat ?blocks :: u32) = ?blocks"
    using ids le by (simp_all add: unat_of_nat_u32)
  have i: "sortSearch (length posts) (\<lambda>i. (uintAt 4 ?dat (16 + i * 16) :: u32) \<ge> fst (posts ! n)) = n"
    unfolding section_search using sortSearch_at [OF ids(4), of n] assms(2) by simp
  define it where "it = \<lparr>pData = ?dat, pNext = ?first, pEnd = ?first + ?blocks, pMetaStart = 16 + length posts * 16,
      pBlobStart = 16 + length posts * 16 + length ?cs * 28, pBlobLen = length (blobOf ?cs)\<rparr>"
  have "gramPostingIterator ?dat (fst (posts ! n)) = Some (it, length ids)"
    using hdr assms(2) i section_entry [OF assms(2), of ranks rest] e w le ids(1) pos
    by (simp add: gramPostingIterator_def Let_def it_def)
  moreover have "presents it (chunksOf ids)"
    unfolding presents_def
  proof (intro conjI allI impI)
    fix k assume k: "k < length (chunksOf ids)"
    note at = allChunks_at [OF assms(2) k [unfolded ids_def], folded ids_def]
    show c: "chunksOf ids ! k \<noteq> []" using k chunksOf_nonempty nth_mem by blast
    have "unat (of_nat (length (chunksOf ids ! k)) :: u32) = length (chunksOf ids ! k)"
      using chunksOf_nonempty [OF nth_mem [OF k]] by (intro unat_of_nat_u32) (simp add: blockSize_def)
    then show "\<exists>b. blockMetaAt it (pNext it + k) = Some b \<and> blockAt it (pNext it + k) = Some (chunksOf ids ! k, b) \<and>
      mMinID b = hd (chunksOf ids ! k) \<and> mMaxID b = last (chunksOf ids ! k) \<and> unat (mCount b) = length (chunksOf ids ! k)"
      using section_block [OF assms(1) at(1), of it ranks rest] k at(2) metasFrom_nth [OF at(1), of ranks]
      by (simp add: it_def metaOf_def)
  qed (simp add: it_def)
  ultimately show ?thesis using that by blast
qed

lemma section_absent:
  assumes "sectionFits posts" "gram \<notin> set (map fst posts)"
  shows "gramPostingIterator (sectionBytes ranks posts rest) gram = None"
proof -
  let ?keys = "map fst posts"
  have "sorted_wrt (<) ?keys" using assms(1) by (simp add: sectionFits_def)
  note miss = sortSearch_mem [OF this, of gram]
  let ?i = "sortSearch (length posts) (\<lambda>i. (uintAt 4 (sectionBytes ranks posts rest) (16 + i * 16) :: u32) \<ge> gram)"
  have "?i \<ge> length posts \<or> uintAt 4 (sectionBytes ranks posts rest) (16 + ?i * 16) \<noteq> gram"
    using miss assms(2) section_key [of ?i posts ranks rest] unfolding section_search by (metis length_map not_le)
  then show ?thesis using section_header [OF assms(1), of ranks rest] by (auto simp: gramPostingIterator_def Let_def)
qed

lemma presents_step:
  assumes "presents it (c # cs)"
  obtains b where "nextBlock it = (Some (c, b), it\<lparr>pNext := pNext it + 1\<rparr>)" "blockMetaAt it (pNext it) = Some b"
    "mMinID b = hd c" "mMaxID b = last c" "unat (mCount b) = length c" "c \<noteq> []" "presents (it\<lparr>pNext := pNext it + 1\<rparr>) cs"
proof -
  have same: "blockMetaAt (it\<lparr>pNext := m\<rparr>) k = blockMetaAt it k" "blockAt (it\<lparr>pNext := m\<rparr>) k = blockAt it k" for m k
    by (simp_all add: blockMetaAt_def blockAt_def Let_def)
  obtain b where b: "blockMetaAt it (pNext it) = Some b" "blockAt it (pNext it) = Some (c, b)"
    "mMinID b = hd c" "mMaxID b = last c" "unat (mCount b) = length c" "c \<noteq> []"
    using assms unfolding presents_def by (metis add_0_right length_greater_0_conv list.discI nth_Cons_0)
  have "presents (it\<lparr>pNext := pNext it + 1\<rparr>) cs"
    unfolding presents_def same
  proof (intro conjI allI impI)
    show "pEnd (it\<lparr>pNext := pNext it + 1\<rparr>) = pNext (it\<lparr>pNext := pNext it + 1\<rparr>) + length cs"
      using assms by (simp add: presents_def)
    fix k assume "k < length cs"
    then have "Suc k < length (c # cs)" by simp
    with assms show "cs ! k \<noteq> []" "\<exists>b. blockMetaAt it (pNext (it\<lparr>pNext := pNext it + 1\<rparr>) + k) = Some b \<and>
      blockAt it (pNext (it\<lparr>pNext := pNext it + 1\<rparr>) + k) = Some (cs ! k, b) \<and>
      mMinID b = hd (cs ! k) \<and> mMaxID b = last (cs ! k) \<and> unat (mCount b) = length (cs ! k)"
      unfolding presents_def by force+
  qed
  moreover have "nextBlock it = (Some (c, b), it\<lparr>pNext := pNext it + 1\<rparr>)"
    using assms b by (simp add: nextBlock_def presents_def)
  ultimately show ?thesis using b that by blast
qed

lemma presents_Nil: "presents it [] \<longleftrightarrow> pEnd it = pNext it"
  by (simp add: presents_def)

lemma materializeLoop_presents: "presents it cs \<Longrightarrow> materializeLoop it out = out @ concat cs"
proof (induction cs arbitrary: it out)
  case Nil
  then show ?case by (subst materializeLoop.simps) (simp add: presents_Nil)
next
  case (Cons c cs)
  obtain b where b: "nextBlock it = (Some (c, b), it\<lparr>pNext := pNext it + 1\<rparr>)" "presents (it\<lparr>pNext := pNext it + 1\<rparr>) cs"
    using presents_step [OF Cons.prems] by metis
  moreover have "pNext it < pEnd it" using Cons.prems by (simp add: presents_def)
  ultimately show ?case using Cons.IH [OF b(2)] by (subst materializeLoop.simps) simp
qed

lemma sorted_concat:
  fixes cs :: "'a :: linorder list list"
  assumes "sorted_wrt (<) (concat cs)"
  shows "c \<in> set cs \<Longrightarrow> sorted_wrt (<) c"
    and "i < j \<Longrightarrow> j < length cs \<Longrightarrow> x \<in> set (cs ! i) \<Longrightarrow> y \<in> set (cs ! j) \<Longrightarrow> x < y"
  using assms
proof (induction cs arbitrary: i j)
  case (Cons d cs)
  {
    case 1
    then show ?case using Cons.IH(1) by (auto simp: sorted_wrt_append)
  next
    case 2
    then show ?case
    proof (cases i)
      case 0
      with 2 have "cs ! (j - 1) \<in> set cs" "y \<in> set (cs ! (j - 1))" "x \<in> set d" by (cases j; simp)+
      moreover have "\<forall>u\<in>set d. \<forall>c\<in>set cs. \<forall>v\<in>set c. u < v" using 2 by (simp add: sorted_wrt_append)
      ultimately show ?thesis by blast
    next
      case (Suc k)
      with 2 Cons.IH(2) [of k "j - 1"] show ?thesis by (cases j) (auto simp: sorted_wrt_append)
    qed
  }
qed simp_all

lemma containsSearch_presents:
  assumes "presents it cs" "pNext it \<le> lo" "hi \<le> pEnd it"
  shows "containsSearch it t lo hi = Some (searchFrom (\<lambda>k. t \<le> last (cs ! (k - pNext it))) lo hi)"
  using assms(2,3)
proof (induction "hi - lo" arbitrary: lo hi rule: less_induct)
  case less
  show ?case
  proof (cases "lo < hi")
    case True
    let ?m = "(lo + hi) div 2"
    have mid: "lo + (hi - lo) div 2 = ?m" "lo \<le> ?m" "?m < hi" using True by simp_all
    have "?m - pNext it < length cs" "pNext it + (?m - pNext it) = ?m"
      using less.prems mid assms(1) by (auto simp: presents_def)
    then obtain b where b: "blockMetaAt it ?m = Some b" "mMaxID b = last (cs ! (?m - pNext it))"
      using assms(1) unfolding presents_def by metis
    have "containsSearch it t lo ?m = Some (searchFrom (\<lambda>k. t \<le> last (cs ! (k - pNext it))) lo ?m)"
      "containsSearch it t (?m + 1) hi = Some (searchFrom (\<lambda>k. t \<le> last (cs ! (k - pNext it))) (?m + 1) hi)"
      using less mid by (auto simp del: div_mult_self1)
    then show ?thesis using True mid b by (subst containsSearch.simps, subst searchFrom.simps) (simp add: Let_def)
  qed (subst containsSearch.simps, subst searchFrom.simps, simp)
qed

lemma sorted_hd_last:
  fixes xs :: "'a :: linorder list"
  assumes "sorted_wrt (<) xs" "xs \<noteq> []"
  shows "\<forall>x\<in>set xs. hd xs \<le> x \<and> x \<le> last xs"
proof (intro ballI conjI)
  have s: "sorted xs" using assms(1) by (simp add: strict_sorted_imp_sorted)
  fix x assume x: "x \<in> set xs"
  show "hd xs \<le> x" using s x by (cases xs) auto
  have "sorted (butlast xs @ [last xs])" using s assms(2) by simp
  moreover have "x \<in> set (butlast xs @ [last xs])" using x assms(2) by simp
  ultimately show "x \<le> last xs" unfolding sorted_append by auto
qed

text \<open>The block the search ends in is the only one that can hold the target.\<close>

lemma search_block:
  fixes cs :: "u32 list list" and n :: nat and t :: u32
  assumes "sorted_wrt (<) (concat cs)" "\<forall>c\<in>set cs. c \<noteq> []"
  defines "lo \<equiv> searchFrom (\<lambda>k. t \<le> last (cs ! (k - n))) n (n + length cs)"
  shows "n \<le> lo \<and> lo \<le> n + length cs \<and> (t \<in> set (concat cs) \<longleftrightarrow> lo < n + length cs \<and> t \<in> set (cs ! (lo - n)))"
proof -
  have last: "last (cs ! i) \<in> set (cs ! i)" if "i < length cs" for i using assms(2) that by simp
  have mono: "monoUpTo (\<lambda>k. t \<le> last (cs ! (k - n))) (n + length cs)"
    unfolding monoUpTo_def
  proof (intro allI impI, elim conjE)
    fix a b assume ab: "a \<le> b" "b < n + length cs" "t \<le> last (cs ! (a - n))"
    show "t \<le> last (cs ! (b - n))"
    proof (cases "a - n = b - n")
      case False
      then have "last (cs ! (a - n)) < last (cs ! (b - n))"
        using ab by (intro sorted_concat(2) [OF assms(1), of "a - n" "b - n"] last) auto
      with ab(3) show ?thesis by simp
    qed (use ab in simp)
  qed
  have lo: "n \<le> lo" "lo \<le> n + length cs" "\<forall>k. n \<le> k \<and> k < lo \<longrightarrow> \<not> t \<le> last (cs ! (k - n))"
    "\<forall>k. lo \<le> k \<and> k < n + length cs \<longrightarrow> t \<le> last (cs ! (k - n))"
    using searchFrom_correct [OF le_add1 mono, folded lo_def] by blast+
  have "lo < n + length cs \<and> t \<in> set (cs ! (lo - n))" if mem: "t \<in> set (concat cs)"
  proof -
    obtain c where "c \<in> set cs" "t \<in> set c" using mem by auto
    then obtain i where i: "i < length cs" "t \<in> set (cs ! i)" by (metis in_set_conv_nth)
    have "t \<le> last (cs ! i)"
      using sorted_hd_last [OF sorted_concat(1) [OF assms(1), of "cs ! i"]] assms(2) i by simp
    then have "lo \<le> n + i" using lo(3) by (metis add_diff_cancel_left' le_add1 not_le)
    moreover have "\<not> lo - n < i"
    proof
      assume less: "lo - n < i"
      then have "last (cs ! (lo - n)) < t" using i last [of "lo - n"] sorted_concat(2) [OF assms(1)] by simp
      moreover have "t \<le> last (cs ! (lo - n))" using lo(1,4) less i(1) by auto
      ultimately show False by simp
    qed
    ultimately have "lo = n + i" using lo(1) by simp
    with i show ?thesis by simp
  qed
  moreover have "t \<in> set (concat cs)" if "lo < n + length cs" "t \<in> set (cs ! (lo - n))"
    using that lo(1) by (auto intro!: bexI [of _ "cs ! (lo - n)"])
  ultimately show ?thesis using lo by blast
qed

lemma containsID_presents:
  assumes "presents it cs" "sorted_wrt (<) (concat cs)"
  shows "(fst (containsID it t) \<longleftrightarrow> t \<in> set (concat cs)) \<and> fst (snd (containsID it t))"
proof (cases "pNext it \<ge> pEnd it")
  case True
  with assms(1) have "cs = []" by (simp add: presents_def)
  with True show ?thesis by (simp add: containsID_def)
next
  case False
  let ?n = "pNext it"
  define lo where "lo = searchFrom (\<lambda>k. t \<le> last (cs ! (k - pNext it))) (pNext it) (pNext it + length cs)"
  have e: "pEnd it = ?n + length cs" and ne: "\<forall>c\<in>set cs. c \<noteq> []"
    using assms(1) by (auto simp: presents_def in_set_conv_nth)
  have ge: "?n \<le> lo" and mem: "t \<in> set (concat cs) \<longleftrightarrow> lo < ?n + length cs \<and> t \<in> set (cs ! (lo - ?n))"
    using search_block [OF assms(2) ne, of ?n t, folded lo_def] by blast+
  have search: "containsSearch it t ?n (pEnd it) = Some lo"
    using containsSearch_presents [OF assms(1), of ?n "pEnd it" t] e by (simp add: lo_def)
  show ?thesis
  proof (cases "lo < ?n + length cs")
    case False
    with mem search e \<open>\<not> ?n \<ge> pEnd it\<close> show ?thesis by (simp add: containsID_def)
  next
    case True
    let ?c = "cs ! (lo - ?n)"
    have i: "lo - ?n < length cs" "?n + (lo - ?n) = lo" using True ge by simp_all
    then obtain b where b: "blockMetaAt it lo = Some b" "blockAt it lo = Some (?c, b)" "mMinID b = hd ?c" "mMaxID b = last ?c"
      using assms(1) unfolding presents_def by metis
    have c: "sorted_wrt (<) ?c" "?c \<noteq> []" using sorted_concat(1) [OF assms(2)] ne i(1) by simp_all
    have bounds: "hd ?c \<le> t \<and> t \<le> last ?c" if "t \<in> set ?c"
      using sorted_hd_last [OF c] that by blast
    show ?thesis
    proof (cases "t < hd ?c \<or> t > last ?c")
      case True
      with bounds mem b search e \<open>\<not> ?n \<ge> pEnd it\<close> i show ?thesis by (auto simp: containsID_def)
    next
      case inside: False
      with mem b search e \<open>\<not> ?n \<ge> pEnd it\<close> i sortSearch_mem [OF c(1), of t] True show ?thesis
        by (simp add: containsID_def Let_def)
    qed
  qed
qed

section \<open>The section of a trigram index\<close>

lemma encodeDelta_length: "length ids \<le> length (encodeDeltaUvarint32 ids)"
proof -
  have put: "0 < length (putUvarint v)" for v :: u64 by (subst putUvarint.simps) simp
  have "length ids \<le> length (encodeDeltaLoop prev ids)" for prev
  proof (induction ids arbitrary: prev)
    case (Cons i ids)
    show ?case using Cons.IH [of i] put [of "ucast (i - prev)"]
      unfolding encodeDeltaLoop.simps length_append length_Cons by linarith
  qed simp
  then show ?thesis by (simp add: encodeDeltaUvarint32_def)
qed

lemma blobOf_length: "length (concat cs) \<le> length (blobOf cs)"
  unfolding blobOf_def by (induction cs) (auto intro: add_mono encodeDelta_length)

lemma post_length: "p \<in> set posts \<Longrightarrow> length (snd p) \<le> length (blobOf (allChunks posts))"
proof -
  assume "p \<in> set posts"
  then have "length (snd p) \<le> length (concat (allChunks posts))"
    by (induction posts) (auto simp: allChunks_def)
  with blobOf_length show ?thesis by (rule le_trans [rotated])
qed

text \<open>A section shorter than 4 GiB has no count that overflows.\<close>

lemma sectionFits_small:
  assumes "length (sectionBytes ranks posts rest) < 2 ^ 32" "sorted_wrt (<) (map fst posts)"
    "\<forall>p\<in>set posts. snd p \<noteq> [] \<and> sorted_wrt (<) (snd p)"
  shows "sectionFits posts"
proof -
  have "length (sectionBytes ranks posts rest) =
      16 + length posts * 16 + length (allChunks posts) * 28 + length (blobOf (allChunks posts)) + length rest"
    by (simp add: sectionBytes_def Let_def table_length [where k = 16] table_length [where k = 28] del: putUint.simps)
  then have b: "length posts < 2 ^ 32" "length (allChunks posts) < 2 ^ 32" "length (blobOf (allChunks posts)) < 2 ^ 32"
    using assms(1) by simp_all
  moreover have "length (snd p) < 2 ^ 32" if "p \<in> set posts" for p
    using post_length [OF that] b(3) by (rule le_less_trans)
  ultimately show ?thesis using assms(2,3) by (simp add: sectionFits_def list_all_iff)
qed

lemma section_lookup:
  assumes "sectionFits posts"
  shows "p \<in> set posts \<Longrightarrow> \<exists>it. gramPostingIterator (sectionBytes ranks posts rest) (fst p) = Some (it, length (snd p)) \<and>
      gramPosting (sectionBytes ranks posts rest) (fst p) = snd p \<and>
      (\<forall>t. (fst (containsID it t) \<longleftrightarrow> t \<in> set (snd p)) \<and> fst (snd (containsID it t)))"
proof -
  assume p: "p \<in> set posts"
  then obtain n where n: "n < length posts" "posts ! n = p" by (metis in_set_conv_nth)
  obtain it where it: "gramPostingIterator (sectionBytes ranks posts rest) (fst p) = Some (it, length (snd p))"
    "presents it (chunksOf (snd p))"
    using section_iterator [OF assms n(1), of ranks rest] n(2) by metis
  have ids: "snd p \<noteq> []" "sorted_wrt (<) (snd p)" using assms p by (auto simp: sectionFits_def list_all_iff)
  have "gramPosting (sectionBytes ranks posts rest) (fst p) = snd p"
    using it(1) ids(1) materializeLoop_presents [OF it(2), of "[]"] by (simp add: gramPosting_def materializePostingBlockIterator_def)
  moreover have "(fst (containsID it t) \<longleftrightarrow> t \<in> set (snd p)) \<and> fst (snd (containsID it t))" for t
    using containsID_presents [OF it(2), of t] ids(2) by simp
  ultimately show ?thesis using it(1) by blast
qed

lemma sort_uniqueSorted:
  fixes xs :: "u32 list"
  assumes "sorted_wrt (<) xs"
  shows "uniqueSortedUint32s (sort xs) = xs"
proof -
  have "sort xs = xs" using assms by (simp add: sorted_sort_id strict_sorted_imp_sorted)
  moreover have "sorted_wrt (<) (uniqueSorted xs)" "set (uniqueSorted xs) = set xs"
    using uniqueSorted_correct [of xs] assms by (simp_all add: strict_sorted_imp_sorted)
  ultimately show ?thesis using assms unfolding uniqueSortedUint32s_def by (metis strict_sorted_equal)
qed

lemma trigramPostingIDs_exact:
  assumes "indexes src keys (\<lambda>_. True) ti" "srcCount src \<le> 2 ^ 32"
  shows "trigramPostingIDs ti g = map of_nat (hits src keys g 0 (srcCount src))"
    "sorted_wrt (<) (trigramPostingIDs ti g)"
proof -
  let ?h = "map of_nat (hits src keys g 0 (srcCount src)) :: u32 list"
  note out = segments_hits [OF assms(1), of g, OF TrueI]
  have s: "sorted_wrt (<) ?h"
    using assms(2) by (intro sorted_of_nat) (auto simp: hits_def intro: sorted_wrt_filter)
  then show e: "trigramPostingIDs ti g = ?h" unfolding trigramPostingIDs_def out Let_def using sort_uniqueSorted by auto
  from s show "sorted_wrt (<) (trigramPostingIDs ti g)" by (simp only: e)
qed

lemma buildCompactTrigramIndex_counts:
  obtains cs where "counts (buildCompactTrigramIndex src) = Some cs" "distinct (map fst cs)" "omitted (buildCompactTrigramIndex src) = []"
proof (cases "srcCount src = 0")
  case True
  then show ?thesis by (intro that [of "[]"]) (simp_all add: buildCompactTrigramIndex_def newIndex_def)
next
  case False
  then show ?thesis using that foldl_addCounts_distinct [of "[]"]
    by (simp add: buildCompactTrigramIndex_def newIndex_def Let_def foldl_map_arg)
qed

text \<open>
  C7: A gram posting section read back through the memory-mapped reader gives every gram exactly the record numbers the
  in-memory index was built with: the live records whose name has the gram, ascending, and nothing for a gram no live
  record has. The iterator announces their number, and its membership test, which searches the block metadata and decodes
  at most one block, always succeeds and agrees with the posting. The section must be shorter than 4 GiB, which its 32-bit
  counters cannot exceed.
\<close>

theorem gram_section_lookup_exact:
  fixes gram magic :: u32
  assumes "srcCount src \<le> 2 ^ 32"
    and "length (encodeGramPostingSectionWithMetadata (buildCompactTrigramIndex src) ranks magic) < 2 ^ 32"
  defines "sec \<equiv> encodeGramPostingSectionWithMetadata (buildCompactTrigramIndex src) ranks magic"
    and "ids \<equiv> map (of_nat :: nat \<Rightarrow> u32) (filter (\<lambda>rid. \<not> srcDeleted src rid \<and> gram \<in> set (appendUniqueTrigramKeys [] (srcText src rid)))
        [0..<srcCount src])"
  shows "gramPosting sec gram = ids \<and>
    (case gramPostingIterator sec gram of
      None \<Rightarrow> ids = []
    | Some (it, n) \<Rightarrow> n = length ids \<and> (\<forall>t. (fst (containsID it t) \<longleftrightarrow> t \<in> set ids) \<and> fst (snd (containsID it t))))"
proof -
  let ?ti = "buildCompactTrigramIndex src" and ?keys = "appendUniqueTrigramKeys []"
  note ix = buildCompactTrigramIndex_indexes [of src]
  note post = trigramPostingIDs_exact [OF ix assms(1)]
  obtain cs where cs: "counts ?ti = Some cs" "distinct (map fst cs)" "omitted ?ti = []"
    using buildCompactTrigramIndex_counts by blast
  let ?ks = "sort (map fst (filter (\<lambda>(gram, n). n > 0) (countPairs ?ti)))"
  let ?posts = "postsOf ?ti ?ks"
  have "countForGram ?ti g = length (hits src ?keys g 0 (srcCount src))" for g using ix by (simp add: indexes_def)
  then have key: "g \<in> set ?ks" if "trigramPostingIDs ?ti g \<noteq> []" for g
    using that cs(1) post(1) [of g] by (force simp: countForGram_def countOf_def countPairs_def split: option.splits dest: map_of_SomeD)
  have ids: "trigramPostingIDs ?ti gram = ids" by (simp add: post(1) ids_def hits_def)
  have mem: "gram \<in> set (map fst ?posts) \<longleftrightarrow> ids \<noteq> []" "\<forall>p\<in>set ?posts. snd p \<noteq> [] \<and> sorted_wrt (<) (snd p)"
    "ids \<noteq> [] \<Longrightarrow> (gram, ids) \<in> set ?posts"
    using key [of gram] post(2) by (force simp: postsOf_def ids)+
  show ?thesis
  proof (cases "?posts = []")
    case True
    then have "sec = []" by (simp add: sec_def encode_section Let_def cs(3))
    then show ?thesis using mem True by (simp add: gramPosting_def gramPostingIterator_def)
  next
    case False
    then have sec: "sec = sectionBytes ranks ?posts (omittedTail ?ti magic)" by (simp add: sec_def encode_section Let_def)
    have "distinct ?ks" using cs distinct_map_filter [of fst cs] by (simp add: countPairs_def)
    then have "sorted_wrt (<) ?ks" by (simp add: strict_sorted_iff)
    then have "sorted_wrt (<) (map fst ?posts)"
      by (simp add: postsOf_def filter_map comp_def sorted_wrt_filter)
    then have fits: "sectionFits ?posts"
      using assms(2) mem(2) sec unfolding sec_def by (metis sectionFits_small)
    show ?thesis
    proof (cases "ids = []")
      case True
      with mem(1) section_absent [OF fits, of gram ranks "omittedTail ?ti magic"] show ?thesis
        by (simp add: sec gramPosting_def)
    next
      case False
      from section_lookup [OF fits mem(3) [OF False], of ranks "omittedTail ?ti magic"] show ?thesis
        by (auto simp: sec)
    qed
  qed
qed

lemma chunksOf_single: "ids \<noteq> [] \<Longrightarrow> length ids \<le> 1024 \<Longrightarrow> chunksOf ids = [ids]"
  by (subst chunksOf.simps) (simp add: blockSize_def chunksOf.simps)

definition logSource :: gramSource where
  "logSource = \<lparr>srcCount = 3, srcDeleted = (\<lambda>rid. rid = 1), srcText = (\<lambda>rid. [''log'', ''log'', ''log''] ! rid)\<rparr>"

lemma logSource_index:
  defines "seg \<equiv> mkSegment 0 3 [(7106407, [0, 2])]"
  shows "buildCompactTrigramIndex logSource = (newIndex 3 3)\<lparr>segments := [seg], postingBytes := segBytes seg, counts := Some [(7106407, 2)]\<rparr>"
proof -
  have "trigramBuildChunks 3 = [(0, 3)]"
    by (simp add: trigramBuildChunks_def trigramSegmentTargetRecords_def chunksFrom.simps)
  moreover have "buildCompactTrigramSegment logSource 0 3 = seg" unfolding seg_def by code_simp
  moreover have "keepSegment seg" "addCounts [] (segPostingCounts seg) = [(7106407, 2)]" unfolding seg_def by code_simp+
  moreover have "srcCount logSource = 3" by (simp add: logSource_def)
  ultimately show ?thesis by (simp add: buildCompactTrigramIndex_def Let_def)
qed

lemma logSource_section: "length (encodeGramPostingSectionWithMetadata (buildCompactTrigramIndex logSource) ranks magic) = 70"
proof -
  let ?ti = "buildCompactTrigramIndex logSource"
  have ids: "trigramPostingIDs ?ti 7106407 = [0, 2]" unfolding logSource_index by code_simp
  have "countPairs ?ti = [(7106407, 2)]" "omittedTail ?ti magic = putUint 4 magic @ putUint 4 (0 :: u32)"
    by (simp_all add: logSource_index newIndex_def countPairs_def omittedTail_def del: putUint.simps)
  moreover have "length (encodeDeltaUvarint32 [0, 2]) = 2" by code_simp
  ultimately show ?thesis
    by (simp add: encode_section postsOf_def ids sectionBytes_def Let_def allChunks_def blobOf_def chunksOf_single table_length [where k = 16]
        table_length [where k = 28] del: putUint.simps)
qed

theorem gram_section_lookup_exact_witness:
  "gramPosting (encodeGramPostingSectionWithMetadata (buildCompactTrigramIndex logSource) [2, 1, 0] 7) 7106407 = [0, 2]"
proof -
  have "filter (\<lambda>rid. \<not> srcDeleted logSource rid \<and> 7106407 \<in> set (appendUniqueTrigramKeys [] (srcText logSource rid)))
      [0..<srcCount logSource] = [0, 2]"
    by code_simp
  then show ?thesis
    using gram_section_lookup_exact [of logSource "[2, 1, 0]" 7 7106407]
    by (simp add: logSource_section) (simp add: logSource_def)
qed

end
