(* ===== verification/PostingCache.thy ===== *)
theory PostingCache
  imports PostingSection
begin

text \<open>
  The cache of decoded posting blocks (\<open>index_mmap.go\<close>: \<open>postingBlockCacheMaxBytes\<close>, \<open>postingBlockLRU.get\<close> and \<open>add\<close>,
  \<open>postingBlockCacheKey\<close>, the cached \<open>decodePostingBlock\<close> and the block iterator that calls it).

  The cache keeps its entries in a list, the most recently used first; the map of the code points into that list and is
  the search by key here. A key is the address of the section's first byte, the section's length and the block's number;
  the contents of the mapped memory are a function of address and length. A locale states what a reader needs of a cache:
  it holds only what was stored. Under the condition that the cache agrees with the mapped memory, reading through it
  gives what reading without it gives and keeps the condition. The condition is not kept when a section is unmapped and
  another one of the same length is mapped at its address, since no operation removes the entries of an unmapped section.
\<close>

section \<open>The cache\<close>

record postingBlockCacheKey =
  kBase :: u64
  kBytes :: nat
  kBlock :: nat

record postingBlockCacheEntry =
  ceKey :: postingBlockCacheKey
  ceIds :: "u32 list"
  ceBytes :: int

record postingBlockLRU =
  ll :: "postingBlockCacheEntry list"
  lruBytes :: int

text \<open>The setting is the environment variable as \<open>ParseInt\<close> reads it, none when it is empty or not a number.\<close>

definition postingBlockCacheMaxBytes :: "int option \<Rightarrow> int" where
  "postingBlockCacheMaxBytes setting =
    (let mb = (case setting of None \<Rightarrow> 128 | Some parsed \<Rightarrow> parsed)
     in if mb \<le> 0 then 0 else (if mb > 16 * 1024 then 16 * 1024 else mb) * 1024 * 1024)"

definition lruFind :: "postingBlockCacheKey \<Rightarrow> postingBlockLRU \<Rightarrow> postingBlockCacheEntry option" where
  "lruFind key c = List.find (\<lambda>e. ceKey e = key) (ll c)"

definition moveToFront :: "postingBlockCacheEntry \<Rightarrow> postingBlockLRU \<Rightarrow> postingBlockLRU" where
  "moveToFront e c = c\<lparr>ll := e # filter (\<lambda>x. ceKey x \<noteq> ceKey e) (ll c)\<rparr>"

definition lruGet :: "int option \<Rightarrow> postingBlockCacheKey \<Rightarrow> postingBlockLRU \<Rightarrow> u32 list option \<times> postingBlockLRU" where
  "lruGet setting key c =
    (if postingBlockCacheMaxBytes setting \<le> 0 then (None, c)
     else case lruFind key c of
       None \<Rightarrow> (None, c)
     | Some e \<Rightarrow> (Some (ceIds e), moveToFront e c))"

function evict :: "int \<Rightarrow> postingBlockLRU \<Rightarrow> postingBlockLRU" where
  "evict maxBytes c =
    (if lruBytes c > maxBytes \<and> ll c \<noteq> []
     then evict maxBytes (c\<lparr>ll := butlast (ll c), lruBytes := lruBytes c - ceBytes (last (ll c))\<rparr>)
     else c)"
  by pat_completeness auto
termination
  by (relation "measure (\<lambda>(m, c). length (ll c))") auto

declare evict.simps [simp del]

definition lruAdd :: "int option \<Rightarrow> postingBlockCacheKey \<Rightarrow> u32 list \<Rightarrow> postingBlockLRU \<Rightarrow> postingBlockLRU" where
  "lruAdd setting key ids c =
    (let maxBytes = postingBlockCacheMaxBytes setting; entryBytes = int (length ids) * 4
     in if maxBytes \<le> 0 \<or> length ids = 0 then c
        else if entryBytes > maxBytes then c
        else evict maxBytes
          (case lruFind key c of
             Some e \<Rightarrow>
               (moveToFront (e\<lparr>ceIds := ids, ceBytes := entryBytes\<rparr>) c)\<lparr>lruBytes := lruBytes c + (entryBytes - ceBytes e)\<rparr>
           | None \<Rightarrow>
               c\<lparr>ll := \<lparr>ceKey = key, ceIds = ids, ceBytes = entryBytes\<rparr> # ll c, lruBytes := lruBytes c + entryBytes\<rparr>))"

section \<open>Reading through the cache\<close>

definition cacheKey :: "u64 \<Rightarrow> bytes \<Rightarrow> nat \<Rightarrow> postingBlockCacheKey option" where
  "cacheKey base dat k = (if length dat = 0 then None else Some \<lparr>kBase = base, kBytes = length dat, kBlock = k\<rparr>)"

definition decodePostingBlockCached ::
  "int option \<Rightarrow> u64 \<Rightarrow> bytes \<Rightarrow> nat \<Rightarrow> nat \<Rightarrow> nat \<Rightarrow> nat \<Rightarrow> postingBlockLRU \<Rightarrow> u32 list option \<times> postingBlockLRU" where
  "decodePostingBlockCached setting base dat k metaStart blobStart blobLen c =
    (let off = metaStart + k * 28
     in if off + 28 > length dat then (None, c)
        else
          let blockOffset = unat (uintAt 8 dat off :: u64); blockLength = unat (uintAt 4 dat (off + 8) :: u32);
              n = unat (uintAt 4 dat (off + 12) :: u32);
              encoded = take blockLength (drop (blobStart + blockOffset) dat)
          in if blockOffset + blockLength > blobLen then (None, c)
             else case cacheKey base dat k of
               Some key \<Rightarrow>
                 (case lruGet setting key c of
                    (Some cached, c') \<Rightarrow> (Some cached, c')
                  | (None, c') \<Rightarrow> (let decoded = decodeDeltaUvarint32 encoded n in (Some decoded, lruAdd setting key decoded c')))
             | None \<Rightarrow> (Some (decodeDeltaUvarint32 encoded n), c))"

definition blockAtCached :: "int option \<Rightarrow> u64 \<Rightarrow> postingBlockIterator \<Rightarrow> nat \<Rightarrow> postingBlockLRU \<Rightarrow>
    (u32 list \<times> postingBlockMeta) option \<times> postingBlockLRU" where
  "blockAtCached setting base it k c =
    (case blockMetaAt it k of
      None \<Rightarrow> (None, c)
    | Some b \<Rightarrow>
        (case decodePostingBlockCached setting base (pData it) k (pMetaStart it) (pBlobStart it) (pBlobLen it) c of
           (ids, c') \<Rightarrow> (map_option (\<lambda>ids. (ids, b)) ids, c')))"

definition nextBlockCached :: "int option \<Rightarrow> u64 \<Rightarrow> postingBlockIterator \<Rightarrow> postingBlockLRU \<Rightarrow>
    (u32 list \<times> postingBlockMeta) option \<times> postingBlockIterator \<times> postingBlockLRU" where
  "nextBlockCached setting base it c =
    (if pNext it \<ge> pEnd it then (None, it, c)
     else case blockAtCached setting base it (pNext it) c of (b, c') \<Rightarrow> (b, it\<lparr>pNext := pNext it + 1\<rparr>, c'))"

function materializeCached :: "int option \<Rightarrow> u64 \<Rightarrow> postingBlockIterator \<Rightarrow> u32 list \<Rightarrow> postingBlockLRU \<Rightarrow> u32 list \<times> postingBlockLRU" where
  "materializeCached setting base it out c =
    (if pNext it < pEnd it
     then case nextBlockCached setting base it c of
            (None, it', c') \<Rightarrow> ([], c')
          | (Some (ids, b), it', c') \<Rightarrow> materializeCached setting base it' (out @ ids) c'
     else (out, c))"
  by pat_completeness auto
termination
  by (relation "measure (\<lambda>(s, b, it, out, c). pEnd it - pNext it)") (auto simp: nextBlockCached_def split: if_splits prod.splits)

declare materializeCached.simps [simp del]

definition gramPostingCached :: "int option \<Rightarrow> u64 \<Rightarrow> bytes \<Rightarrow> u32 \<Rightarrow> postingBlockLRU \<Rightarrow> u32 list \<times> postingBlockLRU" where
  "gramPostingCached setting base dat gram c =
    (case gramPostingIterator dat gram of
       None \<Rightarrow> ([], c)
     | Some (it, n) \<Rightarrow> if n = 0 then ([], c) else materializeCached setting base it [] c)"

definition containsIDCached :: "int option \<Rightarrow> u64 \<Rightarrow> postingBlockIterator \<Rightarrow> u32 \<Rightarrow> postingBlockLRU \<Rightarrow>
    (bool \<times> bool \<times> int \<times> bool) \<times> postingBlockLRU" where
  "containsIDCached setting base it target c =
    (if pNext it \<ge> pEnd it then ((False, True, - 1, False), c)
     else case containsSearch it target (pNext it) (pEnd it) of
       None \<Rightarrow> ((False, False, - 1, False), c)
     | Some lo \<Rightarrow>
         if lo \<ge> pEnd it then ((False, True, - 1, False), c)
         else case blockMetaAt it lo of
           None \<Rightarrow> ((False, False, - 1, False), c)
         | Some b \<Rightarrow>
             if target < mMinID b \<or> target > mMaxID b then ((False, True, int lo, False), c)
             else case blockAtCached setting base it lo c of
               (None, c') \<Rightarrow> ((False, False, int lo, False), c')
             | (Some (ids, b), c') \<Rightarrow>
                 (let pos = sortSearch (length ids) (\<lambda>i. ids ! i \<ge> target)
                  in ((pos < length ids \<and> ids ! pos = target, True, int lo, True), c')))"

section \<open>The interface\<close>

lemma map_le_SomeD: "m \<subseteq>\<^sub>m n \<Longrightarrow> m j = Some w \<Longrightarrow> n j = Some w"
  unfolding map_le_def by (metis domI)

text \<open>What a reader needs of a cache: it holds only what was stored in it.\<close>

locale block_cache =
  fixes get :: "'k \<Rightarrow> 'c \<Rightarrow> 'v option \<times> 'c" and add :: "'k \<Rightarrow> 'v \<Rightarrow> 'c \<Rightarrow> 'c"
    and contents :: "'c \<Rightarrow> 'k \<Rightarrow> 'v option" and valid :: "'c \<Rightarrow> bool"
  assumes get_hit: "valid c \<Longrightarrow> get k c = (Some v, c') \<Longrightarrow> contents c k = Some v"
    and get_contents: "valid c \<Longrightarrow> get k c = (r, c') \<Longrightarrow> valid c' \<and> contents c' = contents c"
    and add_valid: "valid c \<Longrightarrow> valid (add k v c)"
    and add_contents: "valid c \<Longrightarrow> contents (add k v c) j = Some w \<Longrightarrow> contents c j = Some w \<or> j = k \<and> w = v"
begin

lemma memo_hit:
  assumes "valid c" "contents c \<subseteq>\<^sub>m f" "get k c = (Some v, c')"
  shows "f k = Some v \<and> valid c' \<and> contents c' \<subseteq>\<^sub>m f"
  using get_hit [OF assms(1,3)] get_contents [OF assms(1,3)] assms(2) by (auto dest: map_le_SomeD)

lemma memo_miss:
  assumes "valid c" "contents c \<subseteq>\<^sub>m f" "get k c = (None, c')" "f k = Some v"
  shows "valid (add k v c') \<and> contents (add k v c') \<subseteq>\<^sub>m f"
proof -
  have c': "valid c'" "contents c' = contents c" using get_contents [OF assms(1,3)] by simp_all
  have "f j = Some w" if "contents (add k v c') j = Some w" for j w
    using add_contents [OF c'(1) that] assms(2,4) c'(2) by (metis domI map_le_def)
  then show ?thesis using add_valid [OF c'(1)] by (auto simp: map_le_def)
qed

end

text \<open>Every entry under its own key, its size accounted.\<close>

definition lruOk :: "postingBlockLRU \<Rightarrow> bool" where
  "lruOk c \<longleftrightarrow> distinct (map ceKey (ll c)) \<and> lruBytes c = sum_list (map ceBytes (ll c)) \<and>
     list_all (\<lambda>e. ceBytes e = int (length (ceIds e)) * 4) (ll c)"

definition lruContents :: "postingBlockLRU \<Rightarrow> postingBlockCacheKey \<Rightarrow> u32 list option" where
  "lruContents c = map_of (map (\<lambda>e. (ceKey e, ceIds e)) (ll c))"

lemma lruFind_Some: "lruFind k c = Some e \<Longrightarrow> e \<in> set (ll c) \<and> ceKey e = k"
  unfolding lruFind_def by (metis (mono_tags, lifting) find_Some_iff nth_mem)

lemma lruContents_find: "lruContents c k = map_option ceIds (lruFind k c)"
proof -
  have "map_of (map (\<lambda>e. (ceKey e, ceIds e)) es) k = map_option ceIds (List.find (\<lambda>e. ceKey e = k) es)" for es
    by (induction es) auto
  then show ?thesis by (simp add: lruContents_def lruFind_def)
qed

lemma sum_remove:
  fixes size :: "'e \<Rightarrow> int" and key :: "'e \<Rightarrow> 'k"
  assumes "distinct (map key es)" "e \<in> set es"
  shows "sum_list (map size (filter (\<lambda>x. key x \<noteq> key e) es)) = sum_list (map size es) - size e"
  using assms
proof (induction es)
  case (Cons x es)
  show ?case
  proof (cases "x = e")
    case True
    with Cons.prems(1) have "filter (\<lambda>y. key y \<noteq> key e) es = es" by (auto simp: filter_id_conv rev_image_eqI)
    with True show ?thesis by simp
  next
    case False
    with Cons.prems have "e \<in> set es" "key x \<noteq> key e" by auto
    with Cons show ?thesis by simp
  qed
qed simp

lemma moveToFront_keeps:
  assumes "lruOk c" "e \<in> set (ll c)" "ceKey e' = ceKey e" "ceBytes e' = int (length (ceIds e')) * 4"
  defines "c' \<equiv> (moveToFront e' c)\<lparr>lruBytes := lruBytes c + (ceBytes e' - ceBytes e)\<rparr>"
  shows "lruOk c' \<and> lruContents c' = (lruContents c)(ceKey e \<mapsto> ceIds e')"
proof
  have "distinct (map ceKey (filter (\<lambda>x. ceKey x \<noteq> ceKey e) (ll c)))"
    using assms(1) by (simp add: lruOk_def distinct_map_filter)
  then show "lruOk c'"
    using assms sum_remove [of ceKey "ll c" e ceBytes] by (auto simp: lruOk_def moveToFront_def c'_def list_all_iff)
  have keep: "map_of (map (\<lambda>e. (ceKey e, ceIds e)) (filter (\<lambda>x. ceKey x \<noteq> ceKey e) es)) k =
      (if k = ceKey e then None else map_of (map (\<lambda>e. (ceKey e, ceIds e)) es) k)" for es k
    by (induction es) auto
  show "lruContents c' = (lruContents c)(ceKey e \<mapsto> ceIds e')"
    using assms(3) by (simp add: lruContents_def moveToFront_def c'_def fun_eq_iff keep)
qed

lemma lruOk_nonneg: "lruOk c \<Longrightarrow> e \<in> set (ll c) \<Longrightarrow> 0 \<le> ceBytes e"
  by (auto simp: lruOk_def list_all_iff)

lemma lruOk_butlast:
  assumes "lruOk c" "ll c \<noteq> []"
  defines "c' \<equiv> c\<lparr>ll := butlast (ll c), lruBytes := lruBytes c - ceBytes (last (ll c))\<rparr>"
  shows "lruOk c' \<and> lruContents c' \<subseteq>\<^sub>m lruContents c"
proof
  have l: "ll c = butlast (ll c) @ [last (ll c)]" using assms(2) by simp
  have "sum_list (map ceBytes (ll c)) = sum_list (map ceBytes (butlast (ll c))) + ceBytes (last (ll c))"
    by (subst l) simp
  moreover have "distinct (map ceKey (butlast (ll c)))"
    using assms(1) by (simp add: lruOk_def map_butlast distinct_butlast)
  ultimately show "lruOk c'" using assms(1) by (auto simp: lruOk_def c'_def list_all_iff dest: in_set_butlastD)
  show "lruContents c' \<subseteq>\<^sub>m lruContents c"
    unfolding lruContents_def c'_def by (subst (2) l) (auto simp: map_le_def map_add_def split: option.split)
qed

text \<open>Evicting from the back ends within the budget and keeps the newest entry when that fits alone.\<close>

lemma evict_keeps:
  "lruOk c \<Longrightarrow> lruOk (evict m c) \<and> lruContents (evict m c) \<subseteq>\<^sub>m lruContents c \<and> (0 \<le> m \<longrightarrow> lruBytes (evict m c) \<le> m)"
proof (induction m c rule: evict.induct)
  case (1 m c)
  show ?case
  proof (cases "lruBytes c > m \<and> ll c \<noteq> []")
    case True
    note small = lruOk_butlast [OF 1(2) conjunct2 [OF True]]
    from 1(1) [OF True conjunct1 [OF small]] conjunct2 [OF small] True show ?thesis
      by (subst (1 2 3) evict.simps) (auto intro: map_le_trans)
  next
    case False
    with 1(2) show ?thesis by (subst (1 2 3) evict.simps) (auto simp: lruOk_def)
  qed
qed

lemma evict_newest: "lruOk c \<Longrightarrow> ll c = e # es \<Longrightarrow> ceBytes e \<le> m \<Longrightarrow> \<exists>es'. ll (evict m c) = e # es'"
proof (induction m c arbitrary: es rule: evict.induct)
  case (1 m c)
  show ?case
  proof (cases "lruBytes c > m \<and> ll c \<noteq> []")
    case True
    have "es \<noteq> []"
    proof
      assume "es = []"
      with 1(2-4) True show False by (simp add: lruOk_def)
    qed
    then have "ll (c\<lparr>ll := butlast (ll c), lruBytes := lruBytes c - ceBytes (last (ll c))\<rparr>) = e # butlast es"
      using 1(3) by simp
    from 1(1) [OF True conjunct1 [OF lruOk_butlast [OF 1(2) conjunct2 [OF True]]] this 1(4)] True show ?thesis
      by (subst evict.simps) simp
  next
    case False
    with 1(3) show ?thesis by (subst evict.simps) simp
  qed
qed

lemma lruAdd_before_evict:
  fixes key :: postingBlockCacheKey and ids :: "u32 list"
  assumes "lruOk c"
  defines "c' \<equiv> (case lruFind key c of
      Some e \<Rightarrow> (moveToFront (e\<lparr>ceIds := ids, ceBytes := int (length ids) * 4\<rparr>) c)
        \<lparr>lruBytes := lruBytes c + (int (length ids) * 4 - ceBytes e)\<rparr>
    | None \<Rightarrow> c\<lparr>ll := \<lparr>ceKey = key, ceIds = ids, ceBytes = int (length ids) * 4\<rparr> # ll c, lruBytes := lruBytes c + int (length ids) * 4\<rparr>)"
  shows "lruOk c' \<and> lruContents c' = (lruContents c)(key \<mapsto> ids) \<and>
    (\<exists>es. ll c' = \<lparr>ceKey = key, ceIds = ids, ceBytes = int (length ids) * 4\<rparr> # es)"
proof (cases "lruFind key c")
  case None
  then have "key \<notin> ceKey ` set (ll c)" by (auto simp: lruFind_def find_None_iff)
  with assms(1) None show ?thesis by (auto simp: c'_def lruOk_def lruContents_def)
next
  case (Some e)
  note e = lruFind_Some [OF Some]
  show ?thesis
    using moveToFront_keeps [OF assms(1) conjunct1 [OF e], of "e\<lparr>ceIds := ids, ceBytes := int (length ids) * 4\<rparr>"] Some e
    by (cases e) (simp add: c'_def moveToFront_def)
qed

lemma lruAdd_cases:
  assumes "lruOk c"
  obtains "lruAdd setting key ids c = c"
  | c' where "lruAdd setting key ids c = evict (postingBlockCacheMaxBytes setting) c'" "lruOk c'"
    "lruContents c' = (lruContents c)(key \<mapsto> ids)" "\<exists>es. ll c' = \<lparr>ceKey = key, ceIds = ids, ceBytes = int (length ids) * 4\<rparr> # es"
    "int (length ids) * 4 \<le> postingBlockCacheMaxBytes setting" "0 < postingBlockCacheMaxBytes setting"
proof (cases "postingBlockCacheMaxBytes setting \<le> 0 \<or> length ids = 0 \<or> int (length ids) * 4 > postingBlockCacheMaxBytes setting")
  case True
  then have "lruAdd setting key ids c = c" by (auto simp: lruAdd_def Let_def)
  then show ?thesis by (rule that(1))
next
  case False
  with lruAdd_before_evict [OF assms, where key = key and ids = ids] show ?thesis
    by (intro that(2)) (auto simp: lruAdd_def Let_def)
qed

lemma lruAdd_ok: "lruOk c \<Longrightarrow> lruOk (lruAdd setting key ids c)"
  using lruAdd_cases [of c setting key ids] evict_keeps by metis

lemma lruAdd_contents:
  assumes "lruOk c" "lruContents (lruAdd setting key ids c) j = Some w"
  shows "lruContents c j = Some w \<or> j = key \<and> w = ids"
proof (cases rule: lruAdd_cases [OF assms(1), of setting key ids])
  case (2 c')
  have "lruContents c' j = Some w"
    using evict_keeps [OF 2(2), of "postingBlockCacheMaxBytes setting"] assms(2) unfolding 2(1) by (blast dest: map_le_SomeD)
  then show ?thesis using 2(3) by (auto split: if_splits)
qed (use assms in simp)

interpretation lru: block_cache "lruGet setting" "lruAdd setting" lruContents lruOk for setting
proof
  fix c k v c' assume "lruOk c" "lruGet setting k c = (Some v, c')"
  then show "lruContents c k = Some v" by (auto simp: lruGet_def lruContents_find split: if_splits option.splits)
next
  fix c k r c' assume c: "lruOk c" and get: "lruGet setting k c = (r, c')"
  show "lruOk c' \<and> lruContents c' = lruContents c"
  proof (cases "postingBlockCacheMaxBytes setting \<le> 0 \<or> lruFind k c = None")
    case True
    with get have "c' = c" by (auto simp: lruGet_def split: if_splits)
    with c show ?thesis by simp
  next
    case False
    then obtain e where e: "lruFind k c = Some e" by auto
    have "c' = moveToFront e c" using False e get by (auto simp: lruGet_def)
    moreover have "lruContents c (ceKey e) = Some (ceIds e)" using lruContents_find [of c k] e lruFind_Some [OF e] by simp
    ultimately show ?thesis
      using moveToFront_keeps [OF c conjunct1 [OF lruFind_Some [OF e]], of e] c lruFind_Some [OF e]
      by (auto simp: lruOk_def list_all_iff moveToFront_def fun_upd_idem)
  qed
qed (auto intro: lruAdd_ok dest: lruAdd_contents)

section \<open>Agreement with the mapped memory\<close>

definition sectionLayout :: "bytes \<Rightarrow> nat \<times> nat \<times> nat" where
  "sectionLayout dat =
    (let entryCount = unat (uintAt 4 dat 0 :: u32); keyBlobLen = unat (uintAt 4 dat 4 :: u32);
         blockCount = unat (uintAt 4 dat 8 :: u32); blockBlobLen = unat (uintAt 4 dat 12 :: u32);
         metaStart = 16 + entryCount * (if keyBlobLen = 0 then 16 else 20)
     in (metaStart, metaStart + blockCount * 28 + keyBlobLen, blockBlobLen))"

definition storedBlock :: "(u64 \<times> nat \<Rightarrow> bytes) \<Rightarrow> postingBlockCacheKey \<Rightarrow> u32 list option" where
  "storedBlock mem key =
    (let dat = mem (kBase key, kBytes key)
     in case sectionLayout dat of (metaStart, blobStart, blobLen) \<Rightarrow> decodePostingBlock dat (kBlock key) metaStart blobStart blobLen)"

definition coherent :: "(u64 \<times> nat \<Rightarrow> bytes) \<Rightarrow> int option \<Rightarrow> postingBlockLRU \<Rightarrow> bool" where
  "coherent mem setting c \<longleftrightarrow> lruOk c \<and> lruContents c \<subseteq>\<^sub>m storedBlock mem \<and> lruBytes c \<le> postingBlockCacheMaxBytes setting"

definition wellPlaced :: "postingBlockIterator \<Rightarrow> bool" where
  "wellPlaced it \<longleftrightarrow> sectionLayout (pData it) = (pMetaStart it, pBlobStart it, pBlobLen it)"

lemma gramPostingIterator_placed: "gramPostingIterator dat gram = Some (it, n) \<Longrightarrow> wellPlaced it \<and> pData it = dat"
  by (auto simp: gramPostingIterator_def wellPlaced_def sectionLayout_def Let_def split: if_splits)

lemma wellPlaced_next [simp]: "wellPlaced (it\<lparr>pNext := n\<rparr>) = wellPlaced it"
  by (simp add: wellPlaced_def)

lemma maxBytes_nonneg: "0 \<le> postingBlockCacheMaxBytes setting"
  by (simp add: postingBlockCacheMaxBytes_def Let_def split: option.split)

lemma lruGet_bytes: "lruBytes (snd (lruGet setting k c)) = lruBytes c"
  by (simp add: lruGet_def moveToFront_def split: option.split)

lemma lruAdd_bytes:
  assumes "lruOk c" "lruBytes c \<le> postingBlockCacheMaxBytes setting"
  shows "lruBytes (lruAdd setting key ids c) \<le> postingBlockCacheMaxBytes setting"
proof (cases rule: lruAdd_cases [OF assms(1), of setting key ids])
  case (2 c')
  with evict_keeps [OF 2(2), of "postingBlockCacheMaxBytes setting"] show ?thesis by simp
qed (use assms in simp)

text \<open>A block just stored is found again, when it is not empty and fits the budget.\<close>

lemma lruGet_lruAdd:
  assumes "lruOk c" "ids \<noteq> []" "int (length ids) * 4 \<le> postingBlockCacheMaxBytes setting"
  shows "fst (lruGet setting key (lruAdd setting key ids c)) = Some ids"
proof -
  let ?m = "postingBlockCacheMaxBytes setting"
  have pos: "0 < int (length ids) * 4" using assms(2) by simp
  with assms(3) have m: "0 < ?m" by linarith
  obtain c' es where c': "lruAdd setting key ids c = evict ?m c'" "lruOk c'"
    "ll c' = \<lparr>ceKey = key, ceIds = ids, ceBytes = int (length ids) * 4\<rparr> # es"
    using lruAdd_before_evict [OF assms(1), where key = key and ids = ids] assms(2,3) m by (auto simp: lruAdd_def Let_def)
  obtain es' where "ll (evict ?m c') = \<lparr>ceKey = key, ceIds = ids, ceBytes = int (length ids) * 4\<rparr> # es'"
    using evict_newest [OF c'(2,3), of ?m] assms(3) by auto
  then show ?thesis using m by (simp add: c'(1) lruGet_def lruFind_def)
qed

lemma decodeCached_exact:
  assumes "coherent mem setting c" "mem (base, length dat) = dat" "sectionLayout dat = (metaStart, blobStart, blobLen)"
    "decodePostingBlockCached setting base dat k metaStart blobStart blobLen c = (r, c')"
  shows "r = decodePostingBlock dat k metaStart blobStart blobLen \<and> coherent mem setting c'"
proof (cases "decodePostingBlock dat k metaStart blobStart blobLen")
  case None
  with assms(1,4) show ?thesis
    by (auto simp: decodePostingBlock_def decodePostingBlockCached_def Let_def split: if_splits)
next
  case (Some ids)
  then have dat: "dat \<noteq> []" by (auto simp: decodePostingBlock_def Let_def split: if_splits)
  define key where "key = \<lparr>kBase = base, kBytes = length dat, kBlock = k\<rparr>"
  have stored: "storedBlock mem key = Some ids" using assms(2,3) Some by (simp add: storedBlock_def key_def)
  have read: "(r, c') = (case lruGet setting key c of
      (Some cached, c') \<Rightarrow> (Some cached, c') | (None, c') \<Rightarrow> (Some ids, lruAdd setting key ids c'))"
    using assms(4) Some dat
    by (auto simp: decodePostingBlock_def decodePostingBlockCached_def cacheKey_def key_def Let_def
        split: if_splits prod.splits option.splits)
  have ok: "lruOk c" "lruContents c \<subseteq>\<^sub>m storedBlock mem" "lruBytes c \<le> postingBlockCacheMaxBytes setting"
    using assms(1) by (simp_all add: coherent_def)
  show ?thesis
  proof (cases "lruGet setting key c")
    case (Pair o' d)
    have bytes: "lruBytes d \<le> postingBlockCacheMaxBytes setting" using lruGet_bytes [of setting key c] ok(3) Pair by simp
    show ?thesis
    proof (cases o')
      case None
      note miss = Pair [unfolded None]
      have d: "lruOk d" using lru.get_contents [OF ok(1) miss] by simp
      from lru.memo_miss [OF ok(1,2) miss stored] lruAdd_bytes [OF d bytes, of key ids] read Some miss
      show ?thesis by (simp add: coherent_def)
    next
      case (Some v)
      note hit = Pair [unfolded Some]
      from lru.memo_hit [OF ok(1,2) hit] bytes read stored hit \<open>decodePostingBlock dat k metaStart blobStart blobLen = Some ids\<close>
      show ?thesis by (simp add: coherent_def)
    qed
  qed
qed

lemma blockAtCached_exact:
  assumes "coherent mem setting c" "mem (base, length (pData it)) = pData it" "wellPlaced it"
  shows "fst (blockAtCached setting base it k c) = blockAt it k \<and> coherent mem setting (snd (blockAtCached setting base it k c))"
proof (cases "decodePostingBlockCached setting base (pData it) k (pMetaStart it) (pBlobStart it) (pBlobLen it) c")
  case (Pair r c')
  from decodeCached_exact [OF assms(1,2) assms(3) [unfolded wellPlaced_def] Pair] Pair assms(1) show ?thesis
    by (auto simp: blockAtCached_def blockAt_def split: option.split)
qed

lemma materializeCached_exact:
  assumes "coherent mem setting c" "mem (base, length (pData it)) = pData it" "wellPlaced it"
  shows "fst (materializeCached setting base it out c) = materializeLoop it out \<and>
    coherent mem setting (snd (materializeCached setting base it out c))"
  using assms
proof (induction it out arbitrary: c rule: materializeLoop.induct)
  case (1 it out)
  show ?case
  proof (cases "pNext it < pEnd it")
    case True
    obtain r c' where r: "blockAtCached setting base it (pNext it) c = (r, c')" by fastforce
    note block = blockAtCached_exact [OF 1(2-4), of "pNext it", unfolded r, simplified]
    show ?thesis
    proof (cases r)
      case None
      with True r block show ?thesis
        by (subst (1 2) materializeCached.simps, subst materializeLoop.simps) (simp add: nextBlockCached_def nextBlock_def)
    next
      case (Some p)
      obtain ids b where p: "p = (ids, b)" by fastforce
      have at: "blockAt it (pNext it) = Some (ids, b)" "coherent mem setting c'" using block Some p by simp_all
      then have "nextBlock it = (Some (ids, b), it\<lparr>pNext := pNext it + 1\<rparr>)" using True by (simp add: nextBlock_def)
      from 1(1) [OF True this [symmetric], simplified, of "(ids, b)" ids b c'] 1(3,4) True r [unfolded Some p] at this show ?thesis
        by (subst (1 2) materializeCached.simps, subst materializeLoop.simps) (simp add: nextBlockCached_def)
    qed
  next
    case False
    with 1 show ?thesis by (subst (1 2) materializeCached.simps, subst materializeLoop.simps) simp
  qed
qed

text \<open>
  C19: The cache of decoded blocks is transparent. When its entries agree with the mapped memory, looking a gram up and
  testing membership through it return what reading the section itself returns, whatever the budget, and the cache
  afterwards still agrees with the memory, holds one entry per key and stays within its budget.
\<close>

theorem posting_cache_transparent:
  assumes "coherent mem setting c" "mem (base, length dat) = dat"
  shows "fst (gramPostingCached setting base dat gram c) = gramPosting dat gram \<and>
    coherent mem setting (snd (gramPostingCached setting base dat gram c)) \<and>
    (case gramPostingIterator dat gram of
       None \<Rightarrow> True
     | Some (it, n) \<Rightarrow>
         fst (containsIDCached setting base it t c) = containsID it t \<and>
         coherent mem setting (snd (containsIDCached setting base it t c)))"
proof (cases "gramPostingIterator dat gram")
  case None
  with assms(1) show ?thesis by (simp add: gramPostingCached_def gramPosting_def)
next
  case (Some p)
  obtain it n where p: "p = (it, n)" by fastforce
  note it = gramPostingIterator_placed [OF Some [unfolded p]]
  have m: "mem (base, length (pData it)) = pData it" using assms(2) it by simp
  note block = blockAtCached_exact [OF assms(1) m conjunct1 [OF it]]
  have "fst (containsIDCached setting base it t c) = containsID it t \<and> coherent mem setting (snd (containsIDCached setting base it t c))"
  proof (cases "containsSearch it t (pNext it) (pEnd it)")
    case (Some lo)
    obtain r c' where r: "blockAtCached setting base it lo c = (r, c')" by fastforce
    with block [of lo] Some assms(1) show ?thesis
      by (auto simp: containsIDCached_def containsID_def Let_def split: option.split)
  qed (use assms(1) in \<open>simp add: containsIDCached_def containsID_def\<close>)
  then show ?thesis
    using Some p materializeCached_exact [OF assms(1) m conjunct1 [OF it], of "[]"] assms(1)
    by (simp add: gramPostingCached_def gramPosting_def materializePostingBlockIterator_def)
qed

definition oneGram :: "u32 list \<Rightarrow> bytes" where
  "oneGram ids = sectionBytes [] [(5, ids)] []"

definition emptyCache :: postingBlockLRU where
  "emptyCache = \<lparr>ll = [], lruBytes = 0\<rparr>"

theorem posting_cache_transparent_witness:
  "fst (gramPostingCached None 4096 (oneGram [0, 2]) 5 emptyCache) = gramPosting (oneGram [0, 2]) 5"
proof -
  have "coherent (\<lambda>_. oneGram [0, 2]) None emptyCache"
    by (simp add: coherent_def emptyCache_def lruOk_def lruContents_def postingBlockCacheMaxBytes_def)
  from posting_cache_transparent [OF this, of "oneGram [0, 2]" 4096 5 0] show ?thesis by simp
qed

text \<open>
  Sections of equal length: after one was read at an address, another one mapped at the same address answers with the
  posting of the first.
\<close>

lemma oneGram_bytes:
  "oneGram [0, 1] = [1, 0, 0, 0, 0, 0, 0, 0, 1, 0, 0, 0, 2, 0, 0, 0] @ [5, 0, 0, 0, 2, 0, 0, 0, 0, 0, 0, 0, 1, 0, 0, 0] @
     [0, 0, 0, 0, 0, 0, 0, 0, 2, 0, 0, 0, 2, 0, 0, 0, 0, 0, 0, 0, 1, 0, 0, 0, 0, 0, 0, 0] @ [0, 1]"
  "oneGram [0, 2] = [1, 0, 0, 0, 0, 0, 0, 0, 1, 0, 0, 0, 2, 0, 0, 0] @ [5, 0, 0, 0, 2, 0, 0, 0, 0, 0, 0, 0, 1, 0, 0, 0] @
     [0, 0, 0, 0, 0, 0, 0, 0, 2, 0, 0, 0, 2, 0, 0, 0, 0, 0, 0, 0, 2, 0, 0, 0, 0, 0, 0, 0] @ [0, 2]"
  by code_simp+

lemma oneGram_cached:
  "snd (gramPostingCached None 4096 (oneGram [0, 2]) 5 emptyCache) =
    \<lparr>ll = [\<lparr>ceKey = \<lparr>kBase = 4096, kBytes = 62, kBlock = 0\<rparr>, ceIds = [0, 2], ceBytes = 8\<rparr>], lruBytes = 8\<rparr>"
  unfolding oneGram_bytes by code_simp

lemma posting_cache_stale_after_remap:
  "length (oneGram [0, 1]) = length (oneGram [0, 2])" "gramPosting (oneGram [0, 1]) 5 = [0, 1]"
  "fst (gramPostingCached None 4096 (oneGram [0, 1]) 5 (snd (gramPostingCached None 4096 (oneGram [0, 2]) 5 emptyCache))) = [0, 2]"
  unfolding oneGram_cached unfolding oneGram_bytes by code_simp+

end
