(* ===== verification/GoStrings.thy ===== *)
theory GoStrings
  imports Prelude
begin

text \<open>
  The parts of Go's \<open>strings\<close> and \<open>strconv\<close> packages that the query code uses, on strings as byte lists.

  White space is Unicode's: \<open>spaceLen\<close> recognises the encoding of a white-space rune at the head of a byte list. Such an
  encoding starts with a byte that is never inside another encoded rune, so scanning bytes finds what the package's scan
  of runes finds. \<open>strings.ToLower\<close> is an argument of the definitions that call it.
\<close>

abbreviation backslash :: char where
  "backslash \<equiv> CHR 0x5C"

definition hasPrefix :: "string \<Rightarrow> string \<Rightarrow> bool" where
  "hasPrefix s p \<longleftrightarrow> take (length p) s = p"

definition hasSuffix :: "string \<Rightarrow> string \<Rightarrow> bool" where
  "hasSuffix s p \<longleftrightarrow> length p \<le> length s \<and> drop (length s - length p) s = p"

definition trimPrefix :: "string \<Rightarrow> string \<Rightarrow> string" where
  "trimPrefix s p = (if hasPrefix s p then drop (length p) s else s)"

definition trimSuffix :: "string \<Rightarrow> string \<Rightarrow> string" where
  "trimSuffix s p = (if hasSuffix s p then take (length s - length p) s else s)"

definition containsAny :: "string \<Rightarrow> string \<Rightarrow> bool" where
  "containsAny s cs \<longleftrightarrow> list_ex (\<lambda>c. c \<in> set cs) s"

fun indexByte :: "string \<Rightarrow> char \<Rightarrow> nat option" where
  "indexByte [] c = None"
| "indexByte (b # s) c = (if b = c then Some 0 else map_option Suc (indexByte s c))"

fun splitOn :: "char \<Rightarrow> string \<Rightarrow> string list" where
  "splitOn c [] = [[]]"
| "splitOn c (b # s) = (if b = c then [] # splitOn c s else case splitOn c s of p # ps \<Rightarrow> (b # p) # ps | [] \<Rightarrow> [[b]])"

fun fieldsFuncLoop :: "(char \<Rightarrow> bool) \<Rightarrow> string \<Rightarrow> string \<Rightarrow> string list" where
  "fieldsFuncLoop p cur [] = (if cur = [] then [] else [cur])"
| "fieldsFuncLoop p cur (b # s) =
    (if p b then (if cur = [] then fieldsFuncLoop p [] s else cur # fieldsFuncLoop p [] s)
     else fieldsFuncLoop p (cur @ [b]) s)"

definition fieldsFunc :: "(char \<Rightarrow> bool) \<Rightarrow> string \<Rightarrow> string list" where
  "fieldsFunc p s = fieldsFuncLoop p [] s"

section \<open>White space\<close>

definition spaceRunes :: "int list list" where
  "spaceRunes = [[9], [10], [11], [12], [13], [32], [0xC2, 0x85], [0xC2, 0xA0], [0xE1, 0x9A, 0x80], [0xE2, 0x80, 0x80], [0xE2, 0x80, 0x81],
     [0xE2, 0x80, 0x82], [0xE2, 0x80, 0x83], [0xE2, 0x80, 0x84], [0xE2, 0x80, 0x85], [0xE2, 0x80, 0x86], [0xE2, 0x80, 0x87],
     [0xE2, 0x80, 0x88], [0xE2, 0x80, 0x89], [0xE2, 0x80, 0x8A], [0xE2, 0x80, 0xA8], [0xE2, 0x80, 0xA9], [0xE2, 0x80, 0xAF],
     [0xE2, 0x81, 0x9F], [0xE3, 0x80, 0x80]]"

definition spaceLen :: "string \<Rightarrow> nat" where
  "spaceLen s = (case List.find (\<lambda>p. map of_char (take (length p) s) = p) spaceRunes of None \<Rightarrow> 0 | Some p \<Rightarrow> length p)"

lemma spaceLen_le: "spaceLen s \<le> length s"
proof (cases "List.find (\<lambda>p. map of_char (take (length p) s) = p) spaceRunes")
  case (Some p)
  then have "map of_char (take (length p) s) = p" by (auto simp: find_Some_iff)
  then have "length (take (length p) s) = length p" by (metis length_map)
  with Some show ?thesis by (simp add: spaceLen_def)
qed (simp add: spaceLen_def)

function trimLeftSpace :: "string \<Rightarrow> string" where
  "trimLeftSpace s = (if spaceLen s = 0 then s else trimLeftSpace (drop (spaceLen s) s))"
  by pat_completeness auto
termination
proof (relation "measure length")
  fix s assume "spaceLen s \<noteq> 0"
  then show "(drop (spaceLen s) s, s) \<in> measure length" using spaceLen_le [of s] by (cases s) auto
qed simp

declare trimLeftSpace.simps [simp del]

text \<open>The length of a white-space rune at the end of a string.\<close>

definition spaceLenEnd :: "string \<Rightarrow> nat" where
  "spaceLenEnd s =
    (case filter (\<lambda>k. k \<le> length s \<and> spaceLen (drop (length s - k) s) = k) [1, 2, 3] of [] \<Rightarrow> 0 | k # _ \<Rightarrow> k)"

lemma spaceLenEnd_le: "spaceLenEnd s \<le> length s"
  by (auto simp: spaceLenEnd_def split: list.split if_splits)

function trimRightSpace :: "string \<Rightarrow> string" where
  "trimRightSpace s = (if spaceLenEnd s = 0 then s else trimRightSpace (take (length s - spaceLenEnd s) s))"
  by pat_completeness auto
termination
proof (relation "measure length")
  fix s assume "spaceLenEnd s \<noteq> 0"
  then show "(take (length s - spaceLenEnd s) s, s) \<in> measure length" using spaceLenEnd_le [of s] by auto
qed simp

declare trimRightSpace.simps [simp del]

definition trimSpace :: "string \<Rightarrow> string" where
  "trimSpace s = trimRightSpace (trimLeftSpace s)"

function fieldsLoop :: "string \<Rightarrow> string \<Rightarrow> string list" where
  "fieldsLoop cur s =
    (case s of
       [] \<Rightarrow> (if cur = [] then [] else [cur])
     | b # s' \<Rightarrow>
         if spaceLen s = 0 then fieldsLoop (cur @ [b]) s'
         else if cur = [] then fieldsLoop [] (drop (spaceLen s) s)
         else cur # fieldsLoop [] (drop (spaceLen s) s))"
  by pat_completeness auto
termination
  by (relation "measure (\<lambda>(cur, s). length s)") auto

declare fieldsLoop.simps [simp del]

definition stringFields :: "string \<Rightarrow> string list" where
  "stringFields s = fieldsLoop [] s"

section \<open>Numbers\<close>

definition digitVal :: "char \<Rightarrow> int option" where
  "digitVal c = (let n = of_char c :: int in if 48 \<le> n \<and> n \<le> 57 then Some (n - 48) else None)"

fun parseDigits :: "int \<Rightarrow> string \<Rightarrow> int option" where
  "parseDigits acc [] = Some acc"
| "parseDigits acc (c # s) = (case digitVal c of None \<Rightarrow> None | Some d \<Rightarrow> parseDigits (10 * acc + d) s)"

text \<open>\<open>strconv.ParseInt(s, 10, 64)\<close>, none on a syntax or range error.\<close>

definition parseInt64 :: "string \<Rightarrow> int option" where
  "parseInt64 s =
    (let (neg, ds) = (case s of c # r \<Rightarrow> if c = CHR ''-'' then (True, r) else if c = CHR ''+'' then (False, r) else (False, s) | [] \<Rightarrow> (False, []))
     in if ds = [] then None
        else case parseDigits 0 ds of
          None \<Rightarrow> None
        | Some n \<Rightarrow> if neg then (if n > 2 ^ 63 then None else Some (- n)) else if n \<ge> 2 ^ 63 then None else Some n)"

end
