(* ===== verification/QueryParse.thy ===== *)
theory QueryParse
  imports GoStrings
begin

text \<open>
  The query parser (\<open>query_parse.go\<close>, \<open>parseQuery\<close> of \<open>postings.go\<close>): tokens with negation, alternatives and structured
  filters fold into a parsed query.

  A parsed query holds subqueries (its alternatives and its negations), so it is a datatype around the record of its other
  fields; the deadline, the cancellation callback and the trace are left to the search. A compiled regular expression is
  its pattern text. The operating system's and library's part is one argument: lower-casing and case folding, regular
  expressions and globs, the functions of \<open>path/filepath\<close>, whose meaning depends on the operating system, \<open>os.Stat\<close>, the clock
  and the parsers of times and durations. Times are nanoseconds, the zero time is none.
\<close>

section \<open>Data\<close>

record sizeFilter =
  sfOp :: string
  sfBytes :: int

record dateFilter =
  dfAfter :: "int option"
  dfBefore :: "int option"

record queryFields =
  Raw :: string
  Terms :: "string list"
  Fuzzy :: bool
  ImplicitPathTerms :: "string list"
  Impossible :: bool
  MatchPath :: bool
  CaseSensitive :: bool
  Exts :: "string list"
  Dirs :: "string list"
  Globs :: "string list"
  Regexps :: "string list"
  RegexTerms :: "string list"
  QType :: string
  Parents :: "string list"
  Under :: string
  Exists :: bool
  ModifiedAfter :: int
  HasModAfter :: bool
  SizeFilters :: "sizeFilter list"
  DateFilters :: "dateFilter list"
  AttrFilters :: "u32 list"
  SortColumn :: string
  CWDBias :: string
  RootBias :: string

datatype parsedQuery =
  ParsedQuery (qf: queryFields) (OrGroups: "parsedQuery list list") (NotGroups: "parsedQuery list")

definition zeroFields :: queryFields where
  "zeroFields = \<lparr>Raw = [], Terms = [], Fuzzy = False, ImplicitPathTerms = [], Impossible = False, MatchPath = False,
     CaseSensitive = False, Exts = [], Dirs = [], Globs = [], Regexps = [], RegexTerms = [], QType = [], Parents = [], Under = [],
     Exists = False, ModifiedAfter = 0, HasModAfter = False, SizeFilters = [], DateFilters = [], AttrFilters = [], SortColumn = [],
     CWDBias = [], RootBias = []\<rparr>"

definition upd :: "(queryFields \<Rightarrow> queryFields) \<Rightarrow> parsedQuery \<Rightarrow> parsedQuery" where
  "upd f pq = ParsedQuery (f (qf pq)) (OrGroups pq) (NotGroups pq)"

text \<open>\<open>parsedQuery{MatchPath: pq.MatchPath, CaseSensitive: pq.CaseSensitive}\<close>\<close>

definition subQuery :: "parsedQuery \<Rightarrow> parsedQuery" where
  "subQuery pq = ParsedQuery (zeroFields\<lparr>MatchPath := MatchPath (qf pq), CaseSensitive := CaseSensitive (qf pq)\<rparr>) [] []"

datatype queryError =
  InvalidParent string
| InvalidRegex string
| EmptySize
| InvalidSize string
| EmptyDate
| InvalidDate string
| EmptyAttrib
| InvalidAttrib char
| UnsupportedSort string
| UnsupportedFilter string
| InvalidTime string
| InvalidDuration string
| NoTerms

record goEnv =
  toLowerF :: "string \<Rightarrow> string"
  regexpCompiles :: "string \<Rightarrow> bool"
  parseTimeF :: "string \<Rightarrow> int option"
  parseDuration :: "string \<Rightarrow> int option"
  nowF :: int
  startOfDay :: int
  weekdayF :: int
  addDays :: "int \<Rightarrow> int \<Rightarrow> int"
  absCleanPath :: "string \<Rightarrow> string"
  cleanPath :: "string \<Rightarrow> string"
  baseName :: "string \<Rightarrow> string"
  dirName :: "string \<Rightarrow> string"
  relPath :: "string \<Rightarrow> string \<Rightarrow> string option"
  isAbsPath :: "string \<Rightarrow> bool"
  equalFold :: "string \<Rightarrow> string \<Rightarrow> bool"
  globMatch :: "string \<Rightarrow> string \<Rightarrow> bool"
  regexpMatch :: "string \<Rightarrow> string \<Rightarrow> bool"
  statOk :: "string \<Rightarrow> bool"

section \<open>Token shapes\<close>

definition isLower :: "char \<Rightarrow> bool" where
  "isLower c \<longleftrightarrow> 97 \<le> (of_char c :: int) \<and> of_char c \<le> (122 :: int)"

definition isUpper :: "char \<Rightarrow> bool" where
  "isUpper c \<longleftrightarrow> 65 \<le> (of_char c :: int) \<and> of_char c \<le> (90 :: int)"

definition isDigit :: "char \<Rightarrow> bool" where
  "isDigit c \<longleftrightarrow> 48 \<le> (of_char c :: int) \<and> of_char c \<le> (57 :: int)"

definition isLetter :: "char \<Rightarrow> bool" where
  "isLetter c \<longleftrightarrow> isLower c \<or> isUpper c"

definition isSlash :: "char \<Rightarrow> bool" where
  "isSlash c \<longleftrightarrow> c = backslash \<or> c = CHR ''/''"

definition normalizeCase :: "goEnv \<Rightarrow> string \<Rightarrow> bool \<Rightarrow> string" where
  "normalizeCase env s caseSensitive = (if caseSensitive then s else toLowerF env s)"

definition normalizeFilterPath :: "goEnv \<Rightarrow> string \<Rightarrow> string" where
  "normalizeFilterPath env path = (let path = trimSpace path in if path = [] then [] else absCleanPath env path)"

definition implicitPathSeparatorToken :: "string \<Rightarrow> bool" where
  "implicitPathSeparatorToken raw =
    (if raw = [] \<or> hasPrefix raw ''!'' \<or> hasPrefix raw ''-'' \<or> CHR ''|'' \<in> set raw \<or> \<not> list_ex isSlash raw then False
     else case indexByte raw (CHR '':'') of None \<Rightarrow> True | Some colon \<Rightarrow> colon = 1 \<and> isLetter (hd raw))"

definition isVolumeQueryTerm :: "string \<Rightarrow> bool" where
  "isVolumeQueryTerm term \<longleftrightarrow> length term = 2 \<and> term ! 1 = CHR '':'' \<and> isLetter (hd term)"

definition commonPathBareExtensionTerm :: "goEnv \<Rightarrow> string \<Rightarrow> bool" where
  "commonPathBareExtensionTerm env term \<longleftrightarrow> toLowerF env term \<in> set
    [''md'', ''nrrd'', ''raw'', ''pdf'', ''json'', ''go'', ''py'', ''txt'', ''csv'', ''tsv'', ''doc'', ''docx'', ''xls'', ''xlsx'',
     ''ppt'', ''pptx'', ''png'', ''jpg'', ''jpeg'', ''zip'', ''whl'', ''toml'', ''yaml'', ''yml'', ''xml'', ''html'', ''css'', ''js'', ''ts'']"

definition queryLooksPathScoped :: "string \<Rightarrow> bool" where
  "queryLooksPathScoped query \<longleftrightarrow> list_ex (list_ex isSlash) (stringFields query)"

fun trimLeftMarks :: "string \<Rightarrow> string" where
  "trimLeftMarks (c # s) = (if c = CHR ''!'' \<or> c = CHR ''-'' then trimLeftMarks s else c # s)"
| "trimLeftMarks [] = []"

fun queryLooksLooseLoop :: "goEnv \<Rightarrow> string list \<Rightarrow> bool" where
  "queryLooksLooseLoop env [] = False"
| "queryLooksLooseLoop env (field # fs) =
    (if hasPrefix field ''!'' \<or> hasPrefix field ''-'' then queryLooksLooseLoop env fs
     else
       let raw = trimLeftMarks field
       in if raw = [] then queryLooksLooseLoop env fs
          else case indexByte raw (CHR '':'') of
            Some i \<Rightarrow>
              if toLowerF env (trimSpace (take i raw)) \<in> set
                   [''path'', ''fullpath'', ''full-path'', ''full_path'', ''fullpathname'', ''full-path-name'', ''location'',
                    ''regex'', ''regexp'', ''re'']
              then True else queryLooksLooseLoop env fs
          | None \<Rightarrow> if list_ex isSlash raw then True else queryLooksLooseLoop env fs)"

definition queryLooksLoosePathScoped :: "goEnv \<Rightarrow> string \<Rightarrow> bool" where
  "queryLooksLoosePathScoped env query = queryLooksLooseLoop env (stringFields query)"

definition globChars :: string where
  "globChars = backslash # ''/*?[]:''"

definition dottedExtensionTerm :: "string \<Rightarrow> string option" where
  "dottedExtensionTerm term =
    (if length term < 2 \<or> length term > 6 \<or> hd term \<noteq> CHR ''.'' \<or> containsAny term globChars then None
     else if list_all (\<lambda>c. isLower c \<or> isDigit c) (tl term) then Some (tl term) else None)"

definition isEmpty :: "parsedQuery \<Rightarrow> bool" where
  "isEmpty pq \<longleftrightarrow>
    (let q = qf pq in Terms q = [] \<and> Exts q = [] \<and> Dirs q = [] \<and> Globs q = [] \<and> Regexps q = [] \<and> QType q = [] \<and>
      Parents q = [] \<and> Under q = [] \<and> \<not> HasModAfter q \<and> SizeFilters q = [] \<and> DateFilters q = [] \<and> AttrFilters q = [] \<and>
      OrGroups pq = [] \<and> NotGroups pq = [])"

definition isDriveRelativePathTerm :: "string \<Rightarrow> bool" where
  "isDriveRelativePathTerm term \<longleftrightarrow> length term \<ge> 3 \<and> term ! 1 = CHR '':'' \<and> isLetter (hd term) \<and> \<not> isSlash (term ! 2)"

definition isUnknownFilterToken :: "string \<Rightarrow> bool" where
  "isUnknownFilterToken raw =
    (case indexByte raw (CHR '':'') of
       None \<Rightarrow> False
     | Some idx \<Rightarrow> idx \<ge> 2 \<and> isLetter (hd raw) \<and> list_all (\<lambda>c. isLetter c \<or> isDigit c) (take idx raw))"

definition queryPlainTerms :: "goEnv \<Rightarrow> string \<Rightarrow> bool \<Rightarrow> bool \<Rightarrow> string list" where
  "queryPlainTerms env raw0 caseSensitive matchPath =
    (let raw = trimSpace raw0
     in if raw = [] then []
        else if \<not> matchPath \<or> \<not> list_ex isSlash raw then [normalizeCase env raw caseSensitive]
        else
          let out = map (\<lambda>part. normalizeCase env part caseSensitive)
                      (filter (\<lambda>part. part \<noteq> [] \<and> part \<noteq> ''.'') (map trimSpace (fieldsFunc isSlash raw)))
          in if out = [] then [normalizeCase env raw caseSensitive] else out)"

definition isBarePathSeparatorToken :: "string \<Rightarrow> bool" where
  "isBarePathSeparatorToken raw \<longleftrightarrow> raw \<noteq> [] \<and> list_all isSlash raw"

definition looksLikeImplicitFilenameGlob :: "string \<Rightarrow> bool" where
  "looksLikeImplicitFilenameGlob raw0 =
    (let raw = trimSpace raw0 in raw \<noteq> [] \<and> \<not> list_ex isSlash raw \<and> containsAny raw ''*?['')"

section \<open>Literals of globs and regular expressions\<close>

text \<open>For valid UTF-8, where writing a rune back gives its bytes.\<close>

definition flushRun :: "goEnv \<Rightarrow> nat \<Rightarrow> bool \<Rightarrow> string \<Rightarrow> string list \<Rightarrow> string list" where
  "flushRun env least caseSensitive b out = (if length b \<ge> least then out @ [normalizeCase env b caseSensitive] else out)"

fun splitGlobLoop :: "goEnv \<Rightarrow> bool \<Rightarrow> string \<Rightarrow> string list \<Rightarrow> string \<Rightarrow> string list" where
  "splitGlobLoop env cs b out [] = flushRun env 3 cs b out"
| "splitGlobLoop env cs b out (r # s) =
    (if r \<in> set globChars then splitGlobLoop env cs [] (flushRun env 3 cs b out) s else splitGlobLoop env cs (b @ [r]) out s)"

definition splitGlobLiteralTerms :: "goEnv \<Rightarrow> string \<Rightarrow> bool \<Rightarrow> string list" where
  "splitGlobLiteralTerms env glob caseSensitive = splitGlobLoop env caseSensitive [] [] glob"

definition addNew :: "'a list \<Rightarrow> 'a \<Rightarrow> 'a list" where
  "addNew out x = (if x \<in> set out then out else out @ [x])"

definition globLiteralTerms :: "goEnv \<Rightarrow> string list \<Rightarrow> bool \<Rightarrow> string list" where
  "globLiteralTerms env globs caseSensitive =
    foldl (\<lambda>out glob. foldl addNew out (splitGlobLiteralTerms env glob caseSensitive)) [] globs"

definition isRegexLiteralRune :: "char \<Rightarrow> bool" where
  "isRegexLiteralRune r \<longleftrightarrow> isLetter r \<or> isDigit r \<or> r = CHR ''_'' \<or> r = CHR ''-''"

fun regexLiteralLoop :: "goEnv \<Rightarrow> bool \<Rightarrow> string \<Rightarrow> bool \<Rightarrow> string list \<Rightarrow> string \<Rightarrow> string list" where
  "regexLiteralLoop env cs b escaped out [] = flushRun env 2 cs b out"
| "regexLiteralLoop env cs b escaped out (r # s) =
    (if escaped
     then if isRegexLiteralRune r then regexLiteralLoop env cs (b @ [r]) False out s
          else regexLiteralLoop env cs [] False (flushRun env 2 cs b out) s
     else if r = backslash then regexLiteralLoop env cs b True out s
     else if isRegexLiteralRune r then regexLiteralLoop env cs (b @ [r]) False out s
     else regexLiteralLoop env cs [] False (flushRun env 2 cs b out) s)"

definition appendRegexLiteralTerms :: "goEnv \<Rightarrow> string list \<Rightarrow> string \<Rightarrow> bool \<Rightarrow> string list" where
  "appendRegexLiteralTerms env out pattern caseSensitive = regexLiteralLoop env caseSensitive [] False out pattern"

section \<open>Filters\<close>

definition byteUnits :: "(string \<times> int) list" where
  "byteUnits = [(''tb'', 2 ^ 40), (''gb'', 2 ^ 30), (''mb'', 2 ^ 20), (''kb'', 2 ^ 10), (''t'', 2 ^ 40), (''g'', 2 ^ 30), (''m'', 2 ^ 20),
     (''k'', 2 ^ 10), (''b'', 1)]"

definition splitUnit :: "string \<Rightarrow> int \<times> string" where
  "splitUnit s = (case List.find (\<lambda>(u, m). hasSuffix s u) byteUnits of None \<Rightarrow> (1, s) | Some (u, m) \<Rightarrow> (m, take (length s - length u) s))"

definition parseByteSize :: "goEnv \<Rightarrow> string \<Rightarrow> int option" where
  "parseByteSize env s0 =
    (let s = toLowerF env (trimSpace s0)
     in if s = [] then None
        else
          let (mult, s) = splitUnit s
          in case parseInt64 (trimSpace s) of
               None \<Rightarrow> None
             | Some n \<Rightarrow> if n < 0 then None else Some (wrap64 (n * mult)))"

definition splitOp :: "string \<Rightarrow> string \<times> string" where
  "splitOp spec =
    (if hasPrefix spec ''>='' then (''>='', drop 2 spec)
     else if hasPrefix spec ''<='' then (''<='', drop 2 spec)
     else if hasPrefix spec ''>'' then (''>'', drop 1 spec)
     else if hasPrefix spec ''<'' then (''<'', drop 1 spec)
     else if hasPrefix spec ''='' then (''='', drop 1 spec)
     else (''='', spec))"

definition parseSizeFilter :: "goEnv \<Rightarrow> string \<Rightarrow> queryError + sizeFilter" where
  "parseSizeFilter env spec0 =
    (let spec = trimSpace spec0
     in if spec = [] then Inl EmptySize
        else
          let (cmp, spec) = splitOp spec
          in case parseByteSize env (trimSpace spec) of
               None \<Rightarrow> Inl (InvalidSize spec)
             | Some n \<Rightarrow> Inr \<lparr>sfOp = cmp, sfBytes = n\<rparr>)"

definition attribBit :: "char \<Rightarrow> u32 option" where
  "attribBit r =
    (if r \<in> set ''rR'' then Some 0x01
     else if r \<in> set ''hH'' then Some 0x02
     else if r \<in> set ''sS'' then Some 0x04
     else if r \<in> set ''dD'' then Some 0x10
     else if r \<in> set ''aA'' then Some 0x20
     else None)"

fun attribLoop :: "u32 \<Rightarrow> string \<Rightarrow> queryError + u32" where
  "attribLoop m [] = Inr m"
| "attribLoop m (r # s) = (case attribBit r of None \<Rightarrow> Inl (InvalidAttrib r) | Some b \<Rightarrow> attribLoop (m OR b) s)"

definition parseAttribFilter :: "string \<Rightarrow> queryError + u32" where
  "parseAttribFilter spec0 = (let spec = trimSpace spec0 in if spec = [] then Inl EmptyAttrib else attribLoop 0 spec)"

definition dayFilter :: "goEnv \<Rightarrow> int \<Rightarrow> int \<Rightarrow> dateFilter" where
  "dayFilter env from days =
    (let after = addDays env (startOfDay env) from in \<lparr>dfAfter = Some after, dfBefore = Some (addDays env after days)\<rparr>)"

definition parseDateFilter :: "goEnv \<Rightarrow> string \<Rightarrow> queryError + dateFilter" where
  "parseDateFilter env spec0 =
    (let spec = toLowerF env (trimSpace spec0)
     in if spec = [] then Inl EmptyDate
        else if spec = ''today'' then Inr \<lparr>dfAfter = Some (startOfDay env), dfBefore = Some (addDays env (startOfDay env) 1)\<rparr>
        else if spec = ''yesterday'' then Inr \<lparr>dfAfter = Some (addDays env (startOfDay env) (- 1)), dfBefore = Some (startOfDay env)\<rparr>
        else if spec = ''thisweek'' then Inr (dayFilter env (- weekdayF env) 7)
        else if spec = ''lastweek'' then Inr (dayFilter env (- weekdayF env - 7) 7)
        else
          case (if hasSuffix spec ''d'' then parseInt64 (trimSuffix spec ''d'') else None) of
            Some days \<Rightarrow> Inr \<lparr>dfAfter = Some (addDays env (nowF env) (- days)), dfBefore = None\<rparr>
          | None \<Rightarrow>
              (case parseDuration env spec of
                 Some d \<Rightarrow> Inr \<lparr>dfAfter = Some (nowF env - d), dfBefore = None\<rparr>
               | None \<Rightarrow>
                   (case parseTimeF env spec of
                      Some t \<Rightarrow> Inr \<lparr>dfAfter = Some t, dfBefore = None\<rparr>
                    | None \<Rightarrow> Inl (InvalidDate spec))))"

section \<open>Tokens\<close>

definition mergeSubquery :: "parsedQuery \<Rightarrow> parsedQuery \<Rightarrow> parsedQuery" where
  "mergeSubquery dst src =
    upd (\<lambda>q. let s = qf src in
      q\<lparr>Terms := Terms q @ Terms s, Exts := Exts q @ Exts s, Dirs := Dirs q @ Dirs s, Globs := Globs q @ Globs s,
        Regexps := Regexps q @ Regexps s, RegexTerms := RegexTerms q @ RegexTerms s, Parents := Parents q @ Parents s,
        SizeFilters := SizeFilters q @ SizeFilters s, DateFilters := DateFilters q @ DateFilters s,
        AttrFilters := AttrFilters q @ AttrFilters s, QType := (if QType s \<noteq> [] then QType s else QType q),
        MatchPath := MatchPath q \<or> MatchPath s\<rparr>) dst"

fun foldE :: "('s \<Rightarrow> 'a \<Rightarrow> 'e + 's) \<Rightarrow> 's \<Rightarrow> 'a list \<Rightarrow> 'e + 's" where
  "foldE f s [] = Inr s"
| "foldE f s (x # xs) = (case f s x of Inl e \<Rightarrow> Inl e | Inr s' \<Rightarrow> foldE f s' xs)"

lemma foldE_cong [fundef_cong]:
  "xs = ys \<Longrightarrow> s = t \<Longrightarrow> (\<And>u x. x \<in> set ys \<Longrightarrow> f u x = g u x) \<Longrightarrow> foldE f s xs = foldE g t ys"
  by (induction xs arbitrary: ys s t) (auto split: sum.split)

text \<open>The arms of the switch over the token's prefix; \<open>arg\<close> is what follows the prefix.\<close>

definition extArm :: "goEnv \<Rightarrow> string \<Rightarrow> parsedQuery \<Rightarrow> queryError + parsedQuery" where
  "extArm env arg pq =
    (let ext = trimPrefix arg ''.''
     in Inr (if ext = [] then pq else upd (\<lambda>q. q\<lparr>Exts := Exts q @ [normalizeCase env ext (CaseSensitive q)]\<rparr>) pq))"

definition dirArm :: "goEnv \<Rightarrow> string \<Rightarrow> parsedQuery \<Rightarrow> queryError + parsedQuery" where
  "dirArm env dir pq = Inr (if dir = [] then pq else upd (\<lambda>q. q\<lparr>Dirs := Dirs q @ [normalizeCase env dir (CaseSensitive q)]\<rparr>) pq)"

definition pathArm :: "goEnv \<Rightarrow> string \<Rightarrow> parsedQuery \<Rightarrow> queryError + parsedQuery" where
  "pathArm env term pq0 =
    (let pq = upd (\<lambda>q. q\<lparr>MatchPath := True\<rparr>) pq0
     in Inr (if term = [] then pq
        else upd (\<lambda>q. q\<lparr>Impossible := Impossible q \<or> isDriveRelativePathTerm term,
                         Terms := Terms q @ queryPlainTerms env term (CaseSensitive q) True\<rparr>) pq))"

definition parentArm :: "goEnv \<Rightarrow> string \<Rightarrow> string \<Rightarrow> parsedQuery \<Rightarrow> queryError + parsedQuery" where
  "parentArm env raw parent pq =
    (if parent = [] then Inr pq
     else if containsAny parent globChars then Inl (InvalidParent raw)
     else Inr (upd (\<lambda>q. q\<lparr>Parents := Parents q @ [normalizeCase env parent (CaseSensitive q)]\<rparr>) pq))"

definition globArm :: "goEnv \<Rightarrow> string \<Rightarrow> parsedQuery \<Rightarrow> queryError + parsedQuery" where
  "globArm env glob pq = Inr (if glob = [] then pq else upd (\<lambda>q. q\<lparr>Globs := Globs q @ [normalizeCase env glob (CaseSensitive q)]\<rparr>) pq)"

definition regexArm :: "goEnv \<Rightarrow> string \<Rightarrow> parsedQuery \<Rightarrow> queryError + parsedQuery" where
  "regexArm env pat pq =
    (let cs = CaseSensitive (qf pq); full = (if cs then pat else ''(?i)'' @ pat)
     in if pat = [] then Inr pq
        else if regexpCompiles env full
        then Inr (upd (\<lambda>q. q\<lparr>RegexTerms := appendRegexLiteralTerms env (RegexTerms q) pat cs, Regexps := Regexps q @ [full]\<rparr>) pq)
        else Inl (InvalidRegex full))"

definition sizeArm :: "goEnv \<Rightarrow> string \<Rightarrow> parsedQuery \<Rightarrow> queryError + parsedQuery" where
  "sizeArm env arg pq =
    (case parseSizeFilter env arg of Inl e \<Rightarrow> Inl e | Inr sf \<Rightarrow> Inr (upd (\<lambda>q. q\<lparr>SizeFilters := SizeFilters q @ [sf]\<rparr>) pq))"

definition dateArm :: "goEnv \<Rightarrow> string \<Rightarrow> parsedQuery \<Rightarrow> queryError + parsedQuery" where
  "dateArm env arg pq =
    (case parseDateFilter env arg of Inl e \<Rightarrow> Inl e | Inr df \<Rightarrow> Inr (upd (\<lambda>q. q\<lparr>DateFilters := DateFilters q @ [df]\<rparr>) pq))"

definition attribArm :: "string \<Rightarrow> parsedQuery \<Rightarrow> queryError + parsedQuery" where
  "attribArm arg pq =
    (case parseAttribFilter arg of Inl e \<Rightarrow> Inl e | Inr m \<Rightarrow> Inr (upd (\<lambda>q. q\<lparr>AttrFilters := AttrFilters q @ [m]\<rparr>) pq))"

definition sortArm :: "goEnv \<Rightarrow> string \<Rightarrow> string \<Rightarrow> parsedQuery \<Rightarrow> queryError + parsedQuery" where
  "sortArm env raw arg pq =
    (let col = toLowerF env (trimSpace arg)
     in if col \<in> set [''size'', ''modified'', ''extension'', ''type'', ''path''] then Inr (upd (\<lambda>q. q\<lparr>SortColumn := col\<rparr>) pq)
        else Inl (UnsupportedSort raw))"

definition plainArm :: "goEnv \<Rightarrow> string \<Rightarrow> parsedQuery \<Rightarrow> queryError + parsedQuery" where
  "plainArm env raw pq =
    (let marked = hasSuffix raw ''~'' \<and> length raw > 1;
         trimmed = (if marked then trimSuffix raw ''~'' else raw);
         ts = queryPlainTerms env trimmed (CaseSensitive (qf pq)) (MatchPath (qf pq))
     in Inr (upd (\<lambda>q. q\<lparr>Fuzzy := Fuzzy q \<or> (marked \<and> trimmed \<noteq> [] \<and> length ts = 1), Terms := Terms q @ ts\<rparr>) pq))"

definition filterToken :: "goEnv \<Rightarrow> parsedQuery \<Rightarrow> string \<Rightarrow> queryError + parsedQuery" where
  "filterToken env pq raw =
    (if hasPrefix raw ''ext:'' then extArm env (trimPrefix raw ''ext:'') pq
     else if hasPrefix raw ''dir:'' then dirArm env (trimPrefix raw ''dir:'') pq
     else if hasPrefix raw ''path:'' then pathArm env (trimPrefix raw ''path:'') pq
     else if hasPrefix raw ''parent:'' then parentArm env raw (trimPrefix raw ''parent:'') pq
     else if hasPrefix raw ''glob:'' then globArm env (trimPrefix raw ''glob:'') pq
     else if hasPrefix raw ''regex:'' then regexArm env (trimPrefix raw ''regex:'') pq
     else if hasPrefix raw ''size:'' then sizeArm env (trimPrefix raw ''size:'') pq
     else if hasPrefix raw ''dm:'' then dateArm env (trimPrefix raw ''dm:'') pq
     else if hasPrefix raw ''attrib:'' then attribArm (trimPrefix raw ''attrib:'') pq
     else if hasPrefix raw ''sort:'' then sortArm env raw (trimPrefix raw ''sort:'') pq
     else if raw = ''case:'' \<or> raw = ''case:true'' then Inr (upd (\<lambda>q. q\<lparr>CaseSensitive := True\<rparr>) pq)
     else if raw = ''case:false'' then Inr (upd (\<lambda>q. q\<lparr>CaseSensitive := False\<rparr>) pq)
     else if raw = ''type:file'' then Inr (upd (\<lambda>q. q\<lparr>QType := ''file''\<rparr>) pq)
     else if raw = ''type:dir'' then Inr (upd (\<lambda>q. q\<lparr>QType := ''dir''\<rparr>) pq)
     else if isUnknownFilterToken raw then Inl (UnsupportedFilter raw)
     else if looksLikeImplicitFilenameGlob raw then globArm env raw pq
     else plainArm env raw pq)"

text \<open>One alternative of a group: the query so far, with its \<open>MatchPath\<close>, and the alternatives found.\<close>

definition addAlternative :: "(parsedQuery \<Rightarrow> string \<Rightarrow> queryError + parsedQuery) \<Rightarrow> parsedQuery \<times> parsedQuery list \<Rightarrow> string \<Rightarrow>
    queryError + parsedQuery \<times> parsedQuery list" where
  "addAlternative app st part =
    (case st of (pq, grp) \<Rightarrow>
      if part = [] then Inr st
      else case app (subQuery pq) part of
        Inl e \<Rightarrow> Inl e
      | Inr sub \<Rightarrow>
          if isEmpty sub then Inr st
          else Inr (if MatchPath (qf sub) then upd (\<lambda>q. q\<lparr>MatchPath := True\<rparr>) pq else pq, grp @ [sub]))"

lemma addAlternative_cong [fundef_cong]:
  "st = st' \<Longrightarrow> part = part' \<Longrightarrow> (\<And>q. app q part' = app' q part') \<Longrightarrow> addAlternative app st part = addAlternative app' st' part'"
  by (cases st') (simp add: addAlternative_def)

lemma splitOn_nonempty: "splitOn c s \<noteq> []"
  by (induction c s rule: splitOn.induct) (auto split: list.split)

lemma splitOn_le: "p \<in> set (splitOn c s) \<Longrightarrow> length p \<le> length s"
proof (induction c s arbitrary: p rule: splitOn.induct)
  case (2 c b s)
  obtain q qs where q: "splitOn c s = q # qs" using splitOn_nonempty by (cases "splitOn c s") auto
  show ?case using 2 q by (cases "b = c") (auto intro: le_SucI)
qed simp

lemma splitOn_shorter: "c \<in> set s \<Longrightarrow> p \<in> set (splitOn c s) \<Longrightarrow> length p < length s"
proof (induction c s arbitrary: p rule: splitOn.induct)
  case (2 c b s)
  obtain q qs where q: "splitOn c s = q # qs" using splitOn_nonempty by (cases "splitOn c s") auto
  show ?case
  proof (cases "b = c")
    case True
    with 2(4) splitOn_le [of p c s] show ?thesis by (auto simp: less_Suc_eq_le)
  next
    case False
    with 2(3) have "c \<in> set s" by simp
    note IH = 2(2) [OF False this]
    show ?thesis using IH [of p] IH [of q] 2(4) False q by auto
  qed
qed simp

definition isNegation :: "string \<Rightarrow> bool" where
  "isNegation raw \<longleftrightarrow> (hasPrefix raw ''!'' \<or> hasPrefix raw ''-'') \<and> length raw > 1"

definition isGroup :: "string \<Rightarrow> bool" where
  "isGroup raw \<longleftrightarrow> CHR ''|'' \<in> set raw \<and> \<not> hasPrefix raw ''regex:''"

definition closeGroup :: "parsedQuery \<Rightarrow> parsedQuery list \<Rightarrow> parsedQuery" where
  "closeGroup pq grp =
    (case grp of
       [] \<Rightarrow> pq
     | [sub] \<Rightarrow> mergeSubquery pq sub
     | _ \<Rightarrow> ParsedQuery (qf pq) (OrGroups pq @ [grp]) (NotGroups pq))"

function applyQueryToken :: "goEnv \<Rightarrow> parsedQuery \<Rightarrow> string \<Rightarrow> queryError + parsedQuery" where
  "applyQueryToken env pq raw =
    (if raw = [] \<or> isBarePathSeparatorToken raw then Inr pq
     else if isNegation raw then
       (case applyQueryToken env (subQuery pq) (tl raw) of
          Inl e \<Rightarrow> Inl e
        | Inr sub \<Rightarrow> Inr (if isEmpty sub then pq else ParsedQuery (qf pq) (OrGroups pq) (NotGroups pq @ [sub])))
     else if isGroup raw then
       (case foldE (addAlternative (applyQueryToken env)) (pq, []) (splitOn (CHR ''|'') raw) of
          Inl e \<Rightarrow> Inl e
        | Inr (pq, grp) \<Rightarrow> Inr (closeGroup pq grp))
     else filterToken env pq raw)"
  by pat_completeness auto
termination
  by (relation "measure (\<lambda>(env, pq, raw). length raw)") (auto simp: isNegation_def isGroup_def intro: splitOn_shorter)

declare applyQueryToken.simps [simp del]

section \<open>Queries\<close>

definition pathScoped :: "queryFields \<Rightarrow> bool" where
  "pathScoped q \<longleftrightarrow> MatchPath q \<or> Dirs q \<noteq> [] \<or> Under q \<noteq> []"

definition promotePathBareExtensionTerms :: "goEnv \<Rightarrow> parsedQuery \<Rightarrow> parsedQuery" where
  "promotePathBareExtensionTerms env =
    upd (\<lambda>q.
      let anchor = Under q \<noteq> [] \<or> Dirs q \<noteq> [] \<or>
            list_ex (\<lambda>t. \<not> (isVolumeQueryTerm t \<or> commonPathBareExtensionTerm env t \<or> containsAny t (globChars @ ''.'')) \<and> length t \<ge> 3)
              (Terms q)
      in if \<not> pathScoped q \<or> \<not> anchor then q
         else q\<lparr>Exts := Exts q @ filter (commonPathBareExtensionTerm env) (Terms q),
                 Terms := filter (\<lambda>t. \<not> commonPathBareExtensionTerm env t) (Terms q)\<rparr>)"

definition promotePathExtensionTerms :: "goEnv \<Rightarrow> parsedQuery \<Rightarrow> parsedQuery" where
  "promotePathExtensionTerms env pq =
    (if \<not> pathScoped (qf pq) then pq
     else promotePathBareExtensionTerms env
       (upd (\<lambda>q. q\<lparr>Exts := Exts q @ List.map_filter dottedExtensionTerm (Terms q),
                    Terms := filter (\<lambda>t. dottedExtensionTerm t = None) (Terms q)\<rparr>) pq))"

record queryOptions =
  oQuery :: string
  oMatchPath :: bool
  oLimit :: int
  oUnder :: string
  oExists :: bool
  oCWDBias :: string
  oRootBias :: string
  oRecent :: string
  oModifiedAfter :: string
  oCaseSensitive :: bool
  oFuzzy :: bool

definition startQuery :: "goEnv \<Rightarrow> queryOptions \<Rightarrow> parsedQuery" where
  "startQuery env opts =
    ParsedQuery (zeroFields\<lparr>Raw := oQuery opts, MatchPath := oMatchPath opts \<or> queryLooksPathScoped (oQuery opts),
      CaseSensitive := oCaseSensitive opts, Fuzzy := oFuzzy opts, Under := normalizeFilterPath env (oUnder opts), Exists := oExists opts,
      CWDBias := normalizeFilterPath env (oCWDBias opts), RootBias := normalizeFilterPath env (oRootBias opts)\<rparr>) [] []"

definition parseTimes :: "goEnv \<Rightarrow> queryOptions \<Rightarrow> parsedQuery \<Rightarrow> queryError + parsedQuery" where
  "parseTimes env opts pq =
    (let recent = (\<lambda>pq. if oRecent opts = [] then Inr pq
           else case parseDuration env (oRecent opts) of
             None \<Rightarrow> Inl (InvalidDuration (oRecent opts))
           | Some d \<Rightarrow> Inr (upd (\<lambda>q. q\<lparr>ModifiedAfter := nowF env - d, HasModAfter := True\<rparr>) pq))
     in if oModifiedAfter opts = [] then recent pq
        else case parseTimeF env (oModifiedAfter opts) of
          None \<Rightarrow> Inl (InvalidTime (oModifiedAfter opts))
        | Some t \<Rightarrow> recent (upd (\<lambda>q. q\<lparr>ModifiedAfter := t, HasModAfter := True\<rparr>) pq))"

definition parseToken :: "goEnv \<Rightarrow> parsedQuery \<Rightarrow> string \<Rightarrow> queryError + parsedQuery" where
  "parseToken env pq raw =
    applyQueryToken env
      (if implicitPathSeparatorToken raw
       then upd (\<lambda>q. q\<lparr>ImplicitPathTerms := ImplicitPathTerms q @ queryPlainTerms env raw (CaseSensitive q) True\<rparr>) pq else pq) raw"

definition parseQuery :: "goEnv \<Rightarrow> queryOptions \<Rightarrow> queryError + parsedQuery" where
  "parseQuery env opts =
    (case parseTimes env opts (startQuery env opts) of
       Inl e \<Rightarrow> Inl e
     | Inr pq \<Rightarrow>
         (case foldE (parseToken env) pq (stringFields (oQuery opts)) of
            Inl e \<Rightarrow> Inl e
          | Inr pq \<Rightarrow>
              let pq = promotePathExtensionTerms env pq in if isEmpty pq then Inl NoTerms else Inr pq))"

lemma upd_simps [simp]:
  "qf (upd f pq) = f (qf pq)" "OrGroups (upd f pq) = OrGroups pq" "NotGroups (upd f pq) = NotGroups pq"
  by (simp_all add: upd_def)

end
