(* ===== verification/QueryTokens.thy ===== *)
theory QueryTokens
  imports QueryParse
begin

text \<open>
  What the query parser guarantees: every accepted query is well formed, unknown filters are errors and plain tokens never
  are, and byte sizes are exact until they overflow. The inductive relation \<open>fieldStep\<close> lists the changes one token can
  make to a query; each arm of the token switch makes one of them.
\<close>

section \<open>Strings without spaces\<close>

definition graphic :: "char \<Rightarrow> bool" where
  "graphic c \<longleftrightarrow> 33 \<le> (of_char c :: int) \<and> of_char c \<le> (126 :: int)"

lemma spaceLen_graphic:
  assumes "s \<noteq> []" "graphic (hd s)"
  shows "spaceLen s = 0"
proof -
  obtain c r where s: "s = c # r" "graphic c" using assms by (cases s) auto
  have "\<forall>p\<in>set spaceRunes. map of_char (take (length p) s) \<noteq> p"
    using s by (simp add: spaceRunes_def graphic_def)
  then show ?thesis by (simp add: spaceLen_def find_None_iff [THEN iffD2])
qed

lemma spaceLenEnd_graphic:
  assumes "list_all graphic s"
  shows "spaceLenEnd s = 0"
proof -
  have "spaceLen (drop (length s - k) s) = 0" if "1 \<le> k" "k \<le> length s" for k
  proof -
    have "drop (length s - k) s \<noteq> []" using that by simp
    moreover have "hd (drop (length s - k) s) \<in> set s" using that by (metis calculation in_set_dropD list.set_sel(1))
    ultimately show ?thesis using assms by (intro spaceLen_graphic) (auto simp: list_all_iff)
  qed
  then have "filter (\<lambda>k. k \<le> length s \<and> spaceLen (drop (length s - k) s) = k) [1, 2, 3] = []" by auto
  then show ?thesis by (simp add: spaceLenEnd_def)
qed

lemma trimSpace_graphic: "list_all graphic s \<Longrightarrow> trimSpace s = s"
proof -
  assume s: "list_all graphic s"
  have "spaceLen s = 0"
  proof (cases s)
    case Nil
    then show ?thesis by (simp add: spaceLen_def spaceRunes_def)
  qed (use s in \<open>auto intro: spaceLen_graphic\<close>)
  then have "trimLeftSpace s = s" by (subst trimLeftSpace.simps) simp
  moreover have "trimRightSpace s = s" using spaceLenEnd_graphic [OF s] by (subst trimRightSpace.simps) simp
  ultimately show ?thesis by (simp add: trimSpace_def)
qed

section \<open>Examples\<close>

text \<open>An environment for examples: ASCII strings, no globs and regular expressions, a fixed clock.\<close>

definition exampleEnv :: goEnv where
  "exampleEnv = \<lparr>toLowerF = lowerASCII, regexpCompiles = (\<lambda>_. True), parseTimeF = (\<lambda>_. None), parseDuration = (\<lambda>_. None), nowF = 100,
     startOfDay = 50, weekdayF = 3, addDays = (\<lambda>t d. t + d), absCleanPath = id, cleanPath = id, baseName = id, dirName = id,
     relPath = (\<lambda>r p. None), isAbsPath = (\<lambda>_. False), equalFold = (\<lambda>a b. lowerASCII a = lowerASCII b),
     globMatch = (\<lambda>g n. g = n), regexpMatch = (\<lambda>r p. False), statOk = (\<lambda>_. True)\<rparr>"

definition optionsOf :: "string \<Rightarrow> queryOptions" where
  "optionsOf text = \<lparr>oQuery = text, oMatchPath = False, oLimit = 0, oUnder = [], oExists = False, oCWDBias = [], oRootBias = [],
     oRecent = [], oModifiedAfter = [], oCaseSensitive = False, oFuzzy = False\<rparr>"

text \<open>Evaluating tokens by simplification.\<close>

lemmas token_eval = isBarePathSeparatorToken_def isSlash_def isNegation_def isGroup_def filterToken_def hasPrefix_def isUnknownFilterToken_def
  isLetter_def isLower_def isUpper_def isDigit_def looksLikeImplicitFilenameGlob_def trimSpace_graphic graphic_def containsAny_def
  plainArm_def hasSuffix_def queryPlainTerms_def normalizeCase_def exampleEnv_def upd_def Let_def lowerASCII_def foldASCII_def isEmpty_def
  addAlternative_def closeGroup_def zeroFields_def subQuery_def mergeSubquery_def

section \<open>Well-formed queries\<close>

definition wfFields :: "queryFields \<Rightarrow> bool" where
  "wfFields q \<longleftrightarrow> [] \<notin> set (Terms q) \<and> [] \<notin> set (Exts q) \<and> [] \<notin> set (Dirs q) \<and> [] \<notin> set (Globs q) \<and> [] \<notin> set (Regexps q) \<and>
     [] \<notin> set (Parents q) \<and> QType q \<in> {[], ''file'', ''dir''} \<and>
     SortColumn q \<in> {[], ''size'', ''modified'', ''extension'', ''type'', ''path''} \<and>
     (\<forall>sf\<in>set (SizeFilters q). sfOp sf \<in> {''>'', ''>='', ''<'', ''<='', ''=''} \<and> - (2 ^ 63) \<le> sfBytes sf \<and> sfBytes sf < 2 ^ 63) \<and>
     (\<forall>df\<in>set (DateFilters q). dfAfter df \<noteq> None) \<and>
     (\<forall>m\<in>set (AttrFilters q). m AND 0x37 = m \<and> m \<noteq> 0)"

fun wfQuery :: "parsedQuery \<Rightarrow> bool" where
  "wfQuery (ParsedQuery q ors nots) \<longleftrightarrow> wfFields q \<and>
    (\<forall>g\<in>set ors. length g \<ge> 2 \<and> (\<forall>s\<in>set g. wfQuery s \<and> \<not> isEmpty s)) \<and> (\<forall>s\<in>set nots. wfQuery s \<and> \<not> isEmpty s)"

text \<open>What is known of \<open>strings.ToLower\<close>: only the empty string becomes empty.\<close>

definition lowerKeeps :: "goEnv \<Rightarrow> bool" where
  "lowerKeeps env \<longleftrightarrow> (\<forall>s. toLowerF env s = [] \<longleftrightarrow> s = [])"

lemma normalizeCase_Nil: "lowerKeeps env \<Longrightarrow> normalizeCase env s cs = [] \<longleftrightarrow> s = []"
  by (simp add: normalizeCase_def lowerKeeps_def)

lemma queryPlainTerms_nonempty: "lowerKeeps env \<Longrightarrow> [] \<notin> set (queryPlainTerms env raw cs mp)"
  by (auto simp: queryPlainTerms_def Let_def normalizeCase_Nil eq_commute [of "[]"])

lemma wfFields_zero: "wfFields (zeroFields\<lparr>MatchPath := m, CaseSensitive := c\<rparr>)"
  by (simp add: wfFields_def zeroFields_def)

lemma parseSizeFilter_wf:
  "parseSizeFilter env spec = Inr sf \<Longrightarrow> sfOp sf \<in> {''>'', ''>='', ''<'', ''<='', ''=''} \<and> - (2 ^ 63) \<le> sfBytes sf \<and> sfBytes sf < 2 ^ 63"
proof -
  have op: "splitOp s = (cmp, rest) \<Longrightarrow> cmp \<in> {''>'', ''>='', ''<'', ''<='', ''=''}" for s cmp rest
    by (auto simp: splitOp_def split: if_splits)
  have "parseByteSize env s = Some n \<Longrightarrow> - (2 ^ 63) \<le> n \<and> n < 2 ^ 63" for s n
    by (auto simp: parseByteSize_def wrap64_def Let_def split: if_splits prod.splits option.splits)
  moreover assume "parseSizeFilter env spec = Inr sf"
  then obtain cmp rest n where "splitOp (trimSpace spec) = (cmp, rest)" "parseByteSize env (trimSpace rest) = Some n"
    "sf = \<lparr>sfOp = cmp, sfBytes = n\<rparr>"
    by (auto simp: parseSizeFilter_def Let_def split: if_splits prod.splits option.splits)
  ultimately show ?thesis using op by (metis sizeFilter.select_convs)
qed

lemma parseDateFilter_wf: "parseDateFilter env spec = Inr df \<Longrightarrow> dfAfter df \<noteq> None"
  by (auto simp: parseDateFilter_def dayFilter_def Let_def split: if_splits option.splits)

lemma attribBit_mask: "attribBit r = Some b \<Longrightarrow> b AND 0x37 = b \<and> b \<noteq> 0"
  by (auto simp: attribBit_def split: if_splits)

lemma attribLoop_mask: "attribLoop m s = Inr m' \<Longrightarrow> m AND 0x37 = m \<Longrightarrow> m' AND 0x37 = m' \<and> (m \<noteq> 0 \<or> s \<noteq> [] \<longrightarrow> m' \<noteq> 0)"
proof (induction m s rule: attribLoop.induct)
  case (2 m r s)
  then obtain b where b: "attribBit r = Some b" by (cases "attribBit r") simp_all
  note mask = attribBit_mask [OF b]
  have "(m OR b) AND 0x37 = m OR b" using mask 2(3) by (simp add: bit.conj_disj_distrib2)
  moreover have "m OR b \<noteq> 0" using mask by (simp add: or_eq_0_iff)
  ultimately show ?case using 2(1) [OF b] 2(2) b by simp
qed simp

lemma parseAttribFilter_mask: "parseAttribFilter spec = Inr m \<Longrightarrow> m AND 0x37 = m \<and> m \<noteq> 0"
  using attribLoop_mask [of 0] by (auto simp: parseAttribFilter_def Let_def split: if_splits)

text \<open>The changes one token can make to the fields of a query.\<close>

inductive fieldStep :: "goEnv \<Rightarrow> queryFields \<Rightarrow> queryFields \<Rightarrow> bool" for env where
  keep: "fieldStep env q q"
| ext: "e \<noteq> [] \<Longrightarrow> fieldStep env q (q\<lparr>Exts := Exts q @ [normalizeCase env e (CaseSensitive q)]\<rparr>)"
| dir: "d \<noteq> [] \<Longrightarrow> fieldStep env q (q\<lparr>Dirs := Dirs q @ [normalizeCase env d (CaseSensitive q)]\<rparr>)"
| parent: "p \<noteq> [] \<Longrightarrow> fieldStep env q (q\<lparr>Parents := Parents q @ [normalizeCase env p (CaseSensitive q)]\<rparr>)"
| glob: "g \<noteq> [] \<Longrightarrow> fieldStep env q (q\<lparr>Globs := Globs q @ [normalizeCase env g (CaseSensitive q)]\<rparr>)"
| regex: "r \<noteq> [] \<Longrightarrow> fieldStep env q (q\<lparr>RegexTerms := rs, Regexps := Regexps q @ [r]\<rparr>)"
| size: "parseSizeFilter env a = Inr sf \<Longrightarrow> fieldStep env q (q\<lparr>SizeFilters := SizeFilters q @ [sf]\<rparr>)"
| date: "parseDateFilter env a = Inr df \<Longrightarrow> fieldStep env q (q\<lparr>DateFilters := DateFilters q @ [df]\<rparr>)"
| attrib: "parseAttribFilter a = Inr m \<Longrightarrow> fieldStep env q (q\<lparr>AttrFilters := AttrFilters q @ [m]\<rparr>)"
| sort: "c \<in> {''size'', ''modified'', ''extension'', ''type'', ''path''} \<Longrightarrow> fieldStep env q (q\<lparr>SortColumn := c\<rparr>)"
| casing: "fieldStep env q (q\<lparr>CaseSensitive := c\<rparr>)"
| kind: "t \<in> {''file'', ''dir''} \<Longrightarrow> fieldStep env q (q\<lparr>QType := t\<rparr>)"
| path: "fieldStep env q (q\<lparr>MatchPath := True\<rparr>)"
| pathTerms: "fieldStep env q (q\<lparr>MatchPath := True, Impossible := i, Terms := Terms q @ queryPlainTerms env t (CaseSensitive q) True\<rparr>)"
| plain: "fieldStep env q (q\<lparr>Fuzzy := f, Terms := Terms q @ queryPlainTerms env t (CaseSensitive q) (MatchPath q)\<rparr>)"

text \<open>A token that succeeds changes only the fields, in one of those ways.\<close>

definition stepsTo :: "goEnv \<Rightarrow> parsedQuery \<Rightarrow> parsedQuery \<Rightarrow> bool" where
  "stepsTo env pq pq' \<longleftrightarrow> fieldStep env (qf pq) (qf pq') \<and> OrGroups pq' = OrGroups pq \<and> NotGroups pq' = NotGroups pq"

named_theorems arm_steps \<open>what each arm of the token switch does to a query\<close>

lemma extArm_step [arm_steps]: "extArm env a pq = Inr pq' \<Longrightarrow> stepsTo env pq pq'"
  by (auto simp: extArm_def stepsTo_def Let_def intro: fieldStep.intros)

lemma dirArm_step [arm_steps]: "dirArm env a pq = Inr pq' \<Longrightarrow> stepsTo env pq pq'"
  by (auto simp: dirArm_def stepsTo_def intro: fieldStep.intros)

lemma pathArm_step [arm_steps]: "pathArm env a pq = Inr pq' \<Longrightarrow> stepsTo env pq pq'"
  by (auto simp: pathArm_def stepsTo_def Let_def intro: fieldStep.path fieldStep.pathTerms)

lemma parentArm_step [arm_steps]: "parentArm env r a pq = Inr pq' \<Longrightarrow> stepsTo env pq pq'"
  by (auto simp: parentArm_def stepsTo_def intro: fieldStep.intros split: if_splits)

lemma globArm_step [arm_steps]: "globArm env a pq = Inr pq' \<Longrightarrow> stepsTo env pq pq'"
  by (auto simp: globArm_def stepsTo_def intro: fieldStep.intros)

lemma regexArm_step [arm_steps]: "regexArm env a pq = Inr pq' \<Longrightarrow> stepsTo env pq pq'"
  by (auto simp: regexArm_def stepsTo_def Let_def intro: fieldStep.keep fieldStep.regex split: if_splits)

lemma sizeArm_step [arm_steps]: "sizeArm env a pq = Inr pq' \<Longrightarrow> stepsTo env pq pq'"
  by (auto simp: sizeArm_def stepsTo_def intro: fieldStep.size split: sum.splits)

lemma dateArm_step [arm_steps]: "dateArm env a pq = Inr pq' \<Longrightarrow> stepsTo env pq pq'"
  by (auto simp: dateArm_def stepsTo_def intro: fieldStep.date split: sum.splits)

lemma attribArm_step [arm_steps]: "attribArm a pq = Inr pq' \<Longrightarrow> stepsTo env pq pq'"
  by (auto simp: attribArm_def stepsTo_def intro: fieldStep.attrib split: sum.splits)

lemma sortArm_step [arm_steps]: "sortArm env r a pq = Inr pq' \<Longrightarrow> stepsTo env pq pq'"
  by (auto simp: sortArm_def stepsTo_def Let_def intro!: fieldStep.sort split: if_splits)

lemma plainArm_step [arm_steps]: "plainArm env a pq = Inr pq' \<Longrightarrow> stepsTo env pq pq'"
  unfolding plainArm_def stepsTo_def Let_def by (auto intro: fieldStep.plain)

lemma filterToken_step: "filterToken env pq raw = Inr pq' \<Longrightarrow> stepsTo env pq pq'"
  unfolding filterToken_def
  by (auto split: if_splits intro: arm_steps simp: stepsTo_def [of env pq "upd f pq" for f] intro!: fieldStep.casing fieldStep.kind)

lemma fieldStep_wf:
  assumes "lowerKeeps env" "fieldStep env q q'" "wfFields q"
  shows "wfFields q'"
  using assms(2,3)
proof cases
  case (size a sf)
  then show ?thesis using assms(3) parseSizeFilter_wf [of env a sf] by (simp add: wfFields_def)
next
  case (date a df)
  then show ?thesis using assms(3) parseDateFilter_wf [of env a df] by (simp add: wfFields_def)
next
  case (attrib a m)
  then show ?thesis using assms(3) parseAttribFilter_mask [of a m] by (simp add: wfFields_def)
qed (use assms(3) normalizeCase_Nil [OF assms(1)] queryPlainTerms_nonempty [OF assms(1)] in \<open>auto simp: wfFields_def eq_commute [of "[]"]\<close>)

lemma foldE_invariant:
  assumes "foldE f s xs = Inr s'" "P s" "\<And>u x u'. x \<in> set xs \<Longrightarrow> P u \<Longrightarrow> f u x = Inr u' \<Longrightarrow> P u'"
  shows "P s'"
  using assms
proof (induction xs arbitrary: s)
  case (Cons x xs)
  then obtain u where u: "f s x = Inr u" "foldE f u xs = Inr s'" by (auto split: sum.splits)
  have "P u" by (rule Cons.prems(3) [OF _ Cons.prems(2) u(1)]) simp
  from Cons.IH [OF u(2) this] Cons.prems(3) show ?case by (meson list.set_intros(2))
qed simp

definition wfGroups :: "parsedQuery \<Rightarrow> bool" where
  "wfGroups pq \<longleftrightarrow> (\<forall>g\<in>set (OrGroups pq). length g \<ge> 2 \<and> (\<forall>s\<in>set g. wfQuery s \<and> \<not> isEmpty s)) \<and>
    (\<forall>s\<in>set (NotGroups pq). wfQuery s \<and> \<not> isEmpty s)"

lemma wfQuery_iff: "wfQuery pq \<longleftrightarrow> wfFields (qf pq) \<and> wfGroups pq"
  by (cases pq) (simp add: wfGroups_def)

lemma wfGroups_upd [simp]: "wfGroups (upd f pq) = wfGroups pq"
  by (simp add: wfGroups_def)

lemma wfQuery_subQuery: "wfQuery (subQuery pq)"
  by (simp add: subQuery_def wfFields_zero)

lemma wfFields_updates [simp]:
  "wfFields (q\<lparr>MatchPath := m\<rparr>) = wfFields q" "wfFields (q\<lparr>ImplicitPathTerms := ts\<rparr>) = wfFields q"
  "wfFields (q\<lparr>ModifiedAfter := t, HasModAfter := h\<rparr>) = wfFields q"
  by (simp_all add: wfFields_def)

lemma mergeSubquery_wf: "wfQuery pq \<Longrightarrow> wfQuery sub \<Longrightarrow> wfQuery (mergeSubquery pq sub)"
  by (simp add: wfQuery_iff mergeSubquery_def wfFields_def Let_def ball_Un) blast

lemma closeGroup_wf: "wfQuery pq \<Longrightarrow> \<forall>s\<in>set grp. wfQuery s \<and> \<not> isEmpty s \<Longrightarrow> wfQuery (closeGroup pq grp)"
  by (auto simp: closeGroup_def wfQuery_iff [of pq] wfGroups_def mergeSubquery_wf split: list.split)

lemma addAlternative_wf:
  assumes "addAlternative app (pq, grp) part = Inr (pq', grp')" "wfQuery pq" "\<forall>s\<in>set grp. wfQuery s \<and> \<not> isEmpty s"
    "\<And>q q'. part \<noteq> [] \<Longrightarrow> wfQuery q \<Longrightarrow> app q part = Inr q' \<Longrightarrow> wfQuery q'"
  shows "wfQuery pq' \<and> (\<forall>s\<in>set grp'. wfQuery s \<and> \<not> isEmpty s)"
proof (cases "part = []")
  case False
  obtain sub where sub: "app (subQuery pq) part = Inr sub"
    using assms(1) False by (cases "app (subQuery pq) part") (auto simp: addAlternative_def)
  note wf = assms(4) [OF False wfQuery_subQuery sub]
  show ?thesis
  proof (cases "isEmpty sub")
    case True
    then show ?thesis using assms(1-3) False sub by (simp add: addAlternative_def)
  next
    case nonempty: False
    then have "pq' = (if MatchPath (qf sub) then upd (\<lambda>q. q\<lparr>MatchPath := True\<rparr>) pq else pq)" "grp' = grp @ [sub]"
      using assms(1) False sub by (simp_all add: addAlternative_def)
    then show ?thesis using assms(2,3) wf nonempty by (simp add: wfQuery_iff [of pq] wfQuery_iff [of "upd _ _"])
  qed
qed (use assms in \<open>simp add: addAlternative_def\<close>)

text \<open>The ways a token can succeed.\<close>

lemma applyQueryToken_cases:
  assumes "applyQueryToken env pq raw = Inr pq'"
  obtains (blank) "pq' = pq"
  | (neg) sub where "\<not> (raw = [] \<or> isBarePathSeparatorToken raw)" "isNegation raw" "applyQueryToken env (subQuery pq) (tl raw) = Inr sub"
      "pq' = (if isEmpty sub then pq else ParsedQuery (qf pq) (OrGroups pq) (NotGroups pq @ [sub]))"
  | (grp) pq1 grp where "\<not> (raw = [] \<or> isBarePathSeparatorToken raw)" "\<not> isNegation raw" "isGroup raw"
      "foldE (addAlternative (applyQueryToken env)) (pq, []) (splitOn (CHR ''|'') raw) = Inr (pq1, grp)" "pq' = closeGroup pq1 grp"
  | (simple) "\<not> isNegation raw" "\<not> isGroup raw" "filterToken env pq raw = Inr pq'"
proof (cases "raw = [] \<or> isBarePathSeparatorToken raw")
  case True
  with assms have "pq' = pq" by (subst (asm) applyQueryToken.simps) simp
  then show ?thesis by (rule blank)
next
  case real: False
  show ?thesis
  proof (cases "isNegation raw")
    case True
    with assms real show ?thesis by (subst (asm) applyQueryToken.simps) (auto split: sum.splits intro: neg)
  next
    case plain: False
    show ?thesis
    proof (cases "isGroup raw")
      case True
      with assms real plain show ?thesis by (subst (asm) applyQueryToken.simps) (auto split: sum.splits intro: grp)
    next
      case False
      with assms real plain show ?thesis by (subst (asm) applyQueryToken.simps) (auto intro: simple)
    qed
  qed
qed

lemma applyQueryToken_wf:
  assumes "lowerKeeps env"
  shows "wfQuery pq \<Longrightarrow> applyQueryToken env pq raw = Inr pq' \<Longrightarrow> wfQuery pq'"
  using assms
proof (induction env pq raw arbitrary: pq' rule: applyQueryToken.induct)
  case (1 env pq raw)
  from 1(4) show ?case
  proof (cases rule: applyQueryToken_cases)
    case (neg sub)
    have "wfQuery sub" by (rule 1(1) [OF neg(1,2) wfQuery_subQuery neg(3) 1(5)])
    with neg(4) 1(3) show ?thesis by (auto simp: wfQuery_iff [of pq] wfGroups_def)
  next
    case (grp pq1 grp)
    have "(\<lambda>(q, g). wfQuery q \<and> (\<forall>s\<in>set g. wfQuery s \<and> \<not> isEmpty s)) (pq1, grp)"
    proof (rule foldE_invariant [OF grp(4)])
      fix u x u' assume x: "x \<in> set (splitOn (CHR ''|'') raw)" and u: "case u of (q, g) \<Rightarrow> wfQuery q \<and> (\<forall>s\<in>set g. wfQuery s \<and> \<not> isEmpty s)"
        and st: "addAlternative (applyQueryToken env) u x = Inr u'"
      obtain q g q' g' where p: "u = (q, g)" "u' = (q', g')" by fastforce
      have app: "wfQuery r'" if "x \<noteq> []" "wfQuery r" "applyQueryToken env r x = Inr r'" for r r'
        by (rule 1(2) [OF grp(1-3) x that(2,3) 1(5)])
      have "wfQuery q' \<and> (\<forall>s\<in>set g'. wfQuery s \<and> \<not> isEmpty s)"
        by (rule addAlternative_wf [OF st [unfolded p] _ _ app]) (use u p in simp_all)
      with p show "case u' of (q, g) \<Rightarrow> wfQuery q \<and> (\<forall>s\<in>set g. wfQuery s \<and> \<not> isEmpty s)" by simp
    qed (use 1(3) in simp)
    then show ?thesis using grp(5) closeGroup_wf by simp
  next
    case simple
    then have "stepsTo env pq pq'" using filterToken_step by simp
    then have "wfGroups pq' = wfGroups pq" "fieldStep env (qf pq) (qf pq')" by (simp_all add: stepsTo_def wfGroups_def)
    with 1(3) fieldStep_wf [OF 1(5)] show ?thesis by (simp add: wfQuery_iff)
  qed (use 1 in simp)
qed

lemma promote_wf:
  assumes "wfQuery pq"
  shows "wfQuery (promotePathExtensionTerms env pq)"
proof -
  have "[] \<notin> set (List.map_filter dottedExtensionTerm ts)" for ts
  proof -
    have "dottedExtensionTerm t \<noteq> Some []" for t
      by (cases t) (auto simp: dottedExtensionTerm_def split: if_splits)
    then show ?thesis by (auto simp: List.map_filter_def)
  qed
  then have "wfQuery (upd (\<lambda>q. q\<lparr>Exts := Exts q @ List.map_filter dottedExtensionTerm (Terms q),
      Terms := filter (\<lambda>t. dottedExtensionTerm t = None) (Terms q)\<rparr>) pq)" (is "wfQuery ?pq")
    using assms by (simp add: wfQuery_iff wfFields_def)
  moreover have "wfQuery (promotePathBareExtensionTerms env q)" if "wfQuery q" for q
    using that by (simp add: wfQuery_iff promotePathBareExtensionTerms_def wfFields_def Let_def)
  ultimately have "wfQuery (promotePathBareExtensionTerms env ?pq)" by blast
  then show ?thesis using assms unfolding promotePathExtensionTerms_def by simp
qed

lemma parseTimes_wf: "parseTimes env opts pq = Inr pq' \<Longrightarrow> wfQuery pq \<Longrightarrow> wfQuery pq'"
  by (auto simp: parseTimes_def Let_def wfQuery_iff split: if_splits option.splits)



section \<open>Errors\<close>

definition supportedKeys :: "string list" where
  "supportedKeys = [''ext'', ''dir'', ''path'', ''parent'', ''glob'', ''regex'', ''size'', ''dm'', ''attrib'', ''sort'']"

lemma hasPrefix_key:
  assumes "hasPrefix raw (k @ '':'')" "CHR '':'' \<notin> set k"
  shows "indexByte raw (CHR '':'') = Some (length k) \<and> take (length k) raw = k"
proof -
  have "raw = k @ CHR '':'' # drop (length k + 1) raw"
    using assms(1) append_take_drop_id [of "length k + 1" raw] by (simp add: hasPrefix_def)
  moreover have "indexByte (k @ CHR '':'' # r) (CHR '':'') = Some (length k)" for r
    using assms(2) by (induction k) auto
  ultimately show ?thesis by (metis append_eq_conv_conj)
qed

lemma indexByte_None: "indexByte s c = None \<longleftrightarrow> c \<notin> set s"
  by (induction s c rule: indexByte.induct) auto

lemma supported_prefix: "k \<in> set supportedKeys \<Longrightarrow> hasPrefix raw (k @ '':'') \<Longrightarrow> \<exists>i. indexByte raw (CHR '':'') = Some i \<and> take i raw = k"
  by (rule exI [of _ "length k"], rule hasPrefix_key) (auto simp: supportedKeys_def)

lemma unsupported_filterToken:
  assumes "isUnknownFilterToken raw" "\<forall>k\<in>set supportedKeys. \<not> hasPrefix raw (k @ '':'')"
    "raw \<notin> {''case:'', ''case:true'', ''case:false'', ''type:file'', ''type:dir''}"
  shows "filterToken env pq raw = Inl (UnsupportedFilter raw)"
  using assms by (simp add: filterToken_def supportedKeys_def)

lemma no_colon_prefix: "CHR '':'' \<notin> set raw \<Longrightarrow> CHR '':'' \<in> set p \<Longrightarrow> \<not> hasPrefix raw p"
  unfolding hasPrefix_def by (metis in_set_takeD)

lemma no_colon_filterToken:
  assumes "CHR '':'' \<notin> set raw"
  shows "\<exists>pq'. filterToken env pq raw = Inr pq'"
proof -
  have "\<not> isUnknownFilterToken raw" using assms indexByte_None [of raw "CHR '':''"] by (simp add: isUnknownFilterToken_def)
  moreover have "raw \<notin> {''case:'', ''case:true'', ''case:false'', ''type:file'', ''type:dir''}" using assms by auto
  ultimately show ?thesis
    by (simp add: filterToken_def no_colon_prefix [OF assms] globArm_def plainArm_def Let_def)
qed

lemma splitOn_set: "\<forall>p\<in>set (splitOn c s). set p \<subseteq> set s"
proof (induction c s rule: splitOn.induct)
  case (2 c b s)
  obtain q qs where q: "splitOn c s = q # qs" using splitOn_nonempty by (cases "splitOn c s") auto
  show ?case using 2 q by (cases "b = c") auto
qed simp

lemma foldE_total:
  assumes "\<And>u x. x \<in> set xs \<Longrightarrow> \<exists>u'. f u x = Inr u'"
  shows "\<exists>u'. foldE f u xs = Inr u'"
  using assms
proof (induction xs arbitrary: u)
  case (Cons x xs)
  obtain u' where "f u x = Inr u'" using Cons.prems [of x u] by auto
  with Cons.IH [of u'] Cons.prems show ?case by (metis foldE.simps(2) list.set_intros(2) old.sum.simps(6))
qed simp

lemma no_colon_succeeds: "CHR '':'' \<notin> set raw \<Longrightarrow> \<exists>pq'. applyQueryToken env pq raw = Inr pq'"
proof (induction env pq raw rule: applyQueryToken.induct)
  case (1 env pq raw)
  consider "raw = [] \<or> isBarePathSeparatorToken raw" | "\<not> (raw = [] \<or> isBarePathSeparatorToken raw)" "isNegation raw"
    | "\<not> (raw = [] \<or> isBarePathSeparatorToken raw)" "\<not> isNegation raw" "isGroup raw"
    | "\<not> (raw = [] \<or> isBarePathSeparatorToken raw)" "\<not> isNegation raw" "\<not> isGroup raw"
    by blast
  then show ?case
  proof cases
    case 2
    have "CHR '':'' \<notin> set (tl raw)" using 1(3) by (cases raw) auto
    from 1(1) [OF 2 this] 2 show ?thesis by (subst applyQueryToken.simps) auto
  next
    case 3
    have "\<exists>u'. addAlternative (applyQueryToken env) u x = Inr u'" if x: "x \<in> set (splitOn (CHR ''|'') raw)" for u x
    proof -
      have "CHR '':'' \<notin> set x" using splitOn_set [of "CHR ''|''" raw] x 1(3) by blast
      then obtain sub where "applyQueryToken env (subQuery (fst u)) x = Inr sub" using 1(2) [OF 3 x] by blast
      then show ?thesis by (cases u) (simp add: addAlternative_def)
    qed
    then obtain u' where "foldE (addAlternative (applyQueryToken env)) (pq, []) (splitOn (CHR ''|'') raw) = Inr u'"
      using foldE_total by metis
    with 3 show ?thesis by (subst applyQueryToken.simps) (simp split: prod.split)
  next
    case 4
    with no_colon_filterToken [OF 1(3)] show ?thesis by (subst applyQueryToken.simps) simp
  qed (subst applyQueryToken.simps, simp)
qed



section \<open>Byte sizes\<close>

definition digitChar :: "nat \<Rightarrow> char" where
  "digitChar d = char_of (48 + d)"

fun decimal :: "nat \<Rightarrow> string" where
  "decimal n = (if n < 10 then [digitChar n] else decimal (n div 10) @ [digitChar (n mod 10)])"

declare decimal.simps [simp del]

lemma of_char_digit [simp]: "d < 10 \<Longrightarrow> of_char (digitChar d) = (48 + of_nat d :: 'a :: {linordered_euclidean_semiring_bit_operations})"
proof -
  assume "d < 10"
  then have "(of_char (digitChar d) :: nat) = 48 + d" by (simp add: digitChar_def)
  then show ?thesis by (metis of_nat_add of_nat_numeral of_nat_of_char)
qed

lemma digitVal_digit [simp]: "d < 10 \<Longrightarrow> digitVal (digitChar d) = Some (int d)"
  by (simp add: digitVal_def Let_def)

lemma decimal_nonempty [simp]: "decimal n \<noteq> []"
  by (subst decimal.simps) simp

lemma parseDigits_append:
  "parseDigits acc (s @ t) = (case parseDigits acc s of None \<Rightarrow> None | Some a \<Rightarrow> parseDigits a t)"
  by (induction acc s rule: parseDigits.induct) (auto split: option.split)

lemma parseDigits_decimal: "parseDigits 0 (decimal n) = Some (int n)"
proof (induction n rule: decimal.induct)
  case (1 n)
  show ?case
  proof (cases "n < 10")
    case True
    then show ?thesis by (subst decimal.simps) simp
  next
    case False
    have "10 * int (n div 10) + int (n mod 10) = int n" by presburger
    with False 1 show ?thesis by (subst decimal.simps) (simp add: parseDigits_append)
  qed
qed

lemma decimal_digits: "c \<in> set (decimal n) \<Longrightarrow> \<exists>d<10. c = digitChar d"
proof (induction n rule: decimal.induct)
  case (1 n)
  show ?case
  proof (cases "n < 10")
    case True
    with 1(2) show ?thesis by (subst (asm) decimal.simps) auto
  next
    case False
    with 1 show ?thesis by (subst (asm) (2) decimal.simps) (auto intro: exI [of _ "n mod 10"])
  qed
qed

lemma decimal_graphic: "list_all graphic (decimal n)"
  using decimal_digits by (fastforce simp: list_all_iff graphic_def)

lemma hasSuffix_prefix: "hasSuffix s p \<longleftrightarrow> prefix (rev p) (rev s)"
proof -
  have "hasSuffix s p \<longleftrightarrow> (\<exists>r. s = r @ p)"
  proof
    assume "hasSuffix s p"
    then have "s = take (length s - length p) s @ p" unfolding hasSuffix_def by (metis append_take_drop_id)
    then show "\<exists>r. s = r @ p" ..
  qed (auto simp: hasSuffix_def)
  also have "\<dots> \<longleftrightarrow> prefix (rev p) (rev s)" unfolding suffix_to_prefix [symmetric] suffix_def ..
  finally show ?thesis .
qed

lemma splitUnit_decimal:
  assumes "(u, m) \<in> set (([], 1) # byteUnits)"
  shows "splitUnit (decimal n @ u) = (m, decimal n)"
proof -
  obtain r c where rev: "rev (decimal n) = c # r" by (cases "rev (decimal n)") auto
  then have "c \<in> set (decimal n)" by (metis list.set_intros(1) set_rev)
  then obtain d where d: "d < 10" "c = digitChar d" using decimal_digits by blast
  have "(of_char c :: nat) = 48 + d" using d by simp
  then have c: "c \<noteq> CHR ''t''" "c \<noteq> CHR ''g''" "c \<noteq> CHR ''m''" "c \<noteq> CHR ''k''" "c \<noteq> CHR ''b''" using d(1) by auto
  then have "\<forall>(u, m)\<in>set (([], 1) # byteUnits). splitUnit (decimal n @ u) = (m, decimal n)"
    by (simp add: splitUnit_def byteUnits_def hasSuffix_prefix rev c [symmetric])
  with assms show ?thesis by blast
qed

lemma decimal_head: "\<exists>d r. d < 10 \<and> decimal n = digitChar d # r"
proof -
  obtain c r where c: "decimal n = c # r" by (cases "decimal n") auto
  with decimal_digits [of c n] show ?thesis by auto
qed

lemma parseInt64_decimal:
  assumes "n < 2 ^ 63"
  shows "parseInt64 (decimal n) = Some (int n)"
proof -
  obtain d r where d: "d < 10" "decimal n = digitChar d # r" using decimal_head by blast
  have "(of_char (digitChar d) :: nat) = 48 + d" using d(1) by simp
  then have "digitChar d \<noteq> CHR ''-''" "digitChar d \<noteq> CHR ''+''" by auto
  then show ?thesis using assms d parseDigits_decimal [of n] by (simp add: parseInt64_def)
qed

text \<open>
  A size written as a decimal number below $2^{63}$ with an optional unit, in any letter case, is read as the number
  times the unit reduced to 64 bits. The result is the written size exactly when that fits 63 bits; beyond, the product
  wraps without an error, so that a size filter can compare with a negative number.
\<close>

theorem parseByteSize_wraps:
  assumes "\<forall>s. isASCII s \<longrightarrow> toLowerF env s = lowerASCII s" "n < 2 ^ 63" "isASCII u" "list_all graphic u"
    and "(lowerASCII u, m) \<in> set (([], 1) # byteUnits)"
  shows "parseByteSize env (decimal n @ u) = Some (wrap64 (int n * m)) \<and>
    (parseByteSize env (decimal n @ u) = Some (int n * m) \<longleftrightarrow> int n * m < 2 ^ 63)"
proof -
  have g: "list_all graphic (decimal n @ u)" using assms(4) decimal_graphic by simp
  have fold: "foldASCII (digitChar d) = digitChar d" if "d < 10" for d using that by (simp add: foldASCII_def)
  have "lowerASCII (decimal n) = decimal n"
    unfolding lowerASCII_def using decimal_digits fold by (intro map_idI) blast
  moreover have "isASCII (decimal n)" using decimal_digits by (fastforce simp: isASCII_def list_all_iff)
  ultimately have low: "toLowerF env (decimal n @ u) = decimal n @ lowerASCII u"
    using assms(1,3) by (simp add: isASCII_def lowerASCII_append)
  have parse: "parseByteSize env (decimal n @ u) = Some (wrap64 (int n * m))"
    using trimSpace_graphic [OF g] trimSpace_graphic [OF decimal_graphic, of n] low splitUnit_decimal [OF assms(5), of n]
      parseInt64_decimal [OF assms(2)]
    by (simp add: parseByteSize_def Let_def)
  have "m \<ge> 1" using assms(5) by (auto simp: byteUnits_def)
  then have "0 \<le> int n * m" by simp
  then have "wrap64 (int n * m) = int n * m \<longleftrightarrow> int n * m < 2 ^ 63"
    by (auto simp: wrap64_def)
  with parse show ?thesis by simp
qed

theorem parseByteSize_wraps_witness:
  "parseByteSize exampleEnv (decimal 100 @ ''Mb'') = Some 104857600 \<and>
   parseByteSize exampleEnv (decimal 9007199254740992 @ ''kb'') = Some (- 9223372036854775808)"
proof -
  have e: "\<forall>s. isASCII s \<longrightarrow> toLowerF exampleEnv s = lowerASCII s" by (simp add: exampleEnv_def)
  have u: "lowerASCII ''Mb'' = ''mb''" "lowerASCII ''kb'' = ''kb''" by code_simp+
  have ok: "isASCII ''Mb''" "list_all graphic ''Mb''" "isASCII ''kb''" "list_all graphic ''kb''" by code_simp+
  have "(lowerASCII ''Mb'', 2 ^ 20) \<in> set (([], 1) # byteUnits)" "(lowerASCII ''kb'', 2 ^ 10) \<in> set (([], 1) # byteUnits)"
    unfolding u by (simp_all add: byteUnits_def)
  from parseByteSize_wraps [OF e _ ok(1,2) this(1), of 100] parseByteSize_wraps [OF e _ ok(3,4) this(2), of 9007199254740992]
  show ?thesis by (simp add: wrap64_def)
qed

end
