(* ===== verification/QueryMatch.thy ===== *)
theory QueryMatch
  imports QueryTokens Records
begin

text \<open>
  Matching an entry against a parsed query (\<open>query_parse.go\<close>: \<open>entryMatches\<close>, the filters and \<open>pathUnder\<close>), and what a
  token means: folding a token into a query adds its own condition to the query's, a negation is the complement of the
  token it negates and a group the union of its alternatives.
\<close>

section \<open>Matching\<close>

record Entry =
  ePath :: string
  eName :: string
  eMode :: u32
  eSize :: int
  eModUnix :: int

definition fileExt :: "string \<Rightarrow> string" where
  "fileExt path =
    (let t = takeWhile (\<lambda>c. c \<noteq> CHR ''.'' \<and> \<not> isSlash c) (rev path)
     in case drop (length t) (rev path) of [] \<Rightarrow> [] | c # _ \<Rightarrow> if c = CHR ''.'' then CHR ''.'' # rev t else [])"

definition containsAll :: "string \<Rightarrow> string list \<Rightarrow> bool" where
  "containsAll s ts \<longleftrightarrow> list_all (\<lambda>t. sublist t s) ts"

definition sizeMatches :: "sizeFilter \<Rightarrow> int \<Rightarrow> bool" where
  "sizeMatches sf n =
    (if sfOp sf = ''>'' then n > sfBytes sf
     else if sfOp sf = ''>='' then n \<ge> sfBytes sf
     else if sfOp sf = ''<'' then n < sfBytes sf
     else if sfOp sf = ''<='' then n \<le> sfBytes sf
     else n = sfBytes sf)"

definition dateMatches :: "dateFilter \<Rightarrow> int \<Rightarrow> bool" where
  "dateMatches df t \<longleftrightarrow> t \<noteq> 0 \<and> (case dfAfter df of None \<Rightarrow> True | Some a \<Rightarrow> \<not> t < a) \<and> (case dfBefore df of None \<Rightarrow> True | Some b \<Rightarrow> t < b)"

definition attrFiltersMatch :: "u32 \<Rightarrow> u32 list \<Rightarrow> bool" where
  "attrFiltersMatch m filters \<longleftrightarrow> list_all (\<lambda>b. m AND b = b) filters"

definition pathUnder :: "goEnv \<Rightarrow> string \<Rightarrow> string \<Rightarrow> bool" where
  "pathUnder env path0 root0 =
    (let path = normalizeFilterPath env path0; root = normalizeFilterPath env root0
     in if equalFold env path root then True
        else case relPath env root path of
          None \<Rightarrow> False
        | Some rel \<Rightarrow> rel \<noteq> ''.'' \<and> rel \<noteq> [] \<and> \<not> hasPrefix rel ''..'' \<and> \<not> isAbsPath env rel)"

text \<open>The conditions of the fields, in the order of the code.\<close>

definition extMatches :: "goEnv \<Rightarrow> string \<Rightarrow> bool \<Rightarrow> string \<Rightarrow> bool" where
  "extMatches env name cs ext \<longleftrightarrow> normalizeCase env (trimPrefix (fileExt name) ''.'') cs = ext"

definition fieldsMatch :: "goEnv \<Rightarrow> Entry \<Rightarrow> queryFields \<Rightarrow> bool \<Rightarrow> bool" where
  "fieldsMatch env entry q matchPath =
    (let path = cleanPath env (ePath entry);
         name = (if eName entry = [] then baseName env path else eName entry);
         cs = CaseSensitive q;
         cmpPath = normalizeCase env path cs;
         cmpName = normalizeCase env name cs;
         haystack = (if matchPath then cmpPath else cmpName)
     in (Under q \<noteq> [] \<longrightarrow> pathUnder env path (Under q)) \<and>
        (Exists q \<longrightarrow> statOk env path) \<and>
        (HasModAfter q \<longrightarrow> eModUnix entry \<noteq> 0 \<and> eModUnix entry > ModifiedAfter q) \<and>
        \<not> (QType q = ''file'' \<and> isDirMode (eMode entry)) \<and>
        \<not> (QType q = ''dir'' \<and> \<not> isDirMode (eMode entry)) \<and>
        list_all (\<lambda>parent. normalizeCase env (baseName env (dirName env path)) cs = parent) (Parents q) \<and>
        containsAll haystack (Terms q) \<and>
        list_all (extMatches env name cs) (Exts q) \<and>
        list_all (\<lambda>dir. sublist dir cmpPath) (Dirs q) \<and>
        list_all (\<lambda>glob. globMatch env glob cmpName) (Globs q) \<and>
        list_all (\<lambda>re. regexpMatch env re path) (Regexps q) \<and>
        list_all (\<lambda>sf. sizeMatches sf (eSize entry)) (SizeFilters q) \<and>
        list_all (\<lambda>df. dateMatches df (eModUnix entry)) (DateFilters q) \<and>
        attrFiltersMatch (eMode entry) (AttrFilters q))"

function entryMatches :: "goEnv \<Rightarrow> Entry \<Rightarrow> parsedQuery \<Rightarrow> bool \<Rightarrow> bool" where
  "entryMatches env entry (ParsedQuery q ors nots) matchPath \<longleftrightarrow>
    fieldsMatch env entry q matchPath \<and>
    list_all (list_ex (\<lambda>alt. entryMatches env entry alt (matchPath \<or> MatchPath (qf alt)))) ors \<and>
    list_all (\<lambda>neg. \<not> entryMatches env entry neg (matchPath \<or> MatchPath (qf neg))) nots"
  by pat_completeness auto
termination
  by (relation "measure (\<lambda>(env, entry, pq, mp). size pq)")
    (auto simp: less_Suc_eq_le trans_le_add1 trans_le_add2 size_list_estimation')

declare entryMatches.simps [simp del]

lemma entryMatches_iff:
  "entryMatches env entry pq mp \<longleftrightarrow> fieldsMatch env entry (qf pq) mp \<and>
    (\<forall>g\<in>set (OrGroups pq). \<exists>alt\<in>set g. entryMatches env entry alt (mp \<or> MatchPath (qf alt))) \<and>
    (\<forall>neg\<in>set (NotGroups pq). \<not> entryMatches env entry neg (mp \<or> MatchPath (qf neg)))"
  by (cases pq) (simp add: entryMatches.simps list_all_iff list_ex_iff)

section \<open>Tokens are conjuncts\<close>

definition conjunct :: "goEnv \<Rightarrow> queryFields \<Rightarrow> queryFields \<Rightarrow> queryFields \<Rightarrow> bool" where
  "conjunct env q d q' \<longleftrightarrow>
    (CaseSensitive q' = CaseSensitive q \<and> CaseSensitive d = CaseSensitive q \<and> (QType q = [] \<or> QType d = []) \<longrightarrow>
      (\<forall>e mp. fieldsMatch env e q' mp \<longleftrightarrow> fieldsMatch env e q mp \<and> fieldsMatch env e d mp))"

lemma fieldsMatch_zero: "fieldsMatch env e (zeroFields\<lparr>MatchPath := m, CaseSensitive := c\<rparr>) mp"
  by (simp add: fieldsMatch_def zeroFields_def containsAll_def attrFiltersMatch_def Let_def)

text \<open>The token gave \<open>pq'\<close> from \<open>pq\<close> and \<open>sub\<close> from a fresh query with the same settings: \<open>sub\<close> is the token's condition.\<close>

definition adds :: "goEnv \<Rightarrow> parsedQuery \<Rightarrow> parsedQuery \<Rightarrow> parsedQuery \<Rightarrow> bool" where
  "adds env pq sub pq' \<longleftrightarrow> conjunct env (qf pq) (qf sub) (qf pq') \<and>
     MatchPath (qf sub) = MatchPath (qf pq') \<and> CaseSensitive (qf sub) = CaseSensitive (qf pq') \<and>
     OrGroups pq' = OrGroups pq @ OrGroups sub \<and> NotGroups pq' = NotGroups pq @ NotGroups sub"

lemma subQuery_simps [simp]:
  "qf (subQuery pq) = zeroFields\<lparr>MatchPath := MatchPath (qf pq), CaseSensitive := CaseSensitive (qf pq)\<rparr>"
  "OrGroups (subQuery pq) = []" "NotGroups (subQuery pq) = []"
  by (simp_all add: subQuery_def)

lemma zeroFields_simps [simp]:
  "Terms zeroFields = []" "Exts zeroFields = []" "Dirs zeroFields = []" "Globs zeroFields = []" "Regexps zeroFields = []"
  "Parents zeroFields = []" "SizeFilters zeroFields = []" "DateFilters zeroFields = []" "AttrFilters zeroFields = []"
  "QType zeroFields = []" "Under zeroFields = []" "\<not> Exists zeroFields" "\<not> HasModAfter zeroFields" "\<not> Fuzzy zeroFields" "\<not> Impossible zeroFields"
  by (simp_all add: zeroFields_def)

lemma adds_same: "adds env pq (subQuery pq) pq"
  by (simp add: adds_def conjunct_def fieldsMatch_zero)

text \<open>One list of conditions is longer: the other conditions stay.\<close>

lemmas match_defs = fieldsMatch_def containsAll_def attrFiltersMatch_def Let_def list_all_append

definition joins :: "queryFields \<Rightarrow> queryFields \<Rightarrow> queryFields \<Rightarrow> bool" where
  "joins q d q' \<longleftrightarrow> Terms q' = Terms q @ Terms d \<and> Exts q' = Exts q @ Exts d \<and> Dirs q' = Dirs q @ Dirs d \<and> Globs q' = Globs q @ Globs d \<and>
     Regexps q' = Regexps q @ Regexps d \<and> Parents q' = Parents q @ Parents d \<and> SizeFilters q' = SizeFilters q @ SizeFilters d \<and>
     DateFilters q' = DateFilters q @ DateFilters d \<and> AttrFilters q' = AttrFilters q @ AttrFilters d \<and>
     QType q' = (if QType d \<noteq> [] then QType d else QType q) \<and> Under q' = Under q \<and> Exists q' = Exists q \<and>
     HasModAfter q' = HasModAfter q \<and> ModifiedAfter q' = ModifiedAfter q \<and> Under d = [] \<and> \<not> Exists d \<and> \<not> HasModAfter d"

lemma joins_conjunct:
  assumes "joins q d q'"
  shows "conjunct env q d q'"
proof -
  have "fieldsMatch env e q' mp \<longleftrightarrow> fieldsMatch env e q mp \<and> fieldsMatch env e d mp"
    if "CaseSensitive q' = CaseSensitive q" "CaseSensitive d = CaseSensitive q" "QType q = [] \<or> QType d = []" for e mp
  proof (cases "QType d = []")
    case True
    with assms that show ?thesis by (simp add: joins_def match_defs split del: if_split) blast
  next
    case False
    with that have "QType q = []" by simp
    with False assms that show ?thesis by (simp add: joins_def match_defs split del: if_split) blast
  qed
  then show ?thesis unfolding conjunct_def by blast
qed

section \<open>The arms of the switch\<close>

named_theorems arm_adds \<open>each arm of the token switch adds its condition\<close>

lemma extArm_adds [arm_adds]: "extArm env a pq = Inr pq' \<Longrightarrow> \<exists>sub. extArm env a (subQuery pq) = Inr sub \<and> adds env pq sub pq'"
  by (auto simp: extArm_def Let_def adds_def joins_def intro!: joins_conjunct)

lemma dirArm_adds [arm_adds]: "dirArm env a pq = Inr pq' \<Longrightarrow> \<exists>sub. dirArm env a (subQuery pq) = Inr sub \<and> adds env pq sub pq'"
  by (auto simp: dirArm_def adds_def joins_def intro!: joins_conjunct)

lemma pathArm_adds [arm_adds]: "pathArm env a pq = Inr pq' \<Longrightarrow> \<exists>sub. pathArm env a (subQuery pq) = Inr sub \<and> adds env pq sub pq'"
  by (auto simp: pathArm_def Let_def adds_def joins_def intro!: joins_conjunct)

lemma parentArm_adds [arm_adds]: "parentArm env r a pq = Inr pq' \<Longrightarrow> \<exists>sub. parentArm env r a (subQuery pq) = Inr sub \<and> adds env pq sub pq'"
  by (auto simp: parentArm_def adds_def joins_def intro!: joins_conjunct split: if_splits)

lemma globArm_adds [arm_adds]: "globArm env a pq = Inr pq' \<Longrightarrow> \<exists>sub. globArm env a (subQuery pq) = Inr sub \<and> adds env pq sub pq'"
  by (auto simp: globArm_def adds_def joins_def intro!: joins_conjunct)

lemma regexArm_adds [arm_adds]: "regexArm env a pq = Inr pq' \<Longrightarrow> \<exists>sub. regexArm env a (subQuery pq) = Inr sub \<and> adds env pq sub pq'"
  by (auto simp: regexArm_def Let_def adds_def joins_def intro!: joins_conjunct split: if_splits)

lemma sizeArm_adds [arm_adds]: "sizeArm env a pq = Inr pq' \<Longrightarrow> \<exists>sub. sizeArm env a (subQuery pq) = Inr sub \<and> adds env pq sub pq'"
  by (auto simp: sizeArm_def adds_def joins_def intro!: joins_conjunct split: sum.splits)

lemma dateArm_adds [arm_adds]: "dateArm env a pq = Inr pq' \<Longrightarrow> \<exists>sub. dateArm env a (subQuery pq) = Inr sub \<and> adds env pq sub pq'"
  by (auto simp: dateArm_def adds_def joins_def intro!: joins_conjunct split: sum.splits)

lemma attribArm_adds [arm_adds]: "attribArm a pq = Inr pq' \<Longrightarrow> \<exists>sub. attribArm a (subQuery pq) = Inr sub \<and> adds env pq sub pq'"
  by (auto simp: attribArm_def adds_def joins_def intro!: joins_conjunct split: sum.splits)

lemma sortArm_adds [arm_adds]: "sortArm env r a pq = Inr pq' \<Longrightarrow> \<exists>sub. sortArm env r a (subQuery pq) = Inr sub \<and> adds env pq sub pq'"
  by (auto simp: sortArm_def Let_def adds_def joins_def intro!: joins_conjunct split: if_splits)

lemma plainArm_adds [arm_adds]: "plainArm env a pq = Inr pq' \<Longrightarrow> \<exists>sub. plainArm env a (subQuery pq) = Inr sub \<and> adds env pq sub pq'"
  unfolding plainArm_def Let_def adds_def by (auto simp: joins_def intro!: joins_conjunct)

lemma if_adds:
  "(c \<Longrightarrow> A = Inr pq' \<Longrightarrow> \<exists>sub. A' = Inr sub \<and> adds env pq sub pq') \<Longrightarrow> (\<not> c \<Longrightarrow> B = Inr pq' \<Longrightarrow> \<exists>sub. B' = Inr sub \<and> adds env pq sub pq') \<Longrightarrow>
   (if c then A else B) = Inr pq' \<Longrightarrow> \<exists>sub. (if c then A' else B') = Inr sub \<and> adds env pq sub pq'"
  by (cases c) simp_all

lemma error_adds [arm_adds]: "Inl e = Inr pq' \<Longrightarrow> \<exists>sub. Inl e = Inr sub \<and> adds env pq sub pq'"
  by simp

lemma case_adds [arm_adds]:
  "Inr (upd (\<lambda>q. q\<lparr>CaseSensitive := c\<rparr>) pq) = Inr pq' \<Longrightarrow>
   \<exists>sub. Inr (upd (\<lambda>q. q\<lparr>CaseSensitive := c\<rparr>) (subQuery pq)) = Inr sub \<and> adds env pq sub pq'"
  by (auto simp: adds_def joins_def intro!: joins_conjunct)

lemma type_adds [arm_adds]:
  "Inr (upd (\<lambda>q. q\<lparr>QType := x # xs\<rparr>) pq) = Inr pq' \<Longrightarrow>
   \<exists>sub. Inr (upd (\<lambda>q. q\<lparr>QType := x # xs\<rparr>) (subQuery pq)) = Inr sub \<and> adds env pq sub pq'"
  by (auto simp: adds_def joins_def intro!: joins_conjunct)

lemma filterToken_adds: "filterToken env pq raw = Inr pq' \<Longrightarrow> \<exists>sub. filterToken env (subQuery pq) raw = Inr sub \<and> adds env pq sub pq'"
  unfolding filterToken_def by (erule arm_adds | erule if_adds [rotated 2])+

lemma subQuery_cong: "MatchPath (qf pq) = MatchPath (qf r) \<Longrightarrow> CaseSensitive (qf pq) = CaseSensitive (qf r) \<Longrightarrow> subQuery pq = subQuery r"
  by (simp add: subQuery_def)

text \<open>The loop over alternatives changes at most \<open>MatchPath\<close>, the same way for two queries with the same settings.\<close>

definition setPath :: "bool \<Rightarrow> parsedQuery \<Rightarrow> parsedQuery" where
  "setPath m = upd (\<lambda>q. q\<lparr>MatchPath := m\<rparr>)"

lemma setPath_simps [simp]:
  "setPath m (setPath n pq) = setPath m pq" "setPath (MatchPath (qf pq)) pq = pq"
  "qf (setPath m pq) = (qf pq)\<lparr>MatchPath := m\<rparr>" "OrGroups (setPath m pq) = OrGroups pq" "NotGroups (setPath m pq) = NotGroups pq"
  by (simp_all add: setPath_def upd_def)

lemma addAlternative_path:
  assumes "addAlternative app (setPath m pq, grp) part = Inr st" "CaseSensitive (qf pq) = CaseSensitive (qf r)"
  shows "\<exists>m' grp'. st = (setPath m' pq, grp') \<and> addAlternative app (setPath m r, grp) part = Inr (setPath m' r, grp')"
proof -
  have same: "subQuery (setPath m pq) = subQuery (setPath m r)" using assms(2) by (intro subQuery_cong) simp_all
  show ?thesis
  proof (cases "part = []")
    case True
    with assms(1) show ?thesis by (auto simp: addAlternative_def)
  next
    case part: False
    show ?thesis
    proof (cases "app (subQuery (setPath m r)) part")
      case (Inl e)
      with part same assms(1) show ?thesis by (simp add: addAlternative_def)
    next
      case (Inr sub)
      have "upd (\<lambda>q. q\<lparr>MatchPath := True\<rparr>) (setPath m q) = setPath True q" for q by (simp add: setPath_def upd_def)
      then show ?thesis using assms(1) same part Inr by (cases "isEmpty sub"; cases "MatchPath (qf sub)") (auto simp: addAlternative_def)
    qed
  qed
qed

lemma alternatives_path:
  assumes "foldE (addAlternative app) (setPath m pq, grp) parts = Inr st" "CaseSensitive (qf pq) = CaseSensitive (qf r)"
  shows "\<exists>m' grp'. st = (setPath m' pq, grp') \<and> foldE (addAlternative app) (setPath m r, grp) parts = Inr (setPath m' r, grp')"
  using assms(1)
proof (induction parts arbitrary: m grp)
  case (Cons part parts)
  then obtain st1 where st1: "addAlternative app (setPath m pq, grp) part = Inr st1" "foldE (addAlternative app) st1 parts = Inr st"
    by (auto split: sum.splits)
  obtain m1 grp1 where "st1 = (setPath m1 pq, grp1)" "addAlternative app (setPath m r, grp) part = Inr (setPath m1 r, grp1)"
    using addAlternative_path [OF st1(1) assms(2)] by blast
  with Cons.IH st1(2) show ?case by auto
qed auto

lemma alternatives_start: "foldE (addAlternative app) (pq, []) parts = Inr st \<Longrightarrow> \<exists>m alts. st = (setPath m pq, alts)"
  using alternatives_path [of app "MatchPath (qf pq)" pq "[]" parts st pq] by auto

lemma closeGroup_adds: "adds env pq (closeGroup (setPath m (subQuery pq)) grp) (closeGroup (setPath m pq) grp)"
  by (auto simp: closeGroup_def mergeSubquery_def Let_def adds_def joins_def intro!: joins_conjunct split: list.split)

text \<open>
  C5: A query is the conjunction of its tokens. Whatever token the parser accepts, parsing it into a fresh query with the
  same settings gives the token's own condition, and an entry matches the extended query exactly when it matched the query
  before and matches the token's condition, unless the token switches the case setting or replaces a type filter.
\<close>

theorem token_is_conjunct:
  assumes "applyQueryToken env pq raw = Inr pq'"
  shows "\<exists>sub. applyQueryToken env (subQuery pq) raw = Inr sub \<and>
    (CaseSensitive (qf pq') = CaseSensitive (qf pq) \<and> (QType (qf pq) = [] \<or> QType (qf sub) = []) \<longrightarrow>
      (\<forall>e mp. entryMatches env e pq' mp \<longleftrightarrow> entryMatches env e pq mp \<and> entryMatches env e sub mp))"
proof -
  have "\<exists>sub. applyQueryToken env (subQuery pq) raw = Inr sub \<and> adds env pq sub pq'"
  proof (cases "raw = [] \<or> isBarePathSeparatorToken raw")
    case True
    with assms adds_same show ?thesis by (subst (asm) applyQueryToken.simps, subst applyQueryToken.simps) simp
  next
    case real: False
    have twice: "subQuery (subQuery pq) = subQuery pq" by (simp add: subQuery_def)
    show ?thesis
    proof (cases "isNegation raw")
      case True
      then obtain sub where sub: "applyQueryToken env (subQuery pq) (tl raw) = Inr sub"
        "pq' = (if isEmpty sub then pq else ParsedQuery (qf pq) (OrGroups pq) (NotGroups pq @ [sub]))"
        using assms real by (subst (asm) applyQueryToken.simps) (auto split: sum.splits)
      have "adds env pq (ParsedQuery (qf (subQuery pq)) [] [sub]) (ParsedQuery (qf pq) (OrGroups pq) (NotGroups pq @ [sub]))"
        by (auto simp: adds_def joins_def intro!: joins_conjunct)
      with sub real True twice adds_same show ?thesis by (subst applyQueryToken.simps) simp
    next
      case plain: False
      show ?thesis
      proof (cases "isGroup raw")
        case True
        then obtain st where st: "foldE (addAlternative (applyQueryToken env)) (pq, []) (splitOn (CHR ''|'') raw) = Inr st"
          "pq' = closeGroup (fst st) (snd st)"
          using assms real plain by (subst (asm) applyQueryToken.simps) (auto split: sum.splits)
        have "setPath (MatchPath (qf pq)) (subQuery pq) = subQuery pq" by (simp add: setPath_def upd_def subQuery_def)
        with alternatives_path [of "applyQueryToken env" "MatchPath (qf pq)" pq "[]" "splitOn (CHR ''|'') raw" st "subQuery pq"] st(1)
        obtain m grp where "st = (setPath m pq, grp)"
          "foldE (addAlternative (applyQueryToken env)) (subQuery pq, []) (splitOn (CHR ''|'') raw) = Inr (setPath m (subQuery pq), grp)"
          by auto
        with st(2) real plain True closeGroup_adds show ?thesis by (subst applyQueryToken.simps) simp
      next
        case False
        with assms real plain filterToken_adds show ?thesis by (subst (asm) applyQueryToken.simps, subst applyQueryToken.simps) simp
      qed
    qed
  qed
  then obtain sub where sub: "applyQueryToken env (subQuery pq) raw = Inr sub" "adds env pq sub pq'" by blast
  have "entryMatches env e pq' mp \<longleftrightarrow> entryMatches env e pq mp \<and> entryMatches env e sub mp"
    if "CaseSensitive (qf pq') = CaseSensitive (qf pq)" "QType (qf pq) = [] \<or> QType (qf sub) = []" for e mp
    using sub(2) that by (auto simp: entryMatches_iff [of env e pq] entryMatches_iff [of env e pq'] entryMatches_iff [of env e sub] adds_def conjunct_def)
  with sub(1) show ?thesis by blast
qed

section \<open>Negation and alternatives\<close>

lemma entryMatches_negation: "entryMatches env e (ParsedQuery (qf (subQuery pq)) [] [sub]) mp \<longleftrightarrow> \<not> entryMatches env e sub (mp \<or> MatchPath (qf sub))"
  by (simp add: entryMatches_iff [of env e "ParsedQuery _ _ _"] fieldsMatch_zero)


text \<open>A group with one alternative is merged field by field, and a negation or group inside it is lost.\<close>

lemma single_alternative_loses_negation:
  "applyQueryToken exampleEnv (subQuery (ParsedQuery zeroFields [] [])) ''|!tmp'' = Inr (subQuery (ParsedQuery zeroFields [] []))"
  by (simp add: token_eval applyQueryToken.simps)

theorem token_is_conjunct_witness:
  "\<exists>pq' sub. applyQueryToken exampleEnv (subQuery (ParsedQuery zeroFields [] [])) ''!a'' = Inr pq' \<and>
    (\<forall>e mp. entryMatches exampleEnv e pq' mp \<longleftrightarrow>
      entryMatches exampleEnv e (subQuery (ParsedQuery zeroFields [] [])) mp \<and> entryMatches exampleEnv e sub mp)"
proof -
  let ?pq = "subQuery (ParsedQuery zeroFields [] [])"
  let ?r = "applyQueryToken exampleEnv ?pq ''!a''"
  have "case ?r of Inl e \<Rightarrow> False | Inr pq' \<Rightarrow> \<not> CaseSensitive (qf pq')"
    by (simp add: token_eval applyQueryToken.simps)
  then obtain pq' where r: "?r = Inr pq'" "\<not> CaseSensitive (qf pq')" by (cases ?r) simp_all
  have "CaseSensitive (qf pq') = CaseSensitive (qf ?pq)" "QType (qf ?pq) = []" using r(2) by (simp_all add: zeroFields_def)
  with token_is_conjunct [OF r(1)] r(1) show ?thesis by blast
qed


end
