(* ===== verification/Paths.thy ===== *)
theory Paths
  imports QueryMatch RecordStore
begin

text \<open>
  Full paths of records (\<open>query_parse.go\<close>: \<open>reconstructCompactPath\<close>, \<open>reconstructCompactPathCached\<close>,
  \<open>reconstructLowerPathInto\<close>, \<open>compactPathContainsTerm\<close>, \<open>containsFoldASCII\<close>).

  A path is joined from the names on the parent chain of a record, from the root down, leaving out names \<open>.\<close>, and kept in
  a cache by record number. The climb is bounded by 1024 steps and stops at a record seen before. A chain is \<open>reaches\<close> when
  it ends at a parentless record within the bound. On such chains, and when no record carries the last name of the index
  root, the cache changes no path; an index root whose own record has that name is the case in which it does.
\<close>

section \<open>Index\<close>

record searchIndex =
  store :: Index
  Volume :: string
  Roots :: "string list"

abbreviation recordCount :: "searchIndex \<Rightarrow> nat" where
  "recordCount idx \<equiv> compactRecordCount (store idx)"

abbreviation recordOf :: "searchIndex \<Rightarrow> int \<Rightarrow> CompactRecord" where
  "recordOf idx \<equiv> compactRecord (store idx)"

definition inRange :: "searchIndex \<Rightarrow> int \<Rightarrow> bool" where
  "inRange idx i \<longleftrightarrow> 0 \<le> i \<and> i < int (recordCount idx)"

definition compactNameAt :: "searchIndex \<Rightarrow> int \<Rightarrow> string" where
  "compactNameAt idx i =
    (case MMapRecords (store idx) of
       Some m \<Rightarrow> Name (recordAt m i)
     | None \<Rightarrow>
         (case PackedRecs (store idx) of
            Some p \<Rightarrow> if i < 0 then [] else nameAt p (nat i)
          | None \<Rightarrow> if i < 0 \<or> i \<ge> int (length (plain (store idx))) then [] else Name (plain (store idx) ! nat i)))"

section \<open>Paths\<close>

definition trimRightSlash :: "string \<Rightarrow> string" where
  "trimRightSlash s = rev (dropWhile (\<lambda>c. c = backslash) (rev s))"

definition pathRoot :: "searchIndex \<Rightarrow> string" where
  "pathRoot idx = (case Roots idx of [] \<Rightarrow> Volume idx | r # _ \<Rightarrow> trimRightSlash r)"

definition rootName :: "goEnv \<Rightarrow> searchIndex \<Rightarrow> string" where
  "rootName env idx = (if Roots idx = [] then [] else baseName env (pathRoot idx))"

text \<open>The climb: the names collected, and the path of the record it stopped at when that one was cached.\<close>

fun climbNames :: "nat \<Rightarrow> searchIndex \<Rightarrow> (int \<Rightarrow> string option) \<Rightarrow> int \<Rightarrow> int list \<Rightarrow> string list \<Rightarrow> string list \<times> string option" where
  "climbNames 0 idx cache cur seen parts = (parts, None)"
| "climbNames (Suc depth) idx cache cur seen parts =
    (case cache cur of
       Some path \<Rightarrow> (parts, Some path)
     | None \<Rightarrow>
         if \<not> inRange idx cur \<or> cur \<in> set seen then (parts, None)
         else
           let r = recordOf idx cur; parts' = (if Name r \<noteq> ''.'' then parts @ [Name r] else parts)
           in if Parent r < 0 then (parts', None) else climbNames depth idx cache (Parent r) (cur # seen) parts')"

definition joinPart :: "string \<Rightarrow> string \<Rightarrow> string" where
  "joinPart path part = path @ backslash # part"

definition rootStep :: "string \<Rightarrow> nat \<Rightarrow> string \<Rightarrow> bool \<times> string \<Rightarrow> string" where
  "rootStep rname n path tp =
    (case tp of (uppermost, part) \<Rightarrow>
      if path = [] then part else if rname \<noteq> [] \<and> uppermost \<and> part = rname \<and> n > 1 then path else joinPart path part)"

definition joinRoot :: "goEnv \<Rightarrow> searchIndex \<Rightarrow> string list \<Rightarrow> string" where
  "joinRoot env idx parts =
    foldl (rootStep (rootName env idx) (length parts)) (pathRoot idx) (zip (True # replicate (length parts) False) (rev parts))"

definition reconstructCompactPathCached ::
  "goEnv \<Rightarrow> searchIndex \<Rightarrow> int \<Rightarrow> (int \<Rightarrow> string option) \<Rightarrow> string \<times> (int \<Rightarrow> string option)" where
  "reconstructCompactPathCached env idx i cache =
    (case cache i of
       Some path \<Rightarrow> (path, cache)
     | None \<Rightarrow>
         if \<not> inRange idx i then ([], cache)
         else
           let path = (case climbNames 1024 idx cache i [] [] of
                 (parts, Some path) \<Rightarrow> foldl joinPart path (rev parts)
               | (parts, None) \<Rightarrow> joinRoot env idx parts)
           in (path, cache(i \<mapsto> path)))"

definition reconstructCompactPath :: "goEnv \<Rightarrow> searchIndex \<Rightarrow> int \<Rightarrow> string" where
  "reconstructCompactPath env idx i = fst (reconstructCompactPathCached env idx i Map.empty)"

section \<open>Chains\<close>

fun reaches :: "searchIndex \<Rightarrow> nat \<Rightarrow> int \<Rightarrow> bool" where
  "reaches idx 0 i = False"
| "reaches idx (Suc d) i \<longleftrightarrow> inRange idx i \<and> (Parent (recordOf idx i) < 0 \<or> reaches idx d (Parent (recordOf idx i)))"

fun namesUp :: "searchIndex \<Rightarrow> nat \<Rightarrow> int \<Rightarrow> string list" where
  "namesUp idx 0 i = []"
| "namesUp idx (Suc d) i =
    (let r = recordOf idx i
     in (if Name r \<noteq> ''.'' then [Name r] else []) @ (if Parent r < 0 then [] else namesUp idx d (Parent r)))"

definition depthOf :: "searchIndex \<Rightarrow> int \<Rightarrow> nat" where
  "depthOf idx i = (LEAST d. reaches idx d i)"

lemma reaches_mono: "reaches idx d i \<Longrightarrow> d \<le> e \<Longrightarrow> reaches idx e i"
proof (induction d arbitrary: e i)
  case (Suc d)
  then obtain e' where "e = Suc e'" "d \<le> e'" by (cases e) auto
  with Suc show ?case by auto
qed simp

lemma reaches_depth: "reaches idx d i \<Longrightarrow> reaches idx (depthOf idx i) i \<and> depthOf idx i \<le> d"
  unfolding depthOf_def by (metis LeastI Least_le)

lemma depth_parent:
  assumes "reaches idx d i" "Parent (recordOf idx i) \<ge> 0"
  shows "depthOf idx (Parent (recordOf idx i)) < depthOf idx i"
proof -
  obtain e where e: "depthOf idx i = Suc e" using reaches_depth [OF assms(1)] by (cases "depthOf idx i") auto
  then have "reaches idx e (Parent (recordOf idx i))" using reaches_depth [OF assms(1)] assms(2) by simp
  from reaches_depth [OF this] e show ?thesis by simp
qed

lemma namesUp_cong: "reaches idx d i \<Longrightarrow> d \<le> e \<Longrightarrow> namesUp idx e i = namesUp idx d i"
proof (induction d arbitrary: e i)
  case (Suc d)
  then obtain e' where "e = Suc e'" "d \<le> e'" by (cases e) auto
  with Suc show ?case by (auto simp: Let_def)
qed simp

definition names :: "searchIndex \<Rightarrow> int \<Rightarrow> string list" where
  "names idx i = namesUp idx 1024 i"

definition shallow :: "searchIndex \<Rightarrow> bool" where
  "shallow idx \<longleftrightarrow> (\<forall>i. inRange idx i \<longrightarrow> reaches idx 1024 i)"

lemma names_step:
  assumes "shallow idx" "inRange idx i"
  shows "names idx i = (if Name (recordOf idx i) \<noteq> ''.'' then [Name (recordOf idx i)] else []) @
    (if Parent (recordOf idx i) < 0 then [] else names idx (Parent (recordOf idx i)))"
proof -
  define d :: nat where "d = 1023"
  have n: "(1024 :: nat) = Suc d" by (simp add: d_def)
  have "reaches idx (Suc d) i" using assms unfolding shallow_def n [symmetric] by blast
  then have "Parent (recordOf idx i) \<ge> 0 \<Longrightarrow> namesUp idx (Suc d) (Parent (recordOf idx i)) = namesUp idx d (Parent (recordOf idx i))"
    by (intro namesUp_cong) simp_all
  then show ?thesis unfolding names_def n by (subst namesUp.simps) (simp add: Let_def)
qed

lemma reaches_inRange: "reaches idx d i \<Longrightarrow> inRange idx i"
  by (cases d) simp_all

lemma reaches_parent: "reaches idx d i \<Longrightarrow> Parent (recordOf idx i) \<ge> 0 \<Longrightarrow> \<exists>e. reaches idx e (Parent (recordOf idx i))"
  by (cases d) auto

lemma shallow_parent: "shallow idx \<Longrightarrow> inRange idx i \<Longrightarrow> Parent (recordOf idx i) \<ge> 0 \<Longrightarrow> inRange idx (Parent (recordOf idx i))"
  unfolding shallow_def by (meson reaches_inRange reaches_parent)

text \<open>The climb collects the names up to the record it finds in the cache.\<close>

lemma climbNames_exact:
  assumes "shallow idx" "inRange idx cur" "reaches idx fuel cur" "\<forall>s\<in>set seen. depthOf idx cur < depthOf idx s"
  shows "\<exists>mid r. climbNames fuel idx cache cur seen parts = (parts @ mid, r) \<and>
    (case r of None \<Rightarrow> names idx cur = mid
     | Some p \<Rightarrow> (\<exists>k. inRange idx k \<and> cache k = Some p \<and> names idx cur = mid @ names idx k))"
  using assms(2-)
proof (induction fuel arbitrary: cur seen parts)
  case (Suc fuel)
  show ?case
  proof (cases "cache cur")
    case (Some p)
    with Suc.prems(1) show ?thesis by (auto intro!: exI [of _ "[]"] exI [of _ cur])
  next
    case None
    let ?r = "recordOf idx cur"
    define here where "here = (if Name ?r \<noteq> ''.'' then [Name ?r] else [])"
    have fresh: "cur \<notin> set seen" using Suc.prems(3) by auto
    note step = names_step [OF assms(1) Suc.prems(1), folded here_def]
    have loop: "climbNames (Suc fuel) idx cache cur seen parts =
        (if Parent ?r < 0 then (parts @ here, None) else climbNames fuel idx cache (Parent ?r) (cur # seen) (parts @ here))"
      using None fresh Suc.prems(1) by (simp add: here_def Let_def)
    show ?thesis
    proof (cases "Parent ?r < 0")
      case True
      with loop step show ?thesis by auto
    next
      case False
      have up: "inRange idx (Parent ?r)" using shallow_parent [OF assms(1) Suc.prems(1)] False by simp
      have fuel: "reaches idx fuel (Parent ?r)" using Suc.prems(2) False by simp
      have "depthOf idx (Parent ?r) < depthOf idx cur" using depth_parent [OF Suc.prems(2)] False by simp
      then have "\<forall>s\<in>set (cur # seen). depthOf idx (Parent ?r) < depthOf idx s" using Suc.prems(3) by auto
      from Suc.IH [OF up fuel this, of "parts @ here"] obtain mid r where m:
        "climbNames fuel idx cache (Parent ?r) (cur # seen) (parts @ here) = (parts @ here @ mid, r)"
        "case r of None \<Rightarrow> names idx (Parent ?r) = mid
         | Some p \<Rightarrow> (\<exists>k. inRange idx k \<and> cache k = Some p \<and> names idx (Parent ?r) = mid @ names idx k)"
        by auto
      with loop step False show ?thesis by (intro exI [of _ "here @ mid"] exI [of _ r]) (auto split: option.splits)
    qed
  qed
qed simp

section \<open>The cache\<close>

text \<open>The path of a record as the names below the root.\<close>

definition fullPath :: "searchIndex \<Rightarrow> int \<Rightarrow> string" where
  "fullPath idx i = foldl joinPart (pathRoot idx) (rev (names idx i))"

text \<open>The root is not empty, and no record is named like its last element.\<close>

definition plainRoot :: "goEnv \<Rightarrow> searchIndex \<Rightarrow> bool" where
  "plainRoot env idx \<longleftrightarrow> pathRoot idx \<noteq> [] \<and> (\<forall>i. inRange idx i \<longrightarrow> Name (recordOf idx i) \<noteq> rootName env idx)"

definition cacheOk :: "searchIndex \<Rightarrow> (int \<Rightarrow> string option) \<Rightarrow> bool" where
  "cacheOk idx cache \<longleftrightarrow> (\<forall>k p. cache k = Some p \<longrightarrow> inRange idx k \<and> p = fullPath idx k)"

lemma joinPart_nonempty [simp]: "joinPart path part \<noteq> []"
  by (simp add: joinPart_def)

lemma foldl_rootStep:
  assumes "path \<noteq> []" "rname \<notin> set parts \<or> rname = []" "length parts \<le> length tops"
  shows "foldl (rootStep rname n) path (zip tops parts) = foldl joinPart path parts"
  using assms
proof (induction parts arbitrary: path tops)
  case (Cons p parts)
  then obtain t ts where "tops = t # ts" by (cases tops) auto
  with Cons show ?case by (auto simp: rootStep_def)
qed simp

lemma joinRoot_plain:
  assumes "pathRoot idx \<noteq> []" "rootName env idx \<notin> set parts \<or> rootName env idx = []"
  shows "joinRoot env idx parts = foldl joinPart (pathRoot idx) (rev parts)"
  unfolding joinRoot_def using assms by (intro foldl_rootStep) auto

lemma names_up:
  assumes "shallow idx"
  shows "inRange idx i \<Longrightarrow> n \<in> set (names idx i) \<Longrightarrow> \<exists>k. inRange idx k \<and> n = Name (recordOf idx k)"
proof (induction "depthOf idx i" arbitrary: i rule: less_induct)
  case less
  have "reaches idx 1024 i" using assms less.prems(1) by (simp add: shallow_def)
  note smaller = depth_parent [OF this]
  show ?case
  proof (cases "n = Name (recordOf idx i)")
    case True
    with less.prems show ?thesis by blast
  next
    case False
    with less.prems(2) have "Parent (recordOf idx i) \<ge> 0" "n \<in> set (names idx (Parent (recordOf idx i)))"
      using names_step [OF assms less.prems(1)] by (auto split: if_splits)
    with less.hyps smaller shallow_parent [OF assms less.prems(1)] show ?thesis by blast
  qed
qed

lemma cacheOk_empty [simp]: "cacheOk idx Map.empty"
  by (simp add: cacheOk_def)

lemma reconstruct_exact:
  assumes "shallow idx" "plainRoot env idx" "cacheOk idx cache" "inRange idx i"
  shows "fst (reconstructCompactPathCached env idx i cache) = fullPath idx i \<and> cacheOk idx (snd (reconstructCompactPathCached env idx i cache))"
proof (cases "cache i")
  case (Some p)
  with assms(3) show ?thesis by (simp add: reconstructCompactPathCached_def cacheOk_def)
next
  case None
  have "reaches idx 1024 i" using assms(1,4) by (simp add: shallow_def)
  from climbNames_exact [OF assms(1,4) this, of "[]" cache "[]"] obtain mid r where
    r: "climbNames 1024 idx cache i [] [] = (mid, r)"
      "case r of None \<Rightarrow> names idx i = mid | Some p \<Rightarrow> (\<exists>k. inRange idx k \<and> cache k = Some p \<and> names idx i = mid @ names idx k)"
    by auto
  have "rootName env idx \<notin> set (names idx i) \<or> rootName env idx = []"
    using names_up [OF assms(1,4), of "rootName env idx"] assms(2) unfolding plainRoot_def by metis
  then have "(case r of None \<Rightarrow> joinRoot env idx mid | Some p \<Rightarrow> foldl joinPart p (rev mid)) = fullPath idx i"
    using r(2) assms(2,3) joinRoot_plain [of idx env mid] by (auto simp: fullPath_def plainRoot_def cacheOk_def split: option.splits)
  then have "reconstructCompactPathCached env idx i cache = (fullPath idx i, cache(i \<mapsto> fullPath idx i))"
    using None assms(4) r(1) by (auto simp: reconstructCompactPathCached_def Let_def split: option.splits)
  with assms(3,4) show ?thesis by (simp add: cacheOk_def)
qed

text \<open>
  C18: The path cache is transparent. When every parent chain ends within 1024 steps and no record carries the last name of
  the index root, the path of a record is the root followed by the names on its parent chain, joined with backslashes, for
  every cache whose entries are such paths, and the cache afterwards holds such paths too.
\<close>

theorem path_cache_transparent:
  assumes "shallow idx" "plainRoot env idx" "cacheOk idx cache" "inRange idx i"
  shows "fst (reconstructCompactPathCached env idx i cache) = foldl joinPart (pathRoot idx) (rev (names idx i)) \<and>
    fst (reconstructCompactPathCached env idx i cache) = reconstructCompactPath env idx i \<and>
    cacheOk idx (snd (reconstructCompactPathCached env idx i cache))"
  using reconstruct_exact [OF assms] reconstruct_exact [OF assms(1,2) cacheOk_empty assms(4)]
  by (simp add: reconstructCompactPath_def fullPath_def)

definition fileRecord :: "string \<Rightarrow> int \<Rightarrow> CompactRecord" where
  "fileRecord n up = zeroRecord\<lparr>Name := n, Parent := up\<rparr>"

definition plainIndex :: "string list \<Rightarrow> CompactRecord list \<Rightarrow> searchIndex" where
  "plainIndex roots rs = \<lparr>store = \<lparr>MMapRecords = None, PackedRecs = None, PlainRecords = Some rs\<rparr>, Volume = ''C:'', Roots = roots\<rparr>"

lemma plainIndex_simps [simp]:
  "inRange (plainIndex roots rs) i \<longleftrightarrow> 0 \<le> i \<and> i < int (length rs)"
  "recordOf (plainIndex roots rs) i = (if i < 0 \<or> i \<ge> int (length rs) then zeroRecord else rs ! nat i)"
  "pathRoot (plainIndex [] rs) = ''C:''" "rootName env (plainIndex [] rs) = []"
  by (simp_all add: plainIndex_def inRange_def compactRecordCount_def compactRecord_def recordAt_def plain_def pathRoot_def rootName_def)

definition exampleIndex :: searchIndex where
  "exampleIndex = plainIndex [] [fileRecord ''.'' (- 1), fileRecord ''x'' 0]"

lemma exampleIndex_ok: "shallow exampleIndex" "plainRoot exampleEnv exampleIndex" "inRange exampleIndex 1" "names exampleIndex 1 = [''x'']"
proof -
  have two: "inRange exampleIndex i \<Longrightarrow> i = 0 \<or> i = 1" for i by (auto simp: exampleIndex_def)
  have "reaches exampleIndex (Suc (Suc d)) i" if "inRange exampleIndex i" for i d
    using two [OF that] by (auto simp: fileRecord_def exampleIndex_def)
  from this [of _ 1022] show s: "shallow exampleIndex" by (simp add: shallow_def del: reaches.simps)
  have "Name (recordOf exampleIndex i) \<noteq> []" if "inRange exampleIndex i" for i
    using two [OF that] by (auto simp: fileRecord_def exampleIndex_def)
  then show "plainRoot exampleEnv exampleIndex" by (simp add: plainRoot_def exampleIndex_def)
  show "inRange exampleIndex 1" by (simp add: exampleIndex_def)
  show "names exampleIndex 1 = [''x'']"
    using names_step [OF s, of 1] names_step [OF s, of 0] by (simp add: fileRecord_def exampleIndex_def)
qed

theorem path_cache_transparent_witness:
  "fst (reconstructCompactPathCached exampleEnv exampleIndex 1 Map.empty) = ''C:'' @ backslash # ''x''"
  using path_cache_transparent [OF exampleIndex_ok(1,2) cacheOk_empty exampleIndex_ok(3)] exampleIndex_ok(4)
  by (simp add: joinPart_def exampleIndex_def)

text \<open>
  The path of a record depends on what was looked up before when the index root is a directory whose own record carries
  the directory's name, as the directory walk builds it. The path of the root's record then repeats the name, and a file
  below it is given one path when its own chain is climbed and another one when the root's path is in the cache.
\<close>

definition walkIndex :: searchIndex where
  "walkIndex = plainIndex [''C:'' @ backslash # ''d''] [fileRecord ''d'' (- 1), fileRecord ''x'' 0]"

definition walkEnv :: goEnv where
  "walkEnv = exampleEnv\<lparr>baseName := (\<lambda>p. ''d'')\<rparr>"

theorem path_depends_on_cache:
  "fst (reconstructCompactPathCached walkEnv walkIndex 0 Map.empty) = joinPart (joinPart ''C:'' ''d'') ''d'' \<and>
   fst (reconstructCompactPathCached walkEnv walkIndex 1 Map.empty) = joinPart (joinPart ''C:'' ''d'') ''x'' \<and>
   fst (reconstructCompactPathCached walkEnv walkIndex 1 (snd (reconstructCompactPathCached walkEnv walkIndex 0 Map.empty))) =
     joinPart (joinPart (joinPart ''C:'' ''d'') ''d'') ''x''"
  unfolding walkIndex_def
  by (simp add: reconstructCompactPathCached_def numeral_eq_Suc fileRecord_def joinRoot_def rootStep_def rootName_def pathRoot_def
      walkEnv_def joinPart_def trimRightSlash_def Let_def plainIndex_def inRange_def compactRecordCount_def compactRecord_def recordAt_def plain_def)

section \<open>Lower-case paths\<close>

text \<open>The memo of the path rank: paths by record number, which of them are computed, and the generation each record was last
  seen in.\<close>

record lowerMemo =
  lowerPaths :: "string list"
  computedAt :: "bool list"
  seenGen :: "int list"

fun lowerLoop :: "nat \<Rightarrow> searchIndex \<Rightarrow> int \<Rightarrow> lowerMemo \<Rightarrow> int \<Rightarrow> string list \<Rightarrow> string list \<times> lowerMemo \<times> string option" where
  "lowerLoop 0 idx gen m cur parts = (parts, m, None)"
| "lowerLoop (Suc depth) idx gen m cur parts =
    (if cur < 0 \<or> cur \<ge> int (length (lowerPaths m)) then (parts, m, None)
     else if computedAt m ! nat cur then (parts, m, Some (lowerPaths m ! nat cur))
     else if seenGen m ! nat cur = gen then (parts, m, None)
     else
       let m' = m\<lparr>seenGen := (seenGen m)[nat cur := gen]\<rparr>; r = recordOf idx cur;
           parts' = (if Name r \<noteq> ''.'' then parts @ [Name r] else parts)
       in if Parent r < 0 then (parts', m', None) else lowerLoop depth idx gen m' (Parent r) parts')"

definition lowerPart :: "goEnv \<Rightarrow> string \<Rightarrow> string \<Rightarrow> string" where
  "lowerPart env path part = joinPart path (toLowerF env part)"

definition lowerRootStep :: "goEnv \<Rightarrow> string \<Rightarrow> nat \<Rightarrow> string \<Rightarrow> bool \<times> string \<Rightarrow> string" where
  "lowerRootStep env rname n path tp =
    (case tp of (uppermost, part) \<Rightarrow>
      if path = [] then toLowerF env part
      else if rname \<noteq> [] \<and> uppermost \<and> part = rname \<and> n > 1 then path else lowerPart env path part)"

definition reconstructLowerPathInto :: "goEnv \<Rightarrow> searchIndex \<Rightarrow> int \<Rightarrow> int \<Rightarrow> lowerMemo \<Rightarrow> lowerMemo" where
  "reconstructLowerPathInto env idx i gen m =
    (if i < 0 \<or> i \<ge> int (length (lowerPaths m)) \<or> computedAt m ! nat i then m
     else case lowerLoop 1024 idx gen m i [] of
       (parts, m', r) \<Rightarrow>
         let path = (case r of
               Some path \<Rightarrow> foldl (lowerPart env) path (rev parts)
             | None \<Rightarrow>
                 foldl (lowerRootStep env (rootName env idx) (length parts)) (toLowerF env (pathRoot idx))
                   (zip (True # replicate (length parts) False) (rev parts)))
         in m'\<lparr>lowerPaths := (lowerPaths m')[nat i := path], computedAt := (computedAt m')[nat i := True]\<rparr>)"

text \<open>What the path rank uses of \<open>strings.ToLower\<close>: it works on the two sides of a backslash separately, and only the empty
  string becomes empty.\<close>

definition lowerJoins :: "goEnv \<Rightarrow> bool" where
  "lowerJoins env \<longleftrightarrow> lowerKeeps env \<and> (\<forall>p q. toLowerF env (joinPart p q) = joinPart (toLowerF env p) (toLowerF env q))"

definition memoOk :: "goEnv \<Rightarrow> searchIndex \<Rightarrow> lowerMemo \<Rightarrow> bool" where
  "memoOk env idx m \<longleftrightarrow>
    length (lowerPaths m) = recordCount idx \<and> length (computedAt m) = recordCount idx \<and> length (seenGen m) = recordCount idx \<and>
    (\<forall>k. inRange idx k \<and> computedAt m ! nat k \<longrightarrow> lowerPaths m ! nat k = toLowerF env (fullPath idx k))"

lemma memoOk_range: "memoOk env idx m \<Longrightarrow> inRange idx i \<longleftrightarrow> 0 \<le> i \<and> i < int (length (lowerPaths m))"
  by (simp add: memoOk_def inRange_def)

lemma memoOk_seen [simp]: "memoOk env idx (m\<lparr>seenGen := (seenGen m)[k := g]\<rparr>) = memoOk env idx m"
  by (simp add: memoOk_def)

lemma foldl_lowerPart:
  assumes "lowerJoins env"
  shows "foldl (lowerPart env) (toLowerF env p) parts = toLowerF env (foldl joinPart p parts)"
proof -
  have "lowerPart env (toLowerF env p) a = toLowerF env (joinPart p a)" for p a
    using assms by (simp add: lowerPart_def lowerJoins_def)
  then show ?thesis by (induction parts arbitrary: p) simp_all
qed

lemma foldl_lowerRootStep:
  assumes "path \<noteq> []" "rname \<notin> set parts \<or> rname = []" "length parts \<le> length tops"
  shows "foldl (lowerRootStep env rname n) path (zip tops parts) = foldl (lowerPart env) path parts"
  using assms
proof (induction parts arbitrary: path tops)
  case (Cons p parts)
  then obtain t ts where "tops = t # ts" by (cases tops) auto
  with Cons show ?case by (auto simp: lowerRootStep_def lowerPart_def)
qed simp

text \<open>The memo's climb collects the names up to the first record with a path.\<close>

lemma lowerLoop_exact:
  assumes "shallow idx" "inRange idx cur" "reaches idx fuel cur" "memoOk env idx m"
    and "\<forall>k. inRange idx k \<and> seenGen m ! nat k = gen \<longrightarrow> depthOf idx cur < depthOf idx k"
  shows "\<exists>mid r sn. lowerLoop fuel idx gen m cur parts = (parts @ mid, m\<lparr>seenGen := sn\<rparr>, r) \<and> length sn = recordCount idx \<and>
    (case r of None \<Rightarrow> names idx cur = mid
     | Some p \<Rightarrow> (\<exists>k. inRange idx k \<and> p = toLowerF env (fullPath idx k) \<and> names idx cur = mid @ names idx k))"
  using assms(2-)
proof (induction fuel arbitrary: cur parts m)
  case (Suc fuel)
  have in_range: "\<not> (cur < 0 \<or> cur \<ge> int (length (lowerPaths m)))" using Suc.prems(1,3) memoOk_range by auto
  have same: "m\<lparr>seenGen := seenGen m\<rparr> = m" "length (seenGen m) = recordCount idx" using Suc.prems(3) by (simp_all add: memoOk_def)
  show ?case
  proof (cases "computedAt m ! nat cur")
    case True
    moreover have "lowerPaths m ! nat cur = toLowerF env (fullPath idx cur)"
      using True Suc.prems(1,3) by (simp add: memoOk_def)
    ultimately show ?thesis
      using in_range same Suc.prems(1) by (intro exI [of _ "[]"] exI [of _ "Some (lowerPaths m ! nat cur)"] exI [of _ "seenGen m"]) auto
  next
    case False
    let ?r = "recordOf idx cur" and ?m = "m\<lparr>seenGen := (seenGen m)[nat cur := gen]\<rparr>"
    define here where "here = (if Name ?r \<noteq> ''.'' then [Name ?r] else [])"
    have fresh: "seenGen m ! nat cur \<noteq> gen" using Suc.prems(1,4) by auto
    note step = names_step [OF assms(1) Suc.prems(1), folded here_def]
    have loop: "lowerLoop (Suc fuel) idx gen m cur parts =
        (if Parent ?r < 0 then (parts @ here, ?m, None) else lowerLoop fuel idx gen ?m (Parent ?r) (parts @ here))"
      using False fresh in_range by (simp add: here_def Let_def)
    show ?thesis
    proof (cases "Parent ?r < 0")
      case True
      with loop step same show ?thesis by (auto intro!: exI [of _ "(seenGen m)[nat cur := gen]"])
    next
      case False
      have up: "inRange idx (Parent ?r)" using shallow_parent [OF assms(1) Suc.prems(1)] False by simp
      have fuel: "reaches idx fuel (Parent ?r)" using Suc.prems(2) False by simp
      have "depthOf idx (Parent ?r) < depthOf idx cur" using depth_parent [OF Suc.prems(2)] False by simp
      then have "depthOf idx (Parent ?r) < depthOf idx k" if "inRange idx k" "seenGen ?m ! nat k = gen" for k
        using that Suc.prems(1,4) same(2) by (cases "k = cur") (fastforce simp: nth_list_update inRange_def)+
      then have "\<forall>k. inRange idx k \<and> seenGen ?m ! nat k = gen \<longrightarrow> depthOf idx (Parent ?r) < depthOf idx k" by blast
      from Suc.IH [OF up fuel _ this, of "parts @ here"] Suc.prems(3) obtain mid r sn where m:
        "lowerLoop fuel idx gen ?m (Parent ?r) (parts @ here) = (parts @ here @ mid, m\<lparr>seenGen := sn\<rparr>, r)"
        "length sn = recordCount idx"
        "case r of None \<Rightarrow> names idx (Parent ?r) = mid
         | Some p \<Rightarrow> (\<exists>k. inRange idx k \<and> p = toLowerF env (fullPath idx k) \<and> names idx (Parent ?r) = mid @ names idx k)"
        by auto
      with loop step False show ?thesis
        by (intro exI [of _ "here @ mid"] exI [of _ r] exI [of _ sn]) (auto split: option.splits)
    qed
  qed
qed simp

text \<open>The path rank lowers the paths of the search: for a fresh generation, the memo afterwards holds for the record the
  lower-case form of the path that \<open>reconstructCompactPath\<close> returns, and no wrong path.\<close>

lemma lower_path_equivalent:
  assumes "shallow idx" "plainRoot env idx" "lowerJoins env" "memoOk env idx m" "inRange idx i"
    and "\<forall>k. inRange idx k \<longrightarrow> seenGen m ! nat k \<noteq> gen"
  shows "memoOk env idx (reconstructLowerPathInto env idx i gen m) \<and>
    computedAt (reconstructLowerPathInto env idx i gen m) = (computedAt m)[nat i := True] \<and>
    lowerPaths (reconstructLowerPathInto env idx i gen m) ! nat i = toLowerF env (reconstructCompactPath env idx i)"
proof -
  have path: "reconstructCompactPath env idx i = fullPath idx i"
    using reconstruct_exact [OF assms(1,2) cacheOk_empty assms(5)] by (simp add: reconstructCompactPath_def)
  have ok: "length (lowerPaths m) = recordCount idx" "length (computedAt m) = recordCount idx" "nat i < recordCount idx" "0 \<le> i"
    using assms(4,5) by (auto simp: memoOk_def inRange_def)
  show ?thesis
  proof (cases "computedAt m ! nat i")
    case True
    then have "reconstructLowerPathInto env idx i gen m = m" by (simp add: reconstructLowerPathInto_def)
    moreover have "(computedAt m)[nat i := True] = computedAt m" using True by (metis list_update_id)
    ultimately show ?thesis using True assms(4,5) by (simp add: memoOk_def path)
  next
    case False
    have reach: "reaches idx 1024 i" using assms(1,5) by (simp add: shallow_def)
    have "\<forall>k. inRange idx k \<and> seenGen m ! nat k = gen \<longrightarrow> depthOf idx i < depthOf idx k" using assms(6) by blast
    from lowerLoop_exact [OF assms(1,5) reach assms(4) this, of "[]"] obtain mid r sn where
      l: "lowerLoop 1024 idx gen m i [] = (mid, m\<lparr>seenGen := sn\<rparr>, r)" "length sn = recordCount idx"
        "case r of None \<Rightarrow> names idx i = mid
         | Some p \<Rightarrow> (\<exists>k. inRange idx k \<and> p = toLowerF env (fullPath idx k) \<and> names idx i = mid @ names idx k)"
      by auto
    have "rootName env idx \<notin> set (names idx i) \<or> rootName env idx = []"
      using names_up [OF assms(1,5), of "rootName env idx"] assms(2) unfolding plainRoot_def by metis
    moreover have "toLowerF env (pathRoot idx) \<noteq> []"
      using assms(2,3) by (simp add: plainRoot_def lowerJoins_def lowerKeeps_def)
    ultimately have "(case r of
          Some path \<Rightarrow> foldl (lowerPart env) path (rev mid)
        | None \<Rightarrow> foldl (lowerRootStep env (rootName env idx) (length mid)) (toLowerF env (pathRoot idx))
            (zip (True # replicate (length mid) False) (rev mid))) = toLowerF env (fullPath idx i)"
      using l(3) assms(3) by (auto simp: fullPath_def foldl_lowerPart foldl_lowerRootStep split: option.splits)
    then have new: "reconstructLowerPathInto env idx i gen m =
        m\<lparr>seenGen := sn, lowerPaths := (lowerPaths m)[nat i := toLowerF env (fullPath idx i)], computedAt := (computedAt m)[nat i := True]\<rparr>"
      using False ok l(1) by (simp add: reconstructLowerPathInto_def Let_def)
    have "memoOk env idx (m\<lparr>seenGen := sn, lowerPaths := (lowerPaths m)[nat i := toLowerF env (fullPath idx i)],
        computedAt := (computedAt m)[nat i := True]\<rparr>)"
      using assms(4) l(2) ok by (auto simp: memoOk_def nth_list_update inRange_def nat_eq_iff)
    then show ?thesis using ok unfolding new by (simp add: path)
  qed
qed

lemma lowerLoop_seen:
  "\<forall>k < length (seenGen m). seenGen m ! k \<le> gen \<Longrightarrow> lowerLoop fuel idx gen m cur parts = (parts', m', r) \<Longrightarrow>
    length (seenGen m') = length (seenGen m) \<and> (\<forall>k < length (seenGen m'). seenGen m' ! k \<le> gen)"
proof (induction fuel idx gen m cur parts rule: lowerLoop.induct)
  case (2 depth idx gen m cur parts)
  let ?m = "m\<lparr>seenGen := (seenGen m)[nat cur := gen]\<rparr>"
  have "\<forall>k < length (seenGen ?m). seenGen ?m ! k \<le> gen" using "2.prems"(1)
    by (cases "nat cur < length (seenGen m)") (simp_all add: nth_list_update)
  with "2.IH" "2.prems" show ?case by (auto simp: Let_def split: if_splits)
qed simp

lemma lower_path_seen:
  assumes "\<forall>k < length (seenGen m). seenGen m ! k \<le> gen"
  shows "\<forall>k < length (seenGen (reconstructLowerPathInto env idx i gen m)). seenGen (reconstructLowerPathInto env idx i gen m) ! k \<le> gen"
  using assms lowerLoop_seen [OF assms, of 1024 idx i "[]"]
  by (cases "lowerLoop 1024 idx gen m i []") (auto simp: reconstructLowerPathInto_def Let_def)

end
