(* ===== verification/GoSort.thy ===== *)
theory GoSort
  imports Prelude "HOL-Library.Multiset"
begin

text \<open>
  The parts of Go's \<open>sort\<close> and \<open>container/heap\<close> packages that the program uses. \<open>sort.SliceStable\<close> is insertion by the
  comparison; \<open>sort.Slice\<close> is the same function, since every comparison it is used with orders distinct elements. The heap
  is the array of the package, with its \<open>up\<close> and \<open>down\<close> loops.

  Every comparison of the program compares a key of its elements, which is the contract \<open>keyed\<close>: sorting is then sorting by
  the key, and keeping the best elements of a list in a heap gives the beginning of the sorted list.
\<close>

section \<open>Sorting\<close>

fun insertBy :: "('a \<Rightarrow> 'a \<Rightarrow> bool) \<Rightarrow> 'a \<Rightarrow> 'a list \<Rightarrow> 'a list" where
  "insertBy lt x [] = [x]"
| "insertBy lt x (y # ys) = (if lt y x then y # insertBy lt x ys else x # y # ys)"

definition sortSlice :: "('a \<Rightarrow> 'a \<Rightarrow> bool) \<Rightarrow> 'a list \<Rightarrow> 'a list" where
  "sortSlice lt xs = foldr (insertBy lt) xs []"

text \<open>A comparison that keeps a state, such as a memo of the keys it computes.\<close>

fun insertByM :: "('a \<Rightarrow> 'a \<Rightarrow> 's \<Rightarrow> bool \<times> 's) \<Rightarrow> 'a \<Rightarrow> 'a list \<Rightarrow> 's \<Rightarrow> 'a list \<times> 's" where
  "insertByM ltM x [] st = ([x], st)"
| "insertByM ltM x (y # ys) st =
    (case ltM y x st of
       (True, st') \<Rightarrow> (case insertByM ltM x ys st' of (zs, st'') \<Rightarrow> (y # zs, st''))
     | (False, st') \<Rightarrow> (x # y # ys, st'))"

definition sortSliceM :: "('a \<Rightarrow> 'a \<Rightarrow> 's \<Rightarrow> bool \<times> 's) \<Rightarrow> 'a list \<Rightarrow> 's \<Rightarrow> 'a list \<times> 's" where
  "sortSliceM ltM xs st = foldr (\<lambda>x (zs, st). insertByM ltM x zs st) xs ([], st)"

lemma set_insertBy [simp]: "set (insertBy lt x ys) = insert x (set ys)"
  by (induction ys) auto

lemma set_sort_slice: "set (sortSlice lt xs) = set xs"
  by (induction xs) (simp_all add: sortSlice_def)

text \<open>When the state never changes the outcome of a comparison, sorting with it is sorting without it.\<close>

lemma insertByM_exact:
  assumes "\<And>a b st. sound st \<Longrightarrow> a \<in> A \<Longrightarrow> b \<in> A \<Longrightarrow> (fst (ltM a b st) \<longleftrightarrow> lt a b) \<and> sound (snd (ltM a b st))" "x \<in> A"
  shows "sound st \<Longrightarrow> set ys \<subseteq> A \<Longrightarrow> fst (insertByM ltM x ys st) = insertBy lt x ys \<and> sound (snd (insertByM ltM x ys st))"
proof (induction ys arbitrary: st)
  case (Cons y ys)
  obtain b st' where r: "ltM y x st = (b, st')" by (cases "ltM y x st")
  have b: "b \<longleftrightarrow> lt y x" and st': "sound st'" using assms(1) [OF Cons.prems(1), of y x] assms(2) Cons.prems(2) by (simp_all add: r)
  show ?case
  proof (cases b)
    case True
    then show ?thesis using b r Cons.IH [OF st'] Cons.prems(2) by (auto split: prod.splits)
  next
    case False
    then show ?thesis using b st' r by simp
  qed
qed simp

lemma sortSliceM_exact:
  assumes "\<And>a b st. sound st \<Longrightarrow> a \<in> A \<Longrightarrow> b \<in> A \<Longrightarrow> (fst (ltM a b st) \<longleftrightarrow> lt a b) \<and> sound (snd (ltM a b st))" "sound st"
  shows "set xs \<subseteq> A \<Longrightarrow> fst (sortSliceM ltM xs st) = sortSlice lt xs \<and> sound (snd (sortSliceM ltM xs st))"
proof (induction xs)
  case (Cons x xs)
  obtain zs st' where r: "foldr (\<lambda>x (zs, st). insertByM ltM x zs st) xs ([], st) = (zs, st')"
    by (cases "foldr (\<lambda>x (zs, st). insertByM ltM x zs st) xs ([], st)")
  then have zs: "zs = sortSlice lt xs" "sound st'" using Cons by (simp_all add: sortSliceM_def)
  have "set zs \<subseteq> A" using Cons.prems zs(1) by (simp add: set_sort_slice)
  from insertByM_exact [where x = x, OF assms(1) _ zs(2) this] Cons.prems zs(1) r show ?case
    by (simp add: sortSliceM_def sortSlice_def)
qed (simp add: sortSliceM_def sortSlice_def assms(2))

section \<open>Heaps\<close>

definition swapAt :: "nat \<Rightarrow> nat \<Rightarrow> 'a list \<Rightarrow> 'a list" where
  "swapAt i j h = h[i := h ! j, j := h ! i]"

abbreviation up1 :: "nat \<Rightarrow> nat" where
  "up1 j \<equiv> (j - 1) div 2"

function heapUp :: "('a \<Rightarrow> 'a \<Rightarrow> bool) \<Rightarrow> 'a list \<Rightarrow> nat \<Rightarrow> 'a list" where
  "heapUp lt h j =
    (let i = up1 j in if i = j \<or> \<not> lt (h ! j) (h ! i) then h else heapUp lt (swapAt i j h) i)"
  by pat_completeness auto
termination by (relation "measure (\<lambda>(lt, h, j). j)") auto

function heapDown :: "('a \<Rightarrow> 'a \<Rightarrow> bool) \<Rightarrow> 'a list \<Rightarrow> nat \<Rightarrow> 'a list \<times> nat" where
  "heapDown lt h i =
    (let n = length h; j1 = 2 * i + 1
     in if j1 \<ge> n then (h, i)
        else
          let j2 = j1 + 1; j = (if j2 < n \<and> lt (h ! j2) (h ! j1) then j2 else j1)
          in if \<not> lt (h ! j) (h ! i) then (h, i) else heapDown lt (swapAt i j h) j)"
  by pat_completeness auto
termination by (relation "measure (\<lambda>(lt, h, i). length h - i)") (auto simp: swapAt_def)

declare heapUp.simps [simp del] heapDown.simps [simp del]

definition heapFix :: "('a \<Rightarrow> 'a \<Rightarrow> bool) \<Rightarrow> 'a list \<Rightarrow> nat \<Rightarrow> 'a list" where
  "heapFix lt h i = (case heapDown lt h i of (h', p) \<Rightarrow> if p > i then h' else heapUp lt h' i)"

definition heapPush :: "('a \<Rightarrow> 'a \<Rightarrow> bool) \<Rightarrow> 'a \<Rightarrow> 'a list \<Rightarrow> 'a list" where
  "heapPush lt x h = heapUp lt (h @ [x]) (length h)"

text \<open>Keeping the best \<open>limit\<close> elements: the worst one kept is on top.\<close>

definition topStep :: "('a \<Rightarrow> 'a \<Rightarrow> bool) \<Rightarrow> nat \<Rightarrow> 'a list \<Rightarrow> 'a \<Rightarrow> 'a list" where
  "topStep lt limit h x =
    (let worse = (\<lambda>a b. lt b a)
     in if length h < limit then heapPush worse x h
        else if lt x (h ! 0) then heapFix worse (h[0 := x]) 0 else h)"

definition topItems :: "('a \<Rightarrow> 'a \<Rightarrow> bool) \<Rightarrow> nat \<Rightarrow> 'a list \<Rightarrow> 'a list" where
  "topItems lt limit xs = foldl (topStep lt limit) [] xs"

section \<open>Heap facts\<close>

lemma length_swapAt [simp]: "length (swapAt i j h) = length h"
  by (simp add: swapAt_def)

lemma mset_swapAt [simp]: "i < length h \<Longrightarrow> j < length h \<Longrightarrow> mset (swapAt i j h) = mset h"
  by (simp add: swapAt_def mset_swap)

lemma nth_swapAt: "i < length h \<Longrightarrow> j < length h \<Longrightarrow> swapAt i j h ! k = (if k = j then h ! i else if k = i then h ! j else h ! k)"
  by (simp add: swapAt_def nth_list_update)

lemma up1_less [simp]: "0 < k \<Longrightarrow> up1 k < k"
  by auto

lemma up1_child: "0 < k \<Longrightarrow> up1 k = i \<longleftrightarrow> k = 2 * i + 1 \<or> k = 2 * i + 2"
  by auto

lemma mset_heapUp: "j < length h \<Longrightarrow> mset (heapUp lt h j) = mset h"
proof (induction lt h j rule: heapUp.induct)
  case (1 lt h j)
  then show ?case by (subst heapUp.simps) (auto simp: Let_def less_imp_diff_less div_less_dividend)
qed

lemma mset_heapDown: "i < length h \<Longrightarrow> mset (fst (heapDown lt h i)) = mset h \<and> snd (heapDown lt h i) < length h"
proof (induction lt h i rule: heapDown.induct)
  case (1 lt h i)
  then show ?case by (subst (1 2) heapDown.simps) (auto simp: Let_def)
qed

definition heapInv :: "('a \<Rightarrow> 'k :: linorder) \<Rightarrow> 'a list \<Rightarrow> bool" where
  "heapInv key h \<longleftrightarrow> (\<forall>k. 0 < k \<and> k < length h \<longrightarrow> key (h ! k) \<le> key (h ! up1 k))"

lemma heapInv_top: "heapInv key h \<Longrightarrow> k < length h \<Longrightarrow> key (h ! k) \<le> key (h ! 0)"
proof (induction k rule: less_induct)
  case (less k)
  show ?case
  proof (cases "k = 0")
    case False
    with less.prems have "key (h ! k) \<le> key (h ! up1 k)" by (simp add: heapInv_def)
    also have "\<dots> \<le> key (h ! 0)" using less.IH [of "up1 k"] less.prems False by (simp add: less_imp_diff_less)
    finally show ?thesis .
  qed simp
qed

lemma heapUp_inv:
  fixes key :: "'a \<Rightarrow> 'k :: linorder"
  assumes "\<And>x y. worse x y \<longleftrightarrow> key y < key x"
  shows "j < length h \<Longrightarrow> \<forall>k. 0 < k \<and> k < length h \<and> k \<noteq> j \<longrightarrow> key (h ! k) \<le> key (h ! up1 k) \<Longrightarrow>
    \<forall>k. 0 < k \<and> k < length h \<and> 0 < j \<and> up1 k = j \<longrightarrow> key (h ! k) \<le> key (h ! up1 j) \<Longrightarrow> heapInv key (heapUp worse h j)"
proof (induction j arbitrary: h rule: less_induct)
  case (less j)
  define i where "i = up1 j"
  show ?case
  proof (cases "i = j \<or> \<not> worse (h ! j) (h ! i)")
    case True
    then have "heapInv key h"
      using less.prems(2) assms unfolding heapInv_def i_def by (metis linorder_not_less less_irrefl up1_less)
    moreover have "heapUp worse h j = h" using True by (subst heapUp.simps) (simp add: i_def Let_def)
    ultimately show ?thesis by simp
  next
    case False
    then have ij: "i < j" and gt: "key (h ! i) < key (h ! j)" using assms by (auto simp: i_def)
    note len = less.prems(1)
    let ?h = "swapAt i j h"
    have at: "?h ! k = (if k = j then h ! i else if k = i then h ! j else h ! k)" for k
      using nth_swapAt [of i h j k] ij len by simp
    have lower: "key (h ! k) \<le> key (h ! i)" if "0 < k" "k < length h" "up1 k = j \<or> up1 k = i" "k \<noteq> j" for k
      using that less.prems(2,3) ij unfolding i_def by (metis neq0_conv not_less_zero)
    have "\<forall>k. 0 < k \<and> k < length h \<and> k \<noteq> i \<longrightarrow> key (?h ! k) \<le> key (?h ! up1 k)"
    proof (intro allI impI, elim conjE)
      fix k assume k: "0 < k" "k < length h" "k \<noteq> i"
      show "key (?h ! k) \<le> key (?h ! up1 k)"
      proof (cases "k = j")
        case True
        moreover have "(j - Suc 0) div 2 = i" by (simp add: i_def)
        ultimately show ?thesis unfolding at using gt ij by simp
      next
        case False
        with k lower [of k] gt less.prems(2) ij show ?thesis unfolding at by auto
      qed
    qed
    moreover have "\<forall>k. 0 < k \<and> k < length h \<and> 0 < i \<and> up1 k = i \<longrightarrow> key (?h ! k) \<le> key (?h ! up1 i)"
    proof (intro allI impI, elim conjE)
      fix k assume k: "0 < k" "k < length h" "0 < i" "up1 k = i"
      have i: "key (h ! i) \<le> key (h ! up1 i)" using less.prems(2) k(3) ij len by simp
      have "up1 i < i" using k(3) by simp
      then have "?h ! up1 i = h ! up1 i" unfolding at using ij by simp
      moreover have "key (?h ! k) \<le> key (h ! i)"
      proof (cases "k = j")
        case False
        moreover have "k \<noteq> i" using k by auto
        ultimately show ?thesis unfolding at using lower [of k] k by simp
      qed (simp add: at)
      ultimately show "key (?h ! k) \<le> key (?h ! up1 i)" using i by simp
    qed
    ultimately have "heapInv key (heapUp worse ?h i)" using less.IH [OF ij, of ?h] ij len by simp
    moreover have "heapUp worse h j = heapUp worse ?h i" using False by (subst heapUp.simps) (simp add: i_def Let_def)
    ultimately show ?thesis by simp
  qed
qed

lemma heapDown_inv:
  fixes key :: "'a \<Rightarrow> 'k :: linorder"
  assumes "\<And>x y. worse x y \<longleftrightarrow> key y < key x"
  shows "\<forall>k. 0 < k \<and> k < length h \<and> up1 k \<noteq> i \<longrightarrow> key (h ! k) \<le> key (h ! up1 k) \<Longrightarrow>
    \<forall>k. 0 < k \<and> k < length h \<and> 0 < i \<and> up1 k = i \<longrightarrow> key (h ! k) \<le> key (h ! up1 i) \<Longrightarrow> heapInv key (fst (heapDown worse h i))"
proof (induction "length h - i" arbitrary: h i rule: less_induct)
  case less
  let ?j1 = "2 * i + 1" and ?n = "length h"
  define j where "j = (if 2 * i + 2 < ?n \<and> worse (h ! (2 * i + 2)) (h ! ?j1) then 2 * i + 2 else ?j1)"
  have step: "heapDown worse h i = (if ?j1 \<ge> ?n then (h, i) else if \<not> worse (h ! j) (h ! i) then (h, i) else heapDown worse (swapAt i j h) j)"
    by (subst heapDown.simps) (simp add: Let_def j_def)
  have big: "key (h ! k) \<le> key (h ! j)" if "0 < k" "k < ?n" "up1 k = i" for k
    using that up1_child [of k i] assms by (auto simp: j_def)
  show ?case
  proof (cases "?j1 \<ge> ?n \<or> \<not> worse (h ! j) (h ! i)")
    case True
    have "key (h ! k) \<le> key (h ! up1 k)" if "0 < k" "k < ?n" for k
    proof (cases "up1 k = i")
      case up: True
      with True that up1_child [of k i] have "\<not> worse (h ! j) (h ! i)" by auto
      with big [OF that up] assms up show ?thesis by simp
    qed (use less.prems that in simp)
    moreover have "fst (heapDown worse h i) = h" using True by (auto simp: step)
    ultimately show ?thesis by (simp add: heapInv_def)
  next
    case False
    then have j: "j < ?n" "i < j" "0 < j" "up1 j = i" by (auto simp: j_def)
    have gt: "key (h ! i) < key (h ! j)" using False assms by simp
    let ?h = "swapAt i j h"
    have at: "?h ! k = (if k = j then h ! i else if k = i then h ! j else h ! k)" for k
      using nth_swapAt [of i h j k] j by simp
    have "key (?h ! k) \<le> key (?h ! up1 k)" if "0 < k" "k < ?n" "up1 k \<noteq> j" for k
    proof (cases "up1 k = i")
      case True
      have "k \<noteq> i" using True that by auto
      with True that big [of k] gt j show ?thesis unfolding at by (auto intro: less_imp_le)
    next
      case False
      then have "k \<noteq> j" using j by auto
      have "key (h ! k) \<le> key (h ! up1 k)" using less.prems(1) that False by simp
      moreover have "key (h ! j) \<le> key (h ! up1 i)" if "0 < i" using less.prems(2) j that by simp
      ultimately show ?thesis unfolding at using False that \<open>k \<noteq> j\<close> by auto
    qed
    moreover have "key (?h ! k) \<le> key (?h ! up1 j)" if "0 < k" "k < ?n" "up1 k = j" for k
    proof -
      have "k \<noteq> j" "k \<noteq> i" using that j by auto
      moreover have "key (h ! k) \<le> key (h ! j)" using less.prems(1) that j by force
      ultimately show ?thesis unfolding at using j by simp
    qed
    ultimately have "heapInv key (fst (heapDown worse ?h j))" using less.hyps [of ?h j] j by simp
    with step False show ?thesis by simp
  qed
qed


lemma heapUp_id: "heapInv key h \<Longrightarrow> (\<And>x y. worse x y \<longleftrightarrow> key y < key x) \<Longrightarrow> j < length h \<Longrightarrow> heapUp worse h j = h"
  by (subst heapUp.simps) (auto simp: Let_def heapInv_def linorder_not_less)

lemma distinct_concat_parts:
  "distinct (concat parts) \<Longrightarrow> \<forall>p\<in>set parts. set (f p) \<subseteq> set p \<and> distinct (f p) \<Longrightarrow> distinct (concat (map f parts))"
  by (induction parts) (auto, blast)

text \<open>Items that wrap the elements of a list are kept like the elements themselves.\<close>

lemma map_swapAt: "i < length h \<Longrightarrow> j < length h \<Longrightarrow> swapAt i j (map f h) = map f (swapAt i j h)"
  by (simp add: swapAt_def map_update)

lemma heapUp_map: "j < length h \<Longrightarrow> heapUp lt (map f h) j = map f (heapUp (\<lambda>a b. lt (f a) (f b)) h j)"
proof (induction j arbitrary: h rule: less_induct)
  case (less j)
  show ?case
  proof (cases "up1 j = j")
    case True
    then have "j = 0" using up1_less [of j] by (metis gr0I less_irrefl)
    then show ?thesis by (subst (1 2) heapUp.simps) (simp add: Let_def)
  next
    case False
    then have up: "up1 j < j" "up1 j < length h" using less.prems up1_less [of j] by (cases j; simp)+
    then show ?thesis
      using less.prems less.IH [OF up(1), of "swapAt (up1 j) j h"] by (subst (1 2) heapUp.simps) (simp add: Let_def map_swapAt)
  qed
qed

lemma heapDown_map: "i < length h \<Longrightarrow> heapDown lt (map f h) i = map_prod (map f) id (heapDown (\<lambda>a b. lt (f a) (f b)) h i)"
proof (induction "length h - i" arbitrary: h i rule: less_induct)
  case less
  define j where "j = (if 2 * i + 2 < length h \<and> lt (f (h ! (2 * i + 2))) (f (h ! (2 * i + 1))) then 2 * i + 2 else 2 * i + 1)"
  show ?case
  proof (cases "2 * i + 1 < length h")
    case True
    then have j: "j < length h" "i < j" by (auto simp: j_def)
    have "heapDown lt (map f (swapAt i j h)) j = map_prod (map f) id (heapDown (\<lambda>a b. lt (f a) (f b)) (swapAt i j h) j)"
      using less.hyps [of "swapAt i j h" j] j by simp
    then show ?thesis
      using True j less.prems map_swapAt [of i h j f]
      by (subst (1 2) heapDown.simps) (auto simp: Let_def j_def)
  next
    case False
    then show ?thesis by (subst (1 2) heapDown.simps) (simp add: Let_def)
  qed
qed

lemma topStep_map:
  assumes "0 < limit"
  shows "topStep lt limit (map f h) (f x) = map f (topStep (\<lambda>a b. lt (f a) (f b)) limit h x)"
proof (cases "length h < limit")
  case True
  then show ?thesis
    using heapUp_map [of "length h" "h @ [x]" "\<lambda>a b. lt b a" f] by (simp add: topStep_def heapPush_def)
next
  case False
  then have h: "0 < length h" using assms by linarith
  let ?lt = "\<lambda>a b. lt (f b) (f a)" and ?h = "h[0 := x]"
  obtain h' p where d: "heapDown ?lt ?h 0 = (h', p)" by (cases "heapDown ?lt ?h 0")
  have "mset h' = mset ?h" using mset_heapDown [of 0 ?h ?lt] h d by simp
  then have "0 < length h'" using h by (metis length_list_update mset_eq_length)
  moreover have "(map f h)[0 := f x] = map f ?h" using h by (simp add: map_update)
  ultimately show ?thesis
    using False h heapDown_map [of 0 ?h "\<lambda>a b. lt b a" f] heapUp_map [of 0 h' "\<lambda>a b. lt b a" f] d
    by (simp add: topStep_def heapFix_def)
qed

lemma topItems_map:
  "0 < limit \<Longrightarrow> topItems lt limit (map f xs) = map f (topItems (\<lambda>a b. lt (f a) (f b)) limit xs)"
  by (induction xs rule: rev_induct) (simp_all add: topItems_def topStep_map)

section \<open>Comparing by a key\<close>

locale keyed =
  fixes lt :: "'a \<Rightarrow> 'a \<Rightarrow> bool" and key :: "'a \<Rightarrow> 'k :: linorder"
  assumes lt_key: "lt x y \<longleftrightarrow> key x < key y"
begin

lemma insertBy_key: "insertBy lt x xs = insort_key key x xs"
  by (induction xs) (auto simp: lt_key)

lemma sortSlice_key: "sortSlice lt xs = sort_key key xs"
  by (simp add: sortSlice_def sort_key_def insertBy_key [abs_def])

lemma set_sortSlice [simp]: "set (sortSlice lt xs) = set xs"
  by (simp add: sortSlice_key)

lemma distinct_sortSlice [simp]: "distinct (sortSlice lt xs) = distinct xs"
  by (simp add: sortSlice_key)

lemma length_sortSlice [simp]: "length (sortSlice lt xs) = length xs"
  by (simp add: sortSlice_key)

text \<open>Distinct elements with distinct keys are in strictly ascending order.\<close>

lemma sortSlice_sorted:
  assumes "inj_on key (set xs)" "distinct xs"
  shows "sorted_wrt lt (sortSlice lt xs)"
proof -
  have "sorted (map key (sortSlice lt xs))" "distinct (map key (sortSlice lt xs))"
    using assms by (simp_all add: sortSlice_key distinct_map)
  then have "sorted_wrt (<) (map key (sortSlice lt xs))" by (simp add: strict_sorted_iff)
  moreover have "lt = (\<lambda>x y. key x < key y)" by (intro ext) (rule lt_key)
  ultimately show ?thesis by (simp add: sorted_wrt_map)
qed

lemma heapPush_ok:
  assumes "heapInv key h"
  shows "heapInv key (heapPush (\<lambda>a b. lt b a) x h)" "mset (heapPush (\<lambda>a b. lt b a) x h) = add_mset x (mset h)"
proof -
  have no_child: "up1 k \<noteq> length h" if "0 < k" "k < length (h @ [x])" for k using that up1_less [of k] by simp
  have old: "up1 k < length h" if "0 < k" "k < length h" for k using that up1_less [of k] by simp
  show "heapInv key (heapPush (\<lambda>a b. lt b a) x h)"
    unfolding heapPush_def
  proof (rule heapUp_inv [of _ key])
    show "\<forall>k. 0 < k \<and> k < length (h @ [x]) \<and> k \<noteq> length h \<longrightarrow> key ((h @ [x]) ! k) \<le> key ((h @ [x]) ! up1 k)"
      using assms old by (simp add: heapInv_def nth_append)
  qed (use no_child in \<open>auto simp: lt_key\<close>)
qed (simp add: heapPush_def mset_heapUp)

lemma heapFix_ok:
  assumes "heapInv key h" "h \<noteq> []"
  shows "heapInv key (heapFix (\<lambda>a b. lt b a) (h[0 := x]) 0)"
    "mset (heapFix (\<lambda>a b. lt b a) (h[0 := x]) 0) = add_mset x (mset h - {#h ! 0#})"
proof -
  let ?d = "heapDown (\<lambda>a b. lt b a) (h[0 := x]) 0"
  have "key (h[0 := x] ! k) \<le> key (h[0 := x] ! up1 k)" if "0 < k" "k < length h" "up1 k \<noteq> 0" for k
    using assms(1) that by (simp add: heapInv_def)
  then have inv: "heapInv key (fst ?d)" by (intro heapDown_inv [of _ key]) (auto simp: lt_key)
  have m: "mset (fst ?d) = mset (h[0 := x])" using mset_heapDown [of 0 "h[0 := x]"] assms(2) by simp
  then have "fst ?d \<noteq> []" using assms(2) by force
  then have "heapUp (\<lambda>a b. lt b a) (fst ?d) 0 = fst ?d" by (intro heapUp_id [OF inv]) (simp_all add: lt_key)
  then have down: "heapFix (\<lambda>a b. lt b a) (h[0 := x]) 0 = fst ?d" by (cases ?d) (simp add: heapFix_def)
  show "heapInv key (heapFix (\<lambda>a b. lt b a) (h[0 := x]) 0)" unfolding down by (rule inv)
  show "mset (heapFix (\<lambda>a b. lt b a) (h[0 := x]) 0) = add_mset x (mset h - {#h ! 0#})"
    unfolding down m using assms(2) by (cases h) simp_all
qed

text \<open>The beginning of a sorted list with one more element.\<close>

lemma insort_before:
  "key x < key w \<Longrightarrow> insort_key key x (xs @ w # ys) = insort_key key x xs @ w # ys"
  by (induction xs) (auto simp: less_imp_le)

lemma insort_append_right:
  "(\<forall>y\<in>set xs. key y < key x) \<Longrightarrow> insort_key key x (xs @ ys) = xs @ insort_key key x ys"
  by (induction xs) (auto simp: linorder_not_less)

lemma sort_unique:
  assumes "inj_on key (set xs)" "distinct xs" "mset ys = mset xs" "sorted (map key ys)"
  shows "sort_key key xs = ys"
proof (rule map_sorted_distinct_set_unique [of key])
  have same: "set ys = set xs" "distinct ys" using assms(2,3) mset_eq_setD mset_eq_imp_distinct_iff by metis+
  then show "inj_on key (set (sort_key key xs) \<union> set ys)" "set (sort_key key xs) = set ys" "distinct (map key ys)"
    using assms(1) by (simp_all add: distinct_map)
qed (use assms in \<open>simp_all add: distinct_map\<close>)

lemma sort_key_append_one:
  assumes "inj_on key (set (xs @ [x]))" "distinct (xs @ [x])"
  shows "sort_key key (xs @ [x]) = insort_key key x (sort_key key xs)"
  by (rule sort_unique [OF assms]) (simp_all add: sorted_insort_key)

lemma topStep_ok:
  assumes "heapInv key h" "mset h = mset (take limit (sort_key key xs))" "0 < limit" "key x \<notin> key ` set xs" "inj_on key (set xs)"
  shows "heapInv key (topStep lt limit h x) \<and> mset (topStep lt limit h x) = mset (take limit (insort_key key x (sort_key key xs)))"
proof -
  let ?s = "sort_key key xs"
  have len: "length h = min limit (length xs)" using arg_cong [OF assms(2), of size] by simp
  show ?thesis
  proof (cases "length h < limit")
    case True
    then have "length xs < limit" using len by simp
    with True assms(1,2) heapPush_ok [of h x] show ?thesis by (simp add: topStep_def)
  next
    case False
    then have h: "h \<noteq> []" "limit \<le> length xs" using len assms(3) by auto
    define t r where "t = take (limit - 1) ?s" and "r = drop limit ?s"
    define w where "w = ?s ! (limit - 1)"
    have s: "?s = t @ w # r" using h(2) assms(3) id_take_nth_drop [of "limit - 1" ?s] by (simp add: t_def r_def w_def)
    have lt: "length t = limit - 1" using h(2) by (simp add: t_def)
    then have take: "take limit ?s = t @ [w]" unfolding s using assms(3) by (cases limit) auto
    have sorted: "sorted (map key (t @ w # r))" by (metis s sorted_sort_key)
    have members: "set h = set (t @ [w])" using assms(2) take mset_eq_setD by metis
    have "h ! 0 \<in> set h" using h(1) by simp
    then have top: "h ! 0 \<in> set (t @ [w])" by (simp only: members)
    have "set ?s = set xs" by simp
    then have inside: "w \<in> set xs" "h ! 0 \<in> set xs" and members_xs: "\<forall>y\<in>set t. y \<in> set xs" using top unfolding s by auto
    have "key (h ! 0) = key w"
    proof (rule antisym)
      show "key (h ! 0) \<le> key w" using sorted top by (auto simp: sorted_append)
      have "w \<in> set h" using members by simp
      then show "key w \<le> key (h ! 0)" using heapInv_top [OF assms(1)] by (auto simp: in_set_conv_nth)
    qed
    have fresh: "key x \<noteq> key w" "\<forall>y\<in>set t. key y \<noteq> key x"
      using assms(4) inside(1) members_xs by (metis image_eqI)+
    show ?thesis
    proof (cases "key x < key w")
      case True
      then have "take limit (insort_key key x ?s) = insort_key key x t"
        using insort_before [of x w t r] s lt assms(3) by simp
      moreover have "h ! 0 = w"
        using inj_onD [OF assms(5) \<open>key (h ! 0) = key w\<close>] inside by simp
      moreover have "topStep lt limit h x = heapFix (\<lambda>a b. lt b a) (h[0 := x]) 0"
        using \<open>\<not> length h < limit\<close> True \<open>key (h ! 0) = key w\<close> by (simp add: topStep_def lt_key)
      ultimately show ?thesis using heapFix_ok [OF assms(1) h(1), of x] assms(2) take by simp
    next
      case False
      then have "\<forall>y\<in>set (t @ [w]). key y < key x" using sorted fresh by (auto simp: sorted_append order.strict_iff_order)
      then have "insort_key key x ?s = t @ w # insort_key key x r"
        using insort_append_right [of "t @ [w]" x r] s by simp
      then have "take limit (insort_key key x ?s) = t @ [w]" using lt assms(3) by (cases limit) auto
      moreover have "topStep lt limit h x = h"
        using \<open>\<not> length h < limit\<close> False \<open>key (h ! 0) = key w\<close> by (simp add: topStep_def lt_key)
      ultimately show ?thesis using assms(1,2) take by simp
    qed
  qed
qed


lemma topItems_ok:
  assumes "0 < limit" "inj_on key (set xs)" "distinct xs"
  shows "heapInv key (topItems lt limit xs) \<and> mset (topItems lt limit xs) = mset (take limit (sort_key key xs))"
  using assms
proof (induction xs rule: rev_induct)
  case (snoc x xs)
  have fresh: "key x \<notin> key ` set xs" using snoc.prems(2,3) by (auto dest: inj_onD)
  have inj: "inj_on key (set xs)" using snoc.prems(2) by (rule inj_on_subset) auto
  have "sort_key key (xs @ [x]) = insort_key key x (sort_key key xs)"
    by (rule sort_key_append_one [OF snoc.prems(2,3)])
  then show ?case
    using topStep_ok [of "topItems lt limit xs" limit xs x] snoc.IH inj fresh snoc.prems(1,3) by (simp add: topItems_def)
qed (simp add: topItems_def heapInv_def)

text \<open>The kept elements, sorted, are the beginning of the sorted list.\<close>

lemma topItems_sorted:
  assumes "0 < limit" "inj_on key (set xs)" "distinct xs"
  shows "sortSlice lt (topItems lt limit xs) = take limit (sortSlice lt xs)"
proof -
  have m: "mset (topItems lt limit xs) = mset (take limit (sort_key key xs))" using topItems_ok [OF assms] by simp
  then have d: "distinct (topItems lt limit xs)"
    using assms(3) mset_eq_imp_distinct_iff [OF m] by simp
  have "set (take limit (sort_key key xs)) \<subseteq> set xs" by (metis set_sort set_take_subset)
  then have "inj_on key (set (topItems lt limit xs))" using m assms(2) by (metis inj_on_subset mset_eq_setD)
  moreover have "sorted (map key (take limit (sort_key key xs)))" by (simp add: sorted_wrt_take flip: take_map)
  ultimately have "sort_key key (topItems lt limit xs) = take limit (sort_key key xs)"
    by (intro sort_unique) (simp_all add: d m)
  then show ?thesis by (simp add: sortSlice_key)
qed


section \<open>The best of several lists\<close>

definition best :: "nat \<Rightarrow> 'a set \<Rightarrow> 'a set" where
  "best n A = {x \<in> A. card {y \<in> A. key y < key x} < n}"

lemma set_take_sort:
  assumes "inj_on key (set xs)" "distinct xs"
  shows "set (take n (sort_key key xs)) = best n (set xs)"
proof -
  let ?s = "sort_key key xs"
  have sorted: "sorted (map key ?s)" "distinct (map key ?s)" using assms by (simp_all add: distinct_map)
  then have "sorted_wrt (<) (map key ?s)" by (simp add: strict_sorted_iff)
  then have up: "j < i \<Longrightarrow> i < length ?s \<Longrightarrow> key (?s ! j) < key (?s ! i)" for i j
    using sorted_wrt_nth_less [of "(<)" "map key ?s" j i] by simp
  have strict: "key (?s ! j) < key (?s ! i) \<longleftrightarrow> j < i" if "i < length ?s" "j < length ?s" for i j
    using up [of j i] up [of i j] that by (cases i j rule: linorder_cases) auto
  have "card {y \<in> set xs. key y < key (?s ! i)} = i" if "i < length ?s" for i
  proof -
    have "{y \<in> set xs. key y < key (?s ! i)} = {y \<in> set ?s. key y < key (?s ! i)}" by simp
    also have "\<dots> = set (take i ?s)"
    proof (intro subset_antisym subsetI)
      fix y assume "y \<in> {y \<in> set ?s. key y < key (?s ! i)}"
      then obtain j where j: "j < length ?s" "?s ! j = y" "key (?s ! j) < key (?s ! i)"
        unfolding mem_Collect_eq in_set_conv_nth by blast
      with strict [OF that j(1)] that have "j < length (take i ?s)" "take i ?s ! j = y" by simp_all
      then show "y \<in> set (take i ?s)" by (metis nth_mem)
    next
      fix y assume "y \<in> set (take i ?s)"
      then obtain j where j: "j < length (take i ?s)" "take i ?s ! j = y" unfolding in_set_conv_nth by blast
      then have "j < length ?s" "?s ! j = y" "j < i" using that by simp_all
      with strict [OF that, of j] nth_mem [of j ?s] show "y \<in> {y \<in> set ?s. key y < key (?s ! i)}" by simp
    qed
    finally show ?thesis using that assms(2) by (simp add: distinct_card)
  qed
  moreover have "?s ! i \<in> set xs" if "i < length ?s" for i using nth_mem [OF that] by simp
  ultimately have at: "?s ! i \<in> best n (set xs) \<longleftrightarrow> i < n" if "i < length ?s" for i
    using that by (simp add: best_def)
  show ?thesis
  proof (intro subset_antisym subsetI)
    fix x assume "x \<in> set (take n ?s)"
    then obtain i where "i < length (take n ?s)" "take n ?s ! i = x" unfolding in_set_conv_nth by blast
    with at [of i] show "x \<in> best n (set xs)" by simp
  next
    fix x assume x: "x \<in> best n (set xs)"
    then have "x \<in> set ?s" by (simp add: best_def)
    then obtain i where i: "i < length ?s" "?s ! i = x" unfolding in_set_conv_nth by blast
    with at [of i] x have "i < length (take n ?s)" "take n ?s ! i = x" by simp_all
    then show "x \<in> set (take n ?s)" by (metis nth_mem)
  qed
qed

lemma best_subset: "best n A \<subseteq> A"
  by (auto simp: best_def)

lemma best_mono:
  assumes "finite A" "B \<subseteq> A" "x \<in> B" "x \<in> best n A"
  shows "x \<in> best n B"
proof -
  have "card {y \<in> B. key y < key x} \<le> card {y \<in> A. key y < key x}" using assms(1,2) by (intro card_mono) auto
  with assms(3,4) show ?thesis by (simp add: best_def)
qed

text \<open>Selecting from the selections is selecting from everything.\<close>

lemma best_Union:
  assumes "finite A" "inj_on key A" "A = \<Union> (set Bs)"
  shows "best n (\<Union>B\<in>set Bs. best n B) = best n A"
proof (intro subset_antisym subsetI)
  let ?T = "\<Union>B\<in>set Bs. best n B"
  have T: "?T \<subseteq> A" using assms(3) best_subset by auto
  have keep: "best n A \<subseteq> ?T"
  proof
    fix x assume x: "x \<in> best n A"
    with best_subset assms(3) obtain B where B: "B \<in> set Bs" "x \<in> B" by blast
    then have "x \<in> best n B" using best_mono [OF assms(1) _ _ x] assms(3) by blast
    with B show "x \<in> ?T" by blast
  qed
  fix x
  show "x \<in> best n ?T" if "x \<in> best n A"
    using best_mono [OF assms(1) T _ that] keep that by auto
  assume x: "x \<in> best n ?T"
  show "x \<in> best n A"
  proof (rule ccontr)
    assume out: "x \<notin> best n A"
    have "x \<in> A" by (rule subsetD [OF T subsetD [OF best_subset x]])
    with out have many: "card {y \<in> A. key y < key x} \<ge> n" by (simp add: best_def)
    obtain xs where xs: "set xs = A" "distinct xs" using assms(1) finite_distinct_list by blast
    have "card (best n A) = n"
    proof -
      have "n \<le> card A" using many card_mono [OF assms(1), of "{y \<in> A. key y < key x}"] by auto
      then have "length (take n (sort_key key xs)) = n" using xs distinct_card [of xs] by simp
      moreover have "set (take n (sort_key key xs)) = best n A" using set_take_sort [of xs n] assms(2) xs by simp
      ultimately show ?thesis using xs(2) by (metis distinct_card distinct_sort distinct_take)
    qed
    moreover have "best n A \<subseteq> {y \<in> ?T. key y < key x}"
    proof
      fix y assume y: "y \<in> best n A"
      have "key y < key x"
      proof (rule ccontr)
        assume "\<not> key y < key x"
        then have "{z \<in> A. key z < key x} \<subseteq> {z \<in> A. key z < key y}" by auto
        then have "card {z \<in> A. key z < key x} \<le> card {z \<in> A. key z < key y}" using assms(1) by (intro card_mono) auto
        with many y show False by (simp add: best_def)
      qed
      with y keep show "y \<in> {y \<in> ?T. key y < key x}" by auto
    qed
    moreover have "finite {y \<in> ?T. key y < key x}" using finite_subset [OF T assms(1)] by auto
    ultimately have "n \<le> card {y \<in> ?T. key y < key x}" by (metis card_mono)
    with x show False by (simp add: best_def)
  qed
qed

lemma sort_prefix:
  assumes "inj_on key (set xs)" "distinct xs"
  shows "distinct (map key (take n (sort_key key xs)))" "sorted (map key (take n (sort_key key xs)))"
    "inj_on key (set (take n (sort_key key xs)))"
proof -
  have "distinct (map key (sort_key key xs))" using assms by (simp add: distinct_map)
  then show "distinct (map key (take n (sort_key key xs)))" by (metis distinct_take take_map)
  then show "inj_on key (set (take n (sort_key key xs)))" by (simp add: distinct_map)
qed (simp add: sorted_wrt_take flip: take_map)

lemma topItems_parallel:
  assumes "0 < limit" "inj_on key (set xs)" "distinct xs" "concat parts = xs"
  shows "sortSlice lt (topItems lt limit (concat (map (topItems lt limit) parts))) = take limit (sortSlice lt xs)"
proof -
  have sub: "inj_on key (set p)" "distinct p" if "p \<in> set parts" for p
    using that assms(2-4) by (metis UN_upper inj_on_subset set_concat, metis distinct_concat_iff)
  have top: "set (topItems lt limit p) = best limit (set p)" "distinct (topItems lt limit p)" if "p \<in> set parts" for p
    using topItems_ok [OF assms(1) sub [OF that]] set_take_sort [OF sub [OF that], of limit] sub(2) [OF that]
    by (metis mset_eq_setD, metis distinct_sort distinct_take mset_eq_imp_distinct_iff)
  let ?ys = "concat (map (topItems lt limit) parts)"
  have ys: "set ?ys = (\<Union>B\<in>set (map set parts). best limit B)" using top(1) by auto
  have subset: "set ?ys \<subseteq> set xs" using top(1) best_subset assms(4) by fastforce
  have d: "distinct ?ys" 
    using assms(3,4) top best_subset by (intro distinct_concat_parts) auto
  have inj: "inj_on key (set ?ys)" using assms(2) subset by (rule inj_on_subset)
  have "set (take limit (sort_key key ?ys)) = set (take limit (sort_key key xs))" (is "set ?a = set ?b")
    unfolding set_take_sort [OF inj d] set_take_sort [OF assms(2,3)] ys
    using assms(2,4) by (intro best_Union) auto
  moreover have "distinct (map key ?a)" "distinct (map key ?b)" "sorted (map key ?a)" "sorted (map key ?b)" "inj_on key (set ?a \<union> set ?b)"
    using sort_prefix [OF inj d] sort_prefix [OF assms(2,3)] \<open>set ?a = set ?b\<close> by simp_all
  ultimately have "?a = ?b" by (intro map_sorted_distinct_set_unique)
  then show ?thesis using topItems_sorted [OF assms(1) inj d] by (simp add: sortSlice_key)
qed

end

end
