(* ===== verification/SortOrders.thy ===== *)
theory SortOrders
  imports Paths PostingSection GoSort "HOL-Library.Char_ord" "HOL-Library.List_Lexorder" "HOL-Library.Product_Lexorder"
begin

text \<open>
  The sort orders of an index (\<open>service_state.go\<close>: \<open>liveCompactIDs\<close>, \<open>compactRanksFromOrder\<close>, \<open>buildCompactNameOrderRank\<close> and
  its siblings for size, modification time, extension, type and path; \<open>search_compact.go\<close>: \<open>compactLowerNameOf\<close>).

  An order lists the records that are not deleted; the rank table holds each one's position. Every comparison compares a key
  that ends in the record number. The order by path computes the paths in the comparison, which threads the memo of paths
  and its generation; the paths do not depend on when they are computed.
\<close>

section \<open>Comparisons\<close>

definition compactLowerName :: "(string \<Rightarrow> string) \<Rightarrow> CompactRecord \<Rightarrow> string" where
  "compactLowerName toLower r = toLower (Name r)"

definition compactLowerNameOf :: "(string \<Rightarrow> string) \<Rightarrow> Index \<Rightarrow> nat \<Rightarrow> CompactRecord \<Rightarrow> string" where
  "compactLowerNameOf toLower idx i r =
    (if MMapRecords idx \<noteq> None then toLower (Name r)
     else case PackedRecs idx of Some p \<Rightarrow> lowerNameAt toLower p i | None \<Rightarrow> compactLowerName toLower r)"

definition nameLess :: "string list \<Rightarrow> u32 \<Rightarrow> u32 \<Rightarrow> bool" where
  "nameLess lower a b = (if lower ! unat a \<noteq> lower ! unat b then lower ! unat a < lower ! unat b else a < b)"

definition sizeLess :: "int list \<Rightarrow> string list \<Rightarrow> u32 \<Rightarrow> u32 \<Rightarrow> bool" where
  "sizeLess sizes lower a b = (if sizes ! unat a \<noteq> sizes ! unat b then sizes ! unat a < sizes ! unat b else nameLess lower a b)"

definition modifiedLess :: "int list \<Rightarrow> string list \<Rightarrow> u32 \<Rightarrow> u32 \<Rightarrow> bool" where
  "modifiedLess mods lower a b =
    (if mods ! unat a \<noteq> mods ! unat b
     then if mods ! unat a = 0 then False else if mods ! unat b = 0 then True else mods ! unat a > mods ! unat b
     else nameLess lower a b)"

definition extensionLess :: "string list \<Rightarrow> string list \<Rightarrow> u32 \<Rightarrow> u32 \<Rightarrow> bool" where
  "extensionLess exts lower a b = (if exts ! unat a \<noteq> exts ! unat b then exts ! unat a < exts ! unat b else nameLess lower a b)"

definition typeLess :: "nat list \<Rightarrow> string list \<Rightarrow> u32 \<Rightarrow> u32 \<Rightarrow> bool" where
  "typeLess tys lower a b = (if tys ! unat a \<noteq> tys ! unat b then tys ! unat a < tys ! unat b else nameLess lower a b)"

interpretation byName: keyed "nameLess lower" "\<lambda>a. (lower ! unat a, a)" for lower
  by unfold_locales (auto simp: nameLess_def less_prod_simp)

interpretation bySize: keyed "sizeLess sizes lower" "\<lambda>a. (sizes ! unat a, lower ! unat a, a)" for sizes lower
  by unfold_locales (auto simp: sizeLess_def nameLess_def less_prod_simp)

interpretation byModified: keyed "modifiedLess mods lower" "\<lambda>a. (mods ! unat a = 0, - (mods ! unat a), lower ! unat a, a)" for mods lower
  by unfold_locales (auto simp: modifiedLess_def nameLess_def less_prod_simp)

interpretation byExtension: keyed "extensionLess exts lower" "\<lambda>a. (exts ! unat a, lower ! unat a, a)" for exts lower
  by unfold_locales (auto simp: extensionLess_def nameLess_def less_prod_simp)

interpretation byType: keyed "typeLess tys lower" "\<lambda>a. (tys ! unat a, lower ! unat a, a)" for tys lower
  by unfold_locales (auto simp: typeLess_def nameLess_def less_prod_simp)

section \<open>Orders and ranks\<close>

definition liveCompactIDs :: "Index \<Rightarrow> nat \<Rightarrow> u32 list" where
  "liveCompactIDs idx n = map of_nat (filter (\<lambda>i. \<not> compactDeletedAt idx i) [0..<n])"

definition compactRanksFromOrder :: "u32 list \<Rightarrow> nat \<Rightarrow> u32 list" where
  "compactRanksFromOrder order n =
    foldl (\<lambda>ranks (pos, rid). if unat rid < n then ranks[unat rid := of_nat pos] else ranks)
      (map of_nat [0..<n]) (zip [0..<length order] order)"

text \<open>The ids of the live records, and a column of the table that the loops fill for them.\<close>

definition liveIDs :: "Index \<Rightarrow> u32 list" where
  "liveIDs idx = map of_nat (filter (\<lambda>i. \<not> Deleted (compactRecord idx (int i))) [0..<compactRecordCount idx])"

definition column :: "Index \<Rightarrow> 'a \<Rightarrow> (nat \<Rightarrow> CompactRecord \<Rightarrow> 'a) \<Rightarrow> 'a list" where
  "column idx z f =
    map (\<lambda>i. let r = compactRecord idx (int i) in if Deleted r then z else f i r) [0..<compactRecordCount idx]"

definition lowers :: "(string \<Rightarrow> string) \<Rightarrow> Index \<Rightarrow> string list" where
  "lowers toLower idx = column idx [] (compactLowerNameOf toLower idx)"

definition withRanks :: "Index \<Rightarrow> u32 list \<Rightarrow> u32 list \<times> u32 list" where
  "withRanks idx order = (order, compactRanksFromOrder order (compactRecordCount idx))"

definition buildCompactNameOrderRank :: "(string \<Rightarrow> string) \<Rightarrow> Index \<Rightarrow> u32 list \<times> u32 list" where
  "buildCompactNameOrderRank toLower idx =
    (if compactRecordCount idx = 0 then ([], []) else withRanks idx (sortSlice (nameLess (lowers toLower idx)) (liveIDs idx)))"

definition sizeKey :: "u64 list \<Rightarrow> nat \<Rightarrow> CompactRecord \<Rightarrow> int" where
  "sizeKey dirBytes i r = (if isDirMode (Mode r) \<and> i < length dirBytes then sint (dirBytes ! i) else Size r)"

definition buildCompactSizeOrderRankWithDirBytes :: "(string \<Rightarrow> string) \<Rightarrow> Index \<Rightarrow> u64 list \<Rightarrow> u32 list \<times> u32 list" where
  "buildCompactSizeOrderRankWithDirBytes toLower idx dirBytes =
    (if compactRecordCount idx = 0 then ([], [])
     else withRanks idx (sortSlice (sizeLess (column idx 0 (sizeKey dirBytes)) (lowers toLower idx)) (liveIDs idx)))"

definition buildCompactModifiedOrderRank :: "(string \<Rightarrow> string) \<Rightarrow> Index \<Rightarrow> u32 list \<times> u32 list" where
  "buildCompactModifiedOrderRank toLower idx =
    (if compactRecordCount idx = 0 then ([], [])
     else withRanks idx (sortSlice (modifiedLess (column idx 0 (\<lambda>i. ModUnix)) (lowers toLower idx)) (liveIDs idx)))"

definition compactRecordLowerExt :: "(string \<Rightarrow> string) \<Rightarrow> CompactRecord \<Rightarrow> string" where
  "compactRecordLowerExt toLower r =
    (let ext = trimPrefix (fileExt (Name r)) ''.'' in if ext = [] then [] else toLower ext)"

definition buildCompactExtensionOrderRank :: "(string \<Rightarrow> string) \<Rightarrow> Index \<Rightarrow> u32 list \<times> u32 list" where
  "buildCompactExtensionOrderRank toLower idx =
    (if compactRecordCount idx = 0 then ([], [])
     else withRanks idx
       (sortSlice (extensionLess (column idx [] (\<lambda>i. compactRecordLowerExt toLower)) (lowers toLower idx)) (liveIDs idx)))"

definition compactRecordTypeRank :: "CompactRecord \<Rightarrow> nat" where
  "compactRecordTypeRank r = (if isDirMode (Mode r) then 0 else 1)"

definition buildCompactTypeOrderRank :: "(string \<Rightarrow> string) \<Rightarrow> Index \<Rightarrow> u32 list \<times> u32 list" where
  "buildCompactTypeOrderRank toLower idx =
    (if compactRecordCount idx = 0 then ([], [])
     else withRanks idx (sortSlice (typeLess (column idx 0 (\<lambda>i. compactRecordTypeRank)) (lowers toLower idx)) (liveIDs idx)))"

text \<open>The order by path: a comparison computes the paths it needs, each with a new generation, and keeps them in the memo.\<close>

definition ensurePath :: "goEnv \<Rightarrow> searchIndex \<Rightarrow> u32 \<Rightarrow> lowerMemo \<times> int \<Rightarrow> lowerMemo \<times> int" where
  "ensurePath env idx a st =
    (case st of (m, gen) \<Rightarrow>
      if computedAt m ! unat a then (m, gen) else (reconstructLowerPathInto env idx (uint a) (gen + 1) m, gen + 1))"

definition pathLess :: "goEnv \<Rightarrow> searchIndex \<Rightarrow> u32 \<Rightarrow> u32 \<Rightarrow> lowerMemo \<times> int \<Rightarrow> bool \<times> (lowerMemo \<times> int)" where
  "pathLess env idx a b st =
    (let st' = ensurePath env idx b (ensurePath env idx a st); keys = lowerPaths (fst st')
     in (if keys ! unat a \<noteq> keys ! unat b then keys ! unat a < keys ! unat b else a < b, st'))"

definition emptyMemo :: "nat \<Rightarrow> lowerMemo" where
  "emptyMemo n = \<lparr>lowerPaths = replicate n [], computedAt = replicate n False, seenGen = replicate n 0\<rparr>"

definition buildCompactPathOrderRank :: "goEnv \<Rightarrow> searchIndex \<Rightarrow> u32 list \<times> u32 list" where
  "buildCompactPathOrderRank env idx =
    (if Paths.recordCount idx = 0 then ([], [])
     else withRanks (store idx)
       (fst (sortSliceM (pathLess env idx) (liveCompactIDs (store idx) (Paths.recordCount idx)) (emptyMemo (Paths.recordCount idx), 0))))"

section \<open>Orders are sorted, ranks are positions\<close>

definition liveRecord :: "Index \<Rightarrow> u32 \<Rightarrow> bool" where
  "liveRecord idx a \<longleftrightarrow> unat a < compactRecordCount idx \<and> \<not> Deleted (compactRecord idx (uint a))"

definition ordersLive :: "Index \<Rightarrow> (u32 \<Rightarrow> 'k :: linorder) \<Rightarrow> u32 list \<times> u32 list \<Rightarrow> bool" where
  "ordersLive idx key orderRanks \<longleftrightarrow>
    (case orderRanks of (order, ranks) \<Rightarrow>
      sorted_wrt (\<lambda>a b. key a < key b) order \<and> set order = {a. liveRecord idx a} \<and> distinct order \<and>
      length ranks = compactRecordCount idx \<and> (\<forall>pos < length order. ranks ! unat (order ! pos) = of_nat pos))"

lemma liveIDs_facts:
  assumes "compactRecordCount idx \<le> 2 ^ 32"
  shows "distinct (liveIDs idx)" "set (liveIDs idx) = {a. unat a < compactRecordCount idx \<and> \<not> Deleted (compactRecord idx (uint a))}"
proof -
  have un: "unat (of_nat i :: u32) = i" if "i < compactRecordCount idx" for i
    using that assms by (intro unat_of_nat_u32) simp
  then have "inj_on (of_nat :: nat \<Rightarrow> u32) {0..<compactRecordCount idx}" by (intro inj_on_inverseI [of _ unat]) simp
  then have "inj_on (of_nat :: nat \<Rightarrow> u32) (set (filter (\<lambda>i. \<not> Deleted (compactRecord idx (int i))) [0..<compactRecordCount idx]))"
    by (rule inj_on_subset) auto
  then show "distinct (liveIDs idx)" unfolding liveIDs_def distinct_map by simp
  show "set (liveIDs idx) = {a. unat a < compactRecordCount idx \<and> \<not> Deleted (compactRecord idx (uint a))}"
  proof (intro set_eqI iffI)
    fix a assume "a \<in> set (liveIDs idx)"
    then obtain i where i: "a = of_nat i" "i < compactRecordCount idx" "\<not> Deleted (compactRecord idx (int i))"
      by (auto simp: liveIDs_def)
    moreover have "uint a = int i" using i un by (metis of_nat_unat)
    ultimately show "a \<in> {a. unat a < compactRecordCount idx \<and> \<not> Deleted (compactRecord idx (uint a))}" using un by simp
  next
    fix a :: u32 assume a: "a \<in> {a. unat a < compactRecordCount idx \<and> \<not> Deleted (compactRecord idx (uint a))}"
    then have "a = of_nat (unat a)" "unat a \<in> set (filter (\<lambda>i. \<not> Deleted (compactRecord idx (int i))) [0..<compactRecordCount idx])"
      by auto
    then show "a \<in> set (liveIDs idx)" unfolding liveIDs_def set_map by (rule image_eqI)
  qed
qed

lemma ranks_step:
  assumes "distinct order" "\<forall>a\<in>set order. unat a < n"
  shows "length (compactRanksFromOrder order n) = n \<and> (\<forall>pos < length order. compactRanksFromOrder order n ! unat (order ! pos) = of_nat pos)"
  using assms
proof (induction order rule: rev_induct)
  case Nil
  then show ?case by (simp add: compactRanksFromOrder_def)
next
  case (snoc a order)
  have step: "compactRanksFromOrder (order @ [a]) n = (compactRanksFromOrder order n)[unat a := of_nat (length order)]"
    using snoc.prems by (simp add: compactRanksFromOrder_def)
  have "unat a \<noteq> unat (order ! pos)" if "pos < length order" for pos
    using that snoc.prems(1) by (metis distinct_append distinct.simps(2) Int_iff empty_iff list.set_intros(1) nth_mem word_unat_eq_iff)
  then show ?case using snoc unfolding step by (auto simp: nth_append less_Suc_eq)
qed

lemma ordersLive_sorted:
  assumes "keyed lt key" "inj key" "compactRecordCount idx \<le> 2 ^ 32" "\<And>a. liveRecord idx a \<Longrightarrow> key a = key' a"
  shows "ordersLive idx key' (withRanks idx (sortSlice lt (liveIDs idx)))"
proof -
  note [simp] = keyed.set_sortSlice [OF assms(1)] keyed.distinct_sortSlice [OF assms(1)]
  have live: "set (liveIDs idx) = {a. liveRecord idx a}" "\<forall>a\<in>set (sortSlice lt (liveIDs idx)). unat a < compactRecordCount idx"
    using liveIDs_facts [OF assms(3)] by (auto simp: liveRecord_def)
  have "inj_on key (set (liveIDs idx))" using assms(2) by (rule inj_on_subset) simp
  then have "sorted_wrt lt (sortSlice lt (liveIDs idx))"
    using keyed.sortSlice_sorted [OF assms(1)] liveIDs_facts(1) [OF assms(3)] by blast
  then have "sorted_wrt (\<lambda>a b. key' a < key' b) (sortSlice lt (liveIDs idx))"
    by (rule sorted_wrt_mono_rel [rotated]) (use live assms(4) keyed.lt_key [OF assms(1)] in auto)
  then show ?thesis
    using ranks_step [OF _ live(2)] live liveIDs_facts(1) [OF assms(3)] by (simp add: ordersLive_def withRanks_def)
qed

lemma keys_inj: "inj (\<lambda>a :: u32. (f a, a))" "inj (\<lambda>a :: u32. (f a, g a, a))" "inj (\<lambda>a :: u32. (f a, g a, h a, a))"
  by (auto intro: injI)

lemma column_at: "liveRecord idx a \<Longrightarrow> column idx z f ! unat a = f (unat a) (compactRecord idx (uint a))"
  by (simp add: column_def Let_def liveRecord_def)

definition lowerAt :: "(string \<Rightarrow> string) \<Rightarrow> Index \<Rightarrow> u32 \<Rightarrow> string" where
  "lowerAt toLower idx a = compactLowerNameOf toLower idx (unat a) (compactRecord idx (uint a))"

lemma lowers_at: "liveRecord idx a \<Longrightarrow> lowers toLower idx ! unat a = lowerAt toLower idx a"
  by (simp add: lowers_def lowerAt_def column_at)

text \<open>
  C13: The sort orders. Each order holds every record that is not deleted once and no other, in ascending order of the name,
  of the size (of a directory: the bytes below it), of the modification time from the latest with unknown times last, of
  the extension, or of the type with directories first; ties are broken by the lower-case name and then the record number.
  The rank table gives each record its position.
\<close>

theorem sort_orders_exact:
  fixes idx :: Index and toLower :: "string \<Rightarrow> string"
  defines "rec \<equiv> \<lambda>a :: u32. compactRecord idx (uint a)" and "low \<equiv> lowerAt toLower idx"
  assumes "compactRecordCount idx \<le> 2 ^ 32"
  shows "ordersLive idx (\<lambda>a. (low a, a)) (buildCompactNameOrderRank toLower idx) \<and>
    ordersLive idx (\<lambda>a. (sizeKey dirBytes (unat a) (rec a), low a, a)) (buildCompactSizeOrderRankWithDirBytes toLower idx dirBytes) \<and>
    ordersLive idx (\<lambda>a. (ModUnix (rec a) = 0, - ModUnix (rec a), low a, a)) (buildCompactModifiedOrderRank toLower idx) \<and>
    ordersLive idx (\<lambda>a. (compactRecordLowerExt toLower (rec a), low a, a)) (buildCompactExtensionOrderRank toLower idx) \<and>
    ordersLive idx (\<lambda>a. (compactRecordTypeRank (rec a), low a, a)) (buildCompactTypeOrderRank toLower idx)"
proof -
  note builders = buildCompactNameOrderRank_def buildCompactSizeOrderRankWithDirBytes_def buildCompactModifiedOrderRank_def
    buildCompactExtensionOrderRank_def buildCompactTypeOrderRank_def
  have none: "ordersLive idx key ([], [])" if "compactRecordCount idx = 0" for key :: "u32 \<Rightarrow> 'k :: linorder"
    using that by (simp add: ordersLive_def liveRecord_def)
  note at = column_at lowers_at rec_def low_def
  show ?thesis
  proof (intro conjI)
    show "ordersLive idx (\<lambda>a. (low a, a)) (buildCompactNameOrderRank toLower idx)"
      using ordersLive_sorted [OF byName.keyed_axioms keys_inj(1) assms(3)] by (simp add: builders none at)
    show "ordersLive idx (\<lambda>a. (sizeKey dirBytes (unat a) (rec a), low a, a)) (buildCompactSizeOrderRankWithDirBytes toLower idx dirBytes)"
      using ordersLive_sorted [OF bySize.keyed_axioms keys_inj(2) assms(3)] by (simp add: builders none at)
    show "ordersLive idx (\<lambda>a. (ModUnix (rec a) = 0, - ModUnix (rec a), low a, a)) (buildCompactModifiedOrderRank toLower idx)"
      using ordersLive_sorted [OF byModified.keyed_axioms keys_inj(3) assms(3)] by (simp add: builders none at)
    show "ordersLive idx (\<lambda>a. (compactRecordLowerExt toLower (rec a), low a, a)) (buildCompactExtensionOrderRank toLower idx)"
      using ordersLive_sorted [OF byExtension.keyed_axioms keys_inj(2) assms(3)] by (simp add: builders none at)
    show "ordersLive idx (\<lambda>a. (compactRecordTypeRank (rec a), low a, a)) (buildCompactTypeOrderRank toLower idx)"
      using ordersLive_sorted [OF byType.keyed_axioms keys_inj(2) assms(3)] by (simp add: builders none at)
  qed
qed

lemma example_count: "Paths.recordCount exampleIndex = 2"
  by (simp add: exampleIndex_def plainIndex_def compactRecordCount_def plain_def)

lemma example_lowerJoins: "lowerJoins exampleEnv"
proof -
  have "foldASCII backslash = backslash" by (simp add: foldASCII_def)
  then show ?thesis by (simp add: lowerJoins_def lowerKeeps_def exampleEnv_def joinPart_def lowerASCII_def)
qed

theorem sort_orders_exact_witness:
  "ordersLive (store exampleIndex) (\<lambda>a. (lowerAt lowerASCII (store exampleIndex) a, a)) (buildCompactNameOrderRank lowerASCII (store exampleIndex))"
  using sort_orders_exact [of "store exampleIndex"] example_count by simp

section \<open>The order by path\<close>

definition memoSound :: "goEnv \<Rightarrow> searchIndex \<Rightarrow> lowerMemo \<times> int \<Rightarrow> bool" where
  "memoSound env idx st \<longleftrightarrow>
    memoOk env idx (fst st) \<and> (\<forall>k < length (seenGen (fst st)). seenGen (fst st) ! k \<le> snd st)"

text \<open>What the comparison relies on: the parent chains end, the root is plain, and lower-casing works name by name.\<close>

definition plainPaths :: "goEnv \<Rightarrow> searchIndex \<Rightarrow> bool" where
  "plainPaths env idx \<longleftrightarrow> shallow idx \<and> plainRoot env idx \<and> lowerJoins env \<and> Paths.recordCount idx \<le> 2 ^ 32"

definition pathKey :: "goEnv \<Rightarrow> searchIndex \<Rightarrow> u32 \<Rightarrow> string \<times> u32" where
  "pathKey env idx a = (toLowerF env (reconstructCompactPath env idx (uint a)), a)"

lemma uint_inRange: "unat a < Paths.recordCount idx \<Longrightarrow> inRange idx (uint a)"
  by (metis inRange_def of_nat_less_iff of_nat_unat uint_ge_0)

lemma ensurePath_sound:
  assumes "plainPaths env idx" "memoSound env idx st" "unat a < Paths.recordCount idx"
  shows "memoSound env idx (ensurePath env idx a st) \<and> computedAt (fst (ensurePath env idx a st)) ! unat a \<and>
    (\<forall>k. computedAt (fst st) ! k \<longrightarrow> computedAt (fst (ensurePath env idx a st)) ! k)"
proof (cases "computedAt (fst st) ! unat a")
  case True
  with assms(2) show ?thesis by (cases st) (simp add: ensurePath_def)
next
  case False
  obtain m gen where st: "st = (m, gen)" by (cases st)
  have old: "memoOk env idx m" "\<forall>k < length (seenGen m). seenGen m ! k \<le> gen" using assms(2) by (simp_all add: memoSound_def st)
  have len: "length (computedAt m) = Paths.recordCount idx" "length (seenGen m) = Paths.recordCount idx" using old(1) by (simp_all add: memoOk_def)
  have "seenGen m ! nat k \<noteq> gen + 1" if "inRange idx k" for k
  proof -
    have "nat k < length (seenGen m)" using that len by (simp add: inRange_def nat_less_iff)
    with old(2) have "seenGen m ! nat k \<le> gen" by blast
    then show ?thesis by simp
  qed
  then have new: "memoOk env idx (reconstructLowerPathInto env idx (uint a) (gen + 1) m)"
      "computedAt (reconstructLowerPathInto env idx (uint a) (gen + 1) m) = (computedAt m)[unat a := True]"
    using lower_path_equivalent [of idx env m "uint a" "gen + 1"] assms(1,3) old(1) uint_inRange by (auto simp: plainPaths_def)
  have "\<forall>k < length (seenGen m). seenGen m ! k \<le> gen + 1" using old(2) by force
  then have "memoSound env idx (ensurePath env idx a st)"
    using new(1) lower_path_seen False by (simp add: memoSound_def ensurePath_def st)
  with new(2) False len assms(3) show ?thesis by (auto simp: ensurePath_def st nth_list_update)
qed

lemma memo_path:
  assumes "plainPaths env idx" "memoSound env idx st" "unat a < Paths.recordCount idx" "computedAt (fst st) ! unat a"
  shows "lowerPaths (fst st) ! unat a = fst (pathKey env idx a)"
proof -
  have "nat (uint a) = unat a" by simp
  then have "lowerPaths (fst st) ! unat a = toLowerF env (fullPath idx (uint a))"
    using assms(2,4) uint_inRange [OF assms(3)] unfolding memoSound_def memoOk_def by metis
  moreover have "reconstructCompactPath env idx (uint a) = fullPath idx (uint a)"
    using reconstruct_exact [OF _ _ cacheOk_empty uint_inRange [OF assms(3)]] assms(1)
    by (simp add: plainPaths_def reconstructCompactPath_def)
  ultimately show ?thesis by (simp add: pathKey_def)
qed

lemma pathLess_sound:
  assumes "plainPaths env idx" "memoSound env idx st" "unat a < Paths.recordCount idx" "unat b < Paths.recordCount idx"
  shows "fst (pathLess env idx a b st) \<longleftrightarrow> pathKey env idx a < pathKey env idx b" "memoSound env idx (snd (pathLess env idx a b st))"
proof -
  let ?s = "ensurePath env idx b (ensurePath env idx a st)"
  have s: "memoSound env idx ?s" "computedAt (fst ?s) ! unat a" "computedAt (fst ?s) ! unat b"
    using ensurePath_sound [OF assms(1,2,3)] ensurePath_sound [OF assms(1) _ assms(4), of "ensurePath env idx a st"] by simp_all
  then show "memoSound env idx (snd (pathLess env idx a b st))" by (simp add: pathLess_def Let_def)
  show "fst (pathLess env idx a b st) \<longleftrightarrow> pathKey env idx a < pathKey env idx b"
    using memo_path [OF assms(1) s(1) assms(3) s(2)] memo_path [OF assms(1) s(1) assms(4) s(3)]
    by (auto simp: pathLess_def Let_def pathKey_def less_prod_simp)
qed

lemma deleted_of_record: "i < compactRecordCount idx \<Longrightarrow> compactDeletedAt idx i \<longleftrightarrow> Deleted (compactRecord idx (int i))"
  by (auto simp: compactDeletedAt_def compactRecord_def compactRecordCount_def recordAt_def packedAt_def packedLen_def zeroRecord_def
      split: option.splits)

text \<open>
  C14: The order by path. When every parent chain ends within 1024 steps, no record carries the last name of the index root
  and lower-casing works name by name, the order by path holds every record that is not deleted once, in ascending order of
  the lower-case path and then the record number, although the comparisons compute the paths while sorting.
\<close>

theorem path_order_exact:
  assumes "shallow idx" "plainRoot env idx" "lowerJoins env" "Paths.recordCount idx \<le> 2 ^ 32"
  shows "ordersLive (store idx) (\<lambda>a. (toLowerF env (reconstructCompactPath env idx (uint a)), a)) (buildCompactPathOrderRank env idx)"
proof (cases "Paths.recordCount idx = 0")
  case True
  then show ?thesis by (simp add: ordersLive_def liveRecord_def buildCompactPathOrderRank_def)
next
  case False
  have plain: "plainPaths env idx" using assms by (simp add: plainPaths_def)
  have live: "liveCompactIDs (store idx) (Paths.recordCount idx) = liveIDs (store idx)"
    unfolding liveCompactIDs_def liveIDs_def by (intro arg_cong [of _ _ "map of_nat"] filter_cong) (auto simp: deleted_of_record)
  have sound: "memoSound env idx (emptyMemo (Paths.recordCount idx), 0)"
    by (auto simp: memoSound_def memoOk_def emptyMemo_def inRange_def)
  have k: "keyed (\<lambda>a b. pathKey env idx a < pathKey env idx b) (pathKey env idx)" by unfold_locales simp
  have "buildCompactPathOrderRank env idx =
      withRanks (store idx) (sortSlice (\<lambda>a b. pathKey env idx a < pathKey env idx b) (liveIDs (store idx)))"
  proof -
    have inside: "set (liveIDs (store idx)) \<subseteq> {a. unat a < Paths.recordCount idx}"
      using liveIDs_facts(2) [OF assms(4)] by auto
    have "fst (sortSliceM (pathLess env idx) (liveIDs (store idx)) (emptyMemo (Paths.recordCount idx), 0)) =
        sortSlice (\<lambda>a b. pathKey env idx a < pathKey env idx b) (liveIDs (store idx))"
      using sortSliceM_exact [where sound = "memoSound env idx" and ltM = "pathLess env idx"
          and lt = "\<lambda>a b. pathKey env idx a < pathKey env idx b", OF _ sound inside] pathLess_sound [OF plain] by simp
    with False show ?thesis by (simp add: buildCompactPathOrderRank_def live)
  qed
  then show ?thesis
    using ordersLive_sorted [OF k _ assms(4), of "pathKey env idx"] by (simp add: inj_def pathKey_def [abs_def])
qed

theorem path_order_exact_witness:
  "ordersLive (store exampleIndex) (\<lambda>a. (toLowerF exampleEnv (reconstructCompactPath exampleEnv exampleIndex (uint a)), a))
    (buildCompactPathOrderRank exampleEnv exampleIndex)"
  using path_order_exact [OF exampleIndex_ok(1,2) example_lowerJoins] example_count by simp

end
