(* ===== verification/TopRank.thy ===== *)
theory TopRank
  imports SortOrders
begin

text \<open>
  The best records of a list (\<open>service_state.go\<close>: \<open>buildExtTopPostings\<close>, \<open>sortExtTopByRank\<close>, the heap \<open>extRankMaxHeap\<close>;
  \<open>planner_rank.go\<close>: \<open>candidateRanker\<close>, \<open>sortCandidateIDs\<close>, \<open>topCandidateIDsByRank\<close> with its parallel form and the heap
  \<open>candidateRankMaxHeap\<close>; \<open>global_rank.go\<close>: \<open>sortIDsByRank\<close>).

  A heap with the worst record kept on top, the serial and the parallel selection give the beginning of the sorted list. An
  index that is \<open>nil\<close> is \<open>None\<close>; the number of processors is an argument.
\<close>

section \<open>Top postings of an extension\<close>

record extRankItem =
  itemID :: u32
  itemRank :: u32

definition extRankLess :: "extRankItem \<Rightarrow> extRankItem \<Rightarrow> bool" where
  "extRankLess a b = (if itemRank a = itemRank b then itemID a < itemID b else itemRank a < itemRank b)"

definition sortExtTopByRank :: "u32 list \<Rightarrow> u32 list \<Rightarrow> u32 list" where
  "sortExtTopByRank ids ranks =
    sortSlice (\<lambda>a b. let ra = extRankOf a ranks; rb = extRankOf b ranks in if ra = rb then a < b else ra < rb) ids"

definition extTopOf :: "u32 list \<Rightarrow> nat \<Rightarrow> u32 list \<Rightarrow> u32 list" where
  "extTopOf ranks limit ids =
    (if length ids \<le> limit then sortExtTopByRank ids ranks
     else
       let h = topItems extRankLess limit (map (\<lambda>rid. \<lparr>itemID = rid, itemRank = extRankOf rid ranks\<rparr>) ids)
       in sortExtTopByRank (map itemID h) ranks)"

definition buildExtTopPostingsMin :: "(string \<rightharpoonup> u32 list) \<Rightarrow> u32 list \<Rightarrow> int \<Rightarrow> int \<Rightarrow> (string \<rightharpoonup> u32 list)" where
  "buildExtTopPostingsMin ext ranks limit minIDs =
    (if ext = Map.empty \<or> limit \<le> 0 then Map.empty
     else
       let m = (if minIDs \<le> 0 then 1 else minIDs)
       in (\<lambda>key. case ext key of None \<Rightarrow> None | Some ids \<Rightarrow> if int (length ids) < m then None else Some (extTopOf ranks (nat limit) ids)))"

definition buildExtTopPostings :: "(string \<rightharpoonup> u32 list) \<Rightarrow> u32 list \<Rightarrow> int \<Rightarrow> (string \<rightharpoonup> u32 list)" where
  "buildExtTopPostings ext ranks limit = buildExtTopPostingsMin ext ranks limit 1"

interpretation byExtRank: keyed extRankLess "\<lambda>a. (itemRank a, itemID a)"
  by unfold_locales (auto simp: extRankLess_def less_prod_simp)

interpretation byExtTop: keyed "\<lambda>a b. let ra = extRankOf a ranks; rb = extRankOf b ranks in if ra = rb then a < b else ra < rb"
    "\<lambda>a. (extRankOf a ranks, a)" for ranks
  by unfold_locales (auto simp: Let_def less_prod_simp)

definition extKey :: "u32 list \<Rightarrow> u32 \<Rightarrow> u32 \<times> u32" where
  "extKey ranks a = (extRankOf a ranks, a)"

lemma extTopOf_exact:
  assumes "0 < limit" "distinct ids"
  shows "extTopOf ranks limit ids = take limit (sort_key (extKey ranks) ids)"
proof (cases "length ids \<le> limit")
  case True
  then show ?thesis by (simp add: extTopOf_def sortExtTopByRank_def byExtTop.sortSlice_key extKey_def [abs_def])
next
  case False
  have lt: "(\<lambda>a b. extRankLess \<lparr>itemID = a, itemRank = extRankOf a ranks\<rparr> \<lparr>itemID = b, itemRank = extRankOf b ranks\<rparr>) =
      (\<lambda>a b. let ra = extRankOf a ranks; rb = extRankOf b ranks in if ra = rb then a < b else ra < rb)"
    by (intro HOL.ext) (simp add: extRankLess_def Let_def)
  have "inj_on (\<lambda>a. (extRankOf a ranks, a)) (set ids)" by (auto intro: inj_onI)
  from byExtTop.topItems_sorted [OF assms(1) this assms(2)] show ?thesis
    using False assms(1)
    by (simp add: extTopOf_def Let_def sortExtTopByRank_def topItems_map lt [unfolded Let_def] byExtTop.sortSlice_key [unfolded Let_def]
        extKey_def [abs_def] comp_def)
qed

section \<open>Candidates\<close>

text \<open>The parts of an index that a search reads besides the records.\<close>

record scanIndex =
  sidx :: searchIndex
  CompactNameOrder :: "int list option"
  SubtreeBytes :: "u64 list"
  SizeOrder :: "u32 list"
  ModOrder :: "u32 list"
  ExtOrder :: "u32 list"
  TypeOrder :: "u32 list"
  PathOrder :: "u32 list"
  mmapHasSize :: bool
  mmapHasModUnix :: bool
  CompactAttrs :: bool
  dirSizeDelta :: "int \<rightharpoonup> int"

definition nameOrder :: "scanIndex \<Rightarrow> int list" where
  "nameOrder idx = (case CompactNameOrder idx of None \<Rightarrow> [] | Some order \<Rightarrow> order)"

definition candidateRanker :: "scanIndex \<Rightarrow> u32 list \<Rightarrow> int \<Rightarrow> int" where
  "candidateRanker idx cachedRanks =
    (let n = Paths.recordCount (sidx idx); order = nameOrder idx;
         ranks = (if length cachedRanks < n \<and> order \<noteq> []
           then foldl (\<lambda>rs (pos, i). if i \<ge> 0 \<and> i < int n then rs[nat i := int pos] else rs) (map int [0..<n]) (zip [0..<length order] order)
           else [])
     in (\<lambda>i. if i < 0 \<or> i \<ge> int n then int n + i
            else if length cachedRanks \<ge> n then uint (cachedRanks ! nat i)
            else if ranks = [] then i else ranks ! nat i))"

definition sortIDsByRank :: "int list \<Rightarrow> (int \<Rightarrow> int) \<Rightarrow> int list" where
  "sortIDsByRank ids rankOf = sortSlice (\<lambda>a b. if rankOf a \<noteq> rankOf b then rankOf a < rankOf b else a < b) ids"

definition sortCandidateIDs :: "int list \<Rightarrow> scanIndex option \<Rightarrow> u32 list \<Rightarrow> int list" where
  "sortCandidateIDs ids idx cachedRanks =
    (case idx of
       None \<Rightarrow> sortSlice (<) ids
     | Some idx \<Rightarrow> let rankOf = candidateRanker idx cachedRanks in sortSlice (\<lambda>a b. rankOf a < rankOf b) ids)"

record candidateRankItem =
  candID :: int
  candRank :: int

definition candLess :: "candidateRankItem \<Rightarrow> candidateRankItem \<Rightarrow> bool" where
  "candLess a b \<longleftrightarrow> candRank a < candRank b"

definition topCandidateRankItems :: "int list \<Rightarrow> nat \<Rightarrow> (int \<Rightarrow> int) \<Rightarrow> candidateRankItem list" where
  "topCandidateRankItems ids limit rankOf = topItems candLess limit (map (\<lambda>i. \<lparr>candID = i, candRank = rankOf i\<rparr>) ids)"

definition topCandidateIDsByRankSerial :: "int list \<Rightarrow> nat \<Rightarrow> (int \<Rightarrow> int) \<Rightarrow> int list" where
  "topCandidateIDsByRankSerial ids limit rankOf = sortIDsByRank (map candID (topCandidateRankItems ids limit rankOf)) rankOf"

definition serviceRankParallelMinIDs :: nat where
  "serviceRankParallelMinIDs = 500000"

text \<open>The parts of the list the workers get; the loop stops at the first empty one.\<close>

definition workerParts :: "nat \<Rightarrow> nat \<Rightarrow> 'a list \<Rightarrow> 'a list list" where
  "workerParts workers chunk ids =
    map (\<lambda>w. take (min (length ids) (w * chunk + chunk) - w * chunk) (drop (w * chunk) ids))
      (takeWhile (\<lambda>w. \<not> w * chunk \<ge> min (length ids) (w * chunk + chunk)) [0..<workers])"

definition topCandidateIDsByRankParallel :: "nat \<Rightarrow> int list \<Rightarrow> nat \<Rightarrow> (int \<Rightarrow> int) \<Rightarrow> int list" where
  "topCandidateIDsByRankParallel procs ids limit rankOf =
    (let workers = min procs (max 2 (length ids div serviceRankParallelMinIDs))
     in if workers \<le> 1 then topCandidateIDsByRankSerial ids limit rankOf
        else
          let chunk = (length ids + workers - 1) div workers;
              partials = map (\<lambda>part. topCandidateRankItems part limit rankOf) (workerParts workers chunk ids)
          in sortIDsByRank (map candID (topItems candLess limit (concat partials))) rankOf)"

definition topCandidateIDsByRank :: "nat \<Rightarrow> int list \<Rightarrow> int \<Rightarrow> scanIndex option \<Rightarrow> u32 list \<Rightarrow> int list" where
  "topCandidateIDsByRank procs ids limit idx cachedRanks =
    (if limit \<le> 0 \<or> int (length ids) \<le> limit then sortCandidateIDs ids idx cachedRanks
     else case idx of
       None \<Rightarrow> take (nat limit) (sortSlice (<) ids)
     | Some idx \<Rightarrow>
         let rankOf = candidateRanker idx cachedRanks
         in if length ids \<ge> serviceRankParallelMinIDs \<and> limit \<le> 256 \<and> procs > 1
            then topCandidateIDsByRankParallel procs ids (nat limit) rankOf
            else
              let h = topItems candLess (nat limit) (map (\<lambda>i. \<lparr>candID = i, candRank = rankOf i\<rparr>) ids)
              in sortIDsByRank (map candID h) rankOf)"


interpretation byCandidate: keyed "\<lambda>a b. rankOf a < rankOf b" "rankOf" for rankOf :: "int \<Rightarrow> int"
  by unfold_locales simp

interpretation byRankID: keyed "\<lambda>a b. if rankOf a \<noteq> rankOf b then rankOf a < rankOf b else a < b" "\<lambda>a. (rankOf a, a)"
  for rankOf :: "int \<Rightarrow> int"
  by unfold_locales (auto simp: less_prod_simp)

lemma sort_ints: "sortSlice (<) ids = sort_key id ids" for ids :: "int list"
  using byCandidate.sortSlice_key [of "\<lambda>a. a" ids] by (simp add: id_def)

text \<open>When ranks are distinct, the record number never breaks a tie.\<close>

lemma sortIDsByRank_key:
  assumes "inj_on rankOf (set ids)" "distinct ids"
  shows "sortIDsByRank ids rankOf = sort_key rankOf ids"
proof -
  have "sort_key (\<lambda>a. (rankOf a, a)) ids = sort_key rankOf ids"
  proof (rule byRankID.sort_unique)
    have "sorted_wrt (\<lambda>a b. rankOf a < rankOf b) (sort_key rankOf ids)"
      using byCandidate.sortSlice_sorted [OF assms] by (simp add: byCandidate.sortSlice_key)
    then have "sorted_wrt (\<lambda>a b. (rankOf a, a) \<le> (rankOf b, b)) (sort_key rankOf ids)"
      by (rule sorted_wrt_mono_rel [rotated]) simp
    then show "sorted (map (\<lambda>a. (rankOf a, a)) (sort_key rankOf ids))"
      by (simp add: sorted_map)
  qed (use assms in \<open>auto intro: inj_onI\<close>)
  then show ?thesis by (simp add: sortIDsByRank_def byRankID.sortSlice_key)
qed

lemma topCandidates_key:
  assumes "0 < limit" "inj_on rankOf (set ids)" "distinct ids"
  shows "sortIDsByRank (map candID (topItems candLess limit (map (\<lambda>i. \<lparr>candID = i, candRank = rankOf i\<rparr>) ids))) rankOf =
    take limit (sort_key rankOf ids)"
proof -
  let ?h = "topItems (\<lambda>a b. rankOf a < rankOf b) limit ids"
  have m: "mset ?h = mset (take limit (sort_key rankOf ids))" using byCandidate.topItems_ok [OF assms] by simp
  have "inj_on rankOf (set ?h)" "distinct ?h"
    using byCandidate.sort_prefix [OF assms(2,3), of limit] m mset_eq_setD [OF m] mset_eq_imp_distinct_iff [OF m] by (simp_all add: distinct_map)
  from sortIDsByRank_key [OF this] byCandidate.topItems_sorted [OF assms] show ?thesis
    using assms(1) by (simp add: topItems_map candLess_def comp_def byCandidate.sortSlice_key)
qed

lemma concat_workerParts:
  "chunk > 0 \<Longrightarrow> concat (workerParts workers chunk ids) = take (workers * chunk) ids"
proof (induction workers)
  case (Suc n)
  let ?stop = "\<lambda>w. w * chunk \<ge> min (length ids) (w * chunk + chunk)"
  have stop: "?stop w \<longleftrightarrow> length ids \<le> w * chunk" for w using Suc.prems by auto
  show ?case
  proof (cases "length ids \<le> n * chunk")
    case True
    have "takeWhile (\<lambda>w. \<not> ?stop w) [0..<Suc n] = takeWhile (\<lambda>w. \<not> ?stop w) [0..<n]"
      using True stop [of n] by (simp add: takeWhile_tail)
    then have "workerParts (Suc n) chunk ids = workerParts n chunk ids" by (simp only: workerParts_def)
    with Suc True show ?thesis by simp
  next
    case False
    have "length ids > w * chunk" if "w \<le> n" for w
      using False mult_le_mono1 [OF that, of chunk] by linarith
    then have "\<not> ?stop w" if "w \<le> n" for w using that stop [of w] by (simp add: linorder_not_le)
    then have all: "\<forall>w\<in>set [0..<n]. \<not> ?stop w" "\<not> ?stop n" by simp_all
    have "takeWhile P [0..<Suc n] = [0..<n] @ [n]" "takeWhile P [0..<n] = [0..<n]" if "\<forall>w\<in>set [0..<n]. P w" "P n" for P
      using that by (simp_all add: takeWhile_append2 takeWhile_eq_all_conv [THEN iffD2])
    note this [OF all]
    then have "workerParts (Suc n) chunk ids = workerParts n chunk ids @ [take (min (length ids) (n * chunk + chunk) - n * chunk) (drop (n * chunk) ids)]"
      by (simp only: workerParts_def map_append list.map)
    moreover have "take (min (length ids) (n * chunk + chunk) - n * chunk) (drop (n * chunk) ids) = take chunk (drop (n * chunk) ids)"
      by (auto simp: min_def)
    ultimately show ?thesis using Suc by (simp add: take_add add.commute [of chunk])
  qed
qed (simp add: workerParts_def)

lemma parallel_key:
  assumes "0 < limit" "inj_on rankOf (set ids)" "distinct ids" "ids \<noteq> []" "0 < procs"
  shows "topCandidateIDsByRankParallel procs ids limit rankOf = take limit (sort_key rankOf ids)"
proof -
  define workers where "workers = min procs (max 2 (length ids div serviceRankParallelMinIDs))"
  define chunk where "chunk = (length ids + workers - 1) div workers"
  show ?thesis
  proof (cases "workers \<le> 1")
    case True
    then show ?thesis
      using topCandidates_key [OF assms(1-3)]
      by (simp add: topCandidateIDsByRankParallel_def Let_def workers_def [symmetric] topCandidateIDsByRankSerial_def topCandidateRankItems_def)
  next
    case False
    have "length ids \<le> workers * chunk"
    proof -
      have "length ids + workers - 1 < workers * chunk + workers"
        unfolding chunk_def using dividend_less_times_div [of workers "length ids + workers - 1"] False by simp
      then show ?thesis using False by simp
    qed
    moreover from this have "0 < chunk" using assms(4) by (cases chunk) simp_all
    ultimately have parts: "concat (workerParts workers chunk ids) = ids" by (simp add: concat_workerParts)
    let ?ps = "workerParts workers chunk ids" and ?lt = "\<lambda>a b. rankOf a < rankOf b"
    let ?ys = "concat (map (topItems ?lt limit) ?ps)"
    have items: "topCandidateRankItems p limit rankOf = map (\<lambda>i. \<lparr>candID = i, candRank = rankOf i\<rparr>) (topItems ?lt limit p)" for p
      using assms(1) by (simp add: topCandidateRankItems_def topItems_map candLess_def)
    have "set ?ys \<subseteq> set ids \<and> distinct ?ys"
    proof -
      have p: "set (topItems ?lt limit p) \<subseteq> set p \<and> distinct (topItems ?lt limit p)" if "p \<in> set ?ps" for p
      proof -
        have "inj_on rankOf (set p)" "distinct p"
          using that assms(2,3) parts by (metis UN_upper inj_on_subset set_concat, metis distinct_concat_iff)
        from byCandidate.topItems_ok [OF assms(1) this] \<open>distinct p\<close> show ?thesis
          by (metis distinct_sort distinct_take mset_eq_imp_distinct_iff mset_eq_setD set_sort set_take_subset)
      qed
      then have "distinct ?ys" using assms(3) parts by (intro distinct_concat_parts) simp_all
      moreover have "set ?ys \<subseteq> set (concat ?ps)" using p by fastforce
      ultimately show ?thesis using parts by simp
    qed
    then have ys: "inj_on rankOf (set ?ys)" "distinct ?ys" using assms(2) by (auto intro: inj_on_subset)
    have "topCandidateIDsByRankParallel procs ids limit rankOf =
        sortIDsByRank (map candID (topItems candLess limit (map (\<lambda>i. \<lparr>candID = i, candRank = rankOf i\<rparr>) ?ys))) rankOf"
      using False
      by (simp add: topCandidateIDsByRankParallel_def Let_def workers_def [symmetric] chunk_def items map_concat comp_def)
    also have "\<dots> = take limit (sort_key rankOf ?ys)" by (rule topCandidates_key [OF assms(1) ys])
    also have "\<dots> = take limit (sort_key rankOf ids)"
      using byCandidate.topItems_parallel [OF assms(1-3) parts] byCandidate.topItems_sorted [OF assms(1) ys]
      by (simp add: byCandidate.sortSlice_key)
    finally show ?thesis .
  qed
qed

section \<open>Selections are prefixes\<close>

text \<open>
  The top postings of an extension. For a positive limit, the kept records of an extension with enough of them are the
  first ones in ascending order of rank and record number, at most as many as the limit; other extensions keep none.
\<close>

theorem ext_top_exact:
  assumes "0 < limit" "\<forall>key ids. ext key = Some ids \<longrightarrow> distinct ids"
  shows "buildExtTopPostingsMin ext ranks limit minIDs key =
    (case ext key of
       None \<Rightarrow> None
     | Some ids \<Rightarrow>
         if int (length ids) < max 1 minIDs then None
         else Some (take (nat limit) (sort_key (\<lambda>a. (extRankOf a ranks, a)) ids)))"
  using assms by (auto simp: buildExtTopPostingsMin_def Let_def extTopOf_exact extKey_def [abs_def] split: option.splits)

theorem ext_top_exact_witness:
  "buildExtTopPostingsMin [''txt'' \<mapsto> [0, 1, 2]] [5, 3, 4] 2 1 ''txt'' = Some [1, 2]"
proof -
  have "\<forall>key ids. [''txt'' \<mapsto> [0, 1, 2 :: u32]] key = Some ids \<longrightarrow> distinct ids" by simp
  from ext_top_exact [OF _ this, of 2 "[5, 3, 4]" 1 "''txt''"] show ?thesis by (simp add: extRankOf_def fun_upd_same del: fun_upd_apply)
qed

text \<open>
  C15: The best candidates. When the ranks of the candidates are distinct, the selection is the beginning of the candidates
  sorted by rank, all of them when there is no limit, for any number of processors: the heap, the parallel selection and
  the plain sort agree.
\<close>

theorem top_candidates_exact:
  fixes idx :: "scanIndex option" and cachedRanks :: "u32 list"
  defines "rank \<equiv> (case idx of None \<Rightarrow> id | Some idx \<Rightarrow> candidateRanker idx cachedRanks)"
  assumes "inj_on rank (set ids)" "distinct ids" "0 < procs"
  shows "topCandidateIDsByRank procs ids limit idx cachedRanks =
    (if limit \<le> 0 then sort_key rank ids else take (nat limit) (sort_key rank ids))"
proof (cases "limit \<le> 0 \<or> int (length ids) \<le> limit")
  case True
  moreover have "sortCandidateIDs ids idx cachedRanks = sort_key rank ids"
    by (simp add: sortCandidateIDs_def rank_def sort_ints byCandidate.sortSlice_key Let_def id_def split: option.splits)
  ultimately show ?thesis by (auto simp: topCandidateIDsByRank_def)
next
  case False
  then have "0 < nat limit" "ids \<noteq> []" by auto
  then show ?thesis
    using False topCandidates_key [of "nat limit" rank ids] parallel_key [of "nat limit" rank ids procs] assms(2-4)
    by (auto simp: topCandidateIDsByRank_def rank_def sort_ints Let_def split: option.splits)
qed

theorem top_candidates_exact_witness:
  "topCandidateIDsByRank 4 [3, 1, 2] 2 None [] = [1, 2]"
  using top_candidates_exact [where idx = None and cachedRanks = "[]" and ids = "[3, 1, 2]" and procs = 4 and limit = 2] by simp

end
