(* ===== verification/Search.thy ===== *)
theory Search
  imports TopRank IterCombinators
begin

text \<open>
  Searching the records of one index (\<open>search_compact.go\<close>, \<open>query_parse.go\<close>, \<open>postings.go\<close>, \<open>planner_component.go\<close>).

  A search parses the query, checks that the index has the data the filters need, chooses an order or a list of candidates,
  and scans it: hidden and deleted records are skipped, two prechecks on the record avoid building its path, and the entry is
  matched. The polling of the deadline and of the cancellation callback is an argument, the answer of the poll at each
  position; candidates come from an argument too. An entry's lower-case copies and its source are left out. \<open>SearchExact\<close> holds
  what the search returns.
\<close>

section \<open>Orders and capabilities\<close>

definition compactOrderLen :: "int list option \<Rightarrow> nat \<Rightarrow> nat" where
  "compactOrderLen order n = (case order of None \<Rightarrow> n | Some xs \<Rightarrow> length xs)"

definition compactOrderAt :: "int list option \<Rightarrow> nat \<Rightarrow> int" where
  "compactOrderAt order pos = (case order of None \<Rightarrow> int pos | Some xs \<Rightarrow> xs ! pos)"

definition uint32OrderToInts :: "u32 list \<Rightarrow> int list option" where
  "uint32OrderToInts order = (if order = [] then None else Some (map uint order))"

abbreviation indexStore :: "scanIndex \<Rightarrow> Index" where
  "indexStore idx \<equiv> store (sidx idx)"

definition compactHasSize :: "scanIndex \<Rightarrow> bool" where
  "compactHasSize idx =
    (if MMapRecords (indexStore idx) \<noteq> None then mmapHasSize idx
     else case PackedRecs (indexStore idx) of
       Some p \<Rightarrow> Size32 p \<noteq> []
     | None \<Rightarrow> list_ex (\<lambda>r. Size r \<noteq> 0) (plain (indexStore idx)))"

definition compactHasModTime :: "scanIndex \<Rightarrow> bool" where
  "compactHasModTime idx =
    (if MMapRecords (indexStore idx) \<noteq> None then mmapHasModUnix idx
     else case PackedRecs (indexStore idx) of
       Some p \<Rightarrow> ModUnixs p \<noteq> []
     | None \<Rightarrow> list_ex (\<lambda>r. ModUnix r \<noteq> 0) (plain (indexStore idx)))"

definition buildCompactSizeOrderRank :: "(string \<Rightarrow> string) \<Rightarrow> scanIndex \<Rightarrow> u32 list \<times> u32 list" where
  "buildCompactSizeOrderRank toLower idx = buildCompactSizeOrderRankWithDirBytes toLower (indexStore idx) (SubtreeBytes idx)"

text \<open>The orders of a volume without a query index.\<close>

definition sizeOrderForRank :: "goEnv \<Rightarrow> scanIndex \<Rightarrow> u32 list" where
  "sizeOrderForRank env idx =
    (if SizeOrder idx \<noteq> [] then SizeOrder idx else if \<not> compactHasSize idx then []
     else fst (buildCompactSizeOrderRank (toLowerF env) idx))"

definition modifiedOrderForRank :: "goEnv \<Rightarrow> scanIndex \<Rightarrow> u32 list" where
  "modifiedOrderForRank env idx =
    (if ModOrder idx \<noteq> [] then ModOrder idx else if \<not> compactHasModTime idx then []
     else fst (buildCompactModifiedOrderRank (toLowerF env) (indexStore idx)))"

definition extensionOrderForRank :: "goEnv \<Rightarrow> scanIndex \<Rightarrow> u32 list" where
  "extensionOrderForRank env idx =
    (if ExtOrder idx \<noteq> [] then ExtOrder idx else fst (buildCompactExtensionOrderRank (toLowerF env) (indexStore idx)))"

definition typeOrderForRank :: "goEnv \<Rightarrow> scanIndex \<Rightarrow> u32 list" where
  "typeOrderForRank env idx =
    (if TypeOrder idx \<noteq> [] then TypeOrder idx else fst (buildCompactTypeOrderRank (toLowerF env) (indexStore idx)))"

definition pathOrderForRank :: "goEnv \<Rightarrow> scanIndex \<Rightarrow> u32 list" where
  "pathOrderForRank env idx =
    (if PathOrder idx \<noteq> [] then PathOrder idx else fst (buildCompactPathOrderRank env (sidx idx)))"

definition scanOrder :: "goEnv \<Rightarrow> scanIndex \<Rightarrow> string \<Rightarrow> int list option" where
  "scanOrder env idx sortColumn =
    (if sortColumn = ''size'' then uint32OrderToInts (sizeOrderForRank env idx)
     else if sortColumn = ''modified'' then uint32OrderToInts (modifiedOrderForRank env idx)
     else if sortColumn = ''extension'' then uint32OrderToInts (extensionOrderForRank env idx)
     else if sortColumn = ''type'' then uint32OrderToInts (typeOrderForRank env idx)
     else if sortColumn = ''path'' then uint32OrderToInts (pathOrderForRank env idx)
     else CompactNameOrder idx)"

datatype searchError = BadQuery queryError | NeedsSizes | NeedsModTimes | NeedsAttributes | QueryCanceled

function queryNeedsSizeOrMod :: "parsedQuery \<Rightarrow> bool \<times> bool" where
  "queryNeedsSizeOrMod (ParsedQuery q ors nots) =
    (let subs = map queryNeedsSizeOrMod (concat ors) @ map queryNeedsSizeOrMod nots
     in (SizeFilters q \<noteq> [] \<or> SortColumn q = ''size'' \<or> list_ex fst subs,
         SortColumn q = ''modified'' \<or> DateFilters q \<noteq> [] \<or> HasModAfter q \<or> list_ex snd subs))"
  by pat_completeness auto
termination
  by (relation "measure size") (auto simp: less_Suc_eq_le trans_le_add1 trans_le_add2 size_list_estimation')

function queryNeedsAttrs :: "parsedQuery \<Rightarrow> bool" where
  "queryNeedsAttrs (ParsedQuery q ors nots) \<longleftrightarrow>
    AttrFilters q \<noteq> [] \<or> list_ex (list_ex queryNeedsAttrs) ors \<or> list_ex queryNeedsAttrs nots"
  by pat_completeness auto
termination
  by (relation "measure size") (auto simp: less_Suc_eq_le trans_le_add1 trans_le_add2 size_list_estimation')

function queryHasNonASCIIPlainTerm :: "parsedQuery \<Rightarrow> bool" where
  "queryHasNonASCIIPlainTerm (ParsedQuery q ors nots) \<longleftrightarrow>
    list_ex (\<lambda>t. \<not> isASCII t) (Terms q) \<or> list_ex (list_ex queryHasNonASCIIPlainTerm) ors \<or> list_ex queryHasNonASCIIPlainTerm nots"
  by pat_completeness auto
termination
  by (relation "measure size") (auto simp: less_Suc_eq_le trans_le_add1 trans_le_add2 size_list_estimation')

definition checkQueryCapabilities :: "parsedQuery \<Rightarrow> scanIndex \<Rightarrow> searchError option" where
  "checkQueryCapabilities pq idx =
    (let (needsSize, needsMod) = queryNeedsSizeOrMod pq
     in if needsSize \<and> \<not> compactHasSize idx then Some NeedsSizes
        else if needsMod \<and> \<not> compactHasModTime idx then Some NeedsModTimes
        else if queryNeedsAttrs pq \<and> \<not> CompactAttrs idx then Some NeedsAttributes
        else None)"

definition dropSatisfiedVolumeTerms :: "goEnv \<Rightarrow> string \<Rightarrow> parsedQuery \<Rightarrow> parsedQuery" where
  "dropSatisfiedVolumeTerms env vol pq =
    (if vol = [] \<or> Terms (qf pq) = [] then pq
     else upd (\<lambda>q. q\<lparr>Terms := filter (\<lambda>t. \<not> (isVolumeQueryTerm t \<and> equalFold env t vol)) (Terms q)\<rparr>) pq)"

definition normalizedLimit :: "int \<Rightarrow> bool \<Rightarrow> int" where
  "normalizedLimit limit countOnly =
    (if limit \<le> 0 \<and> \<not> countOnly then 100 else if limit \<le> 0 \<and> countOnly then 0 else limit)"

definition countNonVolumeTerms :: "string list \<Rightarrow> nat" where
  "countNonVolumeTerms ts = length (filter (\<lambda>t. \<not> isVolumeQueryTerm t) ts)"

definition firstNonEmpty :: "string list \<Rightarrow> string" where
  "firstNonEmpty values = (case dropWhile (\<lambda>v. v = []) values of [] \<Rightarrow> [] | v # _ \<Rightarrow> v)"

text \<open>The records below the preferred directory come first.\<close>

definition biasLess :: "goEnv \<Rightarrow> searchIndex \<Rightarrow> string \<Rightarrow> int \<Rightarrow> int \<Rightarrow> (int \<Rightarrow> string option) \<Rightarrow> bool \<times> (int \<Rightarrow> string option)" where
  "biasLess env idx root i j cache =
    (case reconstructCompactPathCached env idx i cache of (pi, cache1) \<Rightarrow>
       case reconstructCompactPathCached env idx j cache1 of (pj, cache2) \<Rightarrow>
         (pathUnder env pi root \<and> \<not> pathUnder env pj root, cache2))"

definition biasOrderCompact :: "goEnv \<Rightarrow> searchIndex \<Rightarrow> int list option \<Rightarrow> string \<Rightarrow> int list option" where
  "biasOrderCompact env idx order root =
    (case order of
       None \<Rightarrow> None
     | Some xs \<Rightarrow> if root = [] \<or> xs = [] then Some xs else Some (fst (sortSliceM (biasLess env idx root) xs Map.empty)))"

section \<open>Prechecks\<close>

fun foldAt :: "string \<Rightarrow> string \<Rightarrow> bool" where
  "foldAt [] s = True"
| "foldAt (t # ts) [] = False"
| "foldAt (t # ts) (c # s) \<longleftrightarrow> foldASCII c = foldASCII t \<and> foldAt ts s"

definition containsFoldASCII :: "string \<Rightarrow> string \<Rightarrow> bool" where
  "containsFoldASCII s trm =
    (if trm = [] then True else if length trm > length s then False
     else list_ex (\<lambda>i. foldAt trm (drop i s)) [0..<length s - length trm + 1])"

fun pathTermClimb :: "nat \<Rightarrow> searchIndex \<Rightarrow> string \<Rightarrow> int \<Rightarrow> bool" where
  "pathTermClimb 0 idx trm cur = False"
| "pathTermClimb (Suc depth) idx trm cur =
    (if \<not> inRange idx cur then False
     else if containsFoldASCII (compactNameAt idx cur) trm then True
     else
       let r = recordOf idx cur
       in if Parent r < 0 \<or> Parent r = cur then False else pathTermClimb depth idx trm (Parent r))"

definition compactPathContainsTerm :: "searchIndex \<Rightarrow> int \<Rightarrow> string \<Rightarrow> bool" where
  "compactPathContainsTerm idx i trm =
    (if Volume idx \<noteq> [] \<and> containsFoldASCII (Volume idx) trm then True else pathTermClimb 1024 idx trm i)"

definition compactPathContainsAll :: "searchIndex \<Rightarrow> int \<Rightarrow> string list \<Rightarrow> bool" where
  "compactPathContainsAll idx i ts = list_all (compactPathContainsTerm idx i) ts"

definition queryPathTermPrecheckSafe :: "parsedQuery \<Rightarrow> bool" where
  "queryPathTermPrecheckSafe pq \<longleftrightarrow> MatchPath (qf pq) \<and> Terms (qf pq) \<noteq> [] \<and> \<not> queryHasNonASCIIPlainTerm pq"

definition compactRecordPrecheck :: "goEnv \<Rightarrow> CompactRecord \<Rightarrow> queryFields \<Rightarrow> bool \<Rightarrow> bool" where
  "compactRecordPrecheck env r q matchPath =
    (let cmpName = normalizeCase env (Name r) (CaseSensitive q)
     in \<not> (\<not> matchPath \<and> \<not> containsAll cmpName (Terms q)) \<and>
        \<not> (QType q = ''file'' \<and> isDirMode (Mode r)) \<and>
        \<not> (QType q = ''dir'' \<and> \<not> isDirMode (Mode r)) \<and>
        attrFiltersMatch (Mode r) (AttrFilters q) \<and>
        (HasModAfter q \<longrightarrow> ModUnix r \<noteq> 0 \<and> ModUnix r > ModifiedAfter q) \<and>
        list_all (extMatches env (Name r) (CaseSensitive q)) (Exts q) \<and>
        list_all (\<lambda>glob. globMatch env glob cmpName) (Globs q))"

section \<open>Scanning\<close>

definition effectiveSize :: "scanIndex \<Rightarrow> int \<Rightarrow> CompactRecord \<Rightarrow> int" where
  "effectiveSize idx i r =
    (if isDirMode (Mode r) \<and> 0 \<le> i \<and> i < int (length (SubtreeBytes idx))
     then max 0 (wrap64 (sint (SubtreeBytes idx ! nat i) + (case dirSizeDelta idx i of None \<Rightarrow> 0 | Some d \<Rightarrow> d)))
     else Size r)"

definition entryOf :: "scanIndex \<Rightarrow> int \<Rightarrow> CompactRecord \<Rightarrow> string \<Rightarrow> Entry" where
  "entryOf idx i r path = \<lparr>ePath = path, eName = Name r, eMode = Mode r, eSize = effectiveSize idx i r, eModUnix = ModUnix r\<rparr>"

definition compactEntryFromRecord ::
  "goEnv \<Rightarrow> scanIndex \<Rightarrow> int \<Rightarrow> CompactRecord \<Rightarrow> (int \<Rightarrow> string option) \<Rightarrow> Entry \<times> (int \<Rightarrow> string option)" where
  "compactEntryFromRecord env idx i r cache =
    (case reconstructCompactPathCached env (sidx idx) i cache of (path, cache') \<Rightarrow> (entryOf idx i r path, cache'))"

definition compactCandidateCanSkipEntryMatches :: "parsedQuery \<Rightarrow> bool \<Rightarrow> bool" where
  "compactCandidateCanSkipEntryMatches pq usedCandidates =
    (let q = qf pq
     in if \<not> usedCandidates then False
        else if Under q \<noteq> [] \<or> Exists q \<or> Dirs q \<noteq> [] \<or> Regexps q \<noteq> [] \<or> queryFields.Parents q \<noteq> [] \<or> SizeFilters q \<noteq> [] \<or>
          DateFilters q \<noteq> [] \<or> AttrFilters q \<noteq> [] \<or> OrGroups pq \<noteq> [] \<or> NotGroups pq \<noteq> [] then False
        else if Terms q = [] then Globs q = [] \<and> QType q = [] \<and> \<not> HasModAfter q \<and> CWDBias q = [] \<and> RootBias q = []
        else MatchPath q \<and> countNonVolumeTerms (Terms q) = 1 \<and> Exts q = [] \<and> Globs q = [] \<and> QType q = [] \<and>
          \<not> HasModAfter q \<and> CWDBias q = [] \<and> RootBias q = [])"

definition compactCandidateEntryIfMatch ::
  "goEnv \<Rightarrow> scanIndex \<Rightarrow> parsedQuery \<Rightarrow> int \<Rightarrow> (int \<Rightarrow> string option) \<Rightarrow> bool \<Rightarrow> Entry option \<times> (int \<Rightarrow> string option)" where
  "compactCandidateEntryIfMatch env idx pq i cache skip =
    (let r = recordOf (sidx idx) i
     in if Deleted r then (None, cache)
        else if \<not> compactRecordPrecheck env r (qf pq) (MatchPath (qf pq)) then (None, cache)
        else if queryPathTermPrecheckSafe pq \<and> \<not> compactPathContainsAll (sidx idx) i (Terms (qf pq)) then (None, cache)
        else case compactEntryFromRecord env idx i r cache of
          (entry, cache') \<Rightarrow>
            if skip then (Some entry, cache')
            else if \<not> entryMatches env entry pq (MatchPath (qf pq)) then (None, cache') else (Some entry, cache'))"

text \<open>The scan from a position on: the loop of \<open>searchCompactWithCacheHidden\<close>, and with \<open>countOnly\<close> off that of
  \<open>verifyCompactCandidateOrderRange\<close>. Both keep a record in the same cases.\<close>

fun scanLoop :: "goEnv \<Rightarrow> scanIndex \<Rightarrow> parsedQuery \<Rightarrow> bool \<Rightarrow> hiddenBaseIDs \<Rightarrow> bool \<Rightarrow> int \<Rightarrow> (nat \<Rightarrow> bool) \<Rightarrow>
    int list \<Rightarrow> nat \<Rightarrow> (int \<Rightarrow> string option) \<Rightarrow> Entry list \<Rightarrow> searchError + Entry list" where
  "scanLoop env idx pq skip hidden countOnly limit canceled [] pos cache results = Inr results"
| "scanLoop env idx pq skip hidden countOnly limit canceled (i # order) pos cache results =
    (if pos mod 1024 = 0 \<and> canceled pos then Inl QueryCanceled
     else if hiddenContains hidden i then scanLoop env idx pq skip hidden countOnly limit canceled order (pos + 1) cache results
     else case compactCandidateEntryIfMatch env idx pq i cache skip of
       (None, cache') \<Rightarrow> scanLoop env idx pq skip hidden countOnly limit canceled order (pos + 1) cache' results
     | (Some entry, cache') \<Rightarrow>
         if \<not> countOnly \<and> int (length (results @ [entry])) \<ge> limit then Inr (results @ [entry])
         else scanLoop env idx pq skip hidden countOnly limit canceled order (pos + 1) cache' (results @ [entry]))"

definition verifyCompactCandidateOrderRange :: "goEnv \<Rightarrow> scanIndex \<Rightarrow> parsedQuery \<Rightarrow> int list \<Rightarrow> (int \<Rightarrow> string option) \<Rightarrow> int \<Rightarrow>
    bool \<Rightarrow> hiddenBaseIDs \<Rightarrow> (nat \<Rightarrow> bool) \<Rightarrow> searchError + Entry list" where
  "verifyCompactCandidateOrderRange env idx pq order cache limit skip hidden canceled =
    scanLoop env idx pq skip hidden False limit canceled order 0 cache []"

definition serviceTrigramParallelVerifyMinIDs :: nat where
  "serviceTrigramParallelVerifyMinIDs = 4096"

text \<open>The parallel form: every worker scans its part of the order with a cache of its own; the parts are joined in their order
  and cut at the limit.\<close>

definition workerRange :: "nat \<Rightarrow> 'a list \<Rightarrow> nat \<Rightarrow> nat \<times> 'a list" where
  "workerRange workers order w =
    (let lo = w * length order div workers; hi = (w + 1) * length order div workers in (lo, take (hi - lo) (drop lo order)))"

fun joinParts :: "(searchError + 'a list) list \<Rightarrow> searchError + 'a list" where
  "joinParts [] = Inr []"
| "joinParts (Inl e # ps) = Inl e"
| "joinParts (Inr xs # ps) = (case joinParts ps of Inl e \<Rightarrow> Inl e | Inr ys \<Rightarrow> Inr (xs @ ys))"

definition verifyCompactCandidateOrderParallel :: "nat \<Rightarrow> goEnv \<Rightarrow> scanIndex \<Rightarrow> parsedQuery \<Rightarrow> int list \<Rightarrow> (int \<Rightarrow> string option) \<Rightarrow> int \<Rightarrow>
    bool \<Rightarrow> hiddenBaseIDs \<Rightarrow> (nat \<Rightarrow> bool) \<Rightarrow> searchError + Entry list" where
  "verifyCompactCandidateOrderParallel procs env idx pq order cache limit skip hidden canceled =
    (if order = [] \<or> limit \<le> 0 then Inr []
     else
       let workers = min procs (max 1 (length order div serviceTrigramParallelVerifyMinIDs))
       in if workers \<le> 1 then verifyCompactCandidateOrderRange env idx pq order cache limit skip hidden canceled
          else
            let parts = map (\<lambda>w. case workerRange workers order w of
                  (lo, part) \<Rightarrow> scanLoop env idx pq skip hidden False limit canceled part lo Map.empty []) [0..<workers]
            in (case joinParts parts of Inl e \<Rightarrow> Inl e | Inr xs \<Rightarrow> Inr (take (nat limit) xs)))"

record scanCall =
  callOpts :: queryOptions
  callCountOnly :: bool
  callCandidates :: "(parsedQuery \<Rightarrow> int list option) option"
  callHidden :: hiddenBaseIDs
  canceledAtStart :: bool
  canceledAt :: "nat \<Rightarrow> bool"
  processors :: nat

definition searchCompactWithCacheHidden :: "goEnv \<Rightarrow> scanIndex \<Rightarrow> scanCall \<Rightarrow> (int \<Rightarrow> string option) \<Rightarrow> searchError + Entry list" where
  "searchCompactWithCacheHidden env idx call cache =
    (case parseQuery env (callOpts call) of
       Inl e \<Rightarrow> Inl (BadQuery e)
     | Inr pq0 \<Rightarrow>
         if Impossible (qf pq0) then Inr []
         else case checkQueryCapabilities pq0 idx of
           Some e \<Rightarrow> Inl e
         | None \<Rightarrow>
             let pq = dropSatisfiedVolumeTerms env (Volume (sidx idx)) pq0; q = qf pq;
                 limit = normalizedLimit (oLimit (callOpts call)) (callCountOnly call);
                 candidates = (case callCandidates call of None \<Rightarrow> None | Some f \<Rightarrow> f pq);
                 used = (candidates \<noteq> None);
                 order = (if used then candidates else scanOrder env idx (SortColumn q))
             in if \<not> used \<and> canceledAtStart call then Inl QueryCanceled
                else
                  let order = (if RootBias q \<noteq> [] \<or> CWDBias q \<noteq> []
                        then biasOrderCompact env (sidx idx) order (firstNonEmpty [CWDBias q, RootBias q]) else order);
                      skip = compactCandidateCanSkipEntryMatches pq used; n = Paths.recordCount (sidx idx)
                  in if used \<and> \<not> callCountOnly call \<and> compactOrderLen order n \<ge> serviceTrigramParallelVerifyMinIDs
                     then verifyCompactCandidateOrderParallel (processors call) env idx pq (map (compactOrderAt order) [0..<compactOrderLen order n])
                       cache limit skip (callHidden call) (canceledAt call)
                     else scanLoop env idx pq skip (callHidden call) (callCountOnly call) limit (canceledAt call)
                       (map (compactOrderAt order) [0..<compactOrderLen order n]) 0 cache [])"

end
