(* ===== verification/SearchExact.thy ===== *)
theory SearchExact
  imports Search
begin

text \<open>
  What a search of an index returns. The prechecks never reject a record that matches, the match is skipped only where the
  prechecks decide it, the scan with its cache and the parallel scan keep the same records, and the preferred directory comes
  first; together a search returns the first matching records in its order. Filters on data the index lacks are refused, and
  a cancelled scan reports it.
\<close>

section \<open>Folded containment\<close>

lemma foldAt_prefix: "foldAt trm s \<longleftrightarrow> prefix (lowerASCII trm) (lowerASCII s)"
  by (induction trm s rule: foldAt.induct) (auto simp: lowerASCII_def)

lemma containsFoldASCII_sublist: "containsFoldASCII s trm \<longleftrightarrow> sublist (lowerASCII trm) (lowerASCII s)"
proof (cases "length trm > length s")
  case True
  then have "\<not> sublist (lowerASCII trm) (lowerASCII s)" using sublist_length_le by fastforce
  with True show ?thesis by (auto simp: containsFoldASCII_def)
next
  case False
  have "sublist (lowerASCII trm) (lowerASCII s) \<longleftrightarrow> (\<exists>i < length s - length trm + 1. prefix (lowerASCII trm) (drop i (lowerASCII s)))"
  proof
    assume "sublist (lowerASCII trm) (lowerASCII s)"
    then obtain u v where uv: "lowerASCII s = u @ lowerASCII trm @ v" by (auto simp: sublist_def)
    have "length s = length u + length trm + length v" using arg_cong [OF uv, of length] by simp
    then have "length u < length s - length trm + 1" by simp
    moreover have "prefix (lowerASCII trm) (drop (length u) (lowerASCII s))" by (simp add: uv)
    ultimately show "\<exists>i < length s - length trm + 1. prefix (lowerASCII trm) (drop i (lowerASCII s))" by blast
  next
    assume "\<exists>i < length s - length trm + 1. prefix (lowerASCII trm) (drop i (lowerASCII s))"
    then obtain i v where "drop i (lowerASCII s) = lowerASCII trm @ v" by (auto simp: prefix_def)
    then have "lowerASCII s = take i (lowerASCII s) @ lowerASCII trm @ v" by (metis append_take_drop_id)
    then show "sublist (lowerASCII trm) (lowerASCII s)" by (metis sublist_appendI)
  qed
  moreover have "list_ex P [0..<n] \<longleftrightarrow> (\<exists>i < n. P i)" for P and n :: nat by (auto simp: list_ex_iff)
  then have "containsFoldASCII s trm \<longleftrightarrow>
      trm = [] \<or> (\<exists>i < length s - length trm + 1. prefix (lowerASCII trm) (drop i (lowerASCII s)))"
    using False unfolding containsFoldASCII_def foldAt_prefix by (simp only: lowerASCII_def drop_map if_False) simp
  ultimately show ?thesis by auto
qed

text \<open>A term without a backslash that a path contains lies in one of its components.\<close>

lemma sublist_split: "sublist t (a @ c # b) \<Longrightarrow> c \<notin> set t \<Longrightarrow> sublist t a \<or> sublist t b"
  by (auto simp: sublist_append sublist_Cons_right prefix_Cons intro: suffix_imp_sublist)

lemma term_in_component:
  "sublist t (foldl joinPart root parts) \<Longrightarrow> backslash \<notin> set t \<Longrightarrow> sublist t root \<or> (\<exists>n\<in>set parts. sublist t n)"
proof (induction parts rule: rev_induct)
  case (snoc n parts)
  have "foldl joinPart root (parts @ [n]) = foldl joinPart root parts @ backslash # n"
    by (simp add: joinPart_def [of "foldl joinPart root parts" n])
  with snoc show ?case using sublist_split [of t "foldl joinPart root parts" backslash n] by auto
qed simp

lemma lowerASCII_path: "lowerASCII (foldl joinPart root parts) = foldl joinPart (lowerASCII root) (map lowerASCII parts)"
proof (induction parts rule: rev_induct)
  case (snoc n parts)
  moreover have "foldASCII backslash = backslash" by (simp add: foldASCII_def)
  ultimately show ?case by (simp add: joinPart_def lowerASCII_def)
qed simp

lemma isASCII_path: "isASCII root \<Longrightarrow> \<forall>n\<in>set parts. isASCII n \<Longrightarrow> isASCII (foldl joinPart root parts)"
proof (induction parts rule: rev_induct)
  case (snoc n parts)
  then show ?case by (simp add: joinPart_def isASCII_def)
qed simp

lemma backslash_lowerASCII: "backslash \<notin> set t \<Longrightarrow> backslash \<notin> set (lowerASCII t)"
proof -
  have "foldASCII c \<noteq> backslash" if "c \<noteq> backslash" for c
  proof (cases "65 \<le> (of_char c :: nat) \<and> of_char c \<le> (90 :: nat)")
    case True
    then have "of_char (foldASCII c) = (of_char c + 32 :: nat)" by (simp add: foldASCII_def)
    moreover have "of_char backslash = (92 :: nat)" by simp
    ultimately have "of_char (foldASCII c) \<noteq> (of_char backslash :: nat)" using True by linarith
    then show ?thesis by auto
  qed (use that in \<open>auto simp: foldASCII_def\<close>)
  then have "foldASCII ` set t \<subseteq> - {backslash}" if "backslash \<notin> set t" using that by (metis ComplI image_subsetI singletonD)
  then show "backslash \<notin> set t \<Longrightarrow> backslash \<notin> set (lowerASCII t)" unfolding lowerASCII_def set_map by blast
qed

section \<open>The path precheck\<close>

lemma compactNameAt_recordOf: "inRange idx i \<Longrightarrow> compactNameAt idx i = Name (recordOf idx i)"
  by (auto simp: compactNameAt_def inRange_def compactRecord_def compactRecordCount_def recordAt_def packedAt_def packedLen_def
      Let_def split: option.splits)

lemma pathTermClimb_finds:
  "reaches idx fuel cur \<Longrightarrow> n \<in> set (namesUp idx fuel cur) \<Longrightarrow> containsFoldASCII n trm \<Longrightarrow> pathTermClimb fuel idx trm cur"
proof (induction fuel arbitrary: cur)
  case (Suc fuel)
  have in_range: "inRange idx cur" using Suc.prems(1) by simp
  show ?case
  proof (cases "containsFoldASCII (compactNameAt idx cur) trm")
    case False
    then have "n \<noteq> Name (recordOf idx cur)" using Suc.prems(3) compactNameAt_recordOf [OF in_range] by auto
    then have up: "Parent (recordOf idx cur) \<ge> 0" "n \<in> set (namesUp idx fuel (Parent (recordOf idx cur)))"
      using Suc.prems(2) by (auto simp: Let_def split: if_splits)
    have "Parent (recordOf idx cur) \<noteq> cur" using depth_parent [OF Suc.prems(1) up(1)] by auto
    with up False in_range Suc show ?thesis by (simp add: Let_def)
  qed (use in_range in simp)
qed simp

text \<open>The indexes the prechecks are made for: ASCII names, no separate root, and path functions that agree.\<close>

definition searchable :: "goEnv \<Rightarrow> searchIndex \<Rightarrow> bool" where
  "searchable env idx \<longleftrightarrow> shallow idx \<and> Roots idx = [] \<and> Volume idx \<noteq> [] \<and> isASCII (Volume idx) \<and>
    (\<forall>i. inRange idx i \<longrightarrow> Name (recordOf idx i) \<noteq> [] \<and> isASCII (Name (recordOf idx i)) \<and> cleanPath env (fullPath idx i) = fullPath idx i) \<and>
    (\<forall>s. isASCII s \<longrightarrow> toLowerF env s = lowerASCII s)"

lemma searchable_plainRoot: "searchable env idx \<Longrightarrow> plainRoot env idx"
  by (auto simp: searchable_def plainRoot_def pathRoot_def rootName_def)

lemma normalized_path:
  assumes "searchable env idx" "inRange idx i"
  shows "normalizeCase env (fullPath idx i) cs = (if cs then fullPath idx i else lowerASCII (fullPath idx i))"
proof -
  have "shallow idx" using assms(1) by (simp add: searchable_def)
  then have "\<forall>n\<in>set (rev (names idx i)). isASCII n" using names_up [OF _ assms(2)] assms(1) by (auto simp: searchable_def)
  then have "isASCII (fullPath idx i)" using isASCII_path assms(1) by (simp add: fullPath_def pathRoot_def searchable_def)
  with assms(1) show ?thesis by (simp add: normalizeCase_def searchable_def)
qed

lemma pathTerm_found:
  assumes "searchable env idx" "inRange idx i" "sublist t (normalizeCase env (fullPath idx i) cs)" "backslash \<notin> set t"
  shows "compactPathContainsTerm idx i t"
proof -
  have shallow: "shallow idx" using assms(1) by (simp add: searchable_def)
  have root: "pathRoot idx = Volume idx" using assms(1) by (simp add: searchable_def pathRoot_def)
  have "normalizeCase env (fullPath idx i) cs = fullPath idx i \<or> normalizeCase env (fullPath idx i) cs = lowerASCII (fullPath idx i)"
    using normalized_path [OF assms(1,2)] by simp
  then have "sublist (lowerASCII t) (lowerASCII (fullPath idx i))"
    using sublist_lowerASCII [OF assms(3)] by auto
  then have "sublist (lowerASCII t) (foldl joinPart (lowerASCII (Volume idx)) (map lowerASCII (rev (names idx i))))"
    by (simp add: fullPath_def root lowerASCII_path)
  from term_in_component [OF this backslash_lowerASCII [OF assms(4)]]
  consider "sublist (lowerASCII t) (lowerASCII (Volume idx))" | n where "n \<in> set (names idx i)" "sublist (lowerASCII t) (lowerASCII n)"
    by auto
  then show ?thesis
  proof cases
    case 1
    with assms(1) show ?thesis by (simp add: compactPathContainsTerm_def containsFoldASCII_sublist searchable_def)
  next
    case 2
    have "reaches idx 1024 i" using shallow assms(2) by (simp add: shallow_def)
    from pathTermClimb_finds [OF this] 2 show ?thesis
      by (simp add: compactPathContainsTerm_def containsFoldASCII_sublist names_def del: pathTermClimb.simps)
  qed
qed

section \<open>Which records a scan keeps\<close>

definition entryAt :: "goEnv \<Rightarrow> scanIndex \<Rightarrow> int \<Rightarrow> Entry" where
  "entryAt env idx i = entryOf idx i (recordOf (sidx idx) i) (reconstructCompactPath env (sidx idx) i)"

lemma entry_facts:
  assumes "searchable env (sidx idx)" "inRange (sidx idx) i"
  shows "ePath (entryAt env idx i) = fullPath (sidx idx) i" "eName (entryAt env idx i) = Name (recordOf (sidx idx) i)"
    "eMode (entryAt env idx i) = Mode (recordOf (sidx idx) i)" "eModUnix (entryAt env idx i) = ModUnix (recordOf (sidx idx) i)"
  using reconstruct_exact [OF _ searchable_plainRoot [OF assms(1)] cacheOk_empty assms(2)] assms(1)
  by (simp_all add: entryAt_def entryOf_def reconstructCompactPath_def searchable_def)

text \<open>What a search should return: the entries of the records that are neither hidden nor deleted and match.\<close>

definition found :: "goEnv \<Rightarrow> scanIndex \<Rightarrow> parsedQuery \<Rightarrow> hiddenBaseIDs \<Rightarrow> int \<Rightarrow> bool" where
  "found env idx pq hidden i \<longleftrightarrow> \<not> hiddenContains hidden i \<and> \<not> Deleted (recordOf (sidx idx) i) \<and>
    entryMatches env (entryAt env idx i) pq (MatchPath (qf pq))"

definition keeps :: "goEnv \<Rightarrow> scanIndex \<Rightarrow> parsedQuery \<Rightarrow> bool \<Rightarrow> int \<Rightarrow> bool" where
  "keeps env idx pq skip i \<longleftrightarrow> \<not> Deleted (recordOf (sidx idx) i) \<and>
    compactRecordPrecheck env (recordOf (sidx idx) i) (qf pq) (MatchPath (qf pq)) \<and>
    (queryPathTermPrecheckSafe pq \<longrightarrow> compactPathContainsAll (sidx idx) i (Terms (qf pq))) \<and>
    (skip \<or> entryMatches env (entryAt env idx i) pq (MatchPath (qf pq)))"

definition plainTerms :: "parsedQuery \<Rightarrow> bool" where
  "plainTerms pq \<longleftrightarrow> MatchPath (qf pq) \<longrightarrow> (\<forall>t\<in>set (Terms (qf pq)). backslash \<notin> set t)"

text \<open>The prechecks never reject a record that matches.\<close>

lemma keeps_found:
  assumes "searchable env (sidx idx)" "inRange (sidx idx) i" "plainTerms pq"
  shows "\<not> hiddenContains hidden i \<and> keeps env idx pq False i \<longleftrightarrow> found env idx pq hidden i"
proof -
  let ?r = "recordOf (sidx idx) i" and ?q = "qf pq"
  have clean: "cleanPath env (fullPath (sidx idx) i) = fullPath (sidx idx) i" and name: "Name ?r \<noteq> []"
    using assms(1,2) by (auto simp: searchable_def)
  note entry = entry_facts [OF assms(1,2)]
  have "compactRecordPrecheck env ?r ?q (MatchPath ?q)"
    if "fieldsMatch env (entryAt env idx i) ?q (MatchPath ?q)"
    using that by (cases "MatchPath ?q") (simp_all add: fieldsMatch_def compactRecordPrecheck_def entry name Let_def)
  moreover have "compactPathContainsAll (sidx idx) i (Terms ?q)"
    if "fieldsMatch env (entryAt env idx i) ?q (MatchPath ?q)" "queryPathTermPrecheckSafe pq"
  proof -
    have "MatchPath ?q" using that(2) by (simp add: queryPathTermPrecheckSafe_def)
    with that(1) have "\<forall>t\<in>set (Terms ?q). sublist t (normalizeCase env (fullPath (sidx idx) i) (CaseSensitive ?q))"
      by (simp add: fieldsMatch_def containsAll_def list_all_iff entry clean Let_def)
    with \<open>MatchPath ?q\<close> assms(3) pathTerm_found [OF assms(1,2)] show ?thesis
      by (auto simp: compactPathContainsAll_def list_all_iff plainTerms_def)
  qed
  moreover have "fieldsMatch env (entryAt env idx i) ?q (MatchPath ?q)"
    if "entryMatches env (entryAt env idx i) pq (MatchPath ?q)"
    using that entryMatches_iff by blast
  ultimately show ?thesis unfolding keeps_def found_def by blast
qed


section \<open>Skipping the match\<close>

lemma pathTermClimb_sound:
  "pathTermClimb fuel idx trm cur \<Longrightarrow> \<not> containsFoldASCII ''.'' trm \<Longrightarrow> \<exists>n\<in>set (namesUp idx fuel cur). containsFoldASCII n trm"
proof (induction fuel arbitrary: cur)
  case (Suc fuel)
  then have in_range: "inRange idx cur" by (auto split: if_splits)
  show ?case
  proof (cases "containsFoldASCII (compactNameAt idx cur) trm")
    case True
    with Suc.prems(2) compactNameAt_recordOf [OF in_range] have "Name (recordOf idx cur) \<noteq> ''.''" by auto
    with True compactNameAt_recordOf [OF in_range] show ?thesis by (simp add: Let_def)
  next
    case False
    with Suc.prems in_range have "Parent (recordOf idx cur) \<ge> 0" "pathTermClimb fuel idx trm (Parent (recordOf idx cur))"
      by (auto simp: Let_def split: if_splits)
    with Suc.IH Suc.prems(2) show ?thesis by (auto simp: Let_def)
  qed
qed simp

lemma component_in_path:
  assumes "n = root \<or> n \<in> set parts"
  shows "sublist n (foldl joinPart root parts)"
  using assms
proof (induction parts rule: rev_induct)
  case (snoc m parts)
  show ?case
  proof (cases "n = m")
    case False
    with snoc have "sublist n (foldl joinPart root parts)" by auto
    moreover have "foldl joinPart root (parts @ [m]) = foldl joinPart root parts @ backslash # m" by (simp add: joinPart_def)
    ultimately show ?thesis by (metis sublist_append)
  next
    case True
    have "foldl joinPart root (parts @ [m]) = (foldl joinPart root parts @ [backslash]) @ m @ []" by (simp add: joinPart_def)
    with True show ?thesis by (metis sublist_appendI)
  qed
qed simp

lemma pathTerm_sound:
  assumes "searchable env idx" "compactPathContainsTerm idx i t" "lowerASCII t \<noteq> ''.''"
  shows "sublist (lowerASCII t) (lowerASCII (fullPath idx i))"
proof -
  have root: "pathRoot idx = Volume idx" using assms(1) by (simp add: searchable_def pathRoot_def)
  consider "lowerASCII t = []" | "\<not> containsFoldASCII ''.'' t"
    using assms(3) by (auto simp: containsFoldASCII_sublist sublist_Cons_right prefix_Cons lowerASCII_def foldASCII_def)
  then show ?thesis
  proof cases
    case 2
    obtain n where n: "n = Volume idx \<or> n \<in> set (rev (names idx i))" "containsFoldASCII n t"
      using assms(2) pathTermClimb_sound [of 1024 idx t i] 2 by (auto simp: compactPathContainsTerm_def names_def split: if_splits)
    have "sublist (lowerASCII n) (lowerASCII (fullPath idx i))"
      using component_in_path [OF n(1)] by (simp add: fullPath_def root sublist_lowerASCII)
    then show ?thesis using n(2) sublist_order.order.trans by (auto simp: containsFoldASCII_sublist)
  qed simp
qed

text \<open>Terms that are folded already.\<close>

definition foldedTerms :: "parsedQuery \<Rightarrow> bool" where
  "foldedTerms pq \<longleftrightarrow> \<not> CaseSensitive (qf pq) \<and> (\<forall>t\<in>set (Terms (qf pq)). isASCII t \<and> lowerASCII t = t \<and> t \<noteq> ''.'')"


lemma keeps_skip:
  assumes "searchable env (sidx idx)" "inRange (sidx idx) i" "compactCandidateCanSkipEntryMatches pq used" "foldedTerms pq"
  shows "keeps env idx pq True i \<longleftrightarrow> keeps env idx pq False i"
proof -
  let ?r = "recordOf (sidx idx) i" and ?q = "qf pq"
  have clean: "cleanPath env (fullPath (sidx idx) i) = fullPath (sidx idx) i" and name: "Name ?r \<noteq> []"
    using assms(1,2) by (auto simp: searchable_def)
  note entry = entry_facts [OF assms(1,2)]
  have no_groups: "OrGroups pq = []" "NotGroups pq = []" and used
    and fields: "Under ?q = []" "\<not> Exists ?q" "Dirs ?q = []" "Regexps ?q = []" "queryFields.Parents ?q = []" "SizeFilters ?q = []"
      "DateFilters ?q = []" "Terms ?q \<noteq> [] \<Longrightarrow> MatchPath ?q"
    using assms(3) by (auto simp: compactCandidateCanSkipEntryMatches_def Let_def split: if_splits)
  have safe: "queryPathTermPrecheckSafe pq" if "Terms ?q \<noteq> []"
    using fields(8) that assms(4) no_groups
    by (cases pq) (auto simp: queryPathTermPrecheckSafe_def foldedTerms_def list_ex_iff)
  have terms: "containsAll (normalizeCase env (fullPath (sidx idx) i) (CaseSensitive ?q)) (Terms ?q)"
    if "queryPathTermPrecheckSafe pq \<longrightarrow> compactPathContainsAll (sidx idx) i (Terms ?q)"
    unfolding containsAll_def list_all_iff
  proof
    fix t assume t: "t \<in> set (Terms ?q)"
    then have "Terms ?q \<noteq> []" by auto
    with t that safe have "compactPathContainsTerm (sidx idx) i t" by (simp add: compactPathContainsAll_def list_all_iff)
    moreover have "lowerASCII t = t" "t \<noteq> ''.''" "\<not> CaseSensitive ?q" using t assms(4) by (auto simp: foldedTerms_def)
    ultimately show "sublist t (normalizeCase env (fullPath (sidx idx) i) (CaseSensitive ?q))"
      using pathTerm_sound [OF assms(1), of i t] normalized_path [OF assms(1,2)] by simp
  qed
  have "entryMatches env (entryAt env idx i) pq (MatchPath ?q)"
    if "compactRecordPrecheck env ?r ?q (MatchPath ?q)"
      "queryPathTermPrecheckSafe pq \<longrightarrow> compactPathContainsAll (sidx idx) i (Terms ?q)"
    using that(1) terms [OF that(2)]
    by (cases "MatchPath ?q")
      (simp_all add: entryMatches_iff [of env _ pq] no_groups fieldsMatch_def compactRecordPrecheck_def entry clean name fields Let_def)
  then show ?thesis unfolding keeps_def by blast
qed

section \<open>The scan\<close>

lemma ifMatch_exact:
  assumes "searchable env (sidx idx)" "inRange (sidx idx) i" "cacheOk (sidx idx) cache"
  shows "fst (compactCandidateEntryIfMatch env idx pq i cache skip) = (if keeps env idx pq skip i then Some (entryAt env idx i) else None) \<and>
    cacheOk (sidx idx) (snd (compactCandidateEntryIfMatch env idx pq i cache skip))"
proof -
  have shallow: "shallow (sidx idx)" using assms(1) by (simp add: searchable_def)
  obtain path cache' where r: "reconstructCompactPathCached env (sidx idx) i cache = (path, cache')"
    by (cases "reconstructCompactPathCached env (sidx idx) i cache")
  have "path = fullPath (sidx idx) i" "cacheOk (sidx idx) cache'"
    using reconstruct_exact [OF shallow searchable_plainRoot [OF assms(1)] assms(3,2)] by (simp_all add: r)
  moreover have "reconstructCompactPath env (sidx idx) i = fullPath (sidx idx) i"
    using reconstruct_exact [OF shallow searchable_plainRoot [OF assms(1)] cacheOk_empty assms(2)] by (simp add: reconstructCompactPath_def)
  ultimately show ?thesis
    by (auto simp: compactCandidateEntryIfMatch_def compactEntryFromRecord_def keeps_def entryAt_def r assms(3) Let_def)
qed

definition cut :: "bool \<Rightarrow> int \<Rightarrow> 'a list \<Rightarrow> 'a list" where
  "cut countOnly limit xs = (if countOnly then xs else take (nat limit) xs)"

lemma scanLoop_exact:
  assumes "searchable env (sidx idx)" "\<And>p. \<not> canceled p"
  shows "cacheOk (sidx idx) cache \<Longrightarrow> \<forall>i\<in>set order. inRange (sidx idx) i \<Longrightarrow> countOnly \<or> int (length rs) < limit \<Longrightarrow>
    scanLoop env idx pq skip hidden countOnly limit canceled order pos cache rs =
      Inr (rs @ cut countOnly (limit - int (length rs))
        (map (entryAt env idx) (filter (\<lambda>i. \<not> hiddenContains hidden i \<and> keeps env idx pq skip i) order)))"
proof (induction order arbitrary: pos cache rs)
  case (Cons i order)
  obtain e cache' where r: "compactCandidateEntryIfMatch env idx pq i cache skip = (e, cache')"
    by (cases "compactCandidateEntryIfMatch env idx pq i cache skip")
  have i: "inRange (sidx idx) i" and rest: "\<forall>i\<in>set order. inRange (sidx idx) i" using Cons.prems(2) by auto
  from ifMatch_exact [OF assms(1) i Cons.prems(1), of pq skip]
  have e: "e = (if keeps env idx pq skip i then Some (entryAt env idx i) else None)" and cache': "cacheOk (sidx idx) cache'"
    by (simp_all add: r)
  show ?case
  proof (cases "\<not> hiddenContains hidden i \<and> keeps env idx pq skip i")
    case True
    show ?thesis
    proof (cases "\<not> countOnly \<and> int (length (rs @ [entryAt env idx i])) \<ge> limit")
      case full: True
      with Cons.prems(3) have "limit - int (length rs) = 1" by simp
      with True full show ?thesis by (simp add: assms(2) r e cut_def)
    next
      case False
      then have "countOnly \<or> int (length (rs @ [entryAt env idx i])) < limit" by auto
      moreover have "nat (limit - int (length rs)) = Suc (nat (limit - int (length (rs @ [entryAt env idx i]))))" if "\<not> countOnly"
        using that False by simp
      ultimately show ?thesis using True False Cons.IH [OF cache' rest] by (simp add: assms(2) r e cut_def)
    qed
  next
    case False
    with Cons.IH [OF cache' rest Cons.prems(3)] Cons.IH [OF Cons.prems(1) rest Cons.prems(3)] show ?thesis
      by (auto simp: assms(2) r e)
  qed
qed (simp add: cut_def)


section \<open>Workers\<close>

lemma take_concat_take: "take n (concat (map (take n) xss)) = take n (concat xss)"
proof (induction xss arbitrary: n)
  case (Cons xs xss)
  have "take m (concat (map (take n) xss)) = take m (concat xss)" if "m \<le> n" for m
  proof -
    have "take m (concat (map (take n) xss)) = take m (take n (concat (map (take n) xss)))" using that by (simp add: min_def)
    also have "\<dots> = take m (concat xss)" using that Cons.IH [of n] by (simp add: min_def)
    finally show ?thesis .
  qed
  then have "take (n - length xs) (concat (map (take n) xss)) = take (n - length xs) (concat xss)" by simp
  then show ?case by (cases "n \<le> length xs") (simp_all add: min_def)
qed simp

lemma concat_slices:
  assumes "mono f" "f 0 = 0"
  shows "concat (map (\<lambda>w. take (f (Suc w) - f w) (drop (f w) xs)) [0..<n]) = take (f n) xs"
proof (induction n)
  case (Suc n)
  have "f n \<le> f (Suc n)" using assms(1) by (simp add: monoD)
  then have "f (Suc n) = f n + (f (Suc n) - f n)" by simp
  then have "take (f n) xs @ take (f (Suc n) - f n) (drop (f n) xs) = take (f (Suc n)) xs" by (metis take_add)
  with Suc show ?case by simp
qed (simp add: assms(2))

lemma workers_cover: "n > 0 \<Longrightarrow> concat (map (\<lambda>w. snd (workerRange n order w)) [0..<n]) = order"
proof -
  assume "n > 0"
  have "mono (\<lambda>w. w * length order div n)" by (intro monoI div_le_mono mult_le_mono1)
  from concat_slices [OF this, of order n] \<open>n > 0\<close> show ?thesis
    unfolding workerRange_def Let_def by simp
qed

lemma joinParts_Inr: "joinParts (map (\<lambda>w. Inr (g w)) ws) = Inr (concat (map g ws))"
  by (induction ws) simp_all

lemma parallel_exact:
  assumes "searchable env (sidx idx)" "\<And>p. \<not> canceled p" "cacheOk (sidx idx) cache" "\<forall>i\<in>set order. inRange (sidx idx) i" "limit > 0"
  shows "verifyCompactCandidateOrderParallel procs env idx pq order cache limit skip hidden canceled =
    Inr (take (nat limit) (map (entryAt env idx) (filter (\<lambda>i. \<not> hiddenContains hidden i \<and> keeps env idx pq skip i) order)))"
proof -
  let ?k = "\<lambda>i. \<not> hiddenContains hidden i \<and> keeps env idx pq skip i"
  let ?g = "\<lambda>xs. map (entryAt env idx) (filter ?k xs)"
  have scan: "scanLoop env idx pq skip hidden False limit canceled xs pos cache [] = Inr (take (nat limit) (?g xs))"
    if "cacheOk (sidx idx) cache" "set xs \<subseteq> set order" for xs pos cache
    using scanLoop_exact [where pos = pos and rs = "[]" and order = xs, OF assms(1,2) that(1)] that(2) assms(4,5) by (simp add: cut_def subset_iff)
  define workers where "workers = min procs (max 1 (length order div serviceTrigramParallelVerifyMinIDs))"
  consider "order = []" | "order \<noteq> []" "workers \<le> 1" | "order \<noteq> []" "workers > 1" by linarith
  then show ?thesis
  proof cases
    case 3
    let ?part = "\<lambda>w. snd (workerRange workers order w)"
    have part: "set (?part w) \<subseteq> set order" for w
      using set_take_subset set_drop_subset unfolding workerRange_def Let_def snd_conv by fast
    have "(case workerRange workers order w of (lo, part) \<Rightarrow> scanLoop env idx pq skip hidden False limit canceled part lo Map.empty []) =
        Inr (take (nat limit) (?g (?part w)))" for w
      using scan [OF cacheOk_empty part] by (simp add: split_beta)
    then have "verifyCompactCandidateOrderParallel procs env idx pq order cache limit skip hidden canceled =
        Inr (take (nat limit) (concat (map (\<lambda>w. take (nat limit) (?g (?part w))) [0..<workers])))"
      unfolding verifyCompactCandidateOrderParallel_def Let_def workers_def [symmetric] using 3 assms(5) by (simp add: joinParts_Inr)
    also have "concat (map (\<lambda>w. take (nat limit) (?g (?part w))) [0..<workers]) =
        concat (map (take (nat limit)) (map ?g (map ?part [0..<workers])))"
      by (simp add: comp_def)
    also have "take (nat limit) \<dots> = take (nat limit) (?g (concat (map ?part [0..<workers])))"
      unfolding take_concat_take by (simp add: map_concat filter_concat comp_def)
    also have "concat (map ?part [0..<workers]) = order" using 3 by (simp add: workers_cover)
    finally show ?thesis .
  qed (use scan [OF assms(3) subset_refl] assms(5) in
      \<open>simp_all add: verifyCompactCandidateOrderParallel_def verifyCompactCandidateOrderRange_def workers_def\<close>)
qed

section \<open>The preferred directory\<close>

definition preferred :: "goEnv \<Rightarrow> searchIndex \<Rightarrow> string \<Rightarrow> int list \<Rightarrow> int list" where
  "preferred env idx root xs =
    (if root = [] then xs
     else filter (\<lambda>i. pathUnder env (fullPath idx i) root) xs @ filter (\<lambda>i. \<not> pathUnder env (fullPath idx i) root) xs)"

lemma insertBy_partition:
  "insertBy (\<lambda>a b. p a \<and> \<not> p b) x (filter p xs @ filter (\<lambda>a. \<not> p a) xs) = filter p (x # xs) @ filter (\<lambda>a. \<not> p a) (x # xs)"
proof -
  have before: "insertBy (\<lambda>a b. p a \<and> \<not> p b) x (as @ bs) = as @ insertBy (\<lambda>a b. p a \<and> \<not> p b) x bs"
    if "\<not> p x" "\<forall>a\<in>set as. p a" for as bs using that by (induction as) auto
  have now: "insertBy (\<lambda>a b. p a \<and> \<not> p b) x bs = x # bs" if "p x \<or> (\<forall>b\<in>set bs. \<not> p b)" for bs
    using that by (cases bs) auto
  show ?thesis by (cases "p x") (simp_all add: before now)
qed

lemma sort_partition: "sortSlice (\<lambda>a b. p a \<and> \<not> p b) xs = filter p xs @ filter (\<lambda>a. \<not> p a) xs"
proof (induction xs)
  case (Cons x xs)
  have "sortSlice (\<lambda>a b. p a \<and> \<not> p b) (x # xs) = insertBy (\<lambda>a b. p a \<and> \<not> p b) x (sortSlice (\<lambda>a b. p a \<and> \<not> p b) xs)"
    by (simp add: sortSlice_def)
  then show ?case unfolding Cons.IH insertBy_partition .
qed (simp add: sortSlice_def)


lemma biasOrderCompact_exact:
  assumes "shallow idx" "plainRoot env idx" "\<forall>i\<in>set xs. inRange idx i"
  shows "biasOrderCompact env idx (Some xs) root = Some (preferred env idx root xs)"
proof -
  let ?p = "\<lambda>i. pathUnder env (fullPath idx i) root"
  have "(fst (biasLess env idx root a b cache) \<longleftrightarrow> ?p a \<and> \<not> ?p b) \<and> cacheOk idx (snd (biasLess env idx root a b cache))"
    if "cacheOk idx cache" "inRange idx a" "inRange idx b" for a b cache
  proof -
    obtain pa c1 where a: "reconstructCompactPathCached env idx a cache = (pa, c1)" by (cases "reconstructCompactPathCached env idx a cache")
    obtain pb c2 where b: "reconstructCompactPathCached env idx b c1 = (pb, c2)" by (cases "reconstructCompactPathCached env idx b c1")
    have "pa = fullPath idx a" "cacheOk idx c1" using reconstruct_exact [OF assms(1,2) that(1,2)] by (simp_all add: a)
    moreover from this have "pb = fullPath idx b" "cacheOk idx c2" using reconstruct_exact [OF assms(1,2) _ that(3), of c1] by (simp_all add: b)
    ultimately show ?thesis by (simp add: biasLess_def a b)
  qed
  then have "fst (sortSliceM (biasLess env idx root) xs Map.empty) = sortSlice (\<lambda>a b. ?p a \<and> \<not> ?p b) xs"
    using sortSliceM_exact [where sound = "cacheOk idx" and A = "Collect (inRange idx)" and ltM = "biasLess env idx root"
        and lt = "\<lambda>a b. ?p a \<and> \<not> ?p b" and xs = xs and st = Map.empty] assms(3) by (simp add: subset_iff)
  then show ?thesis by (simp add: biasOrderCompact_def preferred_def sort_partition)
qed


section \<open>The search\<close>

text \<open>The records a search visits, in the order it visits them.\<close>

definition chosenOrder :: "goEnv \<Rightarrow> scanIndex \<Rightarrow> scanCall \<Rightarrow> parsedQuery \<Rightarrow> int list option" where
  "chosenOrder env idx call pq =
    (case callCandidates call of
       None \<Rightarrow> scanOrder env idx (SortColumn (qf pq))
     | Some f \<Rightarrow> (case f pq of None \<Rightarrow> scanOrder env idx (SortColumn (qf pq)) | Some xs \<Rightarrow> Some xs))"

definition searchOrder :: "goEnv \<Rightarrow> scanIndex \<Rightarrow> scanCall \<Rightarrow> parsedQuery \<Rightarrow> int list" where
  "searchOrder env idx call pq =
    (case chosenOrder env idx call pq of
       None \<Rightarrow> map int [0..<Paths.recordCount (sidx idx)]
     | Some xs \<Rightarrow> preferred env (sidx idx) (firstNonEmpty [CWDBias (qf pq), RootBias (qf pq)]) xs)"

definition hasCandidates :: "scanCall \<Rightarrow> parsedQuery \<Rightarrow> bool" where
  "hasCandidates call pq \<longleftrightarrow> (case callCandidates call of None \<Rightarrow> False | Some f \<Rightarrow> f pq \<noteq> None)"

text \<open>A search that nobody cancels.\<close>

definition uncanceled :: "scanCall \<Rightarrow> bool" where
  "uncanceled call \<longleftrightarrow> \<not> canceledAtStart call \<and> (\<forall>p. \<not> canceledAt call p)"

definition searchResult :: "goEnv \<Rightarrow> scanIndex \<Rightarrow> scanCall \<Rightarrow> parsedQuery \<Rightarrow> Entry list" where
  "searchResult env idx call pq =
    cut (callCountOnly call) (normalizedLimit (oLimit (callOpts call)) (callCountOnly call))
      (map (entryAt env idx) (filter (found env idx pq (callHidden call)) (searchOrder env idx call pq)))"

lemma order_list:
  "map (compactOrderAt order) [0..<compactOrderLen order n] = (case order of None \<Rightarrow> map int [0..<n] | Some xs \<Rightarrow> xs)"
  by (cases order) (auto simp: compactOrderAt_def compactOrderLen_def map_nth intro: nth_equalityI)

lemma set_preferred [simp]: "set (preferred env idx root xs) = set xs"
  by (auto simp: preferred_def)

lemma limit_positive: "countOnly \<or> normalizedLimit limit countOnly > 0"
  by (simp add: normalizedLimit_def)

lemma search_scan:
  assumes "searchable env (sidx idx)" "cacheOk (sidx idx) cache" "uncanceled call" "countOnly \<or> limit > 0"
    "\<forall>i\<in>set order. inRange (sidx idx) i" "plainTerms pq" "compactCandidateCanSkipEntryMatches pq used \<longrightarrow> foldedTerms pq"
  shows "scanLoop env idx pq (compactCandidateCanSkipEntryMatches pq used) hidden countOnly limit (canceledAt call) order pos cache [] =
      Inr (cut countOnly limit (map (entryAt env idx) (filter (found env idx pq hidden) order)))"
    "limit > 0 \<Longrightarrow> verifyCompactCandidateOrderParallel procs env idx pq order cache limit (compactCandidateCanSkipEntryMatches pq used) hidden
        (canceledAt call) =
      Inr (take (nat limit) (map (entryAt env idx) (filter (found env idx pq hidden) order)))"
proof -
  let ?skip = "compactCandidateCanSkipEntryMatches pq used"
  have "keeps env idx pq ?skip i = keeps env idx pq False i" if "i \<in> set order" for i
    using keeps_skip [OF assms(1), of i pq used] assms(5,7) that by (cases ?skip) auto
  then have "(\<not> hiddenContains hidden i \<and> keeps env idx pq ?skip i) = found env idx pq hidden i" if "i \<in> set order" for i
    using keeps_found [OF assms(1) _ assms(6), of i hidden] assms(5) that by auto
  then have same: "filter (\<lambda>i. \<not> hiddenContains hidden i \<and> keeps env idx pq ?skip i) order = filter (found env idx pq hidden) order"
    by (rule filter_cong [OF refl])
  have never: "\<not> canceledAt call p" for p using assms(3) by (simp add: uncanceled_def)
  show "scanLoop env idx pq ?skip hidden countOnly limit (canceledAt call) order pos cache [] =
      Inr (cut countOnly limit (map (entryAt env idx) (filter (found env idx pq hidden) order)))"
    using scanLoop_exact [where rs = "[]", OF assms(1) never assms(2,5)] assms(4) by (simp add: same)
  show "verifyCompactCandidateOrderParallel procs env idx pq order cache limit ?skip hidden (canceledAt call) =
      Inr (take (nat limit) (map (entryAt env idx) (filter (found env idx pq hidden) order)))" if "limit > 0"
    using parallel_exact [OF assms(1) never assms(2,5) that] by (simp add: same)
qed

lemma searchCompact_exact:
  assumes "parseQuery env (callOpts call) = Inr pq0" "\<not> Impossible (qf pq0)" "checkQueryCapabilities pq0 idx = None"
    and "pq = dropSatisfiedVolumeTerms env (Volume (sidx idx)) pq0"
    and "searchable env (sidx idx)" "cacheOk (sidx idx) cache" "uncanceled call" "plainTerms pq"
    and "\<forall>i\<in>set (searchOrder env idx call pq). inRange (sidx idx) i"
    and "compactCandidateCanSkipEntryMatches pq (hasCandidates call pq) \<longrightarrow> foldedTerms pq"
  shows "searchCompactWithCacheHidden env idx call cache = Inr (searchResult env idx call pq)"
proof -
  let ?root = "firstNonEmpty [CWDBias (qf pq), RootBias (qf pq)]"
  define order where "order = chosenOrder env idx call pq"
  define bias where
    "bias = (if RootBias (qf pq) \<noteq> [] \<or> CWDBias (qf pq) \<noteq> [] then biasOrderCompact env (sidx idx) order ?root else order)"
  have shallow: "shallow (sidx idx)" using assms(5) by (simp add: searchable_def)
  have "bias = map_option (preferred env (sidx idx) ?root) order"
  proof (cases order)
    case (Some xs)
    then have "\<forall>i\<in>set xs. inRange (sidx idx) i" using assms(9) by (simp add: searchOrder_def order_def)
    from biasOrderCompact_exact [OF shallow searchable_plainRoot [OF assms(5)] this] Some show ?thesis
      by (simp add: bias_def preferred_def firstNonEmpty_def)
  qed (simp add: bias_def biasOrderCompact_def)
  then have visits: "map (compactOrderAt bias) [0..<compactOrderLen bias (Paths.recordCount (sidx idx))] = searchOrder env idx call pq"
    by (cases order) (simp_all add: order_list searchOrder_def order_def [symmetric])
  define used where "used = hasCandidates call pq"
  have chosen: "(if used then (case callCandidates call of None \<Rightarrow> None | Some f \<Rightarrow> f pq) else scanOrder env idx (SortColumn (qf pq))) = order"
    by (auto simp: used_def hasCandidates_def order_def chosenOrder_def split: option.splits)
  have used: "((case callCandidates call of None \<Rightarrow> None | Some f \<Rightarrow> f pq) \<noteq> None) = used"
    by (simp add: used_def hasCandidates_def split: option.splits)
  note scan = search_scan [OF assms(5-7) _ assms(9,8,10), folded used_def]
  show ?thesis
    unfolding searchCompactWithCacheHidden_def assms(1) sum.case Let_def assms(4) [symmetric] used chosen bias_def [symmetric] visits
    using assms(2,3,7) limit_positive [of "callCountOnly call" "oLimit (callOpts call)"] scan
    by (cases used; cases "callCountOnly call") (simp_all add: uncanceled_def searchResult_def cut_def)
qed



section \<open>Cancellation\<close>

text \<open>
  C28: A scan stops at the next poll after it is cancelled: when a poll at a position the order reaches says so, the scan
  returns the cancellation error, unless it had filled the limit before and returned. It never returns a shorter list as if
  it were complete. The polls are at the multiples of 1024, so at most 1023 further records are looked at.
\<close>

theorem cancellation_reported:
  assumes "k < length order" "(pos + k) mod 1024 = 0" "canceled (pos + k)"
  shows "scanLoop env idx pq skip hidden countOnly limit canceled order pos cache results = Inl QueryCanceled \<or>
    (\<exists>xs. scanLoop env idx pq skip hidden countOnly limit canceled order pos cache results = Inr xs \<and> \<not> countOnly \<and> int (length xs) \<ge> limit)"
  using assms
proof (induction order arbitrary: k pos cache results)
  case (Cons i order)
  show ?case
  proof (cases "pos mod 1024 = 0 \<and> canceled pos")
    case False
    with Cons.prems have "k \<noteq> 0" by (auto intro: ccontr)
    with Cons.prems have next_poll: "k - 1 < length order" "(pos + 1 + (k - 1)) mod 1024 = 0" "canceled (pos + 1 + (k - 1))" by simp_all
    from Cons.IH [OF next_poll] False show ?thesis by (auto split: prod.splits option.splits)
  qed simp
qed simp

section \<open>Filters on data the index lacks\<close>

lemma size_ignored:
  "\<not> fst (queryNeedsSizeOrMod pq) \<Longrightarrow> entryMatches env (e\<lparr>eSize := n\<rparr>) pq mp \<longleftrightarrow> entryMatches env e pq mp"
proof (induction env e pq mp rule: entryMatches.induct)
  case (1 env entry q ors nots mp)
  have "\<not> fst (queryNeedsSizeOrMod alt)" if "g \<in> set ors" "alt \<in> set g" for g alt
    using 1(3) that by (auto simp: list_ex_iff Let_def)
  moreover have "\<not> fst (queryNeedsSizeOrMod neg)" if "neg \<in> set nots" for neg
    using 1(3) that by (auto simp: list_ex_iff Let_def)
  moreover have "fieldsMatch env (entry\<lparr>eSize := n\<rparr>) q mp \<longleftrightarrow> fieldsMatch env entry q mp"
    using 1(3) by (simp add: fieldsMatch_def Let_def)
  ultimately show ?case using 1(1,2) by (simp add: entryMatches_iff [of env _ "ParsedQuery q ors nots"])
qed

lemma mod_ignored:
  "\<not> snd (queryNeedsSizeOrMod pq) \<Longrightarrow> entryMatches env (e\<lparr>eModUnix := n\<rparr>) pq mp \<longleftrightarrow> entryMatches env e pq mp"
proof (induction env e pq mp rule: entryMatches.induct)
  case (1 env entry q ors nots mp)
  have "\<not> snd (queryNeedsSizeOrMod alt)" if "g \<in> set ors" "alt \<in> set g" for g alt
    using 1(3) that by (auto simp: list_ex_iff Let_def)
  moreover have "\<not> snd (queryNeedsSizeOrMod neg)" if "neg \<in> set nots" for neg
    using 1(3) that by (auto simp: list_ex_iff Let_def)
  moreover have "fieldsMatch env (entry\<lparr>eModUnix := n\<rparr>) q mp \<longleftrightarrow> fieldsMatch env entry q mp"
    using 1(3) by (simp add: fieldsMatch_def Let_def)
  ultimately show ?case using 1(1,2) by (simp add: entryMatches_iff [of env _ "ParsedQuery q ors nots"])
qed

lemma attrs_ignored:
  "\<not> queryNeedsAttrs pq \<Longrightarrow> isDirMode m = isDirMode (eMode e) \<Longrightarrow> entryMatches env (e\<lparr>eMode := m\<rparr>) pq mp \<longleftrightarrow> entryMatches env e pq mp"
proof (induction env e pq mp rule: entryMatches.induct)
  case (1 env entry q ors nots mp)
  have "\<not> queryNeedsAttrs alt" if "g \<in> set ors" "alt \<in> set g" for g alt
    using 1(3) that by (auto simp: list_ex_iff)
  moreover have "\<not> queryNeedsAttrs neg" if "neg \<in> set nots" for neg
    using 1(3) that by (auto simp: list_ex_iff)
  moreover have "fieldsMatch env (entry\<lparr>eMode := m\<rparr>) q mp \<longleftrightarrow> fieldsMatch env entry q mp"
    using 1(3,4) by (simp add: fieldsMatch_def attrFiltersMatch_def Let_def)
  ultimately show ?case using 1(1,2,4) by (simp add: entryMatches_iff [of env _ "ParsedQuery q ors nots"])
qed

text \<open>
  C17: A query that passes the capability check never consults data the index lacks: on an index without sizes its answer for
  an entry does not depend on the entry's size, on one without modification times not on the time, and on one without
  attributes only on the directory bit of the mode, however deep the filters are nested in alternatives and negations.
\<close>

theorem capabilities_protect:
  assumes "checkQueryCapabilities pq idx = None"
  shows "(compactHasSize idx \<or> entryMatches env (e\<lparr>eSize := n\<rparr>) pq mp = entryMatches env e pq mp) \<and>
    (compactHasModTime idx \<or> entryMatches env (e\<lparr>eModUnix := n\<rparr>) pq mp = entryMatches env e pq mp) \<and>
    (CompactAttrs idx \<or> isDirMode m \<noteq> isDirMode (eMode e) \<or> entryMatches env (e\<lparr>eMode := m\<rparr>) pq mp = entryMatches env e pq mp)"
proof -
  have "compactHasSize idx \<or> \<not> fst (queryNeedsSizeOrMod pq)" "compactHasModTime idx \<or> \<not> snd (queryNeedsSizeOrMod pq)"
    "CompactAttrs idx \<or> \<not> queryNeedsAttrs pq"
    using assms by (auto simp: checkQueryCapabilities_def split: prod.splits if_splits)
  then show ?thesis using size_ignored mod_ignored attrs_ignored by blast
qed



section \<open>Examples\<close>

definition exampleScan :: scanIndex where
  "exampleScan = \<lparr>sidx = exampleIndex, CompactNameOrder = Some [0, 1], SubtreeBytes = [], SizeOrder = [], ModOrder = [], ExtOrder = [],
     TypeOrder = [], PathOrder = [], mmapHasSize = False, mmapHasModUnix = False, CompactAttrs = False, dirSizeDelta = Map.empty\<rparr>"

definition exampleCall :: "string \<Rightarrow> scanCall" where
  "exampleCall text = \<lparr>callOpts = optionsOf text, callCountOnly = False, callCandidates = None,
     callHidden = \<lparr>tombstone = [], shadowed = []\<rparr>, canceledAtStart = False, canceledAt = (\<lambda>_. False), processors = 4\<rparr>"

lemma exampleScan_ok: "searchable exampleEnv (sidx exampleScan)"
proof -
  have "Name (recordOf exampleIndex i) \<noteq> [] \<and> isASCII (Name (recordOf exampleIndex i))" if "inRange exampleIndex i" for i
  proof -
    have "i = 0 \<or> i = 1" using that by (auto simp: exampleIndex_def)
    then show ?thesis by (auto simp: exampleIndex_def fileRecord_def isASCII_def)
  qed
  moreover have "Volume exampleIndex = ''C:''" "Roots exampleIndex = []" by (simp_all add: exampleIndex_def plainIndex_def)
  ultimately show ?thesis
    using exampleIndex_ok(1) by (simp add: searchable_def exampleScan_def exampleEnv_def isASCII_def)
qed

theorem cancellation_reported_witness:
  "scanLoop exampleEnv exampleScan (ParsedQuery zeroFields [] []) False \<lparr>tombstone = [7], shadowed = []\<rparr> True 10 (\<lambda>p. p > 1000)
     (replicate 1030 7) 0 Map.empty [] = Inl QueryCanceled"
proof -
  have len: "1024 < length (replicate 1030 (7 :: int))" unfolding length_replicate by simp
  from cancellation_reported [OF len, of 0 "\<lambda>p. p > 1000" exampleEnv exampleScan "ParsedQuery zeroFields [] []" False
      "\<lparr>tombstone = [7], shadowed = []\<rparr>" True 10 Map.empty "[]"]
  show ?thesis by auto
qed


theorem capabilities_protect_witness:
  "checkQueryCapabilities (ParsedQuery (zeroFields\<lparr>Terms := [''x'']\<rparr>) [] []) exampleScan = None \<and> \<not> compactHasSize exampleScan \<and>
   entryMatches exampleEnv (entryAt exampleEnv exampleScan 1\<lparr>eSize := 7\<rparr>) (ParsedQuery (zeroFields\<lparr>Terms := [''x'']\<rparr>) [] []) False =
   entryMatches exampleEnv (entryAt exampleEnv exampleScan 1) (ParsedQuery (zeroFields\<lparr>Terms := [''x'']\<rparr>) [] []) False"
proof -
  let ?pq = "ParsedQuery (zeroFields\<lparr>Terms := [''x'']\<rparr>) [] []"
  have check: "checkQueryCapabilities ?pq exampleScan = None" by (simp add: checkQueryCapabilities_def zeroFields_def)
  have "\<not> compactHasSize exampleScan"
    by (simp add: compactHasSize_def exampleScan_def exampleIndex_def plainIndex_def plain_def fileRecord_def zeroRecord_def)
  with check capabilities_protect [OF check, where env = exampleEnv and e = "entryAt exampleEnv exampleScan 1" and n = 7 and mp = False] show ?thesis by blast
qed


end
