(* ===== verification/Overlay.thy ===== *)
theory Overlay
  imports SortOrders WAL IterCombinators
begin

text \<open>
  The overlay of pending changes (\<open>service_replay.go\<close>, \<open>service_runtime.go\<close>, \<open>search_overlay.go\<close>, \<open>service_protocol.go\<close>).

  A loaded volume keeps the records of its index file unchanged. Changes from the journal go to an overlay: a growing list of
  records with the newest slot of every file reference, and two sets of base records that are hidden, because they were
  deleted or because a slot replaces them. Readers work on published snapshots. A persist folds a copy of the overlay into a
  new base and carries over what arrived meanwhile.

  A nil overlay stands here for an empty one, which every function treats alike. Queries to the file system, \<open>filepath\<close> and
  the order in which Go visits the keys of a map are arguments. Locks and the memory of the service are left out.
\<close>

section \<open>Sets of base records\<close>

record overlayBaseIDSet =
  bits :: "u64 list"
  ids :: "int list"
  setCount :: nat

definition emptyIDSet :: overlayBaseIDSet where
  "emptyIDSet = \<lparr>bits = [], ids = [], setCount = 0\<rparr>"

definition setContains :: "overlayBaseIDSet \<Rightarrow> int \<Rightarrow> bool" where
  "setContains s i = (if i < 0 then False else bitsetTest (bits s) (nat i))"

definition setAdd :: "int \<Rightarrow> overlayBaseIDSet \<Rightarrow> overlayBaseIDSet" where
  "setAdd i s =
    (if i < 0 then s
     else
       let word = nat i div 64;
           grown = (if word \<ge> length (bits s) then bits s @ replicate (word + 1 - length (bits s)) 0 else bits s)
       in if bitsetTest grown (nat i) then s\<lparr>bits := grown\<rparr>
          else \<lparr>bits = bitsetSet grown (nat i), ids = ids s @ [i], setCount = setCount s + 1\<rparr>)"

section \<open>The state of a volume\<close>

record overlaySegment =
  slots :: "CompactRecord list"
  byFRN :: "u64 \<Rightarrow> int option"
  tombs :: overlayBaseIDSet
  shadows :: overlayBaseIDSet
  watermark :: int
  checkpointAtRotate :: i64

definition newOverlaySegment :: overlaySegment where
  "newOverlaySegment = \<lparr>slots = [], byFRN = Map.empty, tombs = emptyIDSet, shadows = emptyIDSet, watermark = 0, checkpointAtRotate = 0\<rparr>"

record volumeSnapshot =
  snapRecords :: "CompactRecord list"
  tombstoneIDs :: "int list"
  shadowedIDs :: "int list"
  snapWatermark :: int
  gen :: u64

text \<open>The volume with its tree arrays; \<open>recs\<close> are the records of the base index.\<close>

record liveVolume = treeVolume +
  volumeName :: string
  baseVolume :: string
  baseRoots :: "string list"
  baseAttrs :: bool
  baseCheckpoint :: i64
  publishedDelta :: "(int \<Rightarrow> i64 option) option"
  checkpoint :: i64
  dirty :: bool
  frnToID :: "u64 \<Rightarrow> int option"
  frns :: "u64 list"
  frnRecordIDs :: "u32 list"
  subtreeTotals :: "u64 list"
  sizeDelta :: "int \<Rightarrow> i64 option"
  overlay :: overlaySegment
  snap :: "volumeSnapshot option"
  snapshotGen :: u64
  ownedDirFRNs :: "u64 set"
  ownedDynamicDirFRNs :: "u64 set"

text \<open>What the file system and \<open>filepath\<close> answer, and the order in which the keys of a map are visited.\<close>

record liveEnv =
  pathEnv :: goEnv
  joinF :: "string \<Rightarrow> string \<Rightarrow> string"
  volumeNameF :: "string \<Rightarrow> string"
  statF :: "string \<Rightarrow> (i64 \<times> i64) option"
  mapOrder :: "u64 set \<Rightarrow> u64 list"

definition baseIndex :: "liveVolume \<Rightarrow> searchIndex" where
  "baseIndex vol = \<lparr>store = \<lparr>MMapRecords = None, PackedRecs = None, PlainRecords = Some (recs vol)\<rparr>,
     Volume = baseVolume vol, Roots = baseRoots vol\<rparr>"

abbreviation baseCount :: "liveVolume \<Rightarrow> int" where
  "baseCount vol \<equiv> int (length (recs vol))"

abbreviation baseRecord :: "liveVolume \<Rightarrow> int \<Rightarrow> CompactRecord" where
  "baseRecord vol i \<equiv> recordAt (recs vol) i"

definition idForFRN :: "liveVolume \<Rightarrow> u64 \<Rightarrow> int option" where
  "idForFRN vol frn =
    (if frn = 0 then None
     else case frnToID vol frn of
       Some i \<Rightarrow> Some i
     | None \<Rightarrow>
         let i = sortSearch (length (frns vol)) (\<lambda>i. frns vol ! i \<ge> frn)
         in if i < length (frns vol) \<and> i < length (frnRecordIDs vol) \<and> frns vol ! i = frn
            then Some (uint (frnRecordIDs vol ! i)) else None)"

definition fileAttributeDir :: u32 where "fileAttributeDir = 0x10"

definition modeFromAttrs :: "u32 \<Rightarrow> u32" where
  "modeFromAttrs attr = (if attr AND fileAttributeDir \<noteq> 0 then attr OR modeDir else attr)"

text \<open>\<open>slot >= 0 && int(slot) < len(records)\<close> for the newest slot of a reference.\<close>

definition slotOf :: "(u64 \<Rightarrow> int option) \<Rightarrow> CompactRecord list \<Rightarrow> u64 \<Rightarrow> CompactRecord option" where
  "slotOf latest records frn =
    (case latest frn of
       None \<Rightarrow> None
     | Some slot \<Rightarrow> if slot \<ge> 0 \<and> slot < int (length records) then Some (records ! nat slot) else None)"

abbreviation currentSlot :: "liveVolume \<Rightarrow> u64 \<Rightarrow> CompactRecord option" where
  "currentSlot vol frn \<equiv> slotOf (byFRN (overlay vol)) (slots (overlay vol)) frn"

definition latestOverlaySlotsByFRN :: "CompactRecord list \<Rightarrow> u64 \<Rightarrow> int option" where
  "latestOverlaySlotsByFRN records =
    foldl (\<lambda>latest i. let frn = FRN (records ! i) in if frn = 0 \<or> latest frn \<noteq> None then latest else latest(frn \<mapsto> int i))
      Map.empty (rev [0..<length records])"

section \<open>Sizes of folders\<close>

definition baseDirRecursiveSize :: "liveVolume \<Rightarrow> int \<Rightarrow> i64" where
  "baseDirRecursiveSize vol i =
    (if i < 0 \<or> i \<ge> int (length (subtreeTotals vol)) then 0
     else
       let size = wrap64 (sint (subtreeTotals vol ! nat i) + (case sizeDelta vol i of None \<Rightarrow> 0 | Some d \<Rightarrow> d))
       in if size < 0 then 0 else size)"

definition effectiveAccountingSize :: "liveVolume \<Rightarrow> u64 \<Rightarrow> i64" where
  "effectiveAccountingSize vol frn =
    (if frn = 0 then 0
     else case currentSlot vol frn of
       Some r \<Rightarrow>
         if Deleted r then 0
         else if isDirMode (Mode r) then (case idForFRN vol frn of Some i \<Rightarrow> baseDirRecursiveSize vol i | None \<Rightarrow> 0)
         else Size r
     | None \<Rightarrow>
         (case idForFRN vol frn of
            Some i \<Rightarrow>
              let r = baseRecord vol i in if isDirMode (Mode r) then baseDirRecursiveSize vol i else Size r
          | None \<Rightarrow> 0))"

definition effectiveParentFRN :: "liveVolume \<Rightarrow> u64 \<Rightarrow> u64" where
  "effectiveParentFRN vol frn =
    (if frn = 0 then 0
     else case currentSlot vol frn of
       Some r \<Rightarrow> ParentFRN r
     | None \<Rightarrow> (case idForFRN vol frn of Some i \<Rightarrow> ParentFRN (baseRecord vol i) | None \<Rightarrow> 0))"

fun ancestorClimb :: "nat \<Rightarrow> u64 \<Rightarrow> i64 \<Rightarrow> liveVolume \<Rightarrow> liveVolume" where
  "ancestorClimb 0 dirFRN delta vol = vol"
| "ancestorClimb (Suc depth) dirFRN delta vol =
    (if dirFRN = 0 then vol
     else case currentSlot vol dirFRN of
       Some r \<Rightarrow> ancestorClimb depth (ParentFRN r) delta vol
     | None \<Rightarrow>
         (case idForFRN vol dirFRN of
            None \<Rightarrow> vol
          | Some i \<Rightarrow>
              let old = (case sizeDelta vol i of None \<Rightarrow> 0 | Some d \<Rightarrow> d);
                  vol' = vol\<lparr>sizeDelta := (sizeDelta vol)(i \<mapsto> wrap64 (old + delta))\<rparr>;
                  up = ParentFRN (baseRecord vol i)
              in if up = dirFRN then vol' else ancestorClimb depth up delta vol'))"

definition addAncestorDirDelta :: "u64 \<Rightarrow> i64 \<Rightarrow> liveVolume \<Rightarrow> liveVolume" where
  "addAncestorDirDelta dirFRN delta vol = (if delta = 0 \<or> dirFRN = 0 then vol else ancestorClimb 4096 dirFRN delta vol)"

definition firstNonZeroFRN :: "u64 list \<Rightarrow> u64" where
  "firstNonZeroFRN values = (case dropWhile (\<lambda>v. v = 0) values of [] \<Rightarrow> 0 | v # _ \<Rightarrow> v)"

definition publishDirSizeDelta :: "liveVolume \<Rightarrow> liveVolume" where
  "publishDirSizeDelta vol = vol\<lparr>publishedDelta := (if sizeDelta vol = Map.empty then None else Some (sizeDelta vol))\<rparr>"

section \<open>Paths of slots\<close>

definition joinOverlayPath :: "liveEnv \<Rightarrow> string \<Rightarrow> string \<Rightarrow> string" where
  "joinOverlayPath env parentPath name =
    (if parentPath = [] then name
     else if isSlash (last parentPath) then parentPath @ name
     else
       let v = volumeNameF env parentPath
       in if v \<noteq> [] \<and> equalFold (pathEnv env) parentPath v then parentPath @ backslash # name else joinF env parentPath name)"

text \<open>The recursion has no bound of its own: the set of visited slots is passed on unchanged.\<close>

partial_function (option) overlayRecordPath ::
  "liveEnv \<Rightarrow> liveVolume \<Rightarrow> CompactRecord list \<Rightarrow> (u64 \<Rightarrow> int option) \<Rightarrow> int set \<Rightarrow> int \<Rightarrow> (int \<Rightarrow> string option) \<Rightarrow>
     (string \<times> (int \<Rightarrow> string option)) option" where
  "overlayRecordPath env vol records latest seen slot cache =
    (if slot < 0 \<or> slot \<ge> int (length records) then Some ([], cache)
     else
       let r = records ! nat slot; name = (if Name r = [] then ''.'' else Name r)
       in if Deleted r then Some ([], cache)
          else if ParentFRN r = 0 \<or> ParentFRN r = FRN r
          then Some (if volumeName vol \<noteq> [] \<and> name \<noteq> ''.'' then volumeName vol @ backslash # name
                     else if volumeName vol \<noteq> [] then volumeName vol @ [backslash] else name, cache)
          else
            let outside = (if volumeName vol \<noteq> [] then volumeName vol @ backslash # name else name)
            in case latest (ParentFRN r) of
              Some parentSlot \<Rightarrow>
                if parentSlot \<ge> 0
                then if parentSlot \<in> seen then Some ([], cache)
                  else Option.bind (overlayRecordPath env vol records latest seen parentSlot cache)
                    (\<lambda>(parentPath, cache'). Some (if parentPath \<noteq> [] then joinOverlayPath env parentPath name else [], cache'))
                else
                  (case idForFRN vol (ParentFRN r) of
                     Some p \<Rightarrow>
                       (case reconstructCompactPathCached (pathEnv env) (baseIndex vol) p cache of (parentPath, cache') \<Rightarrow>
                          Some (if parentPath \<noteq> [] then joinOverlayPath env parentPath name else outside, cache'))
                   | None \<Rightarrow> Some (outside, cache))
            | None \<Rightarrow>
                (case idForFRN vol (ParentFRN r) of
                   Some p \<Rightarrow>
                     (case reconstructCompactPathCached (pathEnv env) (baseIndex vol) p cache of (parentPath, cache') \<Rightarrow>
                        Some (if parentPath \<noteq> [] then joinOverlayPath env parentPath name else outside, cache'))
                 | None \<Rightarrow> Some (outside, cache)))"

definition setSlot :: "int \<Rightarrow> CompactRecord \<Rightarrow> liveVolume \<Rightarrow> liveVolume" where
  "setSlot slot r vol = vol\<lparr>overlay := (overlay vol)\<lparr>slots := (slots (overlay vol))[nat slot := r]\<rparr>\<rparr>"

definition refreshOverlayFileInfo :: "liveEnv \<Rightarrow> int \<Rightarrow> liveVolume \<Rightarrow> liveVolume option" where
  "refreshOverlayFileInfo env slot vol =
    (if volumeName vol = [] \<or> slot < 0 \<or> slot \<ge> int (length (slots (overlay vol))) then Some vol
     else
       Option.bind (overlayRecordPath env vol (slots (overlay vol)) (byFRN (overlay vol)) {} slot Map.empty)
         (\<lambda>(path, _).
            if path = [] then Some vol
            else case statF env path of
              None \<Rightarrow> Some vol
            | Some (bytes, modTime) \<Rightarrow> Some (setSlot slot ((slots (overlay vol) ! nat slot)\<lparr>Size := bytes, ModUnix := modTime\<rparr>) vol)))"


section \<open>Deleting\<close>

partial_function (option) tombstoneLoop :: "liveVolume \<Rightarrow> int list \<Rightarrow> overlayBaseIDSet \<Rightarrow> overlayBaseIDSet option" where
  "tombstoneLoop vol stack dead =
    (if stack = [] then Some dead
     else
       let i = last stack; stack' = butlast stack
       in if i < 0 \<or> i \<ge> baseCount vol \<or> setContains dead (toInt32 i) then tombstoneLoop vol stack' dead
          else tombstoneLoop vol (stack' @ map uint (childIDsForRecord (treeVolume.truncate vol) i)) (setAdd (toInt32 i) dead))"

definition tombstoneBaseSubtree :: "int \<Rightarrow> liveVolume \<Rightarrow> liveVolume option" where
  "tombstoneBaseSubtree rootID vol =
    (if rootID < 0 \<or> rootID \<ge> baseCount vol then Some vol
     else
       let put = (\<lambda>dead. vol\<lparr>overlay := (overlay vol)\<lparr>tombs := dead\<rparr>\<rparr>);
           s = subtreeStart vol ! nat rootID; e = subtreeEnd vol ! nat rootID
       in if rootID < int (length (subtreeStart vol)) \<and> rootID < int (length (subtreeEnd vol)) \<and> subtreeOrder vol \<noteq> [] \<and>
            s \<noteq> - 1 \<and> s \<le> e \<and> unat e \<le> length (subtreeOrder vol)
          then Some (put (foldl (\<lambda>dead i. setAdd (sint i) dead) (tombs (overlay vol))
            (take (unat e - unat s) (drop (unat s) (subtreeOrder vol)))))
          else map_option put (tombstoneLoop vol [rootID] (tombs (overlay vol))))"

text \<open>The next step up from a reference: dead or alive already, or the parent to ask.\<close>

definition chainStep :: "liveVolume \<Rightarrow> (u64 \<Rightarrow> int option) \<Rightarrow> u64 \<Rightarrow> bool + u64" where
  "chainStep vol latest frn =
    (case slotOf latest (slots (overlay vol)) frn of
       Some r \<Rightarrow>
         if Deleted r then Inl True else if ParentFRN r \<noteq> 0 \<and> ParentFRN r \<noteq> frn then Inr (ParentFRN r) else Inl False
     | None \<Rightarrow>
         (case idForFRN vol frn of
            None \<Rightarrow> Inl False
          | Some i \<Rightarrow>
              if setContains (tombs (overlay vol)) (toInt32 i) then Inl True
              else if i \<ge> 0 \<and> i < baseCount vol \<and> ParentFRN (baseRecord vol i) \<noteq> 0 \<and> ParentFRN (baseRecord vol i) \<noteq> frn
              then Inr (ParentFRN (baseRecord vol i)) else Inl False))"

function resolveDoomed :: "liveVolume \<Rightarrow> (u64 \<Rightarrow> int option) \<Rightarrow> u64 \<Rightarrow> u64 \<Rightarrow> u64 set \<Rightarrow> (u64 \<Rightarrow> bool option) \<Rightarrow> bool \<times> (u64 \<Rightarrow> bool option)" where
  "resolveDoomed vol latest deletedFRN frn seen known =
    (if frn = 0 then (False, known)
     else if frn = deletedFRN then (True, known)
     else case known frn of
       Some v \<Rightarrow> (v, known)
     | None \<Rightarrow>
         if frn \<in> seen then (False, known)
         else
           let (result, known') = (case chainStep vol latest frn of
                 Inl b \<Rightarrow> (b, known)
               | Inr parent \<Rightarrow> resolveDoomed vol latest deletedFRN parent (insert frn seen) known)
           in (result, known'(frn \<mapsto> result)))"
  by pat_completeness auto
termination
proof (relation "measure (\<lambda>(vol, latest, deletedFRN, frn, seen, known). card (- seen))", simp)
  fix frn :: u64 and seen :: "u64 set"
  assume "frn \<notin> seen"
  then have "- insert frn seen \<subset> - seen" by auto
  then have "card (- insert frn seen) < card (- seen)" by (intro psubset_card_mono) simp_all
  then show "((vol, latest, deletedFRN, parent, insert frn seen, known), vol, latest, deletedFRN, frn, seen, known)
      \<in> measure (\<lambda>(vol, latest, deletedFRN, frn, seen, known). card (- seen))" for vol latest deletedFRN parent known
    by simp
qed

declare resolveDoomed.simps [simp del]

definition victimStep :: "liveVolume \<Rightarrow> (u64 \<Rightarrow> int option) \<Rightarrow> u64 \<Rightarrow> u64 list \<times> (u64 \<Rightarrow> bool option) \<Rightarrow> u64 \<Rightarrow> u64 list \<times> (u64 \<Rightarrow> bool option)" where
  "victimStep vol latest deletedFRN acc frn =
    (case acc of (victims, known) \<Rightarrow>
       (case slotOf latest (slots (overlay vol)) frn of
          None \<Rightarrow> acc
        | Some r \<Rightarrow>
            if frn = 0 \<or> frn = deletedFRN \<or> Deleted r \<or> ParentFRN r = 0 \<or> ParentFRN r = frn then acc
            else case resolveDoomed vol latest deletedFRN (ParentFRN r) {frn} known of
              (dead, known') \<Rightarrow> (if dead then victims @ [frn] else victims, known')))"

definition appendSlot :: "CompactRecord \<Rightarrow> overlaySegment \<Rightarrow> overlaySegment" where
  "appendSlot r ov = ov\<lparr>byFRN := (byFRN ov)(FRN r \<mapsto> int (length (slots ov))), slots := slots ov @ [r]\<rparr>"

definition victimRecord :: "CompactRecord list \<Rightarrow> (u64 \<Rightarrow> int option) \<Rightarrow> u64 \<Rightarrow> CompactRecord" where
  "victimRecord records latest frn =
    (let prev = records ! nat (the (latest frn)) in zeroRecord\<lparr>FRN := frn, ParentFRN := ParentFRN prev, Name := Name prev, Deleted := True\<rparr>)"

definition cascadeOverlayDelete :: "liveEnv \<Rightarrow> u64 \<Rightarrow> liveVolume \<Rightarrow> liveVolume" where
  "cascadeOverlayDelete env deletedFRN vol =
    (if slots (overlay vol) = [] then vol
     else
       let records = slots (overlay vol); latest = latestOverlaySlotsByFRN records;
           victims = fst (foldl (victimStep vol latest deletedFRN) ([], Map.empty) (mapOrder env (dom latest)))
       in vol\<lparr>overlay := foldl (\<lambda>ov frn. appendSlot (victimRecord records latest frn) ov) (overlay vol) (sortSlice (<) victims)\<rparr>)"

section \<open>Applying changes\<close>

abbreviation hasReason :: "usnChange \<Rightarrow> u32 \<Rightarrow> bool" where
  "hasReason change reason \<equiv> cReason change AND reason \<noteq> 0"

definition usnReasonFileCreate :: u32 where "usnReasonFileCreate = 0x100"
definition usnReasonFileDelete :: u32 where "usnReasonFileDelete = 0x200"
definition usnReasonRenameOld :: u32 where "usnReasonRenameOld = 0x1000"
definition usnReasonRenameNew :: u32 where "usnReasonRenameNew = 0x2000"

definition usnReasonNeedsInfoRefresh :: u32 where
  "usnReasonNeedsInfoRefresh = 0x1 OR 0x2 OR 0x4 OR 0x8000 OR 0x80000000 OR usnReasonFileCreate OR usnReasonRenameNew OR usnReasonRenameOld"

text \<open>The record a deletion appends, and whether the deleted file is known not to be a directory.\<close>

definition deletionRecord :: "liveVolume \<Rightarrow> usnChange \<Rightarrow> CompactRecord" where
  "deletionRecord vol change =
    (let r = zeroRecord\<lparr>FRN := cFRN change, ParentFRN := cParentFRN change, Name := cName change, Deleted := True\<rparr>
     in case currentSlot vol (cFRN change) of
       None \<Rightarrow> r
     | Some prev \<Rightarrow> r\<lparr>Name := (if Name r = [] then Name prev else Name r),
         ParentFRN := (if ParentFRN r = 0 then ParentFRN prev else ParentFRN r)\<rparr>)"

definition provenFile :: "liveVolume \<Rightarrow> usnChange \<Rightarrow> bool" where
  "provenFile vol change =
    (let base = idForFRN vol (cFRN change);
         baseFile = (case base of None \<Rightarrow> False | Some i \<Rightarrow> \<not> isDirMode (Mode (baseRecord vol i)))
     in case currentSlot vol (cFRN change) of
       None \<Rightarrow> baseFile
     | Some prev \<Rightarrow> if Deleted prev then baseFile else if isDirMode (Mode prev) then False else if base = None then True else baseFile)"

definition raiseWatermark :: "liveVolume \<Rightarrow> liveVolume" where
  "raiseWatermark vol = vol\<lparr>overlay := (overlay vol)\<lparr>watermark := int (length (slots (overlay vol)))\<rparr>\<rparr>"

definition recordDeletion :: "liveEnv \<Rightarrow> usnChange \<Rightarrow> liveVolume \<Rightarrow> liveVolume option" where
  "recordDeletion env change vol =
    (let beforeSize = effectiveAccountingSize vol (cFRN change); oldParent = effectiveParentFRN vol (cFRN change);
         r = deletionRecord vol change; proven = provenFile vol change;
         vol1 = vol\<lparr>overlay := appendSlot r (overlay vol)\<rparr>
     in Option.bind (case idForFRN vol (cFRN change) of None \<Rightarrow> Some vol1 | Some i \<Rightarrow> tombstoneBaseSubtree i vol1)
          (\<lambda>vol2.
             let vol3 = raiseWatermark (if proven then vol2 else cascadeOverlayDelete env (cFRN change) vol2);
                 parent = firstNonZeroFRN [ParentFRN r, oldParent]
             in Some (if beforeSize \<noteq> 0 \<and> parent \<noteq> 0 then addAncestorDirDelta parent (wrap64 (- beforeSize)) vol3 else vol3)))"

text \<open>The record any other change appends; what the journal does not carry comes from the base.\<close>

definition changeRecord :: "liveVolume \<Rightarrow> usnChange \<Rightarrow> CompactRecord" where
  "changeRecord vol change =
    (let r = zeroRecord\<lparr>FRN := cFRN change, ParentFRN := cParentFRN change, Parent := - 1, Name := cName change, Mode := modeFromAttrs (cAttr change)\<rparr>
     in case idForFRN vol (cFRN change) of
       None \<Rightarrow> r
     | Some i \<Rightarrow>
         let base = baseRecord vol i
         in r\<lparr>Name := (if Name r = [] then Name base else Name r), ParentFRN := (if ParentFRN r = 0 then ParentFRN base else ParentFRN r),
              Size := Size base, ModUnix := ModUnix base\<rparr>)"

definition shadowBase :: "liveVolume \<Rightarrow> u64 \<Rightarrow> overlaySegment \<Rightarrow> overlaySegment" where
  "shadowBase vol frn ov =
    (case idForFRN vol frn of None \<Rightarrow> ov | Some i \<Rightarrow> ov\<lparr>shadows := setAdd (toInt32 i) (shadows ov)\<rparr>)"

definition recordUpdate :: "liveEnv \<Rightarrow> usnChange \<Rightarrow> bool \<Rightarrow> liveVolume \<Rightarrow> liveVolume option" where
  "recordUpdate env change refreshInfo vol =
    (let beforeSize = effectiveAccountingSize vol (cFRN change); oldParent = effectiveParentFRN vol (cFRN change);
         slot = int (length (slots (overlay vol)));
         vol1 = raiseWatermark (vol\<lparr>baseAttrs := True,
           overlay := appendSlot (changeRecord vol change) (shadowBase vol (cFRN change) (overlay vol))\<rparr>)
     in Option.bind (if refreshInfo then refreshOverlayFileInfo env slot vol1 else Some vol1)
          (\<lambda>vol2.
             let afterSize = effectiveAccountingSize vol2 (cFRN change);
                 afterParent = ParentFRN (slots (overlay vol2) ! nat slot);
                 vol3 = (if beforeSize \<noteq> 0 \<and> oldParent \<noteq> 0 then addAncestorDirDelta oldParent (wrap64 (- beforeSize)) vol2 else vol2);
                 parent = firstNonZeroFRN [afterParent, oldParent]
             in Some (if afterSize \<noteq> 0 \<and> parent \<noteq> 0 then addAncestorDirDelta parent afterSize vol3 else vol3)))"

definition recordOverlayChange :: "liveEnv \<Rightarrow> usnChange \<Rightarrow> bool \<Rightarrow> liveVolume \<Rightarrow> liveVolume option" where
  "recordOverlayChange env change refreshInfo vol =
    (if hasReason change usnReasonRenameOld \<and> \<not> hasReason change usnReasonRenameNew then Some vol
     else if hasReason change usnReasonFileDelete then recordDeletion env change vol
     else recordUpdate env change refreshInfo vol)"

text \<open>Changes inside the program's own directories are consumed.\<close>

definition ownedReplayParent :: "liveVolume \<Rightarrow> u64 \<Rightarrow> bool" where
  "ownedReplayParent vol parent = (if parent = 0 then False else parent \<in> ownedDirFRNs vol \<or> parent \<in> ownedDynamicDirFRNs vol)"

definition noteOwnedChildDir :: "usnChange \<Rightarrow> liveVolume \<Rightarrow> liveVolume" where
  "noteOwnedChildDir change vol =
    (if cAttr change AND fileAttributeDir = 0 then vol
     else
       let created = hasReason change (usnReasonFileCreate OR usnReasonRenameNew);
           removed = (hasReason change usnReasonFileDelete \<or> hasReason change usnReasonRenameOld \<and> \<not> hasReason change usnReasonRenameNew)
       in if \<not> created \<and> \<not> removed then vol
          else if created then vol\<lparr>ownedDynamicDirFRNs := insert (cFRN change) (ownedDynamicDirFRNs vol)\<rparr>
          else vol\<lparr>ownedDynamicDirFRNs := ownedDynamicDirFRNs vol - {cFRN change}\<rparr>)"

definition consumeOwnedReplayChange :: "usnChange \<Rightarrow> liveVolume \<Rightarrow> bool \<times> liveVolume" where
  "consumeOwnedReplayChange change vol =
    (if cFRN change = 0 then (False, vol)
     else if ownedReplayParent vol (cParentFRN change) then (True, noteOwnedChildDir change vol)
     else (False, if ownedDynamicDirFRNs vol \<noteq> {} then vol\<lparr>ownedDynamicDirFRNs := ownedDynamicDirFRNs vol - {cFRN change}\<rparr> else vol))"

definition filterOwnedReplayChanges :: "usnChange list \<Rightarrow> liveVolume \<Rightarrow> usnChange list \<times> liveVolume" where
  "filterOwnedReplayChanges changes vol =
    (if changes = [] \<or> ownedDirFRNs vol = {} \<and> ownedDynamicDirFRNs vol = {} then (changes, vol)
     else foldl (\<lambda>(kept, vol) change. case consumeOwnedReplayChange change vol of
            (consumed, vol') \<Rightarrow> (if consumed then kept else kept @ [change], vol')) ([], vol) changes)"

section \<open>Snapshots\<close>

definition publishSnapshot :: "liveVolume \<Rightarrow> liveVolume" where
  "publishSnapshot vol =
    (let ov = overlay vol; g = snapshotGen vol + 1
     in vol\<lparr>snapshotGen := g, snap := Some \<lparr>snapRecords = slots ov, tombstoneIDs = sortSlice (<) (ids (tombs ov)),
          shadowedIDs = sortSlice (<) (ids (shadows ov)), snapWatermark = watermark ov, gen = g\<rparr>\<rparr>)"

definition raiseCheckpoint :: "usnChange \<Rightarrow> liveVolume \<Rightarrow> liveVolume" where
  "raiseCheckpoint change vol = (if sint (cUSN change) > checkpoint vol then vol\<lparr>checkpoint := sint (cUSN change)\<rparr> else vol)"

definition lastChange :: "usnChange list \<Rightarrow> u64 \<Rightarrow> nat option" where
  "lastChange changes = foldl (\<lambda>m (i, c). if cFRN c \<noteq> 0 then m(cFRN c \<mapsto> i) else m) Map.empty (zip [0..<length changes] changes)"

definition applyOne :: "liveEnv \<Rightarrow> (u64 \<Rightarrow> nat option) \<Rightarrow> nat \<times> usnChange \<Rightarrow> liveVolume \<Rightarrow> liveVolume option" where
  "applyOne env newest ic vol =
    (case ic of (i, change) \<Rightarrow>
       if cFRN change = 0 then Some vol
       else case consumeOwnedReplayChange change vol of
         (True, vol') \<Rightarrow> Some (raiseCheckpoint change vol')
       | (False, vol') \<Rightarrow>
           map_option (raiseCheckpoint change)
             (recordOverlayChange env change (newest (cFRN change) = Some i \<and> hasReason change usnReasonNeedsInfoRefresh) vol'))"

fun applyAllChanges :: "liveEnv \<Rightarrow> (u64 \<Rightarrow> nat option) \<Rightarrow> (nat \<times> usnChange) list \<Rightarrow> liveVolume \<Rightarrow> liveVolume option" where
  "applyAllChanges env newest [] vol = Some vol"
| "applyAllChanges env newest (c # cs) vol = Option.bind (applyOne env newest c vol) (applyAllChanges env newest cs)"

definition applyUSNChanges :: "liveEnv \<Rightarrow> usnChange list \<Rightarrow> liveVolume \<Rightarrow> liveVolume option" where
  "applyUSNChanges env changes vol =
    map_option (\<lambda>vol. publishSnapshot (publishDirSizeDelta (vol\<lparr>baseCheckpoint := checkpoint vol, dirty := True\<rparr>)))
      (applyAllChanges env (lastChange changes) (zip [0..<length changes] changes) vol)"

section \<open>Folding the overlay into a new base\<close>

definition snapshotOverlayForFold :: "overlaySegment \<Rightarrow> overlaySegment" where
  "snapshotOverlayForFold live =
    (let w = min (watermark live) (int (length (slots live))); records = take (nat w) (slots live)
     in \<lparr>slots = records, byFRN = (\<lambda>frn. case byFRN live frn of Some slot \<Rightarrow> if slot < w then Some slot else None | None \<Rightarrow> None),
         tombs = tombs live, shadows = shadows live, watermark = int (length records), checkpointAtRotate = 0\<rparr>)"

definition foldCheckpointForFold :: "liveVolume \<Rightarrow> overlaySegment \<Rightarrow> i64" where
  "foldCheckpointForFold vol ov = (if checkpointAtRotate ov > 0 then checkpointAtRotate ov else checkpoint vol)"

definition keptBase :: "liveVolume \<Rightarrow> overlaySegment \<Rightarrow> CompactRecord list" where
  "keptBase vol ov =
    map (\<lambda>i. (baseRecord vol (int i))\<lparr>Parent := - 1\<rparr>)
      (filter (\<lambda>i. \<not> setContains (tombs ov) (toInt32 (int i)) \<and> \<not> setContains (shadows ov) (toInt32 (int i)) \<and>
        \<not> Deleted (baseRecord vol (int i))) [0..<length (recs vol)])"

definition keptSlots :: "overlaySegment \<Rightarrow> CompactRecord list" where
  "keptSlots ov =
    map (\<lambda>slot. (slots ov ! slot)\<lparr>Parent := - 1\<rparr>)
      (filter (\<lambda>slot. \<not> (case byFRN ov (FRN (slots ov ! slot)) of Some newest \<Rightarrow> newest \<noteq> int slot | None \<Rightarrow> False) \<and>
        \<not> Deleted (slots ov ! slot)) [0..<nat (min (watermark ov) (int (length (slots ov))))])"

definition linkParents :: "CompactRecord list \<Rightarrow> CompactRecord list" where
  "linkParents records =
    (let idByFRN = foldl (\<lambda>m (i, r). m(FRN r \<mapsto> int i)) Map.empty (zip [0..<length records] records)
     in map (\<lambda>r. if ParentFRN r = 0 \<or> ParentFRN r = FRN r then r\<lparr>Parent := - 1\<rparr>
          else case idByFRN (ParentFRN r) of Some parent \<Rightarrow> r\<lparr>Parent := parent\<rparr> | None \<Rightarrow> r) records)"

record foldedIndex =
  fRoots :: "string list"
  fVolume :: string
  fCheckpoint :: i64
  fAttrs :: bool
  fRecords :: "CompactRecord list"
  fNameOrder :: "int list"

definition compactOverlayIndexLocked :: "(string \<Rightarrow> string) \<Rightarrow> liveVolume \<Rightarrow> overlaySegment \<Rightarrow> foldedIndex" where
  "compactOverlayIndexLocked toLower vol ov =
    (let records = linkParents (keptBase vol ov @ keptSlots ov); low = (\<lambda>i. compactLowerName toLower (records ! nat i))
     in \<lparr>fRoots = baseRoots vol, fVolume = (if baseVolume vol = [] then volumeName vol else baseVolume vol),
         fCheckpoint = foldCheckpointForFold vol ov, fAttrs = baseAttrs vol, fRecords = records,
         fNameOrder = sortSlice (\<lambda>i j. if low i = low j then i < j else low i < low j) (map int [0..<length records])\<rparr>)"

definition overlayBaseIDSetDelta :: "overlayBaseIDSet \<Rightarrow> overlayBaseIDSet \<Rightarrow> overlayBaseIDSet" where
  "overlayBaseIDSetDelta live snapshot =
    foldl (\<lambda>out i. if setContains snapshot i then out else setAdd i out) emptyIDSet (ids live)"

definition carryOverlayDelta :: "overlaySegment \<Rightarrow> int \<Rightarrow> overlaySegment \<Rightarrow> overlaySegment" where
  "carryOverlayDelta live from folded =
    (let w = min (watermark live) (int (length (slots live)));
         out = (if w > from
           then newOverlaySegment\<lparr>slots := take (nat w - nat from) (drop (nat from) (slots live)),
                  byFRN := (\<lambda>frn. case byFRN live frn of Some slot \<Rightarrow> if slot \<ge> from \<and> slot < w then Some (slot - from) else None | None \<Rightarrow> None),
                  tombs := overlayBaseIDSetDelta (tombs live) (tombs folded), shadows := overlayBaseIDSetDelta (shadows live) (shadows folded)\<rparr>
           else newOverlaySegment)
     in out\<lparr>watermark := int (length (slots out))\<rparr>)"

end
