(* ===== verification/OverlayFacts.thy ===== *)
theory OverlayFacts
  imports Overlay
begin

text \<open>
  Lemmas about the overlay: what its sets hold, which slot is the newest of a reference, the invariant that every change
  keeps, and what a volume shows to its readers.
\<close>

section \<open>Sets of base records\<close>

definition setOk :: "overlayBaseIDSet \<Rightarrow> bool" where
  "setOk s \<longleftrightarrow> (\<forall>i. setContains s i \<longleftrightarrow> i \<in> set (ids s)) \<and> distinct (ids s) \<and> (\<forall>i\<in>set (ids s). 0 \<le> i) \<and> setCount s = length (ids s)"

lemma bitsetTest_append_zeros [simp]: "bitsetTest (bs @ replicate n 0) i = bitsetTest bs i"
  by (auto simp: bitsetTest_iff nth_append)

lemma setOk_empty [simp]: "setOk emptyIDSet"
  by (simp add: setOk_def emptyIDSet_def setContains_def bitsetTest_def)

lemma setAdd_ok:
  assumes "setOk s"
  shows "setOk (setAdd i s)" "set (ids (setAdd i s)) = (if i < 0 then set (ids s) else insert i (set (ids s)))"
proof -
  define grown where "grown = (if nat i div 64 \<ge> length (bits s) then bits s @ replicate (nat i div 64 + 1 - length (bits s)) 0 else bits s)"
  have test: "bitsetTest grown j = bitsetTest (bits s) j" for j by (simp add: grown_def)
  have room: "nat i div 64 < length grown" by (auto simp: grown_def)
  have add: "setAdd i s = (if i < 0 then s else if setContains s i then s\<lparr>bits := grown\<rparr>
      else \<lparr>bits = bitsetSet grown (nat i), ids = ids s @ [i], setCount = setCount s + 1\<rparr>)"
    unfolding setAdd_def Let_def grown_def [symmetric] test by (simp add: setContains_def)
  have set: "setContains \<lparr>bits = bitsetSet grown (nat i), ids = xs, setCount = n\<rparr> j \<longleftrightarrow> j = i \<or> setContains s j" if "0 \<le> i" for j xs n
    using that room by (auto simp: setContains_def bitsetTest_set test)
  have grown: "setContains (s\<lparr>bits := grown\<rparr>) j = setContains s j" for j by (simp add: setContains_def test)
  show "setOk (setAdd i s)" using assms set grown by (auto simp: add setOk_def)
  show "set (ids (setAdd i s)) = (if i < 0 then set (ids s) else insert i (set (ids s)))" using assms by (auto simp: add setOk_def)
qed

lemma setAdd_all:
  "setOk s \<Longrightarrow> setOk (foldl (\<lambda>s x. setAdd (f x) s) s xs) \<and>
    set (ids (foldl (\<lambda>s x. setAdd (f x) s) s xs)) = set (ids s) \<union> {i \<in> f ` set xs. 0 \<le> i}"
proof (induction xs arbitrary: s)
  case (Cons x xs)
  from Cons.IH [OF setAdd_ok(1) [OF Cons.prems]] setAdd_ok(2) [OF Cons.prems, of "f x"] show ?case by auto
qed simp

section \<open>The newest slots\<close>

definition noteSlot :: "CompactRecord list \<Rightarrow> (u64 \<Rightarrow> int option) \<Rightarrow> nat \<Rightarrow> (u64 \<Rightarrow> int option)" where
  "noteSlot records m i = (let frn = FRN (records ! i) in if frn = 0 \<or> m frn \<noteq> None then m else m(frn \<mapsto> int i))"

lemma latest_noteSlot: "latestOverlaySlotsByFRN records = foldl (noteSlot records) Map.empty (rev [0..<length records])"
  unfolding latestOverlaySlotsByFRN_def by (rule foldl_cong) (simp_all add: noteSlot_def)

lemma noteSlot_add: "noteSlot records (b ++ m) i = noteSlot records b i ++ m"
proof (cases "m (FRN (records ! i))")
  case None
  then show ?thesis by (auto simp: noteSlot_def map_add_def Let_def fun_eq_iff split: option.splits)
next
  case (Some k)
  then show ?thesis by (cases "b (FRN (records ! i))") (auto simp: noteSlot_def map_add_def Let_def fun_eq_iff split: option.splits)
qed

lemma latest_from: "foldl (noteSlot records) m xs = foldl (noteSlot records) Map.empty xs ++ m"
  by (induction xs rule: rev_induct) (simp_all add: noteSlot_add)

lemma noteSlot_cong:
  "\<forall>j\<in>set xs. FRN (rs ! j) = FRN (rs' ! j) \<Longrightarrow> foldl (noteSlot rs) m xs = foldl (noteSlot rs') m xs"
  by (rule foldl_cong) (simp_all add: noteSlot_def)

lemma latest_append [simp]:
  "latestOverlaySlotsByFRN (records @ [r]) =
    (if FRN r = 0 then latestOverlaySlotsByFRN records else (latestOverlaySlotsByFRN records)(FRN r \<mapsto> int (length records)))"
proof -
  have cong: "foldl (noteSlot (records @ [r])) m (rev [0..<length records]) = foldl (noteSlot records) m (rev [0..<length records])" for m
    by (rule noteSlot_cong) (simp add: nth_append)
  have "noteSlot (records @ [r]) Map.empty (length records) = (if FRN r = 0 then Map.empty else [FRN r \<mapsto> int (length records)])"
    by (simp add: noteSlot_def Let_def)
  then show ?thesis
    using latest_from [of records "[FRN r \<mapsto> int (length records)]"] by (simp add: latest_noteSlot cong)
qed

lemma latest_Nil [simp]: "latestOverlaySlotsByFRN [] = Map.empty"
  by (simp add: latestOverlaySlotsByFRN_def)

lemma latest_slot:
  "latestOverlaySlotsByFRN records frn = Some slot \<Longrightarrow> 0 \<le> slot \<and> slot < int (length records) \<and> FRN (records ! nat slot) = frn"
proof (induction records rule: rev_induct)
  case (snoc r records)
  then show ?case by (auto simp: nth_append nat_less_iff split: if_splits)
qed simp

lemma latest_None: "latestOverlaySlotsByFRN records frn = None \<longleftrightarrow> frn = 0 \<or> frn \<notin> FRN ` set records"
  by (induction records rule: rev_induct) auto

lemma latest_update: "FRN r = FRN (records ! i) \<Longrightarrow> latestOverlaySlotsByFRN (records[i := r]) = latestOverlaySlotsByFRN records"
proof -
  assume "FRN r = FRN (records ! i)"
  then have "FRN (records[i := r] ! j) = FRN (records ! j)" if "j < length records" for j
    using that by (cases "j = i") simp_all
  then show ?thesis unfolding latest_noteSlot length_list_update by (intro noteSlot_cong) simp
qed

text \<open>The newest record of a reference in a list of slots.\<close>

definition newest :: "CompactRecord list \<Rightarrow> u64 \<Rightarrow> CompactRecord option" where
  "newest records frn = (if frn = 0 then None else find (\<lambda>r. FRN r = frn) (rev records))"

lemma newest_append [simp]: "newest (records @ [r]) frn = (if frn \<noteq> 0 \<and> FRN r = frn then Some r else newest records frn)"
  by (simp add: newest_def)

lemma newest_Nil [simp]: "newest [] frn = None"
  by (simp add: newest_def)

lemma slotOf_latest: "slotOf (latestOverlaySlotsByFRN records) records frn = newest records frn"
proof (induction records rule: rev_induct)
  case (snoc r records)
  show ?case
  proof (cases "FRN r = frn \<and> frn \<noteq> 0")
    case False
    then have "slotOf (latestOverlaySlotsByFRN (records @ [r])) (records @ [r]) frn = slotOf (latestOverlaySlotsByFRN records) records frn"
      using latest_slot [of records frn] latest_None [of records 0]
      by (auto simp: slotOf_def nth_append nat_less_iff split: option.splits)
    with snoc False show ?thesis by auto
  qed (simp add: slotOf_def)
qed (simp add: slotOf_def)


section \<open>The invariant\<close>

text \<open>A base whose references lead to its records and whose tree arrays are built.\<close>

definition baseOk :: "liveVolume \<Rightarrow> bool" where
  "baseOk vol \<longleftrightarrow> length (recs vol) \<le> 2 ^ 31 \<and>
    (\<forall>frn i. idForFRN vol frn = Some i \<longrightarrow> 0 \<le> i \<and> i < baseCount vol \<and> FRN (recs vol ! nat i) = frn) \<and>
    (\<exists>ord. subtreeArrays (treeVolume.truncate vol) ord)"

definition hiddenBase :: "liveVolume \<Rightarrow> int \<Rightarrow> bool" where
  "hiddenBase vol i \<longleftrightarrow> i \<in> set (ids (tombs (overlay vol))) \<or> i \<in> set (ids (shadows (overlay vol)))"

text \<open>The newest slots are known, the sets are sound, a base record that has a slot is hidden, and a record is hidden as
  replaced only when it has a slot. The watermark counts the slots; a deletion raises it last.\<close>

definition wfSlots :: "liveVolume \<Rightarrow> bool" where
  "wfSlots vol \<longleftrightarrow>
    byFRN (overlay vol) = latestOverlaySlotsByFRN (slots (overlay vol)) \<and>
    setOk (tombs (overlay vol)) \<and> setOk (shadows (overlay vol)) \<and>
    (\<forall>r\<in>set (slots (overlay vol)). FRN r \<noteq> 0) \<and>
    (\<forall>frn i. newest (slots (overlay vol)) frn \<noteq> None \<and> idForFRN vol frn = Some i \<longrightarrow> hiddenBase vol i) \<and>
    (\<forall>i\<in>set (ids (shadows (overlay vol))). 0 \<le> i \<and> i < baseCount vol \<and> newest (slots (overlay vol)) (FRN (recs vol ! nat i)) \<noteq> None)"

definition wfOverlay :: "liveVolume \<Rightarrow> bool" where
  "wfOverlay vol \<longleftrightarrow> wfSlots vol \<and> watermark (overlay vol) = int (length (slots (overlay vol)))"

text \<open>The file a reference stands for, as readers see it.\<close>

definition visible :: "liveVolume \<Rightarrow> u64 \<Rightarrow> CompactRecord option" where
  "visible vol frn =
    (case newest (slots (overlay vol)) frn of
       Some r \<Rightarrow> if Deleted r then None else Some r
     | None \<Rightarrow>
         (case idForFRN vol frn of
            None \<Rightarrow> None
          | Some i \<Rightarrow> if hiddenBase vol i \<or> Deleted (baseRecord vol i) then None else Some (baseRecord vol i)))"

text \<open>Updates that leave the base alone.\<close>

lemma idForFRN_update [simp]:
  "idForFRN (vol\<lparr>overlay := ov\<rparr>) = idForFRN vol" "idForFRN (vol\<lparr>sizeDelta := d\<rparr>) = idForFRN vol"
  "idForFRN (vol\<lparr>baseAttrs := b\<rparr>) = idForFRN vol" "idForFRN (vol\<lparr>checkpoint := c\<rparr>) = idForFRN vol"
  "idForFRN (vol\<lparr>ownedDynamicDirFRNs := ow\<rparr>) = idForFRN vol" "idForFRN (vol\<lparr>publishedDelta := p\<rparr>) = idForFRN vol"
  "idForFRN (vol\<lparr>baseCheckpoint := c\<rparr>) = idForFRN vol" "idForFRN (vol\<lparr>dirty := b\<rparr>) = idForFRN vol"
  "idForFRN (vol\<lparr>snap := sn\<rparr>) = idForFRN vol" "idForFRN (vol\<lparr>snapshotGen := g\<rparr>) = idForFRN vol"
  by (simp_all add: idForFRN_def [abs_def] Let_def cong: if_cong option.case_cong)

lemma baseOk_update [simp]:
  "baseOk (vol\<lparr>overlay := ov\<rparr>) = baseOk vol" "baseOk (vol\<lparr>sizeDelta := d\<rparr>) = baseOk vol"
  "baseOk (vol\<lparr>baseAttrs := b\<rparr>) = baseOk vol" "baseOk (vol\<lparr>checkpoint := c\<rparr>) = baseOk vol"
  "baseOk (vol\<lparr>ownedDynamicDirFRNs := ow\<rparr>) = baseOk vol" "baseOk (vol\<lparr>publishedDelta := p\<rparr>) = baseOk vol"
  "baseOk (vol\<lparr>baseCheckpoint := c\<rparr>) = baseOk vol" "baseOk (vol\<lparr>dirty := b\<rparr>) = baseOk vol"
  "baseOk (vol\<lparr>snap := sn\<rparr>) = baseOk vol" "baseOk (vol\<lparr>snapshotGen := g\<rparr>) = baseOk vol"
  by (simp_all add: baseOk_def treeVolume.truncate_def)

lemma wfSlots_update [simp]:
  "wfSlots (vol\<lparr>sizeDelta := d\<rparr>) = wfSlots vol" "wfSlots (vol\<lparr>baseAttrs := b\<rparr>) = wfSlots vol"
  "wfSlots (vol\<lparr>checkpoint := c\<rparr>) = wfSlots vol" "wfSlots (vol\<lparr>ownedDynamicDirFRNs := ow\<rparr>) = wfSlots vol"
  "wfSlots (vol\<lparr>publishedDelta := p\<rparr>) = wfSlots vol" "wfSlots (vol\<lparr>baseCheckpoint := c\<rparr>) = wfSlots vol"
  "wfSlots (vol\<lparr>dirty := b\<rparr>) = wfSlots vol" "wfSlots (vol\<lparr>snap := sn\<rparr>) = wfSlots vol" "wfSlots (vol\<lparr>snapshotGen := g\<rparr>) = wfSlots vol"
  by (simp_all add: wfSlots_def hiddenBase_def)

lemma wfOverlay_update [simp]:
  "wfOverlay (vol\<lparr>sizeDelta := d\<rparr>) = wfOverlay vol" "wfOverlay (vol\<lparr>checkpoint := c\<rparr>) = wfOverlay vol"
  "wfOverlay (vol\<lparr>ownedDynamicDirFRNs := ow\<rparr>) = wfOverlay vol" "wfOverlay (vol\<lparr>publishedDelta := p\<rparr>) = wfOverlay vol"
  "wfOverlay (vol\<lparr>baseCheckpoint := c\<rparr>) = wfOverlay vol" "wfOverlay (vol\<lparr>dirty := b\<rparr>) = wfOverlay vol"
  "wfOverlay (vol\<lparr>snap := sn\<rparr>) = wfOverlay vol" "wfOverlay (vol\<lparr>snapshotGen := g\<rparr>) = wfOverlay vol"
  by (simp_all add: wfOverlay_def)

lemma visible_update [simp]:
  "visible (vol\<lparr>sizeDelta := d\<rparr>) = visible vol" "visible (vol\<lparr>baseAttrs := b\<rparr>) = visible vol"
  "visible (vol\<lparr>checkpoint := c\<rparr>) = visible vol" "visible (vol\<lparr>ownedDynamicDirFRNs := ow\<rparr>) = visible vol"
  "visible (vol\<lparr>publishedDelta := p\<rparr>) = visible vol" "visible (vol\<lparr>baseCheckpoint := c\<rparr>) = visible vol"
  "visible (vol\<lparr>dirty := b\<rparr>) = visible vol" "visible (vol\<lparr>snap := sn\<rparr>) = visible vol"
  "visible (vol\<lparr>snapshotGen := g\<rparr>) = visible vol"
  by (simp_all add: visible_def [abs_def] hiddenBase_def cong: if_cong option.case_cong)

lemma visible_overlay:
  "visible (vol\<lparr>overlay := ov\<rparr>) g =
    (case newest (slots ov) g of
       Some r \<Rightarrow> if Deleted r then None else Some r
     | None \<Rightarrow>
         (case idForFRN vol g of
            None \<Rightarrow> None
          | Some i \<Rightarrow> if i \<in> set (ids (tombs ov)) \<or> i \<in> set (ids (shadows ov)) \<or> Deleted (baseRecord vol i) then None else Some (baseRecord vol i)))"
  by (simp add: visible_def hiddenBase_def cong: if_cong option.case_cong)

lemma idForFRN_zero [simp]: "idForFRN vol 0 = None"
  by (simp add: idForFRN_def)

lemma baseOk_id:
  assumes "baseOk vol" "idForFRN vol frn = Some i"
  shows "0 \<le> i" "i < baseCount vol" "FRN (recs vol ! nat i) = frn" "toInt32 i = i"
proof -
  show "0 \<le> i" "i < baseCount vol" "FRN (recs vol ! nat i) = frn" using assms by (auto simp: baseOk_def)
  then show "toInt32 i = i" using assms(1) by (intro toInt32_id) (auto simp: baseOk_def)
qed

lemma newest_in: "newest records frn = Some r \<Longrightarrow> r \<in> set records \<and> FRN r = frn \<and> frn \<noteq> 0"
  by (induction records rule: rev_induct) (auto split: if_splits)

section \<open>Accounting leaves the overlay alone\<close>

lemma ancestorClimb_frame: "\<exists>d. ancestorClimb n dirFRN delta vol = vol\<lparr>sizeDelta := d\<rparr>"
proof (induction n dirFRN delta vol rule: ancestorClimb.induct)
  case (1 dirFRN delta vol)
  show ?case by (intro exI [of _ "sizeDelta vol"]) simp
next
  case (2 n dirFRN delta vol)
  have same: "\<exists>d. vol = vol\<lparr>sizeDelta := d\<rparr>" by (intro exI [of _ "sizeDelta vol"]) simp
  show ?case
  proof (cases "dirFRN = 0")
    case False
    note step = 2 [OF False]
    show ?thesis
    proof (cases "currentSlot vol dirFRN")
      case None
      show ?thesis
      proof (cases "idForFRN vol dirFRN")
        case (Some i)
        with None False step(1) [OF None Some refl refl refl] show ?thesis by (fastforce simp: Let_def)
      qed (use None False same in simp)
    qed (use step(2) False in simp)
  qed (use same in simp)
qed

lemma addAncestorDirDelta_frame: "\<exists>d. addAncestorDirDelta dirFRN delta vol = vol\<lparr>sizeDelta := d\<rparr>"
  using ancestorClimb_frame [of 4096 dirFRN delta vol] by (cases "delta = 0 \<or> dirFRN = 0")
    (auto simp: addAncestorDirDelta_def intro: exI [of _ "sizeDelta vol"])


section \<open>Appending a slot\<close>

lemma wfSlots_facts:
  assumes "wfSlots vol"
  shows "byFRN (overlay vol) = latestOverlaySlotsByFRN (slots (overlay vol))" "setOk (tombs (overlay vol))" "setOk (shadows (overlay vol))"
    "\<forall>r\<in>set (slots (overlay vol)). FRN r \<noteq> 0"
    "newest (slots (overlay vol)) frn \<noteq> None \<Longrightarrow> idForFRN vol frn = Some i \<Longrightarrow> hiddenBase vol i"
    "i \<in> set (ids (shadows (overlay vol))) \<Longrightarrow> 0 \<le> i \<and> i < baseCount vol \<and> newest (slots (overlay vol)) (FRN (recs vol ! nat i)) \<noteq> None"
    "currentSlot vol frn = newest (slots (overlay vol)) frn"
  using assms by (auto simp: wfSlots_def slotOf_latest)

lemma appendSlot_sel [simp]:
  "slots (appendSlot r ov) = slots ov @ [r]" "tombs (appendSlot r ov) = tombs ov" "shadows (appendSlot r ov) = shadows ov"
  "byFRN (appendSlot r ov) = (byFRN ov)(FRN r \<mapsto> int (length (slots ov)))"
  by (simp_all add: appendSlot_def)

lemma raiseWatermark_sel [simp]:
  "slots (overlay (raiseWatermark vol)) = slots (overlay vol)" "tombs (overlay (raiseWatermark vol)) = tombs (overlay vol)"
  "shadows (overlay (raiseWatermark vol)) = shadows (overlay vol)" "byFRN (overlay (raiseWatermark vol)) = byFRN (overlay vol)"
  "recs (raiseWatermark vol) = recs vol" "idForFRN (raiseWatermark vol) = idForFRN vol" "baseOk (raiseWatermark vol) = baseOk vol"
  "visible (raiseWatermark vol) = visible vol" "hiddenBase (raiseWatermark vol) = hiddenBase vol"
  "wfOverlay (raiseWatermark vol) = wfSlots vol"
  by (simp_all add: raiseWatermark_def visible_def [abs_def] hiddenBase_def [abs_def] wfOverlay_def wfSlots_def cong: if_cong option.case_cong)

lemma wfSlots_grow:
  assumes "wfSlots vol" "FRN r \<noteq> 0" "slots ov = slots (overlay vol) @ [r]"
    "byFRN ov = (byFRN (overlay vol))(FRN r \<mapsto> int (length (slots (overlay vol))))" "setOk (tombs ov)" "setOk (shadows ov)"
    "set (ids (tombs (overlay vol))) \<subseteq> set (ids (tombs ov))" "set (ids (shadows (overlay vol))) \<subseteq> set (ids (shadows ov))"
    "\<forall>i\<in>set (ids (shadows ov)) - set (ids (shadows (overlay vol))). 0 \<le> i \<and> i < baseCount vol \<and> FRN (recs vol ! nat i) = FRN r"
    "\<And>i. idForFRN vol (FRN r) = Some i \<Longrightarrow> i \<in> set (ids (tombs ov)) \<union> set (ids (shadows ov))"
  shows "wfSlots (vol\<lparr>overlay := ov\<rparr>)"
proof -
  note w = wfSlots_facts [OF assms(1)]
  have hides: "hiddenBase (vol\<lparr>overlay := ov\<rparr>) i" if "newest (slots ov) frn \<noteq> None" "idForFRN vol frn = Some i" for frn i
  proof (cases "frn = FRN r")
    case False
    with that(1) assms(3) have "newest (slots (overlay vol)) frn \<noteq> None" by simp
    with w(5) that(2) assms(7,8) show ?thesis by (auto simp: hiddenBase_def)
  qed (use assms(10) that(2) in \<open>auto simp: hiddenBase_def\<close>)
  have replaced: "0 \<le> i \<and> i < baseCount vol \<and> newest (slots ov) (FRN (recs vol ! nat i)) \<noteq> None" if "i \<in> set (ids (shadows ov))" for i
  proof (cases "i \<in> set (ids (shadows (overlay vol)))")
    case True
    with w(6) assms(3) show ?thesis by simp
  next
    case False
    with assms(9) that have "0 \<le> i \<and> i < baseCount vol \<and> FRN (recs vol ! nat i) = FRN r" by blast
    with assms(2,3) show ?thesis by simp
  qed
  have "\<forall>r\<in>set (slots ov). FRN r \<noteq> 0" "byFRN ov = latestOverlaySlotsByFRN (slots ov)" using assms(2-4) w(1,4) by auto
  with assms(5,6) hides replaced show ?thesis by (auto simp: wfSlots_def simp del: newest_append)
qed

section \<open>Creating, renaming and writing\<close>

lemma shadowBase_sel [simp]:
  "slots (shadowBase vol frn ov) = slots ov" "tombs (shadowBase vol frn ov) = tombs ov" "byFRN (shadowBase vol frn ov) = byFRN ov"
  by (simp_all add: shadowBase_def split: option.splits)

lemma shadowBase_set:
  assumes "baseOk vol" "setOk (shadows ov)"
  shows "setOk (shadows (shadowBase vol frn ov))"
    "set (ids (shadows (shadowBase vol frn ov))) = set (ids (shadows ov)) \<union> {i. idForFRN vol frn = Some i}"
  using assms(2) setAdd_ok [OF assms(2)] baseOk_id [OF assms(1), of frn]
  by (auto simp: shadowBase_def split: option.splits)

lemma changeRecord_FRN [simp]: "FRN (changeRecord vol change) = cFRN change" "\<not> Deleted (changeRecord vol change)"
  by (auto simp: changeRecord_def Let_def zeroRecord_def split: option.splits)

lemma update_slot:
  assumes "baseOk vol" "wfSlots vol" "cFRN change \<noteq> 0" "FRN r = cFRN change" "\<not> Deleted r"
    "ov = appendSlot r (shadowBase vol (cFRN change) (overlay vol))"
  shows "wfSlots (vol\<lparr>overlay := ov\<rparr>)" "visible (vol\<lparr>overlay := ov\<rparr>) = (visible vol)(cFRN change \<mapsto> r)"
proof -
  note w = wfSlots_facts [OF assms(2)]
  note sh = shadowBase_set [OF assms(1) w(3), of "cFRN change"]
  have ids: "FRN (recs vol ! nat i) = cFRN change \<and> 0 \<le> i \<and> i < baseCount vol" if "idForFRN vol (cFRN change) = Some i" for i
    using baseOk_id [OF assms(1) that] by simp
  show "wfSlots (vol\<lparr>overlay := ov\<rparr>)"
    by (rule wfSlots_grow [OF assms(2), of r]) (use assms sh w ids in auto)
  show "visible (vol\<lparr>overlay := ov\<rparr>) = (visible vol)(cFRN change \<mapsto> r)"
  proof
    fix g
    show "visible (vol\<lparr>overlay := ov\<rparr>) g = ((visible vol)(cFRN change \<mapsto> r)) g"
    proof (cases "g = cFRN change")
      case False
      have "hiddenBase (vol\<lparr>overlay := ov\<rparr>) i = hiddenBase vol i" if "idForFRN vol g = Some i" for i
        using baseOk_id [OF assms(1) that] ids [of i] False by (auto simp: hiddenBase_def assms(6) sh)
      with False assms(4,6) show ?thesis by (auto simp: visible_def split: option.splits)
    qed (use assms in \<open>simp add: visible_def\<close>)
  qed
qed

lemma refresh_frame:
  assumes "refreshOverlayFileInfo env slot vol = Some vol'"
  shows "vol' = vol \<or> (\<exists>b t. 0 \<le> slot \<and> slot < int (length (slots (overlay vol))) \<and>
    vol' = setSlot slot ((slots (overlay vol) ! nat slot)\<lparr>Size := b, ModUnix := t\<rparr>) vol)"
  using assms by (auto simp: refreshOverlayFileInfo_def split: if_splits bind_splits prod.splits option.splits)


lemma recordUpdate_frame:
  "\<exists>f. recordUpdate env change refreshInfo vol = map_option (\<lambda>v. v\<lparr>sizeDelta := f v\<rparr>)
    (let vol1 = raiseWatermark (vol\<lparr>baseAttrs := True, overlay := appendSlot (changeRecord vol change) (shadowBase vol (cFRN change) (overlay vol))\<rparr>)
     in if refreshInfo then refreshOverlayFileInfo env (int (length (slots (overlay vol)))) vol1 else Some vol1)"
proof -
  have frame: "\<exists>d. (if c then addAncestorDirDelta q y (if b then addAncestorDirDelta p x v else v) else (if b then addAncestorDirDelta p x v else v)) =
      v\<lparr>sizeDelta := d\<rparr>" for b c p q x y v
  proof -
    obtain d where "(if b then addAncestorDirDelta p x v else v) = v\<lparr>sizeDelta := d\<rparr>"
      using addAncestorDirDelta_frame [of p x v] by (cases b) (auto intro: that [of "sizeDelta v"])
    then show ?thesis using addAncestorDirDelta_frame [of q y "v\<lparr>sizeDelta := d\<rparr>"] by auto
  qed
  define g where "g = (\<lambda>vol2. let afterSize = effectiveAccountingSize vol2 (cFRN change);
      afterParent = ParentFRN (slots (overlay vol2) ! nat (int (length (slots (overlay vol)))));
      beforeSize = effectiveAccountingSize vol (cFRN change); oldParent = effectiveParentFRN vol (cFRN change);
      vol3 = (if beforeSize \<noteq> 0 \<and> oldParent \<noteq> 0 then addAncestorDirDelta oldParent (wrap64 (- beforeSize)) vol2 else vol2);
      parent = firstNonZeroFRN [afterParent, oldParent]
    in if afterSize \<noteq> 0 \<and> parent \<noteq> 0 then addAncestorDirDelta parent afterSize vol3 else vol3)"
  have "\<forall>v. \<exists>d. g v = v\<lparr>sizeDelta := d\<rparr>" unfolding g_def Let_def using frame by blast
  then obtain f where f: "\<And>v. g v = v\<lparr>sizeDelta := f v\<rparr>" by metis
  have "recordUpdate env change refreshInfo vol = Option.bind
      (let vol1 = raiseWatermark (vol\<lparr>baseAttrs := True, overlay := appendSlot (changeRecord vol change) (shadowBase vol (cFRN change) (overlay vol))\<rparr>)
       in if refreshInfo then refreshOverlayFileInfo env (int (length (slots (overlay vol)))) vol1 else Some vol1) (\<lambda>v. Some (g v))"
    unfolding recordUpdate_def g_def Let_def by (rule refl)
  then show ?thesis unfolding f by (intro exI [of _ f]) (simp add: bind_map_option [symmetric] map_conv_bind_option comp_def)
qed

lemma recordUpdate_effect:
  assumes "baseOk vol" "wfSlots vol" "cFRN change \<noteq> 0" "recordUpdate env change refreshInfo vol = Some vol'"
  obtains b t where "visible vol' = (visible vol)(cFRN change \<mapsto> (changeRecord vol change)\<lparr>Size := b, ModUnix := t\<rparr>)"
    "refreshInfo \<or> b = Size (changeRecord vol change) \<and> t = ModUnix (changeRecord vol change)"
    "wfOverlay vol'" "baseOk vol'"
proof -
  let ?r = "changeRecord vol change" and ?sh = "shadowBase vol (cFRN change) (overlay vol)" and ?n = "length (slots (overlay vol))"
  define put where "put r = raiseWatermark (vol\<lparr>baseAttrs := True, overlay := appendSlot r ?sh\<rparr>)" for r
  have "\<exists>f. Some vol' = map_option (\<lambda>v. v\<lparr>sizeDelta := f v\<rparr>) (if refreshInfo then refreshOverlayFileInfo env (int ?n) (put ?r) else Some (put ?r))"
    using recordUpdate_frame [of env change refreshInfo vol] unfolding assms(4) put_def Let_def .
  then have "\<exists>vol2. (if refreshInfo then refreshOverlayFileInfo env (int ?n) (put ?r) else Some (put ?r)) = Some vol2 \<and> (\<exists>d. vol' = vol2\<lparr>sizeDelta := d\<rparr>)"
    by (simp only: eq_commute [of "Some vol'"] map_option_eq_Some) blast
  then obtain vol2 where vol2: "(if refreshInfo then refreshOverlayFileInfo env (int ?n) (put ?r) else Some (put ?r)) = Some vol2"
    and rest: "\<exists>d. vol' = vol2\<lparr>sizeDelta := d\<rparr>" by blast
  obtain b t where r: "vol2 = put (?r\<lparr>Size := b, ModUnix := t\<rparr>)" "refreshInfo \<or> b = Size ?r \<and> t = ModUnix ?r"
  proof (cases "vol2 = put ?r")
    case False
    then obtain b t where "vol2 = setSlot (int ?n) ((slots (overlay (put ?r)) ! ?n)\<lparr>Size := b, ModUnix := t\<rparr>) (put ?r)" and refreshInfo
      using vol2 refresh_frame [of env "int ?n" "put ?r" vol2] by (auto split: if_splits)
    moreover have "setSlot (int ?n) ((slots (overlay (put ?r)) ! ?n)\<lparr>Size := b, ModUnix := t\<rparr>) (put ?r) = put (?r\<lparr>Size := b, ModUnix := t\<rparr>)"
      by (simp add: setSlot_def put_def raiseWatermark_def appendSlot_def)
    ultimately show thesis using that by simp
  qed (use that [where b = "Size ?r" and t = "ModUnix ?r"] in simp)
  let ?r' = "?r\<lparr>Size := b, ModUnix := t\<rparr>"
  have put: "put ?r' = raiseWatermark ((vol\<lparr>overlay := appendSlot ?r' ?sh\<rparr>)\<lparr>baseAttrs := True\<rparr>)" by (simp add: put_def raiseWatermark_def)
  have "FRN ?r' = cFRN change" "\<not> Deleted ?r'" by simp_all
  note slot = update_slot [OF assms(1-3) this refl]
  have "wfOverlay vol2" "visible vol2 = (visible vol)(cFRN change \<mapsto> ?r')" "baseOk vol2"
    unfolding r(1) put using slot assms(1) by simp_all
  with rest have "visible vol' = (visible vol)(cFRN change \<mapsto> ?r')" "wfOverlay vol'" "baseOk vol'" by (auto simp: wfOverlay_def)
  with that r(2) show thesis by blast
qed


section \<open>Deleting\<close>

lemma sint_of_nat_small: "n < 2 ^ 31 \<Longrightarrow> sint (of_nat n :: u32) = int n"
  by (simp add: sint_uint unsigned_of_nat take_bit_int_eq_self signed_take_bit_int_eq_self take_bit_nat_eq_self)

lemma tombstone_exact:
  assumes "baseOk vol" "0 \<le> i" "i < baseCount vol" "setOk (tombs (overlay vol))"
  obtains t where "tombstoneBaseSubtree i vol = Some (vol\<lparr>overlay := (overlay vol)\<lparr>tombs := t\<rparr>\<rparr>)" "setOk t"
    "set (ids t) = set (ids (tombs (overlay vol))) \<union> int ` desc (recs vol) (nat i)"
proof -
  obtain ord where "subtreeArrays (treeVolume.truncate vol) ord" using assms(1) by (auto simp: baseOk_def)
  then have arr: "subtreeOrder vol = map of_nat ord" "set ord = {..<length (recs vol)}" "distinct ord"
    "length (subtreeStart vol) = length (recs vol)" "length (subtreeEnd vol) = length (recs vol)"
    "\<forall>i<length (recs vol). \<exists>k. subtreeStart vol ! i = of_nat k \<and> subtreeEnd vol ! i = of_nat (k + card (desc (recs vol) i)) \<and>
      k + card (desc (recs vol) i) \<le> length ord \<and> ord ! k = i \<and>
      set (take (card (desc (recs vol) i)) (drop k ord)) = desc (recs vol) i"
    by (simp_all add: subtreeArrays_def treeVolume.truncate_def)
  have small: "length (recs vol) \<le> 2 ^ 31" using assms(1) by (simp add: baseOk_def)
  have len: "length ord = length (recs vol)" using arr(2,3) distinct_card [of ord] by simp
  have in_range: "nat i < length (recs vol)" using assms(2,3) by simp
  let ?c = "card (desc (recs vol) (nat i))"
  obtain k where k: "subtreeStart vol ! nat i = of_nat k" "subtreeEnd vol ! nat i = of_nat (k + ?c)" "k + ?c \<le> length ord"
    "set (take ?c (drop k ord)) = desc (recs vol) (nat i)"
    using arr(6) in_range by blast
  have u: "unat (of_nat k :: u32) = k" "unat (of_nat (k + ?c) :: u32) = k + ?c"
    using k(3) small len by (intro unat_of_nat_u32; simp)+
  have "of_nat k \<noteq> (- 1 :: u32)"
  proof
    assume "of_nat k = (- 1 :: u32)"
    then have "unat (of_nat k :: u32) = 2 ^ 32 - 1" by (simp add: unsigned_minus_1_eq_mask mask_eq_exp_minus_1)
    with u(1) k(3) small len show False by simp
  qed
  moreover have "(of_nat k :: u32) \<le> of_nat (k + ?c)" unfolding word_le_nat_alt u by simp
  moreover have "ord \<noteq> []" using in_range len by auto
  ultimately have branch: "tombstoneBaseSubtree i vol = Some (vol\<lparr>overlay := (overlay vol)\<lparr>tombs :=
      foldl (\<lambda>dead i. setAdd (sint i) dead) (tombs (overlay vol)) (take ?c (drop k (map of_nat ord :: u32 list)))\<rparr>\<rparr>)"
    using assms(2,3) arr(1,4,5) k(1-3) u len by (simp add: tombstoneBaseSubtree_def Let_def del: of_nat_add)
  note all = setAdd_all [OF assms(4), of sint "take ?c (drop k (map of_nat ord :: u32 list))"]
  have "(sint :: u32 \<Rightarrow> int) ` of_nat ` desc (recs vol) (nat i) = int ` desc (recs vol) (nat i)"
    unfolding image_image using desc_bound small by (intro image_cong refl sint_of_nat_small) fastforce
  then have "set (ids (foldl (\<lambda>dead i. setAdd (sint i) dead) (tombs (overlay vol)) (take ?c (drop k (map of_nat ord :: u32 list))))) =
      set (ids (tombs (overlay vol))) \<union> int ` desc (recs vol) (nat i)"
    using all k(4) by (simp add: drop_map take_map image_image) auto
  with branch all that show thesis by blast
qed

text \<open>The references whose chain of parents is dead: it reaches the deleted one, a deleted slot or a deleted base record.\<close>

inductive deadChain :: "liveVolume \<Rightarrow> u64 \<Rightarrow> u64 \<Rightarrow> bool" for vol deletedFRN where
  here: "frn \<noteq> 0 \<Longrightarrow> frn = deletedFRN \<Longrightarrow> deadChain vol deletedFRN frn"
| dead: "frn \<noteq> 0 \<Longrightarrow> chainStep vol (byFRN (overlay vol)) frn = Inl True \<Longrightarrow> deadChain vol deletedFRN frn"
| up: "frn \<noteq> 0 \<Longrightarrow> chainStep vol (byFRN (overlay vol)) frn = Inr p \<Longrightarrow> deadChain vol deletedFRN p \<Longrightarrow> deadChain vol deletedFRN frn"

lemma deadChain_step:
  "deadChain vol d frn \<longleftrightarrow> frn \<noteq> 0 \<and> (frn = d \<or> (case chainStep vol (byFRN (overlay vol)) frn of Inl b \<Rightarrow> b | Inr p \<Rightarrow> deadChain vol d p))"
  by (subst deadChain.simps) (auto split: sum.splits)

text \<open>A set of references closed under going up in which nobody is dead.\<close>

lemma deadChain_closed:
  assumes "deadChain vol d frn" "frn \<in> S" "\<forall>s\<in>S. s \<noteq> d \<and> (\<exists>p\<in>S. chainStep vol (byFRN (overlay vol)) s = Inr p)"
  shows False
  using assms by (induction rule: deadChain.induct) (fastforce)+

lemma resolveDoomed_exact:
  assumes "latest = byFRN (overlay vol)"
  shows "\<forall>g v. known g = Some v \<longrightarrow> v = deadChain vol d g \<Longrightarrow>
    \<forall>s\<in>seen. s \<noteq> d \<and> (\<exists>p\<in>insert frn seen. chainStep vol latest s = Inr p) \<Longrightarrow>
    (case resolveDoomed vol latest d frn seen known of (b, known') \<Rightarrow>
      b = deadChain vol d frn \<and> (\<forall>g v. known' g = Some v \<longrightarrow> v = deadChain vol d g))"
  using assms
proof (induction vol latest d frn seen known rule: resolveDoomed.induct)
  case (1 vol latest d frn seen known)
  show ?case
  proof (cases "frn = 0 \<or> frn = d \<or> known frn \<noteq> None")
    case True
    have "\<not> deadChain vol d 0" by (subst deadChain.simps) simp
    with True 1(2) show ?thesis by (subst resolveDoomed.simps) (auto simp: deadChain.here split: option.splits)
  next
    case False
    then have frn: "frn \<noteq> 0" "frn \<noteq> d" "known frn = None" by auto
    show ?thesis
    proof (cases "frn \<in> seen")
      case True
      then have "insert frn seen = seen" by blast
      then have "\<forall>s\<in>seen. s \<noteq> d \<and> (\<exists>p\<in>seen. chainStep vol (byFRN (overlay vol)) s = Inr p)" using 1(3) unfolding 1(4) by simp
      then have alive: "\<not> deadChain vol d frn" using deadChain_closed True by blast
      have "resolveDoomed vol latest d frn seen known = (False, known)"
        using True frn by (subst resolveDoomed.simps) simp
      with alive 1(2) show ?thesis by simp
    next
      case False
      show ?thesis
      proof (cases "chainStep vol latest frn")
        case (Inl b)
        then have "deadChain vol d frn = b" using frn 1(4) by (subst deadChain_step) simp
        moreover have "resolveDoomed vol latest d frn seen known = (b, known(frn \<mapsto> b))"
          using Inl False frn by (subst resolveDoomed.simps) simp
        ultimately show ?thesis using 1(2) by simp
      next
        case (Inr p)
        then have up: "deadChain vol d frn = deadChain vol d p" using frn 1(4) by (subst deadChain_step) simp
        have "\<forall>s\<in>insert frn seen. s \<noteq> d \<and> (\<exists>q\<in>insert p (insert frn seen). chainStep vol latest s = Inr q)"
        proof
          fix s assume "s \<in> insert frn seen"
          then show "s \<noteq> d \<and> (\<exists>q\<in>insert p (insert frn seen). chainStep vol latest s = Inr q)"
          proof
            assume "s \<in> seen"
            with 1(3) show ?thesis by (metis insertCI)
          qed (use Inr frn(2) in simp)
        qed
        from 1(1) [OF frn(1,2,3) False Inr 1(2) this 1(4)]
        have "case resolveDoomed vol latest d p (insert frn seen) known of (b, known') \<Rightarrow>
            b = deadChain vol d p \<and> (\<forall>g v. known' g = Some v \<longrightarrow> v = deadChain vol d g)" .
        moreover obtain b known' where r: "resolveDoomed vol latest d p (insert frn seen) known = (b, known')" by fastforce
        moreover have "resolveDoomed vol latest d frn seen known = (b, known'(frn \<mapsto> b))"
          using Inr False frn r by (subst resolveDoomed.simps) simp
        ultimately show ?thesis using up by simp
      qed
    qed
  qed
qed


text \<open>The files a cascade deletes: their newest slot is live and their parent is dead.\<close>

definition victim :: "liveVolume \<Rightarrow> u64 \<Rightarrow> u64 \<Rightarrow> bool" where
  "victim vol d frn \<longleftrightarrow>
    (case newest (slots (overlay vol)) frn of
       None \<Rightarrow> False
     | Some r \<Rightarrow> frn \<noteq> d \<and> \<not> Deleted r \<and> ParentFRN r \<noteq> 0 \<and> ParentFRN r \<noteq> frn \<and> deadChain vol d (ParentFRN r))"

definition soundKnown :: "liveVolume \<Rightarrow> u64 \<Rightarrow> (u64 \<Rightarrow> bool option) \<Rightarrow> bool" where
  "soundKnown vol d known \<longleftrightarrow> (\<forall>g v. known g = Some v \<longrightarrow> v = deadChain vol d g)"

lemma victimStep_exact:
  assumes "wfSlots vol" "soundKnown vol d known"
  shows "\<exists>known'. victimStep vol (byFRN (overlay vol)) d (victims, known) frn = (victims @ (if victim vol d frn then [frn] else []), known') \<and>
    soundKnown vol d known'"
proof (cases "newest (slots (overlay vol)) frn")
  case None
  with assms show ?thesis by (simp add: victimStep_def victim_def wfSlots_facts(7))
next
  case (Some r)
  then have nonzero: "frn \<noteq> 0" using newest_in by blast
  show ?thesis
  proof (cases "frn = d \<or> Deleted r \<or> ParentFRN r = 0 \<or> ParentFRN r = frn")
    case True
    with Some assms show ?thesis by (auto simp: victimStep_def victim_def wfSlots_facts(7))
  next
    case False
    then have "chainStep vol (byFRN (overlay vol)) frn = Inr (ParentFRN r)"
      using Some wfSlots_facts(7) [OF assms(1), of frn] by (simp add: chainStep_def)
    then have "\<forall>s\<in>{frn}. s \<noteq> d \<and> (\<exists>p\<in>insert (ParentFRN r) {frn}. chainStep vol (byFRN (overlay vol)) s = Inr p)"
      using False by simp
    from resolveDoomed_exact [OF refl _ this, of known] assms(2) obtain known' where
      "resolveDoomed vol (byFRN (overlay vol)) d (ParentFRN r) {frn} known = (deadChain vol d (ParentFRN r), known')" "soundKnown vol d known'"
      by (auto simp: soundKnown_def split: prod.splits)
    with False Some nonzero assms(1) show ?thesis by (auto simp: victimStep_def victim_def wfSlots_facts(7))
  qed
qed

lemma victims_exact:
  "wfSlots vol \<Longrightarrow> soundKnown vol d known \<Longrightarrow> fst (foldl (victimStep vol (byFRN (overlay vol)) d) (victims, known) xs) = victims @ filter (victim vol d) xs"
proof (induction xs arbitrary: victims known)
  case (Cons x xs)
  obtain known' where "victimStep vol (byFRN (overlay vol)) d (victims, known) x = (victims @ (if victim vol d x then [x] else []), known')"
    "soundKnown vol d known'" using victimStep_exact [OF Cons.prems] by blast
  with Cons.IH [OF Cons.prems(1)] show ?case by simp
qed simp

lemma append_victims:
  "wfSlots vol \<Longrightarrow> \<forall>v\<in>set vs. newest (slots (overlay vol)) v \<noteq> None \<Longrightarrow>
    ov = foldl (\<lambda>ov frn. appendSlot (victimRecord records latest frn) ov) (overlay vol) vs \<Longrightarrow>
    wfSlots (vol\<lparr>overlay := ov\<rparr>) \<and> visible (vol\<lparr>overlay := ov\<rparr>) = (\<lambda>g. if g \<in> set vs then None else visible vol g) \<and>
    tombs ov = tombs (overlay vol) \<and> shadows ov = shadows (overlay vol) \<and>
    (\<forall>g. newest (slots ov) g = (if g \<in> set vs then Some (victimRecord records latest g) else newest (slots (overlay vol)) g))"
proof (induction vs arbitrary: ov rule: rev_induct)
  case (snoc v vs)
  define ov1 where "ov1 = foldl (\<lambda>ov frn. appendSlot (victimRecord records latest frn) ov) (overlay vol) vs"
  have ih: "wfSlots (vol\<lparr>overlay := ov1\<rparr>)" "visible (vol\<lparr>overlay := ov1\<rparr>) = (\<lambda>g. if g \<in> set vs then None else visible vol g)"
    "tombs ov1 = tombs (overlay vol)" "shadows ov1 = shadows (overlay vol)"
    "\<And>g. newest (slots ov1) g = (if g \<in> set vs then Some (victimRecord records latest g) else newest (slots (overlay vol)) g)"
    using snoc.IH [OF snoc.prems(1) _ ov1_def] snoc.prems(2) by auto
  have ov: "ov = appendSlot (victimRecord records latest v) ov1" by (simp add: snoc.prems(3) ov1_def)
  have frn: "FRN (victimRecord records latest v) = v" "Deleted (victimRecord records latest v)"
    by (simp_all add: victimRecord_def Let_def)
  obtain r where r: "newest (slots (overlay vol)) v = Some r" using snoc.prems(2) by auto
  then have nonzero: "v \<noteq> 0" using newest_in by blast
  have "newest (slots ov1) v \<noteq> None" using ih(5) r by simp
  then have hidden: "hiddenBase (vol\<lparr>overlay := ov1\<rparr>) i" if "idForFRN vol v = Some i" for i
    using wfSlots_facts(5) [OF ih(1), of v i] that by simp
  have "wfSlots (vol\<lparr>overlay := ov1\<rparr>\<lparr>overlay := ov\<rparr>)"
    by (rule wfSlots_grow [OF ih(1), of "victimRecord records latest v"])
      (use wfSlots_facts [OF ih(1)] hidden nonzero frn in \<open>auto simp: ov hiddenBase_def\<close>)
  moreover have newest_now: "newest (slots ov) g = (if g = v then Some (victimRecord records latest v) else newest (slots ov1) g)" for g
    using nonzero frn by (simp add: ov)
  moreover have "visible (vol\<lparr>overlay := ov\<rparr>) g = (if g = v then None else visible (vol\<lparr>overlay := ov1\<rparr>) g)" for g
  proof -
    have sel: "tombs ov = tombs ov1" "shadows ov = shadows ov1" by (simp_all add: ov)
    show ?thesis unfolding visible_overlay newest_now sel using frn by simp
  qed
  ultimately show ?case using ih by (auto simp: ov fun_eq_iff)
qed simp

text \<open>The keys of a map, in some order.\<close>

definition visitsKeys :: "liveEnv \<Rightarrow> bool" where
  "visitsKeys env \<longleftrightarrow> (\<forall>S. set (mapOrder env S) = S)"

lemma cascade_effect:
  assumes "wfSlots vol" "visitsKeys env"
  shows "\<exists>ov. cascadeOverlayDelete env d vol = vol\<lparr>overlay := ov\<rparr> \<and> wfSlots (vol\<lparr>overlay := ov\<rparr>) \<and>
    visible (vol\<lparr>overlay := ov\<rparr>) = (\<lambda>g. if victim vol d g then None else visible vol g) \<and> tombs ov = tombs (overlay vol) \<and>
    (\<forall>g. if victim vol d g then \<exists>r. newest (slots ov) g = Some r \<and> Deleted r else newest (slots ov) g = newest (slots (overlay vol)) g)"
proof (cases "slots (overlay vol) = []")
  case True
  then have "cascadeOverlayDelete env d vol = vol\<lparr>overlay := overlay vol\<rparr>" by (simp add: cascadeOverlayDelete_def)
  moreover have "\<not> victim vol d g" for g using True by (simp add: victim_def)
  ultimately show ?thesis using assms(1) by (intro exI [of _ "overlay vol"]) simp
next
  case False
  let ?latest = "byFRN (overlay vol)" and ?records = "slots (overlay vol)"
  let ?vs = "sortSlice (<) (filter (victim vol d) (mapOrder env (dom ?latest)))"
  have latest: "latestOverlaySlotsByFRN ?records = ?latest" using wfSlots_facts(1) [OF assms(1)] by simp
  define ov where "ov = foldl (\<lambda>ov frn. appendSlot (victimRecord ?records ?latest frn) ov) (overlay vol) ?vs"
  have start: "soundKnown vol d Map.empty" by (simp add: soundKnown_def)
  have cascade: "cascadeOverlayDelete env d vol = vol\<lparr>overlay := ov\<rparr>"
    using False victims_exact [OF assms(1) start, of "[]"] by (simp add: cascadeOverlayDelete_def latest ov_def Let_def)
  have slot: "newest ?records g \<noteq> None" if "victim vol d g" for g using that by (auto simp: victim_def split: option.splits)
  have "g \<in> dom ?latest" if "victim vol d g" for g
    using slot [OF that] by (auto simp: latest [symmetric] slotOf_latest [symmetric] slotOf_def split: option.splits)
  then have vs: "set ?vs = Collect (victim vol d)" using assms(2) by (auto simp: set_sort_slice visitsKeys_def)
  have "\<forall>v\<in>set ?vs. newest ?records v \<noteq> None" using vs slot by blast
  note effect = append_victims [OF assms(1) this ov_def]
  show ?thesis
    using cascade effect by (intro exI [of _ ov]) (simp add: vs victimRecord_def Let_def)
qed


text \<open>The volume after a deletion is recorded and the subtree of the base is hidden, before the cascade.\<close>

definition hidesSubtree :: "liveVolume \<Rightarrow> u64 \<Rightarrow> u64 \<Rightarrow> bool" where
  "hidesSubtree vol d g \<longleftrightarrow> newest (slots (overlay vol)) g = None \<and>
    (\<exists>b i. idForFRN vol d = Some b \<and> idForFRN vol g = Some i \<and> nat i \<in> desc (recs vol) (nat b))"

definition markedDeleted :: "usnChange \<Rightarrow> liveVolume \<Rightarrow> liveVolume option" where
  "markedDeleted change vol =
    (let vol1 = vol\<lparr>overlay := appendSlot (deletionRecord vol change) (overlay vol)\<rparr>
     in case idForFRN vol (cFRN change) of None \<Rightarrow> Some vol1 | Some i \<Rightarrow> tombstoneBaseSubtree i vol1)"

lemma deletionRecord_FRN [simp]: "FRN (deletionRecord vol change) = cFRN change" "Deleted (deletionRecord vol change)"
  by (auto simp: deletionRecord_def Let_def split: option.splits)

lemma desc_int: "0 \<le> i \<Longrightarrow> i \<in> int ` desc rs p \<longleftrightarrow> nat i \<in> desc rs p"
  by (metis image_iff int_nat_eq nat_int)

lemma markedDeleted_effect:
  assumes "baseOk vol" "wfSlots vol" "cFRN change \<noteq> 0"
  obtains vol2 ov where "markedDeleted change vol = Some vol2" "vol2 = vol\<lparr>overlay := ov\<rparr>" "wfSlots vol2" "baseOk vol2"
    "visible vol2 = (\<lambda>g. if g = cFRN change \<or> hidesSubtree vol (cFRN change) g then None else visible vol g)"
    "newest (slots ov) = (newest (slots (overlay vol)))(cFRN change \<mapsto> deletionRecord vol change)"
proof -
  let ?d = "cFRN change" and ?r = "deletionRecord vol change"
  let ?ov1 = "appendSlot ?r (overlay vol)"
  note w = wfSlots_facts [OF assms(2)]
  define dead where "dead = (case idForFRN vol ?d of None \<Rightarrow> {} | Some b \<Rightarrow> int ` desc (recs vol) (nat b))"
  obtain t where marked: "markedDeleted change vol = Some (vol\<lparr>overlay := ?ov1\<lparr>tombs := t\<rparr>\<rparr>)" and t: "setOk t"
    "set (ids t) = set (ids (tombs (overlay vol))) \<union> dead"
  proof (cases "idForFRN vol ?d")
    case None
    then have "markedDeleted change vol = Some (vol\<lparr>overlay := ?ov1\<lparr>tombs := tombs (overlay vol)\<rparr>\<rparr>)"
      by (simp add: markedDeleted_def appendSlot_def)
    with that w(2) None show thesis by (simp add: dead_def)
  next
    case (Some b)
    have ok: "baseOk (vol\<lparr>overlay := ?ov1\<rparr>)" "0 \<le> b" "b < baseCount (vol\<lparr>overlay := ?ov1\<rparr>)"
      "setOk (tombs (overlay (vol\<lparr>overlay := ?ov1\<rparr>)))"
      using assms(1) baseOk_id [OF assms(1) Some] w(2) by simp_all
    from tombstone_exact [OF ok] obtain t where
      "tombstoneBaseSubtree b (vol\<lparr>overlay := ?ov1\<rparr>) = Some (vol\<lparr>overlay := ?ov1\<lparr>tombs := t\<rparr>\<rparr>)" "setOk t"
      "set (ids t) = set (ids (tombs (overlay vol))) \<union> int ` desc (recs vol) (nat b)" by auto
    with that Some show thesis by (simp add: markedDeleted_def dead_def)
  qed
  let ?ov = "?ov1\<lparr>tombs := t\<rparr>"
  have self: "i \<in> dead" if "idForFRN vol ?d = Some i" for i
    using baseOk_id [OF assms(1) that] that desc_self by (auto simp: dead_def desc_int)
  have wf: "wfSlots (vol\<lparr>overlay := ?ov\<rparr>)"
    by (rule wfSlots_grow [OF assms(2), of ?r]) (use assms(3) t self w in auto)
  have newest: "newest (slots ?ov) = (newest (slots (overlay vol)))(?d \<mapsto> ?r)"
    using assms(3) by (auto simp: fun_eq_iff)
  have "visible (vol\<lparr>overlay := ?ov\<rparr>) g = (if g = ?d \<or> hidesSubtree vol ?d g then None else visible vol g)" for g
  proof (cases "g = ?d \<or> newest (slots (overlay vol)) g \<noteq> None")
    case True
    then show ?thesis using newest unfolding visible_overlay by (auto simp: visible_def hidesSubtree_def)
  next
    case False
    then have none: "newest (slots ?ov) g = None" "newest (slots (overlay vol)) g = None" using newest by auto
    show ?thesis
    proof (cases "idForFRN vol g")
      case (Some i)
      have "i \<in> dead \<longleftrightarrow> hidesSubtree vol ?d g"
        using Some False baseOk_id [OF assms(1) Some] by (auto simp: dead_def hidesSubtree_def desc_int split: option.splits)
      with none Some False show ?thesis unfolding visible_overlay by (auto simp: visible_def hiddenBase_def t)
    qed (use none False in \<open>simp add: visible_overlay visible_def hidesSubtree_def\<close>)
  qed
  then have "visible (vol\<lparr>overlay := ?ov\<rparr>) = (\<lambda>g. if g = ?d \<or> hidesSubtree vol ?d g then None else visible vol g)" by blast
  moreover have "baseOk (vol\<lparr>overlay := ?ov\<rparr>)" using assms(1) by simp
  ultimately show thesis using that [OF marked refl wf] newest by blast
qed

lemma recordDeletion_frame:
  assumes "markedDeleted change vol = Some vol2"
  shows "\<exists>d. recordDeletion env change vol =
    Some ((raiseWatermark (if provenFile vol change then vol2 else cascadeOverlayDelete env (cFRN change) vol2))\<lparr>sizeDelta := d\<rparr>)"
proof -
  let ?p = "firstNonZeroFRN [ParentFRN (deletionRecord vol change), effectiveParentFRN vol (cFRN change)]"
    and ?x = "effectiveAccountingSize vol (cFRN change)"
    and ?v = "raiseWatermark (if provenFile vol change then vol2 else cascadeOverlayDelete env (cFRN change) vol2)"
  have "recordDeletion env change vol = Some (if ?x \<noteq> 0 \<and> ?p \<noteq> 0 then addAncestorDirDelta ?p (wrap64 (- ?x)) ?v else ?v)"
    using assms unfolding recordDeletion_def markedDeleted_def Let_def by simp
  moreover have "\<exists>d. (if c then addAncestorDirDelta p x v else v) = v\<lparr>sizeDelta := d\<rparr>" for c p x v
    using addAncestorDirDelta_frame [of p x v] by (cases c) (auto intro: exI [of _ "sizeDelta v"])
  ultimately show ?thesis by (simp only: option.inject)
qed

lemma recordDeletion_effect:
  assumes "baseOk vol" "wfSlots vol" "cFRN change \<noteq> 0" "visitsKeys env"
  shows "\<exists>vol' vol2. recordDeletion env change vol = Some vol' \<and> markedDeleted change vol = Some vol2 \<and> wfOverlay vol' \<and> baseOk vol' \<and>
    visible vol' = (\<lambda>g. if g = cFRN change \<or> hidesSubtree vol (cFRN change) g \<or> \<not> provenFile vol change \<and> victim vol2 (cFRN change) g
      then None else visible vol g)"
proof -
  let ?d = "cFRN change"
  obtain vol2 ov where vol2: "markedDeleted change vol = Some vol2" "wfSlots vol2" "baseOk vol2"
    "visible vol2 = (\<lambda>g. if g = ?d \<or> hidesSubtree vol ?d g then None else visible vol g)"
    using markedDeleted_effect [OF assms(1-3)] by metis
  define vol3 where "vol3 = (if provenFile vol change then vol2 else cascadeOverlayDelete env ?d vol2)"
  have vol3: "wfSlots vol3" "baseOk vol3"
    "visible vol3 = (\<lambda>g. if \<not> provenFile vol change \<and> victim vol2 ?d g then None else visible vol2 g)"
  proof -
    obtain ov where c: "cascadeOverlayDelete env ?d vol2 = vol2\<lparr>overlay := ov\<rparr>" "wfSlots (vol2\<lparr>overlay := ov\<rparr>)"
      "visible (vol2\<lparr>overlay := ov\<rparr>) = (\<lambda>g. if victim vol2 ?d g then None else visible vol2 g)"
      using cascade_effect [OF vol2(2) assms(4), of ?d] by blast
    show "wfSlots vol3" "baseOk vol3" "visible vol3 = (\<lambda>g. if \<not> provenFile vol change \<and> victim vol2 ?d g then None else visible vol2 g)"
      using c vol2(2,3) by (simp_all add: vol3_def)
  qed
  obtain d where r: "recordDeletion env change vol = Some ((raiseWatermark vol3)\<lparr>sizeDelta := d\<rparr>)"
    using recordDeletion_frame [OF vol2(1)] by (auto simp: vol3_def)
  show ?thesis
    by (intro exI conjI, rule r, rule vol2(1)) (use vol3 vol2(4) in \<open>auto simp: fun_eq_iff\<close>)
qed

end
