(* ===== verification/OverlayExact.thy ===== *)
theory OverlayExact
  imports OverlayFacts
begin

text \<open>
  What the overlay promises: every change has the effect on the visible files that it names, the invariant holds after every
  batch, readers of a published snapshot see the same files as the writer, a fold keeps exactly the visible files, and a path
  is found exactly when its chain of slots ends. Three examples show where it fails: files of a directory that was moved away
  from a deleted one, deletions carried over a persist, and a cycle of slots.
\<close>

section \<open>Single changes\<close>

text \<open>A change that a rename's first half reports is ignored.\<close>

definition ignoredChange :: "usnChange \<Rightarrow> bool" where
  "ignoredChange change \<longleftrightarrow> hasReason change usnReasonRenameOld \<and> \<not> hasReason change usnReasonRenameNew"


text \<open>
  C3: A deletion returns, whatever the volume looks like, and hides exactly its file, the files of the base subtree below it
  that no change has touched, and, unless the file is known not to be a directory, the files of the overlay whose chain of
  parents is dead. The order in which a map is visited does not matter.
\<close>

theorem overlay_delete_exact:
  assumes "baseOk vol" "wfOverlay vol" "cFRN change \<noteq> 0" "\<not> ignoredChange change" "hasReason change usnReasonFileDelete" "visitsKeys env"
  shows "\<exists>vol' vol2. recordOverlayChange env change refreshInfo vol = Some vol' \<and> markedDeleted change vol = Some vol2 \<and> wfOverlay vol' \<and>
    visible vol' = (\<lambda>g. if g = cFRN change \<or> hidesSubtree vol (cFRN change) g \<or> \<not> provenFile vol change \<and> victim vol2 (cFRN change) g
      then None else visible vol g)"
proof -
  have "recordOverlayChange env change refreshInfo vol = recordDeletion env change vol"
    using assms(4,5) by (auto simp: recordOverlayChange_def ignoredChange_def)
  moreover have "wfSlots vol" using assms(2) by (simp add: wfOverlay_def)
  ultimately show ?thesis using recordDeletion_effect [OF assms(1) _ assms(3,6)] by fastforce
qed

section \<open>Batches and snapshots\<close>

lemma recordOverlayChange_wf:
  assumes "baseOk vol" "wfOverlay vol" "cFRN change \<noteq> 0" "visitsKeys env" "recordOverlayChange env change refreshInfo vol = Some vol'"
  shows "wfOverlay vol' \<and> baseOk vol'"
proof -
  have wf: "wfSlots vol" using assms(2) by (simp add: wfOverlay_def)
  consider "vol' = vol" | "recordDeletion env change vol = Some vol'" | "recordUpdate env change refreshInfo vol = Some vol'"
    using assms(5) unfolding recordOverlayChange_def by (metis option.inject)
  then show ?thesis
  proof cases
    case 2
    with recordDeletion_effect [OF assms(1) wf assms(3,4)] show ?thesis by auto
  next
    case 3
    show ?thesis by (rule recordUpdate_effect [OF assms(1) wf assms(3) 3]) simp
  qed (use assms in simp)
qed

lemma applyOne_wf:
  assumes "baseOk vol" "wfOverlay vol" "visitsKeys env" "applyOne env newestAt ic vol = Some vol'"
  shows "wfOverlay vol' \<and> baseOk vol'"
proof -
  obtain i change where ic: "ic = (i, change)" by (cases ic)
  obtain consumed vol1 where c: "consumeOwnedReplayChange change vol = (consumed, vol1)" by (cases "consumeOwnedReplayChange change vol")
  then have "\<exists>ow. vol1 = vol\<lparr>ownedDynamicDirFRNs := ow\<rparr>"
    by (auto simp: consumeOwnedReplayChange_def noteOwnedChildDir_def Let_def split: if_splits intro: exI [of _ "ownedDynamicDirFRNs vol"])
  then have vol1: "baseOk vol1" "wfOverlay vol1" using assms(1,2) by auto
  have raise: "wfOverlay (raiseCheckpoint change v) = wfOverlay v" "baseOk (raiseCheckpoint change v) = baseOk v" for v
    by (simp_all add: raiseCheckpoint_def)
  show ?thesis
    using assms vol1 raise recordOverlayChange_wf [OF vol1 _ assms(3)]
    by (auto simp: applyOne_def ic c split: if_splits bool.splits)
qed

lemma applyAllChanges_wf:
  "baseOk vol \<Longrightarrow> wfOverlay vol \<Longrightarrow> visitsKeys env \<Longrightarrow> applyAllChanges env newestAt cs vol = Some vol' \<Longrightarrow> wfOverlay vol' \<and> baseOk vol'"
proof (induction cs arbitrary: vol)
  case (Cons c cs)
  then obtain vol1 where "applyOne env newestAt c vol = Some vol1" "applyAllChanges env newestAt cs vol1 = Some vol'"
    by (auto simp: bind_eq_Some_conv)
  with Cons applyOne_wf [OF Cons.prems(1-3)] show ?case by blast
qed simp

interpretation byNumber: keyed "(<) :: int \<Rightarrow> int \<Rightarrow> bool" id
  by unfold_locales simp

lemma ascending_sortSlice:
  fixes xs :: "int list"
  assumes "distinct xs"
  shows "ascending (sortSlice (<) xs)" "set (sortSlice (<) xs) = set xs"
  using byNumber.sortSlice_sorted [of xs] assms by simp_all

text \<open>
  C10: After every batch that returns, the invariant holds, and the published snapshot agrees with the writer: its records up
  to the watermark give the same newest slots, and its two sorted lists hide the same base records.
\<close>

theorem overlay_invariant:
  assumes "baseOk vol" "wfOverlay vol" "visitsKeys env" "applyUSNChanges env changes vol = Some vol'"
  shows "wfOverlay vol' \<and> (\<exists>s. snap vol' = Some s \<and>
    latestOverlaySlotsByFRN (take (nat (snapWatermark s)) (snapRecords s)) = byFRN (overlay vol') \<and>
    (\<forall>i. 0 \<le> i \<longrightarrow> i < 2 ^ 31 \<longrightarrow>
      hiddenContains \<lparr>tombstone = tombstoneIDs s, shadowed = shadowedIDs s\<rparr> i = hiddenBase vol' i))"
proof -
  obtain vol1 where vol1: "applyAllChanges env (lastChange changes) (zip [0..<length changes] changes) vol = Some vol1"
    and vol': "vol' = publishSnapshot (publishDirSizeDelta (vol1\<lparr>baseCheckpoint := checkpoint vol1, dirty := True\<rparr>))"
    using assms(4) by (auto simp: applyUSNChanges_def)
  have wf: "wfOverlay vol1" using applyAllChanges_wf [OF assms(1-3) vol1] by blast
  then have slots: "wfSlots vol1" "watermark (overlay vol1) = int (length (slots (overlay vol1)))" by (simp_all add: wfOverlay_def)
  note w = wfSlots_facts [OF slots(1)]
  have distinct: "distinct (ids (tombs (overlay vol1)))" "distinct (ids (shadows (overlay vol1)))" using w(2,3) by (simp_all add: setOk_def)
  have ov: "overlay vol' = overlay vol1" by (simp add: vol' publishSnapshot_def publishDirSizeDelta_def Let_def)
  have "wfOverlay vol'" using wf by (simp add: vol' publishSnapshot_def publishDirSizeDelta_def Let_def)
  moreover have "snap vol' = Some \<lparr>snapRecords = slots (overlay vol1), tombstoneIDs = sortSlice (<) (ids (tombs (overlay vol1))),
      shadowedIDs = sortSlice (<) (ids (shadows (overlay vol1))), snapWatermark = watermark (overlay vol1), gen = snapshotGen vol1 + 1\<rparr>"
    by (simp add: vol' publishSnapshot_def publishDirSizeDelta_def Let_def)
  ultimately show ?thesis
    using w(1) slots(2) ascending_sortSlice [OF distinct(1)] ascending_sortSlice [OF distinct(2)]
    by (simp add: hiddenContains_mem hiddenBase_def ov)
qed


section \<open>Folding\<close>

text \<open>Every live base record is the one its reference leads to.\<close>

definition baseComplete :: "liveVolume \<Rightarrow> bool" where
  "baseComplete vol \<longleftrightarrow> (\<forall>i < length (recs vol). \<not> Deleted (recs vol ! i) \<longrightarrow> idForFRN vol (FRN (recs vol ! i)) = Some (int i))"

lemma snapshot_same:
  assumes "wfOverlay vol"
  shows "slots (snapshotOverlayForFold (overlay vol)) = slots (overlay vol)" "byFRN (snapshotOverlayForFold (overlay vol)) = byFRN (overlay vol)"
    "tombs (snapshotOverlayForFold (overlay vol)) = tombs (overlay vol)" "shadows (snapshotOverlayForFold (overlay vol)) = shadows (overlay vol)"
    "watermark (snapshotOverlayForFold (overlay vol)) = int (length (slots (overlay vol)))"
proof -
  have "byFRN (overlay vol) frn = Some slot \<Longrightarrow> slot < int (length (slots (overlay vol)))" for frn slot
    using assms latest_slot [of "slots (overlay vol)" frn slot] by (simp add: wfOverlay_def wfSlots_def)
  then show "byFRN (snapshotOverlayForFold (overlay vol)) = byFRN (overlay vol)"
    using assms by (auto simp: snapshotOverlayForFold_def wfOverlay_def Let_def fun_eq_iff split: option.splits)
qed (use assms in \<open>simp_all add: snapshotOverlayForFold_def wfOverlay_def Let_def\<close>)

lemma set_keptBase:
  assumes "baseOk vol" "wfOverlay vol"
  shows "keptBase vol (snapshotOverlayForFold (overlay vol)) =
    map (\<lambda>i. (recs vol ! i)\<lparr>Parent := - 1\<rparr>) (filter (\<lambda>i. \<not> hiddenBase vol (int i) \<and> \<not> Deleted (recs vol ! i)) [0..<length (recs vol)])"
proof -
  have sets: "setOk (tombs (overlay vol))" "setOk (shadows (overlay vol))" using assms(2) by (simp_all add: wfOverlay_def wfSlots_def)
  have "toInt32 (int i) = int i" if "i < length (recs vol)" for i
    using that assms(1) by (intro toInt32_id) (auto simp: baseOk_def)
  moreover have "baseRecord vol (int i) = recs vol ! i" if "i < length (recs vol)" for i
    using that by (simp add: recordAt_def)
  ultimately show ?thesis
    using sets unfolding keptBase_def snapshot_same [OF assms(2)]
    by (intro map_cong filter_cong) (auto simp: setOk_def hiddenBase_def)
qed

lemma set_keptSlots:
  assumes "wfOverlay vol"
  shows "keptSlots (snapshotOverlayForFold (overlay vol)) =
    map (\<lambda>s. (slots (overlay vol) ! s)\<lparr>Parent := - 1\<rparr>)
      (filter (\<lambda>s. byFRN (overlay vol) (FRN (slots (overlay vol) ! s)) = Some (int s) \<and> \<not> Deleted (slots (overlay vol) ! s))
        [0..<length (slots (overlay vol))])"
proof -
  have "byFRN (overlay vol) (FRN (slots (overlay vol) ! s)) \<noteq> None" if "s < length (slots (overlay vol))" for s
    using assms that latest_None [of "slots (overlay vol)" "FRN (slots (overlay vol) ! s)"] by (auto simp: wfOverlay_def wfSlots_def)
  then show ?thesis
    unfolding keptSlots_def snapshot_same [OF assms]
    by (intro map_cong filter_cong) (fastforce split: option.splits)+
qed

lemma visible_slot:
  assumes "wfOverlay vol" "byFRN (overlay vol) frn = Some s"
  shows "newest (slots (overlay vol)) frn = Some (slots (overlay vol) ! nat s)" "0 \<le> s" "nat s < length (slots (overlay vol))"
    "FRN (slots (overlay vol) ! nat s) = frn"
proof -
  have "byFRN (overlay vol) = latestOverlaySlotsByFRN (slots (overlay vol))" using assms(1) by (simp add: wfOverlay_def wfSlots_def)
  then show "newest (slots (overlay vol)) frn = Some (slots (overlay vol) ! nat s)" "0 \<le> s" "nat s < length (slots (overlay vol))"
    "FRN (slots (overlay vol) ! nat s) = frn"
    using latest_slot [of "slots (overlay vol)" frn s] assms(2) slotOf_latest [of "slots (overlay vol)" frn] by (auto simp: slotOf_def)
qed

text \<open>Live slots and live base records, as the fold finds them.\<close>

lemma visible_cases:
  assumes "baseOk vol" "wfOverlay vol"
  shows "visible vol frn = Some v \<longleftrightarrow>
    (\<exists>s < length (slots (overlay vol)). byFRN (overlay vol) frn = Some (int s) \<and> \<not> Deleted (slots (overlay vol) ! s) \<and> v = slots (overlay vol) ! s) \<or>
    (\<exists>i < length (recs vol). idForFRN vol frn = Some (int i) \<and> \<not> hiddenBase vol (int i) \<and> \<not> Deleted (recs vol ! i) \<and> v = recs vol ! i)"
proof (cases "byFRN (overlay vol) frn")
  case None
  have "newest (slots (overlay vol)) frn = None"
    using assms(2) None slotOf_latest [of "slots (overlay vol)" frn] by (simp add: wfOverlay_def wfSlots_def slotOf_def)
  moreover have "\<exists>k < length (recs vol). i = int k \<and> baseRecord vol i = recs vol ! k" if "idForFRN vol frn = Some i" for i
    using baseOk_id(1,2) [OF assms(1) that] by (intro exI [of _ "nat i"]) (simp add: recordAt_def)
  ultimately show ?thesis using None by (auto simp: visible_def recordAt_def split: option.splits if_splits)
next
  case (Some s)
  note slot = visible_slot [OF assms(2) Some]
  then have "hiddenBase vol i" if "idForFRN vol frn = Some i" for i
    using that assms(2) wfSlots_facts(5) [of vol frn i] by (simp add: wfOverlay_def)
  then show ?thesis using slot Some by (auto simp: visible_def intro: exI [of _ "nat s"])
qed

lemma kept_exact:
  assumes "baseOk vol" "wfOverlay vol" "baseComplete vol"
    and "rs = keptBase vol (snapshotOverlayForFold (overlay vol)) @ keptSlots (snapshotOverlayForFold (overlay vol))"
  shows "distinct (map FRN rs)" "set rs = {v\<lparr>Parent := - 1\<rparr> | v frn. visible vol frn = Some v}"
    "\<And>frn v. visible vol frn = Some v \<Longrightarrow> FRN v = frn"
proof -
  let ?base = "filter (\<lambda>i. \<not> hiddenBase vol (int i) \<and> \<not> Deleted (recs vol ! i)) [0..<length (recs vol)]"
  let ?slot = "filter (\<lambda>s. byFRN (overlay vol) (FRN (slots (overlay vol) ! s)) = Some (int s) \<and> \<not> Deleted (slots (overlay vol) ! s))
    [0..<length (slots (overlay vol))]"
  have rs: "rs = map (\<lambda>i. (recs vol ! i)\<lparr>Parent := - 1\<rparr>) ?base @ map (\<lambda>s. (slots (overlay vol) ! s)\<lparr>Parent := - 1\<rparr>) ?slot"
    using assms(4) set_keptBase [OF assms(1,2)] set_keptSlots [OF assms(2)] by simp
  have id: "idForFRN vol (FRN (recs vol ! i)) = Some (int i)" if "i \<in> set ?base" for i
    using that assms(3) by (auto simp: baseComplete_def)
  show frn: "FRN v = frn" if "visible vol frn = Some v" for frn v
    using that baseOk_id(3) [OF assms(1)] visible_slot(4) [OF assms(2)] unfolding visible_cases [OF assms(1,2)] by force
  show "set rs = {v\<lparr>Parent := - 1\<rparr> | v frn. visible vol frn = Some v}"
  proof (intro set_eqI iffI)
    fix r assume "r \<in> set rs"
    then consider i where "i \<in> set ?base" "r = (recs vol ! i)\<lparr>Parent := - 1\<rparr>" | s where "s \<in> set ?slot" "r = (slots (overlay vol) ! s)\<lparr>Parent := - 1\<rparr>"
      by (auto simp: rs)
    then show "r \<in> {v\<lparr>Parent := - 1\<rparr> | v frn. visible vol frn = Some v}"
    proof cases
      case 1
      then have "visible vol (FRN (recs vol ! i)) = Some (recs vol ! i)" unfolding visible_cases [OF assms(1,2)] using id by auto
      with 1 show ?thesis by blast
    next
      case 2
      then have "visible vol (FRN (slots (overlay vol) ! s)) = Some (slots (overlay vol) ! s)" unfolding visible_cases [OF assms(1,2)] by auto
      with 2 show ?thesis by blast
    qed
  next
    fix r assume "r \<in> {v\<lparr>Parent := - 1\<rparr> | v frn. visible vol frn = Some v}"
    then obtain v frn where v: "visible vol frn = Some v" "r = v\<lparr>Parent := - 1\<rparr>" by blast
    then show "r \<in> set rs" using frn [OF v(1)] unfolding visible_cases [OF assms(1,2)] by (auto simp: rs)
  qed
  have "inj_on (\<lambda>i. FRN (recs vol ! i)) (set ?base)"
    using id by (intro inj_onI) (metis nat_int option.inject)
  moreover have "inj_on (\<lambda>s. FRN (slots (overlay vol) ! s)) (set ?slot)"
  proof (rule inj_onI)
    fix s s' assume "s \<in> set ?slot" "s' \<in> set ?slot" "FRN (slots (overlay vol) ! s) = FRN (slots (overlay vol) ! s')"
    then have "Some (int s) = Some (int s')" by simp
    then show "s = s'" by simp
  qed
  moreover have "FRN (recs vol ! i) \<noteq> FRN (slots (overlay vol) ! s)" if "i \<in> set ?base" "s \<in> set ?slot" for i s
  proof
    assume same: "FRN (recs vol ! i) = FRN (slots (overlay vol) ! s)"
    then have "newest (slots (overlay vol)) (FRN (recs vol ! i)) \<noteq> None" using that(2) visible_slot(1) [OF assms(2)] by fastforce
    then have "hiddenBase vol (int i)" using id [OF that(1)] assms(2) wfSlots_facts(5) by (fastforce simp: wfOverlay_def)
    with that(1) show False by simp
  qed
  ultimately show "distinct (map FRN rs)" by (auto simp: rs distinct_map comp_def simp del: set_filter)
qed


lemma idMap_exact:
  "distinct (map FRN rs) \<Longrightarrow>
    foldl (\<lambda>m (i, r). m(FRN r \<mapsto> int i)) Map.empty (zip [0..<length rs] rs) f = Some k \<longleftrightarrow> (\<exists>i < length rs. k = int i \<and> FRN (rs ! i) = f)"
proof (induction rs rule: rev_induct)
  case (snoc r rs)
  then have "FRN r \<notin> FRN ` set rs" by auto
  then have "FRN (rs ! i) \<noteq> FRN r" if "i < length rs" for i using that by (metis image_eqI nth_mem)
  with snoc show ?case by (auto simp: less_Suc_eq nth_append)
qed simp

lemma linkParents_nth:
  assumes "distinct (map FRN rs)" "\<forall>r\<in>set rs. Parent r = - 1" "i < length rs"
  shows "linkParents rs ! i = (rs ! i)\<lparr>Parent := Parent (linkParents rs ! i)\<rparr>"
    "Parent (linkParents rs ! i) = k \<longleftrightarrow>
      (if ParentFRN (rs ! i) \<noteq> 0 \<and> ParentFRN (rs ! i) \<noteq> FRN (rs ! i) \<and> ParentFRN (rs ! i) \<in> FRN ` set rs
       then \<exists>j < length rs. k = int j \<and> FRN (rs ! j) = ParentFRN (rs ! i) else k = - 1)"
proof -
  let ?m = "foldl (\<lambda>m (i, r). m(FRN r \<mapsto> int i)) Map.empty (zip [0..<length rs] rs)"
  have link: "linkParents rs ! i = (if ParentFRN (rs ! i) = 0 \<or> ParentFRN (rs ! i) = FRN (rs ! i) then (rs ! i)\<lparr>Parent := - 1\<rparr>
      else case ?m (ParentFRN (rs ! i)) of Some parent \<Rightarrow> (rs ! i)\<lparr>Parent := parent\<rparr> | None \<Rightarrow> rs ! i)"
    using assms(3) by (simp add: linkParents_def Let_def)
  have old: "Parent (rs ! i) = - 1" using assms(2,3) by simp
  then have old': "(rs ! i)\<lparr>Parent := - 1\<rparr> = rs ! i" by (metis CompactRecord.surjective CompactRecord.update_convs(3))
  show "linkParents rs ! i = (rs ! i)\<lparr>Parent := Parent (linkParents rs ! i)\<rparr>"
    unfolding link using old old' by (auto split: option.splits)
  have found: "?m (ParentFRN (rs ! i)) = Some k \<longleftrightarrow> (\<exists>j < length rs. k = int j \<and> FRN (rs ! j) = ParentFRN (rs ! i))" for k
    by (rule idMap_exact [OF assms(1)])
  show "Parent (linkParents rs ! i) = k \<longleftrightarrow>
      (if ParentFRN (rs ! i) \<noteq> 0 \<and> ParentFRN (rs ! i) \<noteq> FRN (rs ! i) \<and> ParentFRN (rs ! i) \<in> FRN ` set rs
       then \<exists>j < length rs. k = int j \<and> FRN (rs ! j) = ParentFRN (rs ! i) else k = - 1)"
  proof (cases "?m (ParentFRN (rs ! i))")
    case None
    have "ParentFRN (rs ! i) \<notin> FRN ` set rs"
    proof
      assume "ParentFRN (rs ! i) \<in> FRN ` set rs"
      then obtain j where "j < length rs" "FRN (rs ! j) = ParentFRN (rs ! i)" by (auto simp: in_set_conv_nth)
      with found [of "int j"] None show False by auto
    qed
    with None old show ?thesis unfolding link by auto
  next
    case (Some p)
    with found [of p] have "ParentFRN (rs ! i) \<in> FRN ` set rs" by (metis imageI nth_mem)
    with Some found [of k] show ?thesis unfolding link by auto
  qed
qed

lemma length_linkParents [simp]: "length (linkParents rs) = length rs"
  by (simp add: linkParents_def Let_def)

text \<open>
  C2: A fold keeps exactly the visible files: the new index holds one record for every reference that is visible and no
  other, with the visible data, and every record's parent is the position of the record its parent reference names, if that
  is another file of the new index.
\<close>

theorem fold_exact:
  assumes "baseOk vol" "wfOverlay vol" "baseComplete vol"
    and "rs = fRecords (compactOverlayIndexLocked toLower vol (snapshotOverlayForFold (overlay vol)))"
  shows "distinct (map FRN rs) \<and>
    (\<forall>frn. visible vol frn = None \<longleftrightarrow> frn \<notin> FRN ` set rs) \<and>
    (\<forall>r\<in>set rs. \<exists>v. visible vol (FRN r) = Some v \<and> r = v\<lparr>Parent := Parent r\<rparr>) \<and>
    (\<forall>i < length rs. \<forall>j < length rs. Parent (rs ! i) = int j \<longleftrightarrow>
      ParentFRN (rs ! i) = FRN (rs ! j) \<and> ParentFRN (rs ! i) \<noteq> 0 \<and> i \<noteq> j)"
proof -
  define ks where "ks = keptBase vol (snapshotOverlayForFold (overlay vol)) @ keptSlots (snapshotOverlayForFold (overlay vol))"
  note kept = kept_exact [OF assms(1-3) ks_def]
  have rs: "rs = linkParents ks" by (simp add: assms(4) compactOverlayIndexLocked_def ks_def Let_def)
  have none: "\<forall>r\<in>set ks. Parent r = - 1" using kept(2) by auto
  note link = linkParents_nth [OF kept(1) none]
  have nth: "rs ! i = (ks ! i)\<lparr>Parent := Parent (rs ! i)\<rparr>" if "i < length ks" for i using link(1) [OF that] by (simp add: rs)
  have frn: "FRN (rs ! i) = FRN (ks ! i)" "ParentFRN (rs ! i) = ParentFRN (ks ! i)" if "i < length ks" for i
    using nth [OF that] by (metis CompactRecord.ext_inject CompactRecord.surjective CompactRecord.update_convs(3))+
  have len: "length rs = length ks" by (simp add: rs)
  have map: "map FRN rs = map FRN ks" using frn by (intro nth_equalityI) (simp_all add: len)
  then have set: "FRN ` set rs = FRN ` set ks" by (metis list.set_map)
  have "distinct (map FRN rs)" using kept(1) by (simp add: map)
  moreover have "visible vol f = None \<longleftrightarrow> f \<notin> FRN ` set rs" for f
  proof -
    have "f \<in> FRN ` set ks \<longleftrightarrow> (\<exists>v g. visible vol g = Some v \<and> FRN v = f)"
    proof
      assume "\<exists>v g. visible vol g = Some v \<and> FRN v = f"
      then obtain v g where "visible vol g = Some v" "FRN v = f" by blast
      then have "v\<lparr>Parent := - 1\<rparr> \<in> set ks" "f = FRN (v\<lparr>Parent := - 1\<rparr>)" unfolding kept(2) by auto
      then show "f \<in> FRN ` set ks" by blast
    qed (auto simp: kept(2))
    also have "\<dots> \<longleftrightarrow> visible vol f \<noteq> None" using kept(3) by fastforce
    finally show ?thesis by (simp add: set)
  qed
  moreover have "\<exists>v. visible vol (FRN r) = Some v \<and> r = v\<lparr>Parent := Parent r\<rparr>" if "r \<in> set rs" for r
  proof -
    obtain i where i: "i < length ks" "r = rs ! i" using \<open>r \<in> set rs\<close> by (auto simp: in_set_conv_nth len)
    then have "ks ! i \<in> set ks" by simp
    then obtain v g where v: "visible vol g = Some v" "ks ! i = v\<lparr>Parent := - 1\<rparr>" unfolding kept(2) by blast
    have "r = v\<lparr>Parent := Parent r\<rparr>" using nth [OF i(1)] by (simp add: i(2) v(2))
    moreover have "FRN r = g" using frn(1) [OF i(1)] kept(3) [OF v(1)] by (simp add: i(2) v(2))
    ultimately show ?thesis using v(1) by blast
  qed
  moreover have "Parent (rs ! i) = int j \<longleftrightarrow> ParentFRN (rs ! i) = FRN (rs ! j) \<and> ParentFRN (rs ! i) \<noteq> 0 \<and> i \<noteq> j"
    if "i < length rs" "j < length rs" for i j
  proof -
    have same: "FRN (ks ! j) = FRN (ks ! l) \<longleftrightarrow> j = l" if "l < length ks" for l
      using kept(1) that \<open>j < length rs\<close> len by (metis distinct_conv_nth length_map nth_map)
    have "FRN (ks ! j) \<in> FRN ` set ks" using that(2) len by simp
    then show ?thesis
      using link(2) [of i "int j"] same [of i] that frn len by (auto simp: rs)
  qed
  ultimately show ?thesis by blast
qed


section \<open>Nothing visible below a deleted directory\<close>

text \<open>
  C30: After the deletion of a file that may be a directory, no live slot of the overlay has a dead chain of parents any more.
\<close>

theorem delete_leaves_no_orphans:
  assumes "baseOk vol" "wfOverlay vol" "cFRN change \<noteq> 0" "visitsKeys env" "\<not> provenFile vol change"
    and "recordDeletion env change vol = Some vol'"
  shows "\<forall>g. \<not> victim vol' (cFRN change) g"
proof -
  let ?d = "cFRN change"
  have wf: "wfSlots vol" using assms(2) by (simp add: wfOverlay_def)
  obtain vol2 where vol2: "markedDeleted change vol = Some vol2" "wfSlots vol2"
    using markedDeleted_effect [OF assms(1) wf assms(3)] by metis
  obtain ov where c: "cascadeOverlayDelete env ?d vol2 = vol2\<lparr>overlay := ov\<rparr>" "wfSlots (vol2\<lparr>overlay := ov\<rparr>)" "tombs ov = tombs (overlay vol2)"
    and new: "\<forall>g. if victim vol2 ?d g then \<exists>r. newest (slots ov) g = Some r \<and> Deleted r else newest (slots ov) g = newest (slots (overlay vol2)) g"
    using cascade_effect [OF vol2(2) assms(4), of ?d] by blast
  have dead: "\<exists>r. newest (slots ov) g = Some r \<and> Deleted r" if "victim vol2 ?d g" for g using new [rule_format, of g] that by simp
  have kept: "newest (slots ov) g = newest (slots (overlay vol2)) g" if "\<not> victim vol2 ?d g" for g using new [rule_format, of g] that by simp
  obtain d where vol': "vol' = (raiseWatermark (vol2\<lparr>overlay := ov\<rparr>))\<lparr>sizeDelta := d\<rparr>"
    using recordDeletion_frame [OF vol2(1), of env] assms(5,6) c(1) by auto
  have sel: "slots (overlay vol') = slots ov" "tombs (overlay vol') = tombs (overlay vol2)" "recs vol' = recs vol2" "idForFRN vol' = idForFRN vol2"
    by (simp_all add: vol' c(3))
  have slot': "slotOf (byFRN (overlay vol')) (slots ov) g = newest (slots ov) g" for g
    using wfSlots_facts(7) [OF c(2), of g] by (simp add: vol')
  have slot2: "slotOf (byFRN (overlay vol2)) (slots (overlay vol2)) g = newest (slots (overlay vol2)) g" for g
    by (rule wfSlots_facts(7) [OF vol2(2)])
  have step: "chainStep vol' (byFRN (overlay vol')) g = chainStep vol2 (byFRN (overlay vol2)) g" if "\<not> victim vol2 ?d g" for g
    unfolding chainStep_def sel slot' slot2 kept [OF that] ..
  have before: "deadChain vol2 ?d g" if "deadChain vol' ?d g" for g
    using that
  proof (induction rule: deadChain.induct)
    case (dead g)
    show ?case
    proof (cases "victim vol2 ?d g")
      case True
      then obtain r where r: "newest (slots (overlay vol2)) g = Some r" "\<not> Deleted r" "ParentFRN r \<noteq> 0" "ParentFRN r \<noteq> g" "deadChain vol2 ?d (ParentFRN r)"
        by (auto simp: victim_def split: option.splits)
      then have "chainStep vol2 (byFRN (overlay vol2)) g = Inr (ParentFRN r)" by (simp add: chainStep_def slot2)
      with dead(1) r(5) show ?thesis by (auto intro: deadChain.up)
    qed (use dead step in \<open>auto intro: deadChain.dead\<close>)
  next
    case (up g p)
    show ?case
    proof (cases "victim vol2 ?d g")
      case True
      then obtain r where "newest (slots ov) g = Some r" "Deleted r" using dead by blast
      then have "chainStep vol' (byFRN (overlay vol')) g = Inl True" by (simp add: chainStep_def sel(1) slot')
      with up(2) show ?thesis by simp
    qed (use up step in \<open>auto intro: deadChain.up\<close>)
  qed (auto intro: deadChain.here)
  show ?thesis
  proof (intro allI notI)
    fix g assume victim: "victim vol' ?d g"
    then obtain r where r: "newest (slots ov) g = Some r" "\<not> Deleted r" "g \<noteq> ?d" "ParentFRN r \<noteq> 0" "ParentFRN r \<noteq> g" "deadChain vol' ?d (ParentFRN r)"
      by (auto simp: victim_def sel split: option.splits)
    have alive: "\<not> victim vol2 ?d g" using dead [of g] r(1,2) by auto
    with r before [OF r(6)] kept [OF alive] show False by (simp add: victim_def)
  qed
qed


section \<open>Paths of slots\<close>

text \<open>The slot whose path the path of a slot needs first.\<close>

definition slotAbove :: "CompactRecord list \<Rightarrow> (u64 \<Rightarrow> int option) \<Rightarrow> int set \<Rightarrow> int \<Rightarrow> int option" where
  "slotAbove records latest seen slot =
    (if slot < 0 \<or> slot \<ge> int (length records) then None
     else
       let r = records ! nat slot
       in if Deleted r \<or> ParentFRN r = 0 \<or> ParentFRN r = FRN r then None
          else case latest (ParentFRN r) of None \<Rightarrow> None | Some p \<Rightarrow> if p \<ge> 0 \<and> p \<notin> seen then Some p else None)"

inductive chainEnds :: "CompactRecord list \<Rightarrow> (u64 \<Rightarrow> int option) \<Rightarrow> int set \<Rightarrow> int \<Rightarrow> bool" for records latest seen where
  "(\<And>p. slotAbove records latest seen slot = Some p \<Longrightarrow> chainEnds records latest seen p) \<Longrightarrow> chainEnds records latest seen slot"

lemma overlayRecordPath_step:
  "(\<exists>y. overlayRecordPath env vol records latest seen slot cache = Some y) \<longleftrightarrow>
    (case slotAbove records latest seen slot of
       None \<Rightarrow> True
     | Some p \<Rightarrow> (\<exists>y. overlayRecordPath env vol records latest seen p cache = Some y))"
  by (subst overlayRecordPath.simps)
    (auto simp: slotAbove_def Let_def bind_eq_Some_conv split: option.splits prod.splits)

lemma path_when_ends: "chainEnds records latest seen slot \<Longrightarrow> \<exists>y. overlayRecordPath env vol records latest seen slot cache = Some y"
proof (induction rule: chainEnds.induct)
  case (1 slot)
  show ?case by (subst overlayRecordPath_step) (use 1 in \<open>auto split: option.splits\<close>)
qed

lemma ends_when_path: "overlayRecordPath env vol records latest seen slot cache = Some y \<Longrightarrow> chainEnds records latest seen slot"
proof (induction rule: overlayRecordPath.raw_induct [rotated, consumes 1, case_names path])
  case (path path env vol records latest seen slot cache y)
  show ?case
  proof (rule chainEnds.intros)
    fix p assume "slotAbove records latest seen slot = Some p"
    then have "path env vol records latest seen p cache \<noteq> None"
      using path(2) by (auto simp: slotAbove_def Let_def bind_eq_Some_conv split: if_splits option.splits)
    then show "chainEnds records latest seen p" using path(1) by fastforce
  qed
qed

text \<open>
  C31: The path of a slot is found exactly when its chain of parent slots ends. On a cycle that avoids the visited slots the
  code recurses for ever.
\<close>

theorem overlay_path_returns_iff:
  "overlayRecordPath env vol records latest seen slot cache \<noteq> None \<longleftrightarrow> chainEnds records latest seen slot"
  using path_when_ends [of records latest seen slot env vol cache] ends_when_path [of env vol records latest seen slot cache] by auto

lemma overlay_path_cycle:
  assumes "records = [zeroRecord\<lparr>FRN := 1, ParentFRN := 2, Name := ''a''\<rparr>, zeroRecord\<lparr>FRN := 2, ParentFRN := 1, Name := ''b''\<rparr>]"
  shows "overlayRecordPath env vol records (latestOverlaySlotsByFRN records) {} 0 Map.empty = None"
proof -
  have latest: "latestOverlaySlotsByFRN records = [1 \<mapsto> 0, 2 \<mapsto> 1]"
    by (simp add: assms latestOverlaySlotsByFRN_def zeroRecord_def fun_eq_iff)
  have up: "slotAbove records (latestOverlaySlotsByFRN records) {} 0 = Some 1" "slotAbove records (latestOverlaySlotsByFRN records) {} 1 = Some 0"
    unfolding latest by (simp_all add: slotAbove_def assms zeroRecord_def)
  have "s \<noteq> 0 \<and> s \<noteq> 1" if "chainEnds records (latestOverlaySlotsByFRN records) {} s" for s
    using that
  proof (induction rule: chainEnds.induct)
    case (1 s)
    with up show ?case by fastforce
  qed
  then have "\<not> chainEnds records (latestOverlaySlotsByFRN records) {} 0" by blast
  then show ?thesis using ends_when_path by (metis not_Some_eq)
qed


section \<open>Examples\<close>

text \<open>A base with a directory, a directory in it and a file in that.\<close>

definition exampleBase :: liveVolume where
  "exampleBase = \<lparr>recs = [zeroRecord\<lparr>FRN := 1, Parent := - 1, Name := ''a'', Mode := modeDir\<rparr>,
       zeroRecord\<lparr>FRN := 2, ParentFRN := 1, Name := ''b'', Mode := modeDir\<rparr>, zeroRecord\<lparr>FRN := 3, ParentFRN := 2, Parent := 1, Name := ''c'', Size := 7\<rparr>],
     subtreeOrder = [0, 1, 2], subtreeStart = [0, 1, 2], subtreeEnd = [3, 3, 3], childOffsets = [], childIDs = [], rootIDs = [], liveChildren = None,
     volumeName = [], baseVolume = ''C:'', baseRoots = [], baseAttrs = True, baseCheckpoint = 0, publishedDelta = None, checkpoint = 0, dirty = False,
     frnToID = Map.empty, frns = [1, 2, 3], frnRecordIDs = [0, 1, 2], subtreeTotals = [7, 7, 0], sizeDelta = Map.empty,
     overlay = newOverlaySegment, snap = None, snapshotGen = 0, ownedDirFRNs = {}, ownedDynamicDirFRNs = {}\<rparr>"

definition exampleLive :: liveEnv where
  "exampleLive = \<lparr>pathEnv = exampleEnv, joinF = (\<lambda>p n. p @ backslash # n), volumeNameF = (\<lambda>p. []), statF = (\<lambda>p. None),
     mapOrder = sorted_list_of_set\<rparr>"

lemma example_ids: "idForFRN exampleBase frn = (if frn = 1 then Some 0 else if frn = 2 then Some 1 else if frn = 3 then Some 2 else None)"
proof -
  have s: "sortSearch (Suc (Suc (Suc 0))) p = (if p (Suc 0) then if p 0 then 0 else Suc 0 else if p (Suc (Suc 0)) then Suc (Suc 0) else Suc (Suc (Suc 0)))" for p
    by (simp add: sortSearch_def searchFrom.simps)
  show ?thesis
    by (simp add: idForFRN_def exampleBase_def s) (auto simp: word_le_nat_alt)
qed

lemma visitsKeys_example [simp]: "visitsKeys exampleLive"
  by (simp add: visitsKeys_def exampleLive_def)

lemma example_desc: "desc (recs exampleBase) 2 = {2}" "desc (recs exampleBase) 1 = {1, 2}" "desc (recs exampleBase) 0 = {0, 1, 2}"
proof -
  have kids: "set (kids (recs exampleBase) 0) = {1}" "set (kids (recs exampleBase) 1) = {2}" "set (kids (recs exampleBase) 2) = {}"
    by (auto simp: kidsBelow_def parentOf_def Let_def exampleBase_def zeroRecord_def less_Suc_eq nth_Cons' split: if_splits)
  have len: "0 < length (recs exampleBase)" "1 < length (recs exampleBase)" "2 < length (recs exampleBase)" by (simp_all add: exampleBase_def)
  show two: "desc (recs exampleBase) 2 = {2}" unfolding desc_kids [OF len(3)] kids by simp
  show one: "desc (recs exampleBase) 1 = {1, 2}" unfolding desc_kids [OF len(2)] kids by (simp add: two)
  show "desc (recs exampleBase) 0 = {0, 1, 2}" unfolding desc_kids [OF len(1)] kids using one by simp
qed

lemma baseOk_example [simp]: "baseOk exampleBase"
proof -
  have three: "i = 0 \<or> i = 1 \<or> i = 2" if "i < 3" for i :: nat using that by linarith
  have sel: "recs (treeVolume.truncate exampleBase) = recs exampleBase" "subtreeOrder (treeVolume.truncate exampleBase) = [0, 1, 2]"
    "subtreeStart (treeVolume.truncate exampleBase) = [0, 1, 2]" "subtreeEnd (treeVolume.truncate exampleBase) = [3, 3, 3]" "length (recs exampleBase) = 3"
    by (simp_all add: treeVolume.truncate_def exampleBase_def)
  have "\<exists>k. [0, 1, 2] ! i = (of_nat k :: u32) \<and> [3, 3, 3] ! i = (of_nat (k + card (desc (recs exampleBase) i)) :: u32) \<and>
      k + card (desc (recs exampleBase) i) \<le> length [0, 1, 2 :: nat] \<and> [0, 1, 2] ! k = i \<and>
      set (take (card (desc (recs exampleBase) i)) (drop k [0, 1, 2])) = desc (recs exampleBase) i" if "i < 3" for i
    using three [OF that]
  proof (elim disjE)
    assume "i = 2"
    show ?thesis unfolding \<open>i = 2\<close> example_desc by (intro exI [of _ 2]) simp
  next
    assume "i = 1"
    show ?thesis unfolding \<open>i = 1\<close> example_desc by (intro exI [of _ 1]) (simp add: numeral_2_eq_2)
  next
    assume "i = 0"
    show ?thesis unfolding \<open>i = 0\<close> example_desc by (intro exI [of _ 0]) simp
  qed
  then have "subtreeArrays (treeVolume.truncate exampleBase) [0, 1, 2]" unfolding subtreeArrays_def sel by auto
  moreover have "0 \<le> i \<and> i < baseCount exampleBase \<and> FRN (recs exampleBase ! nat i) = frn" if "idForFRN exampleBase frn = Some i" for frn i
    using that unfolding example_ids by (auto simp: exampleBase_def zeroRecord_def split: if_splits)
  ultimately show ?thesis unfolding baseOk_def by (auto simp: sel)
qed

lemma example_visible: "visible exampleBase frn = map_option (\<lambda>i. recs exampleBase ! nat i) (idForFRN exampleBase frn)"
proof -
  have "overlay exampleBase = newOverlaySegment" by (simp add: exampleBase_def)
  moreover have "\<not> Deleted (baseRecord exampleBase i)" "baseRecord exampleBase i = recs exampleBase ! nat i" if "idForFRN exampleBase frn = Some i" for i
    using that unfolding example_ids by (auto simp: exampleBase_def zeroRecord_def recordAt_def split: if_splits)
  ultimately show ?thesis
    by (auto simp: visible_def hiddenBase_def newOverlaySegment_def emptyIDSet_def split: option.splits)
qed

text \<open>Changes of the journal.\<close>

definition exampleChange :: "u64 \<Rightarrow> u64 \<Rightarrow> u32 \<Rightarrow> u32 \<Rightarrow> string \<Rightarrow> usnChange" where
  "exampleChange frn parent reason attr name = \<lparr>cFRN = frn, cParentFRN = parent, cUSN = 5, cReason = reason, cAttr = attr, cName = name\<rparr>"

lemma wfOverlay_example [simp]: "wfOverlay exampleBase"
  by (simp add: wfOverlay_def wfSlots_def exampleBase_def newOverlaySegment_def) (simp add: emptyIDSet_def)

lemma baseComplete_example [simp]: "baseComplete exampleBase"
  unfolding baseComplete_def example_ids by (auto simp: exampleBase_def zeroRecord_def less_Suc_eq)


theorem overlay_delete_exact_witness:
  "\<exists>vol'. recordOverlayChange exampleLive (exampleChange 1 0 usnReasonFileDelete 0 []) False exampleBase = Some vol' \<and> visible vol' 3 = None"
proof -
  let ?c = "exampleChange 1 0 usnReasonFileDelete 0 []"
  have flags: "cFRN ?c \<noteq> 0" "\<not> ignoredChange ?c" "hasReason ?c usnReasonFileDelete"
    by (simp_all add: exampleChange_def ignoredChange_def usnReasonRenameNew_def usnReasonRenameOld_def usnReasonFileDelete_def)
  have "newest (slots (overlay exampleBase)) 3 = None" by (simp add: exampleBase_def newOverlaySegment_def)
  then have "hidesSubtree exampleBase 1 3" using example_desc(3) by (simp add: hidesSubtree_def example_ids)
  moreover have "cFRN ?c = 1" by (simp add: exampleChange_def)
  ultimately show ?thesis
    using overlay_delete_exact [OF baseOk_example wfOverlay_example flags visitsKeys_example, of False] by fastforce
qed

theorem overlay_invariant_witness:
  "\<exists>vol'. applyUSNChanges exampleLive [exampleChange 3 2 usnReasonRenameNew 0 ''d''] exampleBase = Some vol' \<and> wfOverlay vol'"
proof -
  have no_name: "volumeName exampleBase = []" by (simp add: exampleBase_def)
  have "applyUSNChanges exampleLive [exampleChange 3 2 usnReasonRenameNew 0 ''d''] exampleBase \<noteq> None"
    by (simp add: applyUSNChanges_def applyOne_def consumeOwnedReplayChange_def ownedReplayParent_def lastChange_def recordOverlayChange_def
      recordUpdate_def refreshOverlayFileInfo_def raiseWatermark_def no_name Let_def exampleChange_def usnReasonRenameOld_def usnReasonRenameNew_def usnReasonFileDelete_def split: prod.splits bool.splits)
  then obtain vol' where "applyUSNChanges exampleLive [exampleChange 3 2 usnReasonRenameNew 0 ''d''] exampleBase = Some vol'" by blast
  with overlay_invariant [OF baseOk_example wfOverlay_example visitsKeys_example this] show ?thesis by blast
qed

theorem fold_exact_witness:
  "map FRN (fRecords (compactOverlayIndexLocked id exampleBase (snapshotOverlayForFold (overlay exampleBase)))) \<noteq> [] \<and>
   distinct (map FRN (fRecords (compactOverlayIndexLocked id exampleBase (snapshotOverlayForFold (overlay exampleBase)))))"
proof -
  note fold = fold_exact [OF baseOk_example wfOverlay_example baseComplete_example refl, of id]
  have "visible exampleBase 1 \<noteq> None" by (simp add: example_visible example_ids)
  with fold show ?thesis by fastforce
qed

theorem delete_leaves_no_orphans_witness:
  "\<exists>vol'. recordDeletion exampleLive (exampleChange 1 0 usnReasonFileDelete 0 []) exampleBase = Some vol' \<and> (\<forall>g. \<not> victim vol' 1 g)"
proof -
  let ?c = "exampleChange 1 0 usnReasonFileDelete 0 []"
  have c: "cFRN ?c \<noteq> 0" "cFRN ?c = 1" by (simp_all add: exampleChange_def)
  have "wfSlots exampleBase" using wfOverlay_example by (simp add: wfOverlay_def)
  then obtain vol' where run: "recordDeletion exampleLive ?c exampleBase = Some vol'"
    using recordDeletion_effect [OF baseOk_example _ c(1) visitsKeys_example] by blast
  have "\<not> provenFile exampleBase ?c"
    by (simp add: provenFile_def c(2) example_ids Let_def slotOf_def) (simp add: exampleBase_def newOverlaySegment_def zeroRecord_def recordAt_def isDirMode_def modeDir_def)
  from delete_leaves_no_orphans [OF baseOk_example wfOverlay_example c(1) visitsKeys_example this run] run c(2) show ?thesis by auto
qed


section \<open>Where it fails\<close>

text \<open>An update of a file of the example, with the file system not asked.\<close>

lemma example_update:
  assumes "cFRN change \<noteq> 0" "\<not> ignoredChange change" "\<not> hasReason change usnReasonFileDelete"
  shows "\<exists>vol1. recordOverlayChange exampleLive change False exampleBase = Some vol1 \<and> baseOk vol1 \<and> wfOverlay vol1 \<and> recs vol1 = recs exampleBase \<and>
    baseIndex vol1 = baseIndex exampleBase \<and> idForFRN vol1 = idForFRN exampleBase \<and> slots (overlay vol1) = [changeRecord exampleBase change] \<and> tombs (overlay vol1) = emptyIDSet \<and>
    shadows (overlay vol1) = shadows (shadowBase exampleBase (cFRN change) newOverlaySegment) \<and>
    visible vol1 = (visible exampleBase)(cFRN change \<mapsto> changeRecord exampleBase change)"
proof -
  let ?ov = "appendSlot (changeRecord exampleBase change) (shadowBase exampleBase (cFRN change) (overlay exampleBase))"
  let ?vol1 = "exampleBase\<lparr>baseAttrs := True, overlay := ?ov\<rparr>"
  have wf: "wfSlots exampleBase" using wfOverlay_example by (simp add: wfOverlay_def)
  have base: "overlay exampleBase = newOverlaySegment" by (simp add: exampleBase_def)
  obtain d where run: "recordUpdate exampleLive change False exampleBase = Some ((raiseWatermark ?vol1)\<lparr>sizeDelta := d\<rparr>)"
    using recordUpdate_frame [of exampleLive change False exampleBase] by (auto simp: Let_def)
  have "recordOverlayChange exampleLive change False exampleBase = Some ((raiseWatermark ?vol1)\<lparr>sizeDelta := d\<rparr>)"
    using run assms(2,3) by (auto simp: recordOverlayChange_def ignoredChange_def)
  moreover have "FRN (changeRecord exampleBase change) = cFRN change" "\<not> Deleted (changeRecord exampleBase change)" by simp_all
  note slot = update_slot [OF baseOk_example wf assms(1) this refl]
  have swap: "?vol1 = (exampleBase\<lparr>overlay := ?ov\<rparr>)\<lparr>baseAttrs := True\<rparr>" by simp
  have "wfOverlay ((raiseWatermark ?vol1)\<lparr>sizeDelta := d\<rparr>)"
    "visible ((raiseWatermark ?vol1)\<lparr>sizeDelta := d\<rparr>) = (visible exampleBase)(cFRN change \<mapsto> changeRecord exampleBase change)"
    unfolding swap by (simp_all only: wfOverlay_update visible_update raiseWatermark_sel wfSlots_update slot)
  ultimately show ?thesis
    by (intro exI [of _ "(raiseWatermark ?vol1)\<lparr>sizeDelta := d\<rparr>"] conjI)
      (simp_all add: base newOverlaySegment_def, simp_all add: baseIndex_def raiseWatermark_def)
qed

text \<open>
  The subtree that a deletion hides is the one of the base: a directory that was moved elsewhere keeps its own record, but
  the files below it are hidden with its former parent.
\<close>

lemma moved_directory_loses_contents:
  "\<exists>vol1 vol2. recordOverlayChange exampleLive (exampleChange 2 9 usnReasonRenameNew fileAttributeDir ''b'') False exampleBase = Some vol1 \<and>
    recordOverlayChange exampleLive (exampleChange 1 0 usnReasonFileDelete fileAttributeDir ''a'') False vol1 = Some vol2 \<and>
    map_option ParentFRN (visible vol2 2) = Some 9 \<and> map_option ParentFRN (visible vol1 3) = Some 2 \<and> visible vol2 3 = None"
proof -
  let ?m = "exampleChange 2 9 usnReasonRenameNew fileAttributeDir ''b''" and ?c = "exampleChange 1 0 usnReasonFileDelete fileAttributeDir ''a''"
  have frn: "cFRN ?m = 2" "cFRN ?c = 1" by (simp_all add: exampleChange_def)
  then have nz: "cFRN ?m \<noteq> 0" "cFRN ?c \<noteq> 0" by simp_all
  have flags: "\<not> ignoredChange ?m" "\<not> hasReason ?m usnReasonFileDelete"
    by (simp_all add: ignoredChange_def exampleChange_def usnReasonRenameNew_def usnReasonRenameOld_def usnReasonFileDelete_def)
  obtain vol1 where vol1: "recordOverlayChange exampleLive ?m False exampleBase = Some vol1" "baseOk vol1" "wfOverlay vol1" "recs vol1 = recs exampleBase"
    "idForFRN vol1 = idForFRN exampleBase" "slots (overlay vol1) = [changeRecord exampleBase ?m]"
    "visible vol1 = (visible exampleBase)(2 \<mapsto> changeRecord exampleBase ?m)"
    using example_update [OF nz(1) flags] unfolding frn by blast
  have wf1: "wfSlots vol1" using vol1(3) by (simp add: wfOverlay_def)
  have newest1: "newest (slots (overlay vol1)) g = (if g = 2 then Some (changeRecord exampleBase ?m) else None)" for g
    using changeRecord_FRN(1) [of exampleBase ?m] newest_append [of "[]" "changeRecord exampleBase ?m" g] by (simp add: vol1(6) frn del: newest_append)
  have parent9: "ParentFRN (changeRecord exampleBase ?m) = 9"
    by (simp add: changeRecord_def example_ids Let_def frn) (simp add: exampleChange_def)
  have below: "hidesSubtree vol1 1 3" using example_desc(3) by (simp add: hidesSubtree_def newest1 vol1(4,5) example_ids)
  have stays: "\<not> hidesSubtree vol1 1 2" by (simp add: hidesSubtree_def newest1)
  have "\<exists>marked ov. markedDeleted ?c vol1 = Some marked \<and> marked = vol1\<lparr>overlay := ov\<rparr> \<and> wfSlots marked \<and>
      newest (slots ov) = (newest (slots (overlay vol1)))(1 \<mapsto> deletionRecord vol1 ?c)"
    by (rule markedDeleted_effect [OF vol1(2) wf1 nz(2)]) (unfold frn, blast)
  then obtain marked ov where marked: "markedDeleted ?c vol1 = Some marked" "marked = vol1\<lparr>overlay := ov\<rparr>" "wfSlots marked"
    "newest (slots ov) = (newest (slots (overlay vol1)))(1 \<mapsto> deletionRecord vol1 ?c)" by blast
  have "newest (slots ov) 9 = None" by (simp add: marked(4) newest1)
  then have "chainStep marked (byFRN (overlay marked)) 9 = Inl False"
    using wfSlots_facts(7) [OF marked(3), of 9] by (simp add: chainStep_def marked(2) vol1(5) example_ids)
  then have "\<not> deadChain marked 1 9" by (subst deadChain_step) simp
  then have alive: "\<not> victim marked 1 2" using parent9 marked(2,4) by (simp add: victim_def newest1)
  obtain vol2 where vol2: "recordDeletion exampleLive ?c vol1 = Some vol2"
    "visible vol2 = (\<lambda>g. if g = 1 \<or> hidesSubtree vol1 1 g \<or> \<not> provenFile vol1 ?c \<and> victim marked 1 g then None else visible vol1 g)"
    using recordDeletion_effect [OF vol1(2) wf1 nz(2) visitsKeys_example] marked(1) unfolding frn by auto
  have "recordOverlayChange exampleLive ?c False vol1 = Some vol2"
    using vol2(1) by (simp add: recordOverlayChange_def exampleChange_def usnReasonRenameOld_def usnReasonFileDelete_def)
  moreover have "map_option ParentFRN (visible exampleBase 3) = Some 2"
    by (simp add: example_visible example_ids) (simp add: exampleBase_def zeroRecord_def)
  ultimately show ?thesis using vol1(1,7) parent9 below alive stays unfolding vol2(2) by (auto simp: vol2(2))
qed

text \<open>What the carried sets hold.\<close>

lemma overlayBaseIDSetDelta_exact:
  assumes "setOk live" "setOk snapshot"
  shows "setOk (overlayBaseIDSetDelta live snapshot) \<and> set (ids (overlayBaseIDSetDelta live snapshot)) = set (ids live) - set (ids snapshot)"
proof -
  have "setOk (foldl (\<lambda>out i. if setContains snapshot i then out else setAdd i out) out xs) \<and>
      set (ids (foldl (\<lambda>out i. if setContains snapshot i then out else setAdd i out) out xs)) = set (ids out) \<union> (set xs - set (ids snapshot))"
    if "setOk out" "\<forall>x\<in>set xs. 0 \<le> x" for out xs
    using that
  proof (induction xs arbitrary: out)
    case (Cons x xs)
    have "setContains snapshot x \<longleftrightarrow> x \<in> set (ids snapshot)" using Cons.prems(2) assms(2) by (simp add: setOk_def)
    then show ?case using Cons setAdd_ok [OF Cons.prems(1), of x] by auto
  qed simp
  from this [of emptyIDSet "ids live"] assms(1) show ?thesis
    by (simp add: overlayBaseIDSetDelta_def setOk_def [of live]) (simp add: emptyIDSet_def)
qed

text \<open>
  The carried sets number the records of the old base, but the fold has numbered them anew. Here the record that a
  replaced one moved behind takes the number of a file that is deleted during the persist: the replacement hides the wrong
  file and shows the deleted one.
\<close>

lemma carry_hides_wrong_record:
  "\<exists>vol1 vol2 folded carried records.
    recordOverlayChange exampleLive (exampleChange 1 0 usnReasonRenameNew fileAttributeDir ''z'') False exampleBase = Some vol1 \<and>
    folded = snapshotOverlayForFold (overlay vol1) \<and> records = fRecords (compactOverlayIndexLocked id vol1 folded) \<and>
    recordOverlayChange exampleLive (exampleChange 3 2 usnReasonFileDelete 0 ''c'') False vol1 = Some vol2 \<and>
    carried = carryOverlayDelta (overlay vol2) (int (length (slots folded))) folded \<and>
    map FRN records = [2, 3, 1] \<and> visible vol2 1 \<noteq> None \<and> setContains (tombs carried) 2 \<and>
    visible vol2 3 = None \<and> \<not> setContains (tombs carried) 1 \<and> \<not> setContains (shadows carried) 1"
proof -
  let ?m = "exampleChange 1 0 usnReasonRenameNew fileAttributeDir ''z''" and ?c = "exampleChange 3 2 usnReasonFileDelete 0 ''c''"
  have frn: "cFRN ?m = 1" "cFRN ?c = 3" by (simp_all add: exampleChange_def)
  then have nz: "cFRN ?m \<noteq> 0" "cFRN ?c \<noteq> 0" by simp_all
  have flags: "\<not> ignoredChange ?m" "\<not> hasReason ?m usnReasonFileDelete"
    by (simp_all add: ignoredChange_def exampleChange_def usnReasonRenameNew_def usnReasonRenameOld_def usnReasonFileDelete_def)
  obtain vol1 where vol1: "recordOverlayChange exampleLive ?m False exampleBase = Some vol1" "baseOk vol1" "wfOverlay vol1" "recs vol1 = recs exampleBase"
    "idForFRN vol1 = idForFRN exampleBase" "slots (overlay vol1) = [changeRecord exampleBase ?m]" "tombs (overlay vol1) = emptyIDSet"
    "shadows (overlay vol1) = shadows (shadowBase exampleBase 1 newOverlaySegment)"
    "visible vol1 = (visible exampleBase)(1 \<mapsto> changeRecord exampleBase ?m)"
    using example_update [OF nz(1) flags] unfolding frn by blast
  have wf1: "wfSlots vol1" using vol1(3) by (simp add: wfOverlay_def)
  note w1 = wfSlots_facts [OF wf1]
  define folded where "folded = snapshotOverlayForFold (overlay vol1)"
  define records where "records = fRecords (compactOverlayIndexLocked id vol1 folded)"
  have shadows1: "set (ids (shadows (overlay vol1))) = {0}"
    using shadowBase_set(2) [OF baseOk_example, of newOverlaySegment 1]
    by (simp add: vol1(8) example_ids) (simp add: newOverlaySegment_def, simp add: emptyIDSet_def)
  then have hidden: "hiddenBase vol1 i \<longleftrightarrow> i = 0" for i by (simp add: hiddenBase_def vol1(7)) (simp add: emptyIDSet_def)
  have linked: "map FRN (linkParents rs) = map FRN rs" for rs by (simp add: linkParents_def Let_def split: option.splits)
  have by1: "byFRN (overlay vol1) 1 = Some 0"
    using latest_append [of "[]" "changeRecord exampleBase ?m"] by (simp add: w1(1) vol1(6) frn del: latest_append)
  have "map FRN (keptBase vol1 folded) = [2, 3]"
    unfolding folded_def set_keptBase [OF vol1(2,3)] hidden vol1(4) by (simp add: exampleBase_def zeroRecord_def upt_rec)
  moreover have "map FRN (keptSlots folded) = [1]"
    unfolding folded_def set_keptSlots [OF vol1(3)] vol1(6) by (simp add: by1 frn)
  ultimately have records: "map FRN records = [2, 3, 1]"
    unfolding records_def compactOverlayIndexLocked_def Let_def by (simp add: linked)
  have root: "0 \<le> (2::int)" "2 < baseCount (vol1\<lparr>overlay := appendSlot (deletionRecord vol1 ?c) (overlay vol1)\<rparr>)"
    "baseOk (vol1\<lparr>overlay := appendSlot (deletionRecord vol1 ?c) (overlay vol1)\<rparr>)"
    "setOk (tombs (overlay (vol1\<lparr>overlay := appendSlot (deletionRecord vol1 ?c) (overlay vol1)\<rparr>)))"
    using vol1(2) w1(2) by (simp_all add: vol1(4)) (simp_all add: exampleBase_def)
  obtain t where t: "markedDeleted ?c vol1 = Some (vol1\<lparr>overlay := (appendSlot (deletionRecord vol1 ?c) (overlay vol1))\<lparr>tombs := t\<rparr>\<rparr>)"
    "setOk t" "set (ids t) = {2}"
    using tombstone_exact [OF root(3,1,2,4)] example_desc(1)
    by (auto simp: markedDeleted_def frn vol1(4,5,7) example_ids Let_def emptyIDSet_def)
  have proven: "provenFile vol1 ?c"
  proof -
    have "currentSlot vol1 3 = None"
      using w1(7) [of 3] changeRecord_FRN(1) [of exampleBase ?m] newest_append [of "[]" "changeRecord exampleBase ?m" 3]
      by (simp add: vol1(6) frn del: newest_append)
    then show ?thesis
      by (simp add: provenFile_def frn vol1(4,5) example_ids Let_def) (simp add: exampleBase_def recordAt_def zeroRecord_def isDirMode_def modeDir_def)
  qed
  obtain d where run: "recordDeletion exampleLive ?c vol1 =
      Some ((raiseWatermark (vol1\<lparr>overlay := (appendSlot (deletionRecord vol1 ?c) (overlay vol1))\<lparr>tombs := t\<rparr>\<rparr>))\<lparr>sizeDelta := d\<rparr>)"
    using recordDeletion_frame [OF t(1), of exampleLive] proven by auto
  define vol2 where "vol2 = (raiseWatermark (vol1\<lparr>overlay := (appendSlot (deletionRecord vol1 ?c) (overlay vol1))\<lparr>tombs := t\<rparr>\<rparr>))\<lparr>sizeDelta := d\<rparr>"
  have ov2: "slots (overlay vol2) = [changeRecord exampleBase ?m, deletionRecord vol1 ?c]" "tombs (overlay vol2) = t"
    "shadows (overlay vol2) = shadows (overlay vol1)" "watermark (overlay vol2) = 2"
    by (simp_all add: vol2_def vol1(6)) (simp add: raiseWatermark_def vol1(6))
  have folded: "slots folded = [changeRecord exampleBase ?m]" "tombs folded = emptyIDSet" "shadows folded = shadows (overlay vol1)"
    using snapshot_same [OF vol1(3)] by (simp_all add: folded_def vol1(6,7))
  define carried where "carried = carryOverlayDelta (overlay vol2) (int (length (slots folded))) folded"
  have carried: "tombs carried = overlayBaseIDSetDelta t emptyIDSet"
    "shadows carried = overlayBaseIDSetDelta (shadows (overlay vol1)) (shadows (overlay vol1))"
    by (simp_all add: carried_def carryOverlayDelta_def ov2 folded Let_def newOverlaySegment_def)
  have sets: "setOk (tombs carried)" "set (ids (tombs carried)) = {2}" "setOk (shadows carried)" "set (ids (shadows carried)) = {}"
    using overlayBaseIDSetDelta_exact [OF t(2) setOk_empty] overlayBaseIDSetDelta_exact [OF w1(3) w1(3)] t(3)
    unfolding carried by (simp_all add: emptyIDSet_def)
  have "visible vol2 = (\<lambda>g. if g = 3 \<or> hidesSubtree vol1 3 g then None else visible vol1 g)"
    using recordDeletion_effect [OF vol1(2) wf1 nz(2) visitsKeys_example] proven run unfolding frn vol2_def by auto
  moreover have "\<not> hidesSubtree vol1 3 1" using example_desc(1) by (simp add: hidesSubtree_def vol1(4,5) example_ids)
  ultimately have shown: "visible vol2 1 \<noteq> None" "visible vol2 3 = None" using vol1(9) by simp_all
  have run2: "recordOverlayChange exampleLive ?c False vol1 = Some vol2"
    using run by (simp add: vol2_def recordOverlayChange_def exampleChange_def usnReasonRenameOld_def usnReasonFileDelete_def)
  have members: "setContains (tombs carried) 2" "\<not> setContains (tombs carried) 1" "\<not> setContains (shadows carried) 1"
    using sets by (simp_all add: setOk_def)
  show ?thesis
    by (intro exI conjI) (rule vol1(1) folded_def records_def run2 carried_def records shown members)+
qed

end
