(* ===== verification/Spec2Isabelle.thy ===== *)
theory Spec2Isabelle
  imports RegexLiterals Fuzzy Trigrams IterCombinators RecordStore WAL PostingCache SearchExact OverlayExact
begin

text \<open>
  This development verifies the core of \<open>seekfs\<close>, a file-name search engine for Windows volumes
  (\<open>src/cmd/seekfs\<close>, Go). The program reads the master file table of a volume, keeps one compact record per
  file, builds name-gram and tree indexes over the records, follows the USN change journal with a write-ahead
  log, and answers queries by combining posting lists and iterators over record identifiers.

  \<^bold>\<open>Parts and theories.\<close>

  \<^item> \<open>Prelude\<close>: Go's integer widths as words, strings as byte lists, ASCII folding, \<open>sort.Search\<close> and bitsets, with
    the lemmas the components share. \<open>ByteOrder\<close>: little-endian integers and strings as bytes. \<open>GoStrings\<close>: the functions of
    \<open>strings\<close> and \<open>strconv\<close> the parser uses. \<open>GoSort\<close>: \<open>sort.Slice\<close> and the binary heap of \<open>container/heap\<close>; the locale
    \<open>keyed\<close> (a comparison compares keys) carries sorting, the heap invariant and the selection of the best elements.
  \<^item> \<open>RegexLiterals\<close> (\<open>regex_required_literals.go\<close>): the regular-expression parser, its expansion to disjunctive
    normal form and the literal runs that pre-filter candidates. A declarative match relation gives the syntax its
    meaning; every match contains all runs of one returned alternative (C38), the output is bounded
    (\<open>regexRequiredLiteralAlternatives_shape\<close>), and the parser, written with fuel for its mutual recursion, never runs out of it (C40).
  \<^item> \<open>Fuzzy\<close> (\<open>fuzzy.go\<close>, lines 1 to 217): the banded two-row edit distance equals the optimal string alignment
    distance up to its bound (C39), the deletion variants are exactly those within the depth
    (\<open>fuzzyDeletionVariants_exact\<close>) and do not cover substitutions, and the name window returns the least distance, its first position and the
    prefix flag (\<open>fuzzyNameDistance_correct\<close>).
  \<^item> \<open>Records\<close> (\<open>types.go\<close>): the compact record.
  \<^item> \<open>Postings\<close> (\<open>postings.go\<close>, \<open>candidate_source.go\<close>, \<open>candidate_extpath.go\<close>): sorted-list kernels and component
    coverage. Interval merging and subtraction compute union and difference (\<open>coverage_interval_algebra\<close>), the live count is exact
    (C37), and the membership bitmap answers as the searches do.
  \<^item> \<open>GramCodec\<close> (\<open>trigram_index.go\<close>): gram keys and the delta-varint posting codec (\<open>decodeDelta_encodeDelta\<close>).
  \<^item> \<open>Trigrams\<close> (\<open>trigram_index.go\<close>): building and looking up the name-gram index, full, selective and with its
    companion; lookups are exact or, where the code filters later, supersets (C4, C20,
    C21), and the low-memory layout refines the maps (\<open>compactForLowMemory_equivalent\<close>).
  \<^item> \<open>PostingSection\<close> (\<open>index_format.go\<close>, \<open>index_mmap.go\<close>, \<open>postings.go\<close>): the gram postings as a section of an index file.
    Looking a gram up in the written bytes returns the posting of the index, and the binary search over block bounds decides
    membership (C7).
  \<^item> \<open>PostingCache\<close> (\<open>index_mmap.go\<close>): the cache of decoded blocks. The locale \<open>block_cache\<close> is its contract; cached reads return what
    uncached ones do (C19), as long as no section is mapped where another one was.
  \<^item> \<open>Iterators\<close> and \<open>IterCombinators\<close> (\<open>global_rank.go\<close>, \<open>global_iterators.go\<close>, \<open>global_planner_entries.go\<close>): iterators
    over record identifiers. The locales \<open>next_iterator\<close> and \<open>seek_iterator\<close> state what \<open>Next\<close> and \<open>SeekGE\<close> promise
    about the identifiers still to come; the loops of intersection, union, exclusion and collection are proved
    against them once (C11), and the leaf, merge, filter and lazy set iterators are interpretations
    (C35, C36). A nested lazy intersection does not keep the contract.
  \<^item> \<open>Subtree\<close> (\<open>service_state.go\<close>, \<open>index_format.go\<close>, \<open>planner_under.go\<close>): child arrays (C32), subtree
    intervals by depth-first walk (C12), parent climbs (\<open>parent_climb_exact\<close>), and aggregates over subtrees, for which
    the locale \<open>subtree_aggregate\<close> covers bytes and ranks (C33).
  \<^item> \<open>Packed\<close> (\<open>packed_records.go\<close>, \<open>newPackedRecords\<close>): the packed record store. Side arrays refine finite maps,
    each writer has a frame, and the store refines the list of its records: packing and reading back
    (C34), \<open>Set\<close> and \<open>Append\<close> (C8), and repacking; \<open>packedSet_changes_other_record\<close> and
    \<open>packed_lower_name_cut\<close> are two ways in which it does not. The locale \<open>record_store\<close> is the contract its users rely on.
  \<^item> \<open>RecordStore\<close> (\<open>search_compact.go\<close>, \<open>packed_records.go\<close>): the records of an index behind one interface, an
    interpretation of \<open>record_store\<close>; deleting a subtree ends and marks exactly its live records (C26), and packing
    an index keeps its records.
  \<^item> \<open>WAL\<close> (\<open>service_state.go\<close>): the write-ahead log. The batch codec is exact in both directions (C23); replay
    yields the batches past the checkpoint (C22); torn tails and damaged bytes cost only what follows (C24,
    C25); compaction keeps what was readable (\<open>wal_compaction_keeps_frames\<close>); a torn header can hide later frames. The locale
    \<open>frame_loop\<close> carries both readers.
  \<^item> \<open>QueryParse\<close> and \<open>QueryTokens\<close> (\<open>query_parse.go\<close>, \<open>parseQuery\<close> of \<open>postings.go\<close>): the query parser. A parsed query is well formed
    (C27), an unsupported filter is an error (C29), and sizes wrap at 64 bits (\<open>parseByteSize_wraps\<close>).
  \<^item> \<open>QueryMatch\<close> (\<open>query_parse.go\<close>): matching an entry. A token adds its own condition to the query (C5), negations are
    complements and groups unions (C6).
  \<^item> \<open>Paths\<close> (\<open>query_parse.go\<close>): full paths of records through the path cache (C18) and the lower-case paths of the path
    order; for an index rooted at a directory that is also a record, a path depends on what was looked up before
    (\<open>path_depends_on_cache\<close>).
  \<^item> \<open>SortOrders\<close> (\<open>service_state.go\<close>): the sort orders and rank tables (C13), with the order by path, whose comparison
    computes the paths it needs (C14).
  \<^item> \<open>TopRank\<close> (\<open>service_state.go\<close>, \<open>planner_rank.go\<close>): the best records by rank with heaps, in parallel and by sorting
    (C15, \<open>ext_top_exact\<close>).
  \<^item> \<open>Search\<close> and \<open>SearchExact\<close> (\<open>search_compact.go\<close>, \<open>query_parse.go\<close>): a search of one index. It parses the query, refuses filters on
    data the index lacks (C17), scans the order of a column or a list of candidates with two prechecks and a path cache,
    in parallel when there are many candidates (C16), and returns exactly the matching records in that order up to the
    limit (C1). A cancelled scan reports it (C28).
  \<^item> \<open>Overlay\<close>, \<open>OverlayFacts\<close> and \<open>OverlayExact\<close> (\<open>service_replay.go\<close>, \<open>service_runtime.go\<close>, \<open>search_overlay.go\<close>): the changes that
    are not in the index file yet. Every change has the effect on the visible files that it names (C9,
    C3), also on what hangs below a deleted directory (C30); batches keep the invariant, and readers of a
    published snapshot see what the writer sees (C10); a fold keeps exactly the visible files (C2); the path of a slot
    is found exactly when its chain of parents ends (C31). \<open>moved_directory_loses_contents\<close>,
    \<open>carry_hides_wrong_record\<close> and \<open>overlay_path_cycle\<close> are three ways in which it fails.

  \<^bold>\<open>How the model reads the code.\<close> Structures are records with the code's field names where those are free, slices are
  lists, nil is \<open>None\<close> or \<open>[]\<close> as the code distinguishes them, and maps are functions to \<open>option\<close> or association
  lists. Widths are kept where arithmetic could wrap: record numbers are 32-bit words, reference numbers and byte
  counts 64-bit words, name lengths 16-bit words. Theorems therefore carry the bounds under which nothing wraps (fewer
  than $2^{32}$ records, names and blobs that fit their offsets) as hypotheses. Errors are values of sum or option
  types.

  \<^bold>\<open>Loops.\<close> Structural loops are \<open>fun\<close>; loops over shrinking input are \<open>function\<close> with a measure; loops whose end
  depends on another component (\<open>intersectGlobalLoop\<close> and its kin, \<open>markLoop\<close>) are \<open>partial_function (option)\<close>, where
  \<open>None\<close> is a loop that never returns, and the theorems say that they return. The regular-expression parser uses fuel,
  five units for each byte of the pattern and five more, which C40 proves enough. The climbs to the root of a path have the
  code's own bound of 1024 steps.

  \<^bold>\<open>Parameters.\<close> \<open>strings.ToLower\<close> beyond ASCII is a function argument of the packed store and the orders, and the JSON decoder of
  legacy logs an argument of replay. The query parser and the matcher take a record \<open>goEnv\<close> of functions for what depends on the operating
  system or on large packages: lower-casing and case folding, regular expressions and globs, \<open>path/filepath\<close>, \<open>os.Stat\<close>, the
  clock and the parsers of times and durations. \<open>crc32.ChecksumIEEE\<close>, \<open>binary.PutUvarint\<close>, \<open>binary.Uvarint\<close>,
  \<open>sort.Search\<close>, \<open>sort.Slice\<close>, \<open>container/heap\<close>, \<open>container/list\<close> and the little-endian accessors are modelled.

  \<^bold>\<open>Not modelled.\<close> Command line, user interface, configuration, benchmarks and the remote and pipe servers (input and
  output); reading the master file table and the change journal (Windows system calls); goroutines and locks (what they
  compute is modelled in the order the code combines it); the header, section table and string postings of index files; the
  planners that choose among the modelled operations; merging the overlay into search results; recovery and timers of the service.
\<close>

end
